(* ===== verification/SL_Prelude.thy ===== *)
theory SL_Prelude
  imports Main "HOL-Library.Word" "HOL-Library.AList" "HOL-Library.List_Lexorder"
begin

text \<open>
  Shared vocabulary of the development: the machine types of the Go sources, Go's
  three ways of leaving a function (a value, an error value, a run-time panic), Go
  maps as association lists, and big-endian integer encoding as done by
  \<^verbatim>\<open>encoding/binary\<close>.  The lemmas collected here carry the component proofs.

  \<^item> \<open>uint8\<close>, \<open>uint32\<close>, \<open>uint64\<close> are words of that width, so \<open>+\<close>, \<open>-\<close>, \<open>*\<close>
    wrap exactly as in Go; Go's \<open>int\<close> is \<open>int\<close> (all lengths and indices of the
    program are far below \<open>2^63\<close>), with the conversion \<open>int(x)\<close> of a \<open>uint64\<close>
    written as \<open>sint x\<close>.
  \<^item> \<open>string\<close> values that are only compared, hashed and concatenated (addresses,
    node ids) are byte lists; the order on them is Go's bytewise lexicographic one.
  \<^item> a Go map is an association list with distinct keys.  The order of the list is
    the order in which a \<open>range\<close> loop visits the entries; Go leaves it open, so
    whatever is computed by such a loop is shown not to depend on it.
\<close>

section \<open>Machine types\<close>

type_synonym byte = "8 word"
type_synonym bytes = "byte list"
type_synonym u8 = "8 word"
type_synonym u32 = "32 word"
type_synonym u64 = "64 word"
type_synonym address = bytes
type_synonym hash = bytes

named_theorems word_nat \<open>facts that move word arithmetic without wrap-around to nat\<close>
named_theorems gomap_simps \<open>facts about Go maps as association lists\<close>

section \<open>Leaving a Go function\<close>

text \<open>
  \<open>Ok v\<close>: a return with a nil error; \<open>Err e\<close>: a return with error \<open>e\<close>;
  \<open>Panic\<close>: a run-time panic (index out of range), which no code of the program
  recovers from.
\<close>

datatype ('e, 'a) result = Ok 'a | Err 'e | Panic

fun rbind :: "('e, 'a) result \<Rightarrow> ('a \<Rightarrow> ('e, 'b) result) \<Rightarrow> ('e, 'b) result" where
  "rbind (Ok v) f = f v"
| "rbind (Err e) f = Err e"
| "rbind Panic f = Panic"

lemma rbind_eq_Ok_iff [simp]: "rbind r f = Ok v \<longleftrightarrow> (\<exists>x. r = Ok x \<and> f x = Ok v)"
  by (cases r) auto

lemma rbind_eq_Err_iff: "rbind r f = Err e \<longleftrightarrow> r = Err e \<or> (\<exists>x. r = Ok x \<and> f x = Err e)"
  by (cases r) auto

lemma rbind_eq_Panic_iff: "rbind r f = Panic \<longleftrightarrow> r = Panic \<or> (\<exists>x. r = Ok x \<and> f x = Panic)"
  by (cases r) auto

lemma rbind_assoc: "rbind (rbind r f) g = rbind r (\<lambda>x. rbind (f x) g)"
  by (cases r) auto

lemma rbind_cong [fundef_cong]:
  "r = r' \<Longrightarrow> (\<And>x. r' = Ok x \<Longrightarrow> f x = g x) \<Longrightarrow> rbind r f = rbind r' g"
  by (cases r') auto

section \<open>Word arithmetic without wrap-around\<close>

lemma unat_add_no_wrap [word_nat]:
  "unat (a :: 'a::len word) + unat b < 2 ^ LENGTH('a) \<Longrightarrow> unat (a + b) = unat a + unat b"
  by (simp add: unat_word_ariths)

lemma unat_sub_no_wrap [word_nat]:
  "b \<le> a \<Longrightarrow> unat (a - b :: 'a::len word) = unat a - unat b"
  by (simp add: unat_sub)

lemma unat_inc_no_wrap [word_nat]:
  "unat (a :: 'a::len word) + 1 < 2 ^ LENGTH('a) \<Longrightarrow> unat (a + 1) = unat a + 1"
  using unat_add_no_wrap [of a 1] by simp

text \<open>The overflow test of the sources, \<^verbatim>\<open>total := a + b; total < a\<close>, is exact.\<close>

lemma sint_negative_iff: "sint (w :: u64) < 0 \<longleftrightarrow> 2 ^ 63 \<le> unat w"
proof -
  have "sint w < 0 \<longleftrightarrow> bit (uint w) 63"
    by (simp add: sint_uint)
  also have "\<dots> \<longleftrightarrow> odd (uint w div 2 ^ 63)"
    by (simp add: bit_iff_odd)
  also have "\<dots> \<longleftrightarrow> 2 ^ 63 \<le> uint w"
  proof -
    have u: "0 \<le> uint w" "uint w < 2 ^ 64"
      using unsigned_less [of w, where ?'a = int] by simp_all
    then have "uint w div 2 ^ 63 = (if 2 ^ 63 \<le> uint w then 1 else 0)"
      by simp linarith
    then show ?thesis by simp
  qed
  also have "\<dots> \<longleftrightarrow> 2 ^ 63 \<le> unat w"
    using of_nat_le_iff [of "2 ^ 63" "unat w", where ?'a = int] by simp
  finally show ?thesis .
qed

lemma add_less_iff_wrap:
  "(a :: 'a::len word) + b < a \<longleftrightarrow> 2 ^ LENGTH('a) \<le> unat a + unat b"
proof (cases "unat a + unat b < 2 ^ LENGTH('a)")
  case True
  then have "unat (a + b) = unat a + unat b" by (rule unat_add_no_wrap)
  with True show ?thesis by (simp add: word_less_nat_alt)
next
  case False
  have "unat a < 2 ^ LENGTH('a)" "unat b < 2 ^ LENGTH('a)" by simp_all
  then have "unat a + unat b - 2 ^ LENGTH('a) < 2 ^ LENGTH('a)" by linarith
  with False have "(unat a + unat b) mod 2 ^ LENGTH('a) = unat a + unat b - 2 ^ LENGTH('a)"
    by (simp add: le_mod_geq)
  moreover have "unat a + unat b - 2 ^ LENGTH('a) < unat a"
    using False \<open>unat b < 2 ^ LENGTH('a)\<close> by linarith
  ultimately show ?thesis
    using False by (simp add: word_less_nat_alt unat_word_ariths)
qed

lemma add_ge_iff_no_wrap:
  "(a :: 'a::len word) \<le> a + b \<longleftrightarrow> unat a + unat b < 2 ^ LENGTH('a)"
  using add_less_iff_wrap [of a b] by (simp add: not_less [symmetric])

lemma unat_of_nat_small [word_nat]: "n < 2 ^ LENGTH('a) \<Longrightarrow> unat (of_nat n :: 'a::len word) = n"
  by (simp add: unsigned_of_nat take_bit_nat_eq_self)

lemma sint_of_int_small [word_nat]:
  "- (2 ^ 63) \<le> i \<Longrightarrow> i < 2 ^ 63 \<Longrightarrow> sint (word_of_int i :: u64) = i"
  by (simp add: signed_of_int signed_take_bit_int_eq_self)

section \<open>Big-endian integers\<close>

text \<open>
  \<open>be_put n v\<close>: the \<open>n\<close> low bytes of \<open>v\<close>, most significant first
  (\<^verbatim>\<open>binary.BigEndian.PutUint64\<close> for \<open>n = 8\<close>, \<^verbatim>\<open>PutUint32\<close> for \<open>n = 4\<close>);
  \<open>be_get\<close>: the loop \<^verbatim>\<open>v = v<<8 | b\<close> over the bytes
  (\<^verbatim>\<open>binary.BigEndian.Uint64\<close> on eight bytes, \<^verbatim>\<open>Uint32\<close> on four).
\<close>

primrec be_put :: "nat \<Rightarrow> 'a::len word \<Rightarrow> bytes" where
  "be_put 0 v = []"
| "be_put (Suc n) v = ucast (drop_bit (8 * n) v) # be_put n v"

definition be_get :: "bytes \<Rightarrow> 'a::len word" where
  "be_get bs = foldl (\<lambda>v b. or (push_bit 8 v) (ucast b)) 0 bs"

abbreviation put_u64 :: "u64 \<Rightarrow> bytes" where
  "put_u64 v \<equiv> be_put 8 v"

abbreviation put_u32 :: "u32 \<Rightarrow> bytes" where
  "put_u32 v \<equiv> be_put 4 v"

lemma length_be_put [simp]: "length (be_put n v) = n"
  by (induction n) auto

lemma be_put_eq_Nil_iff [simp]: "be_put n v = [] \<longleftrightarrow> n = 0" "[] = be_put n v \<longleftrightarrow> n = 0"
  by (cases n; simp)+

lemma be_put_8:
  "be_put 8 v = [ucast (drop_bit 56 v), ucast (drop_bit 48 v), ucast (drop_bit 40 v),
     ucast (drop_bit 32 v), ucast (drop_bit 24 v), ucast (drop_bit 16 v),
     ucast (drop_bit 8 v), ucast v]"
proof -
  have "be_put 8 v = be_put (Suc (Suc (Suc (Suc (Suc (Suc (Suc (Suc 0)))))))) v"
    by (rule arg_cong [where f = "\<lambda>n. be_put n v"]) simp
  then show ?thesis by simp
qed

lemma be_put_4:
  "be_put 4 v = [ucast (drop_bit 24 v), ucast (drop_bit 16 v), ucast (drop_bit 8 v), ucast v]"
proof -
  have "be_put 4 v = be_put (Suc (Suc (Suc (Suc 0)))) v"
    by (rule arg_cong [where f = "\<lambda>n. be_put n v"]) simp
  then show ?thesis by simp
qed

lemma foldl_be:
  "foldl (\<lambda>v b. or (push_bit 8 v) (ucast b)) (a :: 'a::len word) bs
     = or (push_bit (8 * length bs) a) (be_get bs)"
proof (induction bs arbitrary: a)
  case Nil
  then show ?case by (simp add: be_get_def)
next
  case (Cons b bs)
  show ?case
    unfolding be_get_def
    by (simp add: Cons.IH [of "or (push_bit 8 a) (ucast b)"] Cons.IH [of "ucast b"]
        be_get_def or.assoc add.commute)
qed

lemma be_get_Nil [simp]: "be_get [] = 0"
  by (simp add: be_get_def)

lemma be_get_Cons:
  "be_get (b # bs) = or (push_bit (8 * length bs) (ucast b)) (be_get bs :: 'a::len word)"
  using foldl_be [of "ucast b" bs] by (simp add: be_get_def)

lemma be_get_put_take: "be_get (be_put n v) = take_bit (8 * n) (v :: 'a::len word)"
proof (induction n)
  case 0
  then show ?case by simp
next
  case (Suc n)
  show ?case
  proof (rule bit_word_eqI)
    fix k assume "k < LENGTH('a)"
    then show "bit (be_get (be_put (Suc n) v) :: 'a word) k = bit (take_bit (8 * Suc n) v) k"
      by (auto simp: be_get_Cons Suc bit_simps)
  qed
qed

lemma be_get_put_u64 [simp]: "be_get (put_u64 v) = (v :: u64)"
  using be_get_put_take [of 8 v] take_bit_length_eq [of v] by simp

lemma be_get_put_u32 [simp]: "be_get (put_u32 v) = (v :: u32)"
  using be_get_put_take [of 4 v] take_bit_length_eq [of v] by simp

lemma put_u64_inject [simp]: "put_u64 v = put_u64 w \<longleftrightarrow> v = w"
  by (metis be_get_put_u64)

lemma put_u32_inject [simp]: "put_u32 v = put_u32 w \<longleftrightarrow> v = w"
  by (metis be_get_put_u32)

lemma take_bit_be_get: "take_bit (8 * length bs) (be_get bs :: 'a::len word) = be_get bs"
proof (induction bs)
  case Nil
  then show ?case by simp
next
  case (Cons b bs)
  have "bit (be_get bs :: 'a word) k \<Longrightarrow> k < 8 * length bs" for k
    by (metis Cons bit_take_bit_iff)
  moreover have "bit b k \<Longrightarrow> k < 8" for k
    using bit_imp_le_length [of b k] by simp
  ultimately show ?case
    by (intro bit_word_eqI) (fastforce simp: be_get_Cons bit_simps)
qed

lemma be_put_take: "be_put n (take_bit (8 * n) v) = be_put n v"
proof -
  have "m \<le> n \<Longrightarrow> be_put m (take_bit (8 * n) v) = be_put m v" for m
  proof (induction m)
    case 0
    then show ?case by simp
  next
    case (Suc m)
    have "(ucast (drop_bit (8 * m) (take_bit (8 * n) v)) :: byte) = ucast (drop_bit (8 * m) v)"
      using Suc.prems by (intro bit_word_eqI) (auto simp: bit_simps)
    with Suc show ?case by simp
  qed
  then show ?thesis by simp
qed

lemma be_put_get:
  "length bs = n \<Longrightarrow> 8 * n \<le> LENGTH('a) \<Longrightarrow> be_put n (be_get bs :: 'a::len word) = bs"
proof (induction bs arbitrary: n)
  case Nil
  then show ?case by simp
next
  case (Cons b bs)
  define m where "m = length bs"
  have n: "n = Suc m" using Cons.prems m_def by simp
  have hi: "bit (be_get bs :: 'a word) k \<Longrightarrow> k < 8 * m" for k
    by (metis take_bit_be_get bit_take_bit_iff m_def)
  have top: "ucast (drop_bit (8 * m) (be_get (b # bs) :: 'a word)) = b"
    using Cons.prems n hi
    by (intro bit_word_eqI) (fastforce simp: be_get_Cons bit_simps m_def)
  have "take_bit (8 * m) (be_get (b # bs) :: 'a word) = be_get bs"
    using hi by (intro bit_word_eqI) (fastforce simp: be_get_Cons bit_simps m_def)
  then have "be_put m (be_get (b # bs) :: 'a word) = be_put m (be_get bs :: 'a word)"
    by (metis be_put_take)
  then show ?case using Cons n top by (simp add: m_def)
qed

section \<open>Go maps\<close>

text \<open>
  \<open>m[k]\<close> with the \<open>ok\<close> result is \<open>map_of m k\<close>, assignment is \<open>AList.update\<close>,
  \<open>delete\<close> is \<open>AList.delete\<close>.  \<open>gomap\<close> is the representation invariant.
\<close>

type_synonym ('k, 'v) gomap = "('k \<times> 'v) list"

definition gomap :: "('k, 'v) gomap \<Rightarrow> bool" where
  "gomap m \<longleftrightarrow> distinct (map fst m)"

lemma gomap_Nil [simp]: "gomap []"
  by (simp add: gomap_def)

lemma gomap_update [gomap_simps, simp]: "gomap m \<Longrightarrow> gomap (AList.update k v m)"
  by (simp add: gomap_def distinct_update)

lemma gomap_delete [gomap_simps, simp]: "gomap m \<Longrightarrow> gomap (AList.delete k m)"
  by (simp add: gomap_def distinct_delete)

lemma map_of_update [gomap_simps, simp]:
  "map_of (AList.update k v m) = (map_of m)(k \<mapsto> v)"
  by (rule update_conv')

lemma map_of_delete [gomap_simps, simp]:
  "map_of (AList.delete k m) = (map_of m)(k := None)"
  by (rule delete_conv')

section \<open>Sums over Go maps\<close>

definition map_sum :: "('v \<Rightarrow> nat) \<Rightarrow> ('k, 'v) gomap \<Rightarrow> nat" where
  "map_sum f m = (\<Sum>p\<leftarrow>m. f (snd p))"

lemma map_sum_Nil [simp]: "map_sum f [] = 0"
  by (simp add: map_sum_def)

lemma map_sum_Cons [simp]: "map_sum f (p # m) = f (snd p) + map_sum f m"
  by (simp add: map_sum_def)

lemma map_sum_update:
  "gomap m \<Longrightarrow> map_sum f (AList.update k v m) + (case map_of m k of Some w \<Rightarrow> f w | None \<Rightarrow> 0) = map_sum f m + f v"
  by (induction m) (auto simp: gomap_def map_of_eq_None_iff split: option.splits)

lemma map_sum_delete:
  "gomap m \<Longrightarrow> map_sum f (AList.delete k m) + (case map_of m k of Some w \<Rightarrow> f w | None \<Rightarrow> 0) = map_sum f m"
proof (induction m)
  case (Cons p m)
  have del: "AList.delete k m = m" if "k = fst p"
    using Cons.prems that AList.delete_idem [of k m] by (simp add: gomap_def)
  from Cons show ?case by (cases p) (auto simp: gomap_def del split: option.splits)
qed simp

lemma map_sum_ge: "map_of m k = Some v \<Longrightarrow> f v \<le> map_sum f m"
  by (induction m) (auto split: if_splits)

text \<open>String literals of the sources.\<close>

definition ascii :: "string \<Rightarrow> bytes" where
  "ascii s = map of_char s"

end
