(* ===== verification/SL_Sha256.thy ===== *)
theory SL_Sha256
  imports SL_Prelude
begin

text \<open>
  The hash function the program uses everywhere, \<^verbatim>\<open>crypto/sha256\<close> of Go's standard
  library, as specified in FIPS 180-4, and the contract the components rely on.

  Every definition of the development that hashes takes the hash function as an
  argument \<open>H\<close>, so its theorems hold for whatever function is plugged in; the only
  law they use of SHA-256 itself is that a digest has 32 bytes (locale \<open>digest\<close>),
  which is discharged here for SHA-256.  Collision resistance is never a law of \<open>H\<close>
  (no function with 32-byte digests is injective): where a property rests on it, the
  absence of the particular collision is a hypothesis of that property.
\<close>

section \<open>SHA-256\<close>

definition sha_K :: "u32 list" where
  "sha_K = [1116352408, 1899447441, 3049323471, 3921009573, 961987163, 1508970993,
    2453635748, 2870763221, 3624381080, 310598401, 607225278, 1426881987,
    1925078388, 2162078206, 2614888103, 3248222580, 3835390401, 4022224774,
    264347078, 604807628, 770255983, 1249150122, 1555081692, 1996064986,
    2554220882, 2821834349, 2952996808, 3210313671, 3336571891, 3584528711,
    113926993, 338241895, 666307205, 773529912, 1294757372, 1396182291,
    1695183700, 1986661051, 2177026350, 2456956037, 2730485921, 2820302411,
    3259730800, 3345764771, 3516065817, 3600352804, 4094571909, 275423344,
    430227734, 506948616, 659060556, 883997877, 958139571, 1322822218,
    1537002063, 1747873779, 1955562222, 2024104815, 2227730452, 2361852424,
    2428436474, 2756734187, 3204031479, 3329325298]"

type_synonym sha_regs = "u32 \<times> u32 \<times> u32 \<times> u32 \<times> u32 \<times> u32 \<times> u32 \<times> u32"

definition sha_init :: sha_regs where
  "sha_init = (1779033703, 3144134277, 1013904242, 2773480762,
     1359893119, 2600822924, 528734635, 1541459225)"

definition rotr32 :: "nat \<Rightarrow> u32 \<Rightarrow> u32" where
  "rotr32 n x = or (drop_bit n x) (push_bit (32 - n) x)"

definition sha_s0 :: "u32 \<Rightarrow> u32" where
  "sha_s0 x = xor (rotr32 7 x) (xor (rotr32 18 x) (drop_bit 3 x))"

definition sha_s1 :: "u32 \<Rightarrow> u32" where
  "sha_s1 x = xor (rotr32 17 x) (xor (rotr32 19 x) (drop_bit 10 x))"

definition sha_S0 :: "u32 \<Rightarrow> u32" where
  "sha_S0 x = xor (rotr32 2 x) (xor (rotr32 13 x) (rotr32 22 x))"

definition sha_S1 :: "u32 \<Rightarrow> u32" where
  "sha_S1 x = xor (rotr32 6 x) (xor (rotr32 11 x) (rotr32 25 x))"

text \<open>One round on the eight working registers with round constant plus schedule word.\<close>

fun sha_round :: "sha_regs \<Rightarrow> u32 \<times> u32 \<Rightarrow> sha_regs" where
  "sha_round (a, b, c, d, e, f, g, h) (k, w) =
     (let t1 = h + sha_S1 e + xor (and e f) (and (not e) g) + k + w;
          t2 = sha_S0 a + xor (and a b) (xor (and a c) (and b c))
      in (t1 + t2, a, b, c, d + t1, e, f, g))"

text \<open>The message schedule: a window of the last sixteen words, newest last.\<close>

primrec sha_schedule :: "nat \<Rightarrow> u32 list \<Rightarrow> u32 list" where
  "sha_schedule 0 win = win"
| "sha_schedule (Suc n) win =
     (let w = sha_s1 (win ! 14) + win ! 9 + sha_s0 (win ! 1) + win ! 0
      in win ! 0 # sha_schedule n (drop 1 win @ [w]))"

fun sha_words :: "bytes \<Rightarrow> u32 list" where
  "sha_words (a # b # c # d # rest) = be_get [a, b, c, d] # sha_words rest"
| "sha_words _ = []"

fun sha_add :: "sha_regs \<Rightarrow> sha_regs \<Rightarrow> sha_regs" where
  "sha_add (a, b, c, d, e, f, g, h) (a', b', c', d', e', f', g', h') =
     (a + a', b + b', c + c', d + d', e + e', f + f', g + g', h + h')"

definition sha_block :: "sha_regs \<Rightarrow> bytes \<Rightarrow> sha_regs" where
  "sha_block r blk =
     sha_add r (foldl sha_round r (zip sha_K (sha_schedule 48 (sha_words blk))))"

definition sha_pad :: "bytes \<Rightarrow> bytes" where
  "sha_pad m = m @ 0x80 # replicate ((119 - length m mod 64) mod 64) 0
     @ put_u64 (8 * of_nat (length m))"

function sha_blocks :: "sha_regs \<Rightarrow> bytes \<Rightarrow> sha_regs" where
  "sha_blocks r bs = (if length bs < 64 then r else sha_blocks (sha_block r (take 64 bs)) (drop 64 bs))"
  by pat_completeness auto
termination
  by (relation "measure (\<lambda>(r, bs). length bs)") auto

declare sha_blocks.simps [simp del]

fun sha_digest :: "sha_regs \<Rightarrow> bytes" where
  "sha_digest (a, b, c, d, e, f, g, h) =
     put_u32 a @ put_u32 b @ put_u32 c @ put_u32 d @ put_u32 e @ put_u32 f @ put_u32 g @ put_u32 h"

definition sha256 :: "bytes \<Rightarrow> hash" where
  "sha256 m = sha_digest (sha_blocks sha_init (sha_pad m))"

lemma length_sha256: "length (sha256 m) = 32"
  by (cases "sha_blocks sha_init (sha_pad m)" rule: sha_digest.cases) (simp add: sha256_def)

text \<open>The padded message is a whole number of 64-byte blocks, so no input byte is dropped.\<close>

lemma sha_pad_blocks: "length (sha_pad m) mod 64 = 0"
proof -
  define r where "r = length m mod 64"
  have "length (sha_pad m) = length m + (9 + (119 - r) mod 64)"
    by (simp add: sha_pad_def r_def)
  then have "length (sha_pad m) mod 64 = (r + (9 + (119 - r) mod 64)) mod 64"
    unfolding r_def by (simp only: mod_add_left_eq)
  moreover have "r + (9 + (119 - r) mod 64) = (if r \<le> 55 then 64 else 128)"
  proof (cases "r \<le> 55")
    case True
    then have "(119 - r) mod 64 = 55 - r" by (simp add: le_mod_geq)
    with True show ?thesis by simp
  next
    case False
    moreover have "r < 64" by (simp add: r_def)
    ultimately show ?thesis by simp
  qed
  ultimately show ?thesis by simp
qed

section \<open>The contract of the hash function\<close>

locale digest =
  fixes H :: "bytes \<Rightarrow> hash"
  assumes length_H: "length (H m) = 32"
begin

text \<open>
  Two hashed messages that end in digests of a common collision-free function agree
  only when the digests do: the shape of every chained hash of the program.
\<close>

lemma append_digest_inject:
  "p @ H a @ H b = p @ H c @ H d \<longleftrightarrow> H a = H c \<and> H b = H d"
  by (simp add: append_eq_append_conv length_H)

lemma digest_nonempty: "H m \<noteq> []"
  using length_H [of m] by auto

end

interpretation sha: digest sha256
  by unfold_locales (rule length_sha256)

end
