(* ===== verification/SL_Crypto.thy ===== *)
theory SL_Crypto
  imports SL_Sha256
begin

text \<open>
  \<^verbatim>\<open>internal/crypto/crypto.go\<close>: addresses and signatures.  SHA-256 is the argument
  \<open>H\<close>; Ed25519 is the pair of arguments \<open>edVerify\<close> (public key, message, signature) and
  \<open>edSign\<close> (private key, message).  Wallet files are in \<open>SL_Wallet\<close>.
\<close>

definition AddressPrefix :: bytes where
  "AddressPrefix = [0x73, 0x6c]"  \<comment> \<open>the bytes of \<open>"sl"\<close>\<close>

definition PublicKeySize :: nat where
  "PublicKeySize = 32"

text \<open>\<^verbatim>\<open>hex.EncodeToString\<close> and the test made by \<^verbatim>\<open>hex.DecodeString\<close> (even length, hex digits).\<close>

definition hex_digit :: "byte \<Rightarrow> byte" where
  "hex_digit n = (if n < 10 then 0x30 + n else 0x57 + n)"

definition hex_encode :: "bytes \<Rightarrow> bytes" where
  "hex_encode bs = concat (map (\<lambda>b. [hex_digit (drop_bit 4 b), hex_digit (and b 0x0f)]) bs)"

definition is_hex_digit :: "byte \<Rightarrow> bool" where
  "is_hex_digit c \<longleftrightarrow> (0x30 \<le> c \<and> c \<le> 0x39) \<or> (0x61 \<le> c \<and> c \<le> 0x66) \<or> (0x41 \<le> c \<and> c \<le> 0x46)"

definition hex_decodable :: "bytes \<Rightarrow> bool" where
  "hex_decodable cs \<longleftrightarrow> even (length cs) \<and> list_all is_hex_digit cs"

definition AddressFromPub :: "(bytes \<Rightarrow> hash) \<Rightarrow> bytes \<Rightarrow> address" where
  "AddressFromPub H pub = AddressPrefix @ hex_encode (take 20 (H pub))"

definition Valid :: "address \<Rightarrow> bool" where
  "Valid a \<longleftrightarrow> length a = length AddressPrefix + 40 \<and> take 2 a = AddressPrefix \<and> hex_decodable (drop 2 a)"

record KeyPair =
  Priv :: bytes
  Pub :: bytes

definition Address :: "(bytes \<Rightarrow> hash) \<Rightarrow> KeyPair \<Rightarrow> address" where
  "Address H k = AddressFromPub H (Pub k)"

definition Sign :: "(bytes \<Rightarrow> bytes \<Rightarrow> bytes) \<Rightarrow> KeyPair \<Rightarrow> bytes \<Rightarrow> bytes" where
  "Sign edSign k msg = edSign (Priv k) msg"

definition VerifyMsg :: "(bytes \<Rightarrow> bytes \<Rightarrow> bytes \<Rightarrow> bool) \<Rightarrow> bytes \<Rightarrow> bytes \<Rightarrow> bytes \<Rightarrow> bool" where
  "VerifyMsg edVerify pub msg sig \<longleftrightarrow> length pub = PublicKeySize \<and> edVerify pub msg sig"

definition PubMatchesAddress :: "(bytes \<Rightarrow> hash) \<Rightarrow> bytes \<Rightarrow> address \<Rightarrow> bool" where
  "PubMatchesAddress H pub addr \<longleftrightarrow> AddressFromPub H pub = addr"

section \<open>Hexadecimal text\<close>

lemma length_hex_encode [simp]: "length (hex_encode bs) = 2 * length bs"
  by (induction bs) (simp_all add: hex_encode_def)

lemma nibble_bound: "drop_bit 4 (b :: byte) < 16" "and (b :: byte) 0x0f < 16"
proof -
  have "unat (drop_bit 4 b) < 16"
    using unsigned_less [of b, where ?'a = nat]
    by (simp add: drop_bit_eq_div unat_div less_mult_imp_div_less)
  then show "drop_bit 4 b < 16" by (simp add: word_less_nat_alt)
  have "and b 0x0f \<le> (0x0f :: byte)" by (rule word_and_le1)
  then show "and b 0x0f < 16" by (rule le_less_trans) simp
qed

lemma hex_digit_is_hex: "n < 16 \<Longrightarrow> is_hex_digit (hex_digit n)"
proof -
  assume "n < 16"
  then have n: "unat n < 16" by (simp add: word_less_nat_alt)
  show ?thesis
  proof (cases "unat n < 10")
    case True
    then have "unat (0x30 + n) = 48 + unat n" by (simp add: unat_word_ariths)
    with True show ?thesis
      by (simp add: hex_digit_def is_hex_digit_def word_less_nat_alt word_le_nat_alt)
  next
    case False
    with n have "unat (0x57 + n) = 87 + unat n" by (simp add: unat_word_ariths)
    with n False show ?thesis
      by (simp add: hex_digit_def is_hex_digit_def word_less_nat_alt word_le_nat_alt)
  qed
qed

lemma hex_encode_decodable: "hex_decodable (hex_encode bs)"
proof -
  have "list_all is_hex_digit (hex_encode bs)"
    by (induction bs) (simp_all add: hex_encode_def hex_digit_is_hex nibble_bound)
  then show ?thesis by (simp add: hex_decodable_def)
qed

context digest
begin

lemma Valid_digest: "Valid (AddressPrefix @ hex_encode (take 20 (H m)))"
  by (simp add: Valid_def length_H hex_encode_decodable AddressPrefix_def)

lemma Valid_AddressFromPub: "Valid (AddressFromPub H pub)"
  by (simp add: AddressFromPub_def Valid_digest)

lemma Valid_not_empty: "Valid a \<Longrightarrow> a \<noteq> []"
  by (auto simp: Valid_def AddressPrefix_def)

end

end
