(* ===== verification/SL_Merkle.thy ===== *)
theory SL_Merkle
  imports SL_Sha256
begin

text \<open>
  \<^verbatim>\<open>internal/merkle/merkle.go\<close>: the Merkle tree over transactions and logs, with
  inclusion proofs.  \<open>pad_level\<close> and \<open>pair_up\<close> are one pass of the code's loop body,
  \<open>root_loop\<close> the loop itself; they are written over an arbitrary node combination so
  that the same loop also builds the tree of the specification (\<open>mtree\<close>).
\<close>

definition Zero :: hash where
  "Zero = replicate 32 0"

definition leafHash :: "(bytes \<Rightarrow> hash) \<Rightarrow> bytes \<Rightarrow> hash" where
  "leafHash H data = H (0x00 # data)"

definition innerHash :: "(bytes \<Rightarrow> hash) \<Rightarrow> hash \<Rightarrow> hash \<Rightarrow> hash" where
  "innerHash H l r = H (0x01 # l @ r)"

definition pad_level :: "'n list \<Rightarrow> 'n list" where
  "pad_level level = (if length level mod 2 = 1 then level @ [level ! (length level - 1)] else level)"

fun pair_up :: "('n \<Rightarrow> 'n \<Rightarrow> 'n) \<Rightarrow> 'n list \<Rightarrow> 'n list" where
  "pair_up f (x # y # rest) = f x y # pair_up f rest"
| "pair_up f _ = []"

lemma length_pair_up: "length (pair_up f xs) = length xs div 2"
  by (induction f xs rule: pair_up.induct) auto

lemma length_pad_level: "length (pad_level xs) = 2 * ((length xs + 1) div 2)"
  by (simp add: pad_level_def) presburger

lemma length_next_level: "length (pair_up f (pad_level xs)) = (length xs + 1) div 2"
  by (simp add: length_pair_up length_pad_level)

function root_loop :: "('n \<Rightarrow> 'n \<Rightarrow> 'n) \<Rightarrow> 'n list \<Rightarrow> 'n" where
  "root_loop f level =
     (if 1 < length level then root_loop f (pair_up f (pad_level level)) else level ! 0)"
  by pat_completeness auto
termination
  by (relation "measure (\<lambda>(f, level). length level)") (auto simp: length_next_level)

declare root_loop.simps [simp del]

lemma root_loop_single [simp]: "root_loop f [x] = x"
  by (simp add: root_loop.simps [of f "[x]"])

lemma root_loop_Cons2 [simp]:
  "root_loop f (x # y # zs) = root_loop f (pair_up f (pad_level (x # y # zs)))"
  by (simp add: root_loop.simps [of f "x # y # zs"])

definition Root :: "(bytes \<Rightarrow> hash) \<Rightarrow> bytes list \<Rightarrow> hash" where
  "Root H items =
     (if length items = 0 then Zero
      else root_loop (innerHash H) (map (leafHash H) items))"

record ProofStep =
  Sibling :: hash
  IsLeft :: bool

function proof_loop :: "(bytes \<Rightarrow> hash) \<Rightarrow> hash list \<Rightarrow> nat \<Rightarrow> ProofStep list \<Rightarrow> ProofStep list" where
  "proof_loop H level idx steps =
     (if 1 < length level then
        let level' = pad_level level;
            step = (if idx mod 2 = 0 then \<lparr>Sibling = level' ! (idx + 1), IsLeft = False\<rparr>
                    else \<lparr>Sibling = level' ! (idx - 1), IsLeft = True\<rparr>)
        in proof_loop H (pair_up (innerHash H) level') (idx div 2) (steps @ [step])
      else steps)"
  by pat_completeness auto
termination
  by (relation "measure (\<lambda>(H, level, idx, steps). length level)") (auto simp: length_next_level)

declare proof_loop.simps [simp del]

definition Proof :: "(bytes \<Rightarrow> hash) \<Rightarrow> bytes list \<Rightarrow> int \<Rightarrow> ProofStep list" where
  "Proof H items index =
     (if index < 0 \<or> int (length items) \<le> index then []
      else proof_loop H (map (leafHash H) items) (nat index) [])"

definition verify_step :: "(bytes \<Rightarrow> hash) \<Rightarrow> hash \<Rightarrow> ProofStep \<Rightarrow> hash" where
  "verify_step H cur s =
     (if IsLeft s then innerHash H (Sibling s) cur else innerHash H cur (Sibling s))"

definition Verify :: "(bytes \<Rightarrow> hash) \<Rightarrow> bytes \<Rightarrow> ProofStep list \<Rightarrow> hash \<Rightarrow> bool" where
  "Verify H data steps root \<longleftrightarrow> foldl (verify_step H) (leafHash H data) steps = root"

section \<open>The specification: a binary tree with data at its leaves\<close>

datatype mtree = Leaf bytes | Node mtree mtree

primrec tree_hash :: "(bytes \<Rightarrow> hash) \<Rightarrow> mtree \<Rightarrow> hash" where
  "tree_hash H (Leaf d) = leafHash H d"
| "tree_hash H (Node l r) = innerHash H (tree_hash H l) (tree_hash H r)"

primrec leaves :: "mtree \<Rightarrow> bytes list" where
  "leaves (Leaf d) = [d]"
| "leaves (Node l r) = leaves l @ leaves r"

primrec shape :: "mtree \<Rightarrow> mtree" where
  "shape (Leaf d) = Leaf []"
| "shape (Node l r) = Node (shape l) (shape r)"

text \<open>The messages hashed when a tree, respectively an inclusion proof, is evaluated.\<close>

primrec tree_inputs :: "(bytes \<Rightarrow> hash) \<Rightarrow> mtree \<Rightarrow> bytes set" where
  "tree_inputs H (Leaf d) = {0x00 # d}"
| "tree_inputs H (Node l r) =
     insert (0x01 # tree_hash H l @ tree_hash H r) (tree_inputs H l \<union> tree_inputs H r)"

fun path_inputs :: "(bytes \<Rightarrow> hash) \<Rightarrow> hash \<Rightarrow> ProofStep list \<Rightarrow> bytes set" where
  "path_inputs H cur [] = {}"
| "path_inputs H cur (s # ss) =
     insert (0x01 # (if IsLeft s then Sibling s @ cur else cur @ Sibling s))
       (path_inputs H (verify_step H cur s) ss)"

definition build :: "bytes list \<Rightarrow> mtree" where
  "build items = root_loop Node (map Leaf items)"

definition root_inputs :: "(bytes \<Rightarrow> hash) \<Rightarrow> bytes list \<Rightarrow> bytes set" where
  "root_inputs H items = tree_inputs H (build items)"

definition verify_inputs :: "(bytes \<Rightarrow> hash) \<Rightarrow> bytes \<Rightarrow> ProofStep list \<Rightarrow> bytes set" where
  "verify_inputs H data steps = insert (0x00 # data) (path_inputs H (leafHash H data) steps)"

section \<open>One pass of the loop\<close>

lemma pair_up_map:
  assumes "\<And>x y. h (f x y) = g (h x) (h y)"
  shows "map h (pair_up f xs) = pair_up g (map h xs)"
  using assms by (induction f xs rule: pair_up.induct) auto

lemma pad_level_map: "level \<noteq> [] \<Longrightarrow> map h (pad_level level) = pad_level (map h level)"
  by (auto simp: pad_level_def nth_append)

lemma nth_pair_up: "i < length xs div 2 \<Longrightarrow> pair_up f xs ! i = f (xs ! (2 * i)) (xs ! (2 * i + 1))"
proof (induction f xs arbitrary: i rule: pair_up.induct)
  case (1 f x y rest)
  then show ?case by (cases i) auto
qed auto

lemma nth_pad_level: "i < length xs \<Longrightarrow> pad_level xs ! i = xs ! i"
  by (simp add: pad_level_def nth_append)

text \<open>The loop commutes with any homomorphism of the node combination.\<close>

lemma root_loop_hom:
  assumes "\<And>x y. h (f x y) = g (h x) (h y)" and "level \<noteq> []"
  shows "h (root_loop f level) = root_loop g (map h level)"
  using assms
proof (induction f level rule: root_loop.induct)
  case (1 f level)
  show ?case
  proof (cases "1 < length level")
    case True
    let ?next = "pair_up f (pad_level level)"
    have "length ?next \<noteq> 0" using True by (simp add: length_next_level)
    then have "h (root_loop f ?next) = root_loop g (map h ?next)"
      using "1.IH" [OF True "1.prems"(1)] by simp
    also have "map h ?next = pair_up g (pad_level (map h level))"
      using "1.prems" by (simp add: pair_up_map [of h f g] pad_level_map)
    finally show ?thesis
      using True by (simp add: root_loop.simps [of f level] root_loop.simps [of g "map h level"])
  next
    case False
    with "1.prems"(2) show ?thesis
      by (cases level) simp_all
  qed
qed

text \<open>The root computed by the code is the hash of the specification tree.\<close>

lemma Root_build: "items \<noteq> [] \<Longrightarrow> Root H items = tree_hash H (build items)"
proof -
  assume ne: "items \<noteq> []"
  have "tree_hash H (root_loop Node (map Leaf items))
      = root_loop (innerHash H) (map (tree_hash H) (map Leaf items))"
    using ne by (intro root_loop_hom) auto
  with ne show ?thesis by (simp add: Root_def build_def comp_def)
qed

text \<open>Its leaves are the items followed by copies of items that padding added.\<close>

lemma concat_pair_up:
  "even (length ts) \<Longrightarrow> concat (map leaves (pair_up Node ts)) = concat (map leaves ts)"
  by (induction Node ts rule: pair_up.induct) auto

lemma leaves_root_loop:
  "ts \<noteq> [] \<Longrightarrow> \<exists>extra. leaves (root_loop Node ts) = concat (map leaves ts) @ extra
     \<and> set extra \<subseteq> set (concat (map leaves ts))"
proof (induction "Node :: mtree \<Rightarrow> mtree \<Rightarrow> mtree" ts rule: root_loop.induct)
  case (1 ts)
  show ?case
  proof (cases "1 < length ts")
    case True
    let ?next = "pair_up Node (pad_level ts)"
    have "length ?next \<noteq> 0" using True by (simp add: length_next_level)
    then obtain extra where ex: "leaves (root_loop Node ?next) = concat (map leaves ?next) @ extra"
      "set extra \<subseteq> set (concat (map leaves ?next))"
      using "1.hyps" [OF True] by auto
    have "even (length (pad_level ts))" by (simp add: length_pad_level)
    then have nx: "concat (map leaves ?next) = concat (map leaves (pad_level ts))"
      by (rule concat_pair_up)
    have "\<exists>e. concat (map leaves (pad_level ts)) = concat (map leaves ts) @ e
        \<and> set e \<subseteq> set (concat (map leaves ts))"
      using "1.prems" by (auto simp: pad_level_def intro!: bexI [of _ "ts ! (length ts - 1)"])
    then obtain e where e: "concat (map leaves (pad_level ts)) = concat (map leaves ts) @ e"
      "set e \<subseteq> set (concat (map leaves ts))" by blast
    have "leaves (root_loop Node ts) = concat (map leaves ts) @ (e @ extra)"
      using ex(1) nx e(1) True by (simp add: root_loop.simps [of Node ts])
    moreover have "set (e @ extra) \<subseteq> set (concat (map leaves ts))"
      using ex(2) nx e by auto
    ultimately show ?thesis by blast
  next
    case False
    with "1.prems" show ?thesis
      by (cases ts) auto
  qed
qed

lemma leaves_build:
  assumes "items \<noteq> []"
  shows "set (leaves (build items)) = set items" and "take (length items) (leaves (build items)) = items"
proof -
  have "concat (map leaves (map Leaf items)) = items" by (induction items) auto
  with leaves_root_loop [of "map Leaf items"] assms
  obtain extra where "leaves (build items) = items @ extra" "set extra \<subseteq> set items"
    by (auto simp: build_def)
  then show "set (leaves (build items)) = set items"
    and "take (length items) (leaves (build items)) = items" by auto
qed

lemma shape_build: "length xs = length ys \<Longrightarrow> xs \<noteq> [] \<Longrightarrow> shape (build xs) = shape (build ys)"
proof -
  assume "length xs = length ys" "xs \<noteq> []"
  moreover from this have "map (shape \<circ> Leaf) xs = map (shape \<circ> Leaf) ys"
    by (intro nth_equalityI) auto
  moreover have "zs \<noteq> [] \<Longrightarrow> shape (build zs) = root_loop Node (map (shape \<circ> Leaf) zs)" for zs
    using root_loop_hom [of shape Node Node "map Leaf zs"] by (simp add: build_def)
  ultimately show ?thesis by (metis length_0_conv)
qed

section \<open>Inclusion proofs\<close>

text \<open>
  Loop invariant of \<open>Proof\<close>: the steps collected so far lead from the leaf hash to the
  current level's entry at the current index.
\<close>

lemma proof_loop_verifies:
  "idx < length level \<Longrightarrow> foldl (verify_step H) c steps = level ! idx \<Longrightarrow>
   foldl (verify_step H) c (proof_loop H level idx steps) = root_loop (innerHash H) level"
proof (induction H level idx steps rule: proof_loop.induct)
  case (1 H level idx steps)
  show ?case
  proof (cases "1 < length level")
    case True
    let ?pad = "pad_level level"
    let ?next = "pair_up (innerHash H) ?pad"
    let ?step = "if idx mod 2 = 0 then \<lparr>Sibling = ?pad ! (idx + 1), IsLeft = False\<rparr>
                 else \<lparr>Sibling = ?pad ! (idx - 1), IsLeft = True\<rparr>"
    have half: "idx div 2 < length ?pad div 2"
      using "1.prems"(1) by (simp add: length_pad_level)
    have "foldl (verify_step H) c (steps @ [?step]) = verify_step H (?pad ! idx) ?step"
      using "1.prems" by (simp add: nth_pad_level)
    also have "\<dots> = innerHash H (?pad ! (2 * (idx div 2))) (?pad ! (2 * (idx div 2) + 1))"
    proof (cases "idx mod 2 = 0")
      case even: True
      then have "2 * (idx div 2) = idx" by presburger
      with even show ?thesis by (simp add: verify_step_def)
    next
      case odd: False
      then have "2 * (idx div 2) = idx - 1" "2 * (idx div 2) + 1 = idx" by presburger+
      with odd show ?thesis by (simp add: verify_step_def)
    qed
    also have "\<dots> = ?next ! (idx div 2)"
      using half by (simp add: nth_pair_up)
    finally have "foldl (verify_step H) c (proof_loop H ?next (idx div 2) (steps @ [?step]))
        = root_loop (innerHash H) ?next"
      using half "1.IH" [OF True refl refl] by (simp add: length_pair_up)
    with True show ?thesis
      by (simp add: proof_loop.simps [of H level] root_loop.simps [of _ level] Let_def)
  next
    case False
    with "1.prems"(1) have "idx = 0" by linarith
    with False "1.prems" show ?thesis
      by (simp add: proof_loop.simps [of H level] root_loop.simps [of _ level])
  qed
qed

lemma path_inputs_append:
  "path_inputs H cur (ss @ [s]) = insert
     (0x01 # (if IsLeft s then Sibling s @ foldl (verify_step H) cur ss
              else foldl (verify_step H) cur ss @ Sibling s)) (path_inputs H cur ss)"
  by (induction H cur ss rule: path_inputs.induct) auto

lemma verify_step_eq:
  "verify_step H cur s = H (0x01 # (if IsLeft s then Sibling s @ cur else cur @ Sibling s))"
  by (simp add: verify_step_def innerHash_def)

lemma fold_verify_snoc:
  "foldl (verify_step H) c (ss @ [s]) =
     H (0x01 # (if IsLeft s then Sibling s @ foldl (verify_step H) c ss
                else foldl (verify_step H) c ss @ Sibling s))"
  by (simp add: verify_step_eq [of H "foldl (verify_step H) c ss"])

context digest
begin

lemma length_tree_hash: "length (tree_hash H t) = 32"
  by (cases t) (simp_all add: leafHash_def innerHash_def length_H)

lemma length_fold_verify: "length (foldl (verify_step H) (leafHash H d) ss) = 32"
  by (cases ss rule: rev_cases) (simp_all add: leafHash_def fold_verify_snoc length_H del: foldl_append)

text \<open>
  A path that evaluates to the hash of a tree starts at one of its leaves, unless two
  of the messages hashed on the way collide.  The leaf and node prefixes of the hashed
  messages rule out paths that are too short or too long.
\<close>

lemma path_starts_at_leaf:
  "foldl (verify_step H) (leafHash H d) ss = tree_hash H t \<Longrightarrow>
   inj_on H (verify_inputs H d ss \<union> tree_inputs H t) \<Longrightarrow> d \<in> set (leaves t)"
proof (induction t arbitrary: ss)
  case (Leaf x)
  show ?case
  proof (cases ss rule: rev_cases)
    case Nil
    then have "H (0x00 # d) = H (0x00 # x)" using Leaf.prems(1) by (simp add: leafHash_def)
    then have "(0x00 :: byte) # d = 0x00 # x"
      by (rule inj_onD [OF Leaf.prems(2)]) (simp_all add: verify_inputs_def)
    then show ?thesis by simp
  next
    case (snoc ss' s)
    let ?cur = "foldl (verify_step H) (leafHash H d) ss'"
    let ?m = "if IsLeft s then Sibling s @ ?cur else ?cur @ Sibling s"
    have "H (0x01 # ?m) = H (0x00 # x)"
      using Leaf.prems(1) unfolding snoc fold_verify_snoc by (simp only: tree_hash.simps leafHash_def)
    then have "(0x01 :: byte) # ?m = 0x00 # x"
      by (rule inj_onD [OF Leaf.prems(2)]) (simp_all add: snoc verify_inputs_def path_inputs_append)
    then show ?thesis by simp
  qed
next
  case (Node l r)
  show ?case
  proof (cases ss rule: rev_cases)
    case Nil
    then have "H (0x00 # d) = H (0x01 # tree_hash H l @ tree_hash H r)"
      using Node.prems(1) by (simp add: leafHash_def innerHash_def)
    then have "(0x00 :: byte) # d = 0x01 # tree_hash H l @ tree_hash H r"
      by (rule inj_onD [OF Node.prems(2)]) (simp_all add: verify_inputs_def)
    then show ?thesis by simp
  next
    case (snoc ss' s)
    let ?cur = "foldl (verify_step H) (leafHash H d) ss'"
    let ?m = "if IsLeft s then Sibling s @ ?cur else ?cur @ Sibling s"
    have "H (0x01 # ?m) = H (0x01 # tree_hash H l @ tree_hash H r)"
      using Node.prems(1) unfolding snoc fold_verify_snoc
      by (simp only: tree_hash.simps innerHash_def)
    then have "(0x01 :: byte) # ?m = 0x01 # tree_hash H l @ tree_hash H r"
      by (rule inj_onD [OF Node.prems(2)]) (simp_all add: snoc verify_inputs_def path_inputs_append)
    then have m: "?m = tree_hash H l @ tree_hash H r" by simp
    have inj: "inj_on H (verify_inputs H d ss' \<union> tree_inputs H t)" if "t = l \<or> t = r" for t
      using that by (intro inj_on_subset [OF Node.prems(2)])
        (auto simp: snoc verify_inputs_def path_inputs_append)
    show ?thesis
    proof (cases "IsLeft s")
      case True
      with m have "?cur = tree_hash H r"
        by (simp add: append_eq_append_conv length_fold_verify length_tree_hash)
      with Node.IH(2) inj show ?thesis by simp
    next
      case False
      with m have "?cur = tree_hash H l"
        by (simp add: append_eq_append_conv length_fold_verify length_tree_hash)
      with Node.IH(1) inj show ?thesis by simp
    qed
  qed
qed

text \<open>Trees of one shape with one hash are equal, unless two hashed messages collide.\<close>

lemma tree_hash_inject:
  "shape t = shape u \<Longrightarrow> tree_hash H t = tree_hash H u \<Longrightarrow>
   inj_on H (tree_inputs H t \<union> tree_inputs H u) \<Longrightarrow> t = u"
proof (induction t arbitrary: u)
  case (Leaf x)
  then obtain y where u: "u = Leaf y" by (cases u) auto
  then have "H (0x00 # x) = H (0x00 # y)" using Leaf.prems(2) by (simp add: leafHash_def)
  then have "(0x00 :: byte) # x = 0x00 # y"
    by (rule inj_onD [OF Leaf.prems(3)]) (simp_all add: u)
  then show ?case by (simp add: u)
next
  case (Node l r)
  then obtain l' r' where u: "u = Node l' r'" by (cases u) auto
  have "H (0x01 # tree_hash H l @ tree_hash H r) = H (0x01 # tree_hash H l' @ tree_hash H r')"
    using Node.prems(2) u by (simp add: innerHash_def)
  then have "(0x01 :: byte) # tree_hash H l @ tree_hash H r = 0x01 # tree_hash H l' @ tree_hash H r'"
    by (rule inj_onD [OF Node.prems(3)]) (simp_all add: u)
  then have eq: "tree_hash H l = tree_hash H l'" "tree_hash H r = tree_hash H r'"
    by (simp_all add: append_eq_append_conv length_tree_hash)
  have inj: "inj_on H (tree_inputs H l \<union> tree_inputs H l')"
    "inj_on H (tree_inputs H r \<union> tree_inputs H r')"
    by (rule inj_on_subset [OF Node.prems(3)], auto simp: u)+
  have "l = l'" using Node.prems(1) u by (intro Node.IH(1) eq inj) simp
  moreover have "r = r'" using Node.prems(1) u by (intro Node.IH(2) eq inj) simp
  ultimately show ?case by (simp add: u)
qed

lemma Verify_imp_member:
  assumes "Verify H d ss (Root H items)" and "items \<noteq> []"
    and "inj_on H (verify_inputs H d ss \<union> root_inputs H items)"
  shows "d \<in> set items"
  using path_starts_at_leaf [of d ss "build items"] assms leaves_build(1) [OF assms(2)]
  by (simp add: Verify_def Root_build root_inputs_def)

lemma Root_inject:
  assumes "Root H xs = Root H ys" and "length xs = length ys"
    and "inj_on H (root_inputs H xs \<union> root_inputs H ys)"
  shows "xs = ys"
proof (cases "xs = []")
  case True
  with assms(2) show ?thesis by simp
next
  case False
  with assms(2) have ne: "ys \<noteq> []" by auto
  have "build xs = build ys"
  proof (rule tree_hash_inject)
    show "shape (build xs) = shape (build ys)" using assms(2) False by (rule shape_build)
    show "tree_hash H (build xs) = tree_hash H (build ys)"
      using assms(1) by (simp only: Root_build [OF False] Root_build [OF ne])
    show "inj_on H (tree_inputs H (build xs) \<union> tree_inputs H (build ys))"
      using assms(3) by (simp only: root_inputs_def)
  qed
  then have "take (length xs) (leaves (build xs)) = take (length ys) (leaves (build ys))"
    using assms(2) by simp
  then show ?thesis by (simp only: leaves_build(2) [OF False] leaves_build(2) [OF ne])
qed

end

section \<open>Properties\<close>

text \<open>
  C13. Completeness of inclusion proofs: for every list of items and every index in
  range, the proof the code generates verifies against the root the code computes,
  whatever the hash function.
\<close>

theorem Proof_verifies:
  assumes "0 \<le> index" and "index < int (length items)"
  shows "Verify H (items ! nat index) (Proof H items index) (Root H items)"
proof -
  have "nat index < length items" "items \<noteq> []" using assms by auto
  then show ?thesis
    using assms proof_loop_verifies [of "nat index" "map (leafHash H) items" H _ "[]"]
    by (simp add: Verify_def Proof_def Root_def)
qed

theorem Proof_verifies_witness:
  "Verify rev [3] (Proof rev [[1], [2], [3]] 2) (Root rev [[1], [2], [3]])"
  using Proof_verifies [of 2 "[[1], [2], [3]]" rev] by simp

text \<open>
  Soundness of inclusion proofs: if any list of steps verifies some data against
  the root of a non-empty list of items, then the data is one of the items, provided no
  two of the messages hashed for that root and that path collide.  No assumption is made
  on the number of steps or on the siblings.
\<close>

theorem Verify_sound:
  assumes "\<And>m. length (H m) = 32" and "items \<noteq> []"
    and "Verify H d ss (Root H items)"
    and "inj_on H (verify_inputs H d ss \<union> root_inputs H items)"
  shows "d \<in> set items"
proof -
  have "digest H" using assms(1) by unfold_locales
  then show ?thesis using assms(2-4) digest.Verify_imp_member by blast
qed

theorem Verify_sound_witness:
  "[7] \<in> set [[7 :: byte]]"
proof -
  let ?H = "\<lambda>m. take 32 (m @ replicate 32 0) :: hash"
  have "verify_inputs ?H [7] [] \<union> root_inputs ?H [[7]] = {[0, 7]}"
    by (simp add: verify_inputs_def root_inputs_def build_def)
  then show ?thesis
    by (intro Verify_sound [of ?H _ _ "[]"])
      (simp_all add: Verify_def Root_def leafHash_def)
qed

text \<open>
  The root binds the list of items: two lists of the same length with the same root
  are equal, provided no two of the hashed messages collide.  The length is needed: a
  list with an odd number of items and the list with its last item repeated have the same
  root, which is why block headers also commit to the transaction count and to the hash of
  the body.
\<close>

theorem Root_binding:
  assumes "\<And>m. length (H m) = 32" and "length xs = length ys"
    and "Root H xs = Root H ys"
    and "inj_on H (root_inputs H xs \<union> root_inputs H ys)"
  shows "xs = ys"
proof -
  have "digest H" using assms(1) by unfold_locales
  then show ?thesis using assms(2-4) digest.Root_inject by blast
qed

theorem Root_binding_witness: "[[7], [8]] = [[7], [8 :: byte]]"
proof -
  let ?H = "\<lambda>m. take 32 (m @ replicate 32 0) :: hash"
  have "root_inputs ?H [[7], [8]] = {1 # ?H [0, 7] @ ?H [0, 8], [0, 7], [0, 8]}"
    by (auto simp: root_inputs_def build_def pad_level_def leafHash_def)
  then show ?thesis
    by (intro Root_binding [of ?H]) (simp_all add: inj_on_def)
qed

lemma Root_duplicate_last:
  "Root H [a, b, c] = Root H [a, b, c, c]"
  by (simp add: Root_def pad_level_def)

end
