(* ===== verification/SL_Types.thy ===== *)
theory SL_Types
  imports SL_Crypto SL_Merkle
begin

text \<open>
  \<^verbatim>\<open>internal/types\<close>: transactions, headers, blocks, shard sets and event logs, with
  their canonical encodings and decoders.

  The decoders read through Go's \<^verbatim>\<open>bytes.Reader\<close>, whose \<^verbatim>\<open>Read\<close> fails only at the end
  of the input: with fewer bytes left than asked for it succeeds and leaves the rest of
  the (zeroed) buffer alone.  \<open>read_n\<close> models exactly that.  \<^verbatim>\<open>make([]T, n)\<close> panics when
  the size passes the address space of the platform (\<open>maxAlloc\<close>, 48 bits on
  linux/amd64), which a length field under an attacker's control can reach.
\<close>

section \<open>Data\<close>

record ShardSpec =
  K :: u8
  M :: u8

definition Total :: "ShardSpec \<Rightarrow> int" where
  "Total s = uint (K s) + uint (M s)"

record ShardSet =
  SetBlockID :: hash
  SetSpec :: ShardSpec
  PaddedLen :: int
  OrigLen :: int
  SetShardHash :: "hash list"

record Header =
  Height :: u64
  PrevHash :: hash
  MerkleRoot :: hash
  Timestamp :: "64 word"   \<comment> \<open>\<open>int64\<close>, read with \<open>sint\<close>\<close>
  Validator :: address
  TxCount :: u32
  Round :: u32
  Spec :: ShardSpec
  BodyHash :: hash
  LogsRoot :: hash
  HdrSig :: bytes
  ValPubKey :: bytes

record Transaction =
  From :: address
  To :: address
  Amount :: u64
  Fee :: u64
  Nonce :: u64
  ChainID :: u64
  Kind :: u8
  Gas :: u64
  Data :: bytes
  PubKey :: bytes
  Sig :: bytes

record Block =
  Hdr :: Header
  Txs :: "Transaction list"

record EquivocationEvidence =
  EvA :: Header
  EvB :: Header

record Log =
  Contract :: address
  Topics :: "u64 list"
  TxIndex :: int

definition KindTransfer :: u8 where "KindTransfer = 0"
definition KindDeploy :: u8 where "KindDeploy = 1"
definition KindCall :: u8 where "KindCall = 2"
definition KindRegister :: u8 where "KindRegister = 3"
definition KindUnregister :: u8 where "KindUnregister = 4"
definition KindSlash :: u8 where "KindSlash = 5"
definition KindFaucet :: u8 where "KindFaucet = 6"
definition KindStorageProof :: u8 where "KindStorageProof = 7"

lemmas Kind_defs = KindTransfer_def KindDeploy_def KindCall_def KindRegister_def
  KindUnregister_def KindSlash_def KindFaucet_def KindStorageProof_def

datatype types_error = ErrBadPubKey | ErrPubAddrMismatch | ErrBadSignature | ErrBadBody | EOF

section \<open>Encoding\<close>

definition putBytes :: "bytes \<Rightarrow> bytes" where
  "putBytes b = put_u64 (of_nat (length b)) @ b"

definition putString :: "bytes \<Rightarrow> bytes" where
  "putString s = put_u64 (of_nat (length s)) @ s"

definition TxSigningBytes :: "Transaction \<Rightarrow> bytes" where
  "TxSigningBytes t =
     putString (From t) @ putString (To t) @ put_u64 (Amount t) @ put_u64 (Fee t)
     @ put_u64 (Nonce t) @ put_u64 (ChainID t) @ [Kind t] @ put_u64 (Gas t)
     @ putBytes (Data t) @ putBytes (PubKey t)"

definition canonical :: "Transaction \<Rightarrow> bytes" where
  "canonical t = TxSigningBytes t @ putBytes (Sig t)"

definition TxHash :: "(bytes \<Rightarrow> hash) \<Rightarrow> Transaction \<Rightarrow> hash" where
  "TxHash H t = H (canonical t)"

definition IsCoinbase :: "Transaction \<Rightarrow> bool" where
  "IsCoinbase t \<longleftrightarrow> From t = []"

definition contract_tag :: bytes where
  "contract_tag = [0x63, 0x6f, 0x6e, 0x74, 0x72, 0x61, 0x63, 0x74, 0x3a]"  \<comment> \<open>\<open>"contract:"\<close>\<close>

definition ContractAddress :: "(bytes \<Rightarrow> hash) \<Rightarrow> address \<Rightarrow> u64 \<Rightarrow> address" where
  "ContractAddress H deployer nonce =
     AddressPrefix @ hex_encode (take 20 (H (contract_tag @ deployer @ put_u64 nonce)))"

definition AddrDigest :: "(bytes \<Rightarrow> hash) \<Rightarrow> address \<Rightarrow> u64" where
  "AddrDigest H a = be_get (take 8 (H a))"

definition SignTx ::
    "(bytes \<Rightarrow> hash) \<Rightarrow> (bytes \<Rightarrow> bytes \<Rightarrow> bytes) \<Rightarrow> KeyPair \<Rightarrow> Transaction \<Rightarrow> Transaction" where
  "SignTx H edSign kp t =
     (let t1 = t\<lparr>From := Address H kp, PubKey := Pub kp\<rparr>
      in t1\<lparr>Sig := Sign edSign kp (TxSigningBytes t1)\<rparr>)"

definition TxVerifySig ::
    "(bytes \<Rightarrow> hash) \<Rightarrow> (bytes \<Rightarrow> bytes \<Rightarrow> bytes \<Rightarrow> bool) \<Rightarrow> Transaction \<Rightarrow> types_error option" where
  "TxVerifySig H edVerify t =
     (if IsCoinbase t then None
      else if length (PubKey t) \<noteq> PublicKeySize then Some ErrBadPubKey
      else if \<not> PubMatchesAddress H (PubKey t) (From t) then Some ErrPubAddrMismatch
      else if \<not> VerifyMsg edVerify (PubKey t) (TxSigningBytes t) (Sig t) then Some ErrBadSignature
      else None)"

definition EncodeTxs :: "Transaction list \<Rightarrow> bytes" where
  "EncodeTxs txs =
     put_u32 (of_nat (length txs)) @ concat (map (\<lambda>t. putBytes (canonical t)) txs)"

definition Body :: "Block \<Rightarrow> bytes" where
  "Body b = EncodeTxs (Txs b)"

definition BodyHashOf :: "(bytes \<Rightarrow> hash) \<Rightarrow> bytes \<Rightarrow> hash" where
  "BodyHashOf H body = H body"

definition HdrSigningBytes :: "Header \<Rightarrow> bytes" where
  "HdrSigningBytes h =
     put_u64 (Height h) @ PrevHash h @ MerkleRoot h @ put_u64 (Timestamp h)
     @ putString (Validator h) @ put_u64 (ucast (TxCount h)) @ put_u64 (ucast (Round h))
     @ [K (Spec h), M (Spec h)] @ BodyHash h @ LogsRoot h"

definition ID :: "(bytes \<Rightarrow> hash) \<Rightarrow> Header \<Rightarrow> hash" where
  "ID H h = H (HdrSigningBytes h)"

definition SignHdr ::
    "(bytes \<Rightarrow> hash) \<Rightarrow> (bytes \<Rightarrow> bytes \<Rightarrow> bytes) \<Rightarrow> KeyPair \<Rightarrow> Header \<Rightarrow> Header" where
  "SignHdr H edSign kp h =
     (let h1 = h\<lparr>Validator := Address H kp, ValPubKey := Pub kp\<rparr>
      in h1\<lparr>HdrSig := Sign edSign kp (HdrSigningBytes h1)\<rparr>)"

definition HdrVerifySig ::
    "(bytes \<Rightarrow> hash) \<Rightarrow> (bytes \<Rightarrow> bytes \<Rightarrow> bytes \<Rightarrow> bool) \<Rightarrow> Header \<Rightarrow> types_error option" where
  "HdrVerifySig H edVerify h =
     (if \<not> PubMatchesAddress H (ValPubKey h) (Validator h) then Some ErrPubAddrMismatch
      else if \<not> VerifyMsg edVerify (ValPubKey h) (HdrSigningBytes h) (HdrSig h) then Some ErrBadSignature
      else None)"

definition MerkleRootOf :: "(bytes \<Rightarrow> hash) \<Rightarrow> Transaction list \<Rightarrow> hash" where
  "MerkleRootOf H txs = Root H (map (TxHash H) txs)"

definition log_canonical :: "Log \<Rightarrow> bytes" where
  "log_canonical l =
     putString (Contract l) @ put_u64 (word_of_int (TxIndex l))
     @ put_u64 (of_nat (length (Topics l))) @ concat (map (be_put 8) (Topics l))"


definition LogsRootOf :: "(bytes \<Rightarrow> hash) \<Rightarrow> Log list \<Rightarrow> hash" where
  "LogsRootOf H logs = (if length logs = 0 then Zero else Root H (map log_canonical logs))"

definition EncodeLogs :: "Log list \<Rightarrow> bytes" where
  "EncodeLogs logs =
     put_u32 (of_nat (length logs)) @ concat (map (\<lambda>l. putBytes (log_canonical l)) logs)"

section \<open>Decoding\<close>

definition maxAlloc :: nat where
  "maxAlloc = 2 ^ 48"

text \<open>\<^verbatim>\<open>r.Read(buf)\<close> on a zeroed buffer of \<open>n\<close> bytes: the buffer afterwards and the rest.\<close>

definition read_n :: "nat \<Rightarrow> bytes \<Rightarrow> (types_error, bytes \<times> bytes) result" where
  "read_n n r = (if r = [] then Err EOF else Ok (take n r @ replicate (n - length r) 0, drop n r))"

definition readBytes :: "bytes \<Rightarrow> (types_error, bytes \<times> bytes) result" where
  "readBytes r =
     rbind (read_n 8 r) (\<lambda>(l, r1).
       let n = (be_get l :: u64) in
       if maxAlloc < unat n then Panic
       else if n = 0 then Ok ([], r1)
       else read_n (unat n) r1)"

definition readU64 :: "bytes \<Rightarrow> (types_error, u64 \<times> bytes) result" where
  "readU64 r = rbind (read_n 8 r) (\<lambda>(b, r1). Ok (be_get b, r1))"

definition ReadByte :: "bytes \<Rightarrow> (types_error, byte \<times> bytes) result" where
  "ReadByte r = (case r of [] \<Rightarrow> Err EOF | b # r1 \<Rightarrow> Ok (b, r1))"

definition decodeTx :: "bytes \<Rightarrow> (types_error, Transaction) result" where
  "decodeTx data =
     rbind (readBytes data) (\<lambda>(from, r).
     rbind (readBytes r) (\<lambda>(to, r).
     rbind (readU64 r) (\<lambda>(amount, r).
     rbind (readU64 r) (\<lambda>(fee, r).
     rbind (readU64 r) (\<lambda>(nonce, r).
     rbind (readU64 r) (\<lambda>(chain, r).
     rbind (ReadByte r) (\<lambda>(kind, r).
     rbind (readU64 r) (\<lambda>(gas, r).
     rbind (readBytes r) (\<lambda>(dat, r).
     rbind (readBytes r) (\<lambda>(pub, r).
     rbind (readBytes r) (\<lambda>(sig, r).
       Ok \<lparr>From = from, To = to, Amount = amount, Fee = fee, Nonce = nonce, ChainID = chain,
           Kind = kind, Gas = gas, Data = dat, PubKey = pub, Sig = sig\<rparr>)))))))))))"

text \<open>A counted loop over a reader, and the loop body of \<open>DecodeTxs\<close>.\<close>

primrec read_list ::
    "(bytes \<Rightarrow> (types_error, 'a \<times> bytes) result) \<Rightarrow> nat \<Rightarrow> bytes \<Rightarrow> (types_error, 'a list \<times> bytes) result" where
  "read_list get 0 r = Ok ([], r)"
| "read_list get (Suc n) r =
     rbind (get r) (\<lambda>(x, r1). rbind (read_list get n r1) (\<lambda>(xs, r2). Ok (x # xs, r2)))"

definition read_tx :: "bytes \<Rightarrow> (types_error, Transaction \<times> bytes) result" where
  "read_tx rest =
     (if length rest < 8 then Err ErrBadBody
      else let l = unat (be_get (take 8 rest) :: u64); rest1 = drop 8 rest in
        if length rest1 < l then Err ErrBadBody
        else rbind (decodeTx (take l rest1)) (\<lambda>t. Ok (t, drop l rest1)))"

definition DecodeTxs :: "bytes \<Rightarrow> (types_error, Transaction list) result" where
  "DecodeTxs data =
     (if length data < 4 then Err ErrBadBody
      else rbind (read_list read_tx (unat (be_get (take 4 data) :: u32)) (drop 4 data))
             (\<lambda>(txs, r). Ok txs))"

definition decodeLog :: "bytes \<Rightarrow> (types_error, Log) result" where
  "decodeLog data =
     rbind (readBytes data) (\<lambda>(contract, r).
     rbind (readU64 r) (\<lambda>(idx, r).
     rbind (readU64 r) (\<lambda>(n, r).
       if maxAlloc < 8 * unat n then Panic
       else rbind (read_list readU64 (unat n) r) (\<lambda>(topics, r).
         Ok \<lparr>Contract = contract, Topics = topics, TxIndex = sint idx\<rparr>))))"

definition read_log :: "bytes \<Rightarrow> (types_error, Log \<times> bytes) result" where
  "read_log r = rbind (readBytes r) (\<lambda>(raw, r1). rbind (decodeLog raw) (\<lambda>l. Ok (l, r1)))"

definition DecodeLogs :: "bytes \<Rightarrow> (types_error, Log list) result" where
  "DecodeLogs data =
     (if length data < 4 then Err ErrBadBody
      else rbind (read_list read_log (unat (be_get (take 4 data) :: u32)) (drop 4 data))
             (\<lambda>(logs, r). Ok logs))"

section \<open>The contract of a reader\<close>

text \<open>
  What every decoder promises of its encoder: reading back a written value returns it
  and leaves what follows untouched.  Injectivity and prefix-freeness of the encoding,
  and the counted loop over it, follow once and for all.
\<close>

locale codec =
  fixes put :: "'a \<Rightarrow> bytes"
    and get :: "bytes \<Rightarrow> (types_error, 'a \<times> bytes) result"
    and fits :: "'a \<Rightarrow> bool"
  assumes get_put: "fits x \<Longrightarrow> get (put x @ rest) = Ok (x, rest)"
begin

lemma put_prefix_free:
  assumes "fits x" "fits y" "put x @ r = put y @ s"
  shows "x = y \<and> r = s"
proof -
  have "Ok (x, r) = get (put x @ r)" by (rule get_put [OF assms(1), symmetric])
  also have "\<dots> = get (put y @ s)" by (rule arg_cong [OF assms(3)])
  also have "\<dots> = Ok (y, s)" by (rule get_put [OF assms(2)])
  finally show ?thesis by simp
qed

lemma put_inject: "fits x \<Longrightarrow> fits y \<Longrightarrow> put x = put y \<longleftrightarrow> x = y"
  using put_prefix_free [of x y "[]" "[]"] by (metis append_Nil2)

lemma read_list_put:
  "list_all fits xs \<Longrightarrow> read_list get (length xs) (concat (map put xs) @ rest) = Ok (xs, rest)"
  by (induction xs) (auto simp: get_put)

end

lemma read_n_append: "length b = n \<Longrightarrow> 0 < n \<Longrightarrow> read_n n (b @ rest) = Ok (b, rest)"
  by (auto simp: read_n_def)

definition short_field :: "bytes \<Rightarrow> bool" where
  "short_field b \<longleftrightarrow> length b \<le> maxAlloc"

lemma short_field_unat: "short_field b \<Longrightarrow> unat (of_nat (length b) :: u64) = length b"
  by (simp add: short_field_def maxAlloc_def unat_of_nat_small)

interpretation u64_codec: codec put_u64 readU64 "\<lambda>_. True"
  by unfold_locales (simp add: readU64_def read_n_append)

interpretation bytes_codec: codec putBytes readBytes short_field
proof unfold_locales
  fix x rest assume "short_field x"
  moreover from this have "x \<noteq> [] \<Longrightarrow> of_nat (length x) \<noteq> (0 :: u64)"
    using short_field_unat [of x] by auto
  ultimately show "readBytes (putBytes x @ rest) = Ok (x, rest)"
    using short_field_unat [of x] read_n_append [of x "length x" rest]
    by (cases "x = []") (auto simp: readBytes_def putBytes_def read_n_append short_field_def Let_def)
qed

lemma ReadByte_put: "ReadByte (b # rest) = Ok (b, rest)"
  by (simp add: ReadByte_def)

lemma putString_eq: "putString s = putBytes s"
  by (simp add: putString_def putBytes_def)

section \<open>Transactions and logs as codecs\<close>

definition tx_fits :: "Transaction \<Rightarrow> bool" where
  "tx_fits t \<longleftrightarrow> short_field (From t) \<and> short_field (To t) \<and> short_field (Data t)
     \<and> short_field (PubKey t) \<and> short_field (Sig t)"

lemma length_canonical:
  "length (canonical t) = 81 + length (From t) + length (To t) + length (Data t)
     + length (PubKey t) + length (Sig t)"
  by (simp add: canonical_def TxSigningBytes_def putString_def putBytes_def)

lemma decodeTx_canonical: "tx_fits t \<Longrightarrow> decodeTx (canonical t) = Ok t"
  using bytes_codec.get_put [of "Sig t" "[]"]
  by (simp add: decodeTx_def canonical_def TxSigningBytes_def putString_eq tx_fits_def
      bytes_codec.get_put u64_codec.get_put ReadByte_put)

interpretation tx_codec: codec "\<lambda>t. putBytes (canonical t)" read_tx tx_fits
proof unfold_locales
  fix t rest assume fits: "tx_fits t"
  then have "length (canonical t) < 2 ^ 64"
    by (simp add: length_canonical tx_fits_def short_field_def maxAlloc_def)
  then have "unat (of_nat (length (canonical t)) :: u64) = length (canonical t)"
    by (simp add: unat_of_nat_small)
  then show "read_tx (putBytes (canonical t) @ rest) = Ok (t, rest)"
    by (simp add: read_tx_def putBytes_def decodeTx_canonical [OF fits] Let_def)
qed

definition log_fits :: "Log \<Rightarrow> bool" where
  "log_fits l \<longleftrightarrow> length (Contract l) + 8 * length (Topics l) + 24 \<le> maxAlloc
     \<and> - (2 ^ 63) \<le> TxIndex l \<and> TxIndex l < 2 ^ 63"

lemma length_topics: "length (concat (map (be_put 8) (ts :: u64 list))) = 8 * length ts"
  by (induction ts) auto

lemma length_log_canonical:
  "length (log_canonical l) = 24 + length (Contract l) + 8 * length (Topics l)"
  by (simp add: log_canonical_def putString_def length_topics)

lemma decodeLog_canonical: "log_fits l \<Longrightarrow> decodeLog (log_canonical l) = Ok l"
proof -
  assume fits: "log_fits l"
  have idx: "sint (word_of_int (TxIndex l) :: u64) = TxIndex l"
    using fits by (simp add: sint_of_int_small log_fits_def)
  have n: "unat (of_nat (length (Topics l)) :: u64) = length (Topics l)"
    using fits by (simp add: log_fits_def maxAlloc_def unat_of_nat_small)
  have "short_field (Contract l)" using fits by (simp add: log_fits_def short_field_def)
  moreover have "8 * length (Topics l) \<le> maxAlloc" using fits by (simp add: log_fits_def)
  moreover have "read_list readU64 (length (Topics l)) (concat (map (be_put 8) (Topics l))) = Ok (Topics l, [])"
    using u64_codec.read_list_put [of "Topics l" "[]"] by (simp add: list_all_iff)
  ultimately show ?thesis
    using idx n by (simp add: decodeLog_def log_canonical_def putString_eq
        bytes_codec.get_put u64_codec.get_put)
qed

interpretation log_codec: codec "\<lambda>l. putBytes (log_canonical l)" read_log log_fits
proof unfold_locales
  fix l rest assume fits: "log_fits l"
  then have "short_field (log_canonical l)"
    by (simp add: short_field_def length_log_canonical log_fits_def)
  then show "read_log (putBytes (log_canonical l) @ rest) = Ok (l, rest)"
    by (simp add: read_log_def bytes_codec.get_put decodeLog_canonical [OF fits])
qed

section \<open>What the signed encodings bind\<close>

lemma TxSigningBytes_inject:
  assumes "tx_fits t" "tx_fits u" "TxSigningBytes t = TxSigningBytes u"
  shows "t\<lparr>Sig := []\<rparr> = u\<lparr>Sig := []\<rparr>"
proof -
  let ?t = "t\<lparr>Sig := []\<rparr>" and ?u = "u\<lparr>Sig := []\<rparr>"
  have fits: "tx_fits ?t" "tx_fits ?u" using assms(1,2) by (auto simp: tx_fits_def short_field_def)
  have sig: "TxSigningBytes (v\<lparr>Sig := []\<rparr>) = TxSigningBytes v" for v
    by (simp add: TxSigningBytes_def)
  have "Ok ?t = decodeTx (canonical ?t)" by (rule decodeTx_canonical [OF fits(1), symmetric])
  also have "canonical ?t = canonical ?u"
    unfolding canonical_def sig assms(3) by simp
  also have "decodeTx (canonical ?u) = Ok ?u" by (rule decodeTx_canonical [OF fits(2)])
  finally show ?thesis by simp
qed

text \<open>The types fix the widths of a header's digests; lists have to be told.\<close>

definition hdr_fits :: "Header \<Rightarrow> bool" where
  "hdr_fits h \<longleftrightarrow> length (PrevHash h) = 32 \<and> length (MerkleRoot h) = 32
     \<and> length (BodyHash h) = 32 \<and> length (LogsRoot h) = 32 \<and> short_field (Validator h)"

lemma append_inject_len: "length a = length b \<Longrightarrow> a @ x = b @ y \<longleftrightarrow> a = b \<and> x = y"
  by simp

lemma ucast_u32_inject: "(ucast (a :: u32) :: u64) = ucast b \<longleftrightarrow> a = b"
proof
  have "ucast (ucast (c :: u32) :: u64) = c" for c
    by (intro bit_word_eqI) (auto simp: bit_simps)
  moreover assume "(ucast a :: u64) = ucast b"
  ultimately show "a = b" by metis
qed simp

lemma HdrSigningBytes_inject:
  assumes "hdr_fits h" "hdr_fits g" "HdrSigningBytes h = HdrSigningBytes g"
  shows "h\<lparr>HdrSig := [], ValPubKey := []\<rparr> = g\<lparr>HdrSig := [], ValPubKey := []\<rparr>"
proof -
  define hx where "hx h = put_u64 (ucast (TxCount h)) @ put_u64 (ucast (Round h))
     @ [K (Spec h), M (Spec h)] @ BodyHash h @ LogsRoot h" for h :: Header
  have split: "HdrSigningBytes h = put_u64 (Height h) @ PrevHash h @ MerkleRoot h
      @ put_u64 (Timestamp h) @ putBytes (Validator h) @ hx h" for h :: Header
    by (simp add: HdrSigningBytes_def hx_def putString_eq)
  have eq: "Height h = Height g" "PrevHash h = PrevHash g" "MerkleRoot h = MerkleRoot g"
    "Timestamp h = Timestamp g" "putBytes (Validator h) @ hx h = putBytes (Validator g) @ hx g"
    using assms by (simp_all add: split hdr_fits_def)
  then have v: "Validator h = Validator g" "hx h = hx g"
    using bytes_codec.put_prefix_free [of "Validator h" "Validator g"] assms(1,2)
    by (auto simp: hdr_fits_def)
  from v(2) have "TxCount h = TxCount g" "Round h = Round g" "K (Spec h) = K (Spec g)"
    "M (Spec h) = M (Spec g)" "BodyHash h = BodyHash g" "LogsRoot h = LogsRoot g"
    using assms(1,2) by (simp_all add: hx_def hdr_fits_def ucast_u32_inject)
  with eq v(1) show ?thesis by simp
qed

section \<open>Properties\<close>

lemma DecodeTxs_written:
  assumes "list_all tx_fits txs" and "length txs < 2 ^ 32"
  shows "DecodeTxs (EncodeTxs txs) = Ok txs"
proof -
  have "unat (of_nat (length txs) :: u32) = length txs"
    using assms(2) by (simp add: unat_of_nat_small)
  with tx_codec.read_list_put [OF assms(1), of "[]"] show ?thesis
    by (simp add: DecodeTxs_def EncodeTxs_def)
qed

text \<open>
  C11. A block body survives its encoding: decoding the canonical encoding of any list
  of transactions (fewer than \<open>2^32\<close>, with allocatable fields) returns exactly that
  list, without error and without panic.  This is the round trip reconstruction relies on.
\<close>

theorem DecodeTxs_EncodeTxs:
  assumes "list_all tx_fits txs" and "length txs < 2 ^ 32"
  shows "DecodeTxs (EncodeTxs txs) = Ok txs"
  by (rule DecodeTxs_written [OF assms])

definition sample_tx :: Transaction where
  "sample_tx = \<lparr>From = [0x73, 0x6c], To = [0x61], Amount = 5, Fee = 1, Nonce = 0, ChainID = 1,
     Kind = 0, Gas = 0, Data = [], PubKey = [1], Sig = [2, 3]\<rparr>"

theorem DecodeTxs_EncodeTxs_witness:
  "list_all tx_fits [sample_tx, sample_tx\<lparr>Nonce := 1\<rparr>]
   \<and> DecodeTxs (EncodeTxs [sample_tx, sample_tx\<lparr>Nonce := 1\<rparr>]) = Ok [sample_tx, sample_tx\<lparr>Nonce := 1\<rparr>]"
proof -
  have fits: "list_all tx_fits [sample_tx, sample_tx\<lparr>Nonce := 1\<rparr>]"
    by (simp add: tx_fits_def short_field_def maxAlloc_def sample_tx_def)
  show ?thesis using fits DecodeTxs_EncodeTxs [OF fits] by simp
qed

text \<open>
  Event logs survive their encoding: decoding the encoding of any list of logs
  returns exactly that list, so reconstructed log shards yield the logs that were
  committed.
\<close>

theorem DecodeLogs_EncodeLogs:
  assumes "list_all log_fits logs" and "length logs < 2 ^ 32"
  shows "DecodeLogs (EncodeLogs logs) = Ok logs"
proof -
  have "unat (of_nat (length logs) :: u32) = length logs"
    using assms(2) by (simp add: unat_of_nat_small)
  with log_codec.read_list_put [OF assms(1), of "[]"] show ?thesis
    by (simp add: DecodeLogs_def EncodeLogs_def)
qed

theorem DecodeLogs_EncodeLogs_witness:
  "DecodeLogs (EncodeLogs [\<lparr>Contract = [0x73], Topics = [1, 2], TxIndex = 3\<rparr>])
     = Ok [\<lparr>Contract = [0x73], Topics = [1, 2], TxIndex = 3\<rparr>]"
  using DecodeLogs_EncodeLogs [of "[\<lparr>Contract = [0x73], Topics = [1, 2], TxIndex = 3\<rparr>]"]
  by (simp add: log_fits_def maxAlloc_def)

text \<open>
  C20. A transaction signature covers every field but itself: two transactions with the
  same signing bytes agree on sender, recipient, amount, fee, nonce, chain id, kind, gas,
  data and public key.  No field can be shifted into another.
\<close>

theorem tx_signature_binds_fields:
  assumes "tx_fits t" and "tx_fits u" and "TxSigningBytes t = TxSigningBytes u"
  shows "u = t\<lparr>Sig := Sig u\<rparr>"
proof -
  have "t\<lparr>Sig := []\<rparr>\<lparr>Sig := Sig u\<rparr> = u\<lparr>Sig := []\<rparr>\<lparr>Sig := Sig u\<rparr>"
    using TxSigningBytes_inject [OF assms] by simp
  then show ?thesis by simp
qed

theorem tx_signature_binds_fields_witness:
  "TxSigningBytes sample_tx = TxSigningBytes (sample_tx\<lparr>Sig := [9]\<rparr>)
   \<and> sample_tx\<lparr>Sig := [9]\<rparr> = sample_tx\<lparr>Sig := Sig (sample_tx\<lparr>Sig := [9]\<rparr>)\<rparr>"
proof -
  have eq: "TxSigningBytes sample_tx = TxSigningBytes (sample_tx\<lparr>Sig := [9]\<rparr>)"
    by (simp add: TxSigningBytes_def)
  have "tx_fits sample_tx" "tx_fits (sample_tx\<lparr>Sig := [9]\<rparr>)"
    by (simp_all add: tx_fits_def short_field_def maxAlloc_def sample_tx_def)
  from eq tx_signature_binds_fields [OF this eq] show ?thesis by blast
qed

text \<open>
  C22. A block id identifies the header up to the two fields the signing bytes leave out: if the signing bytes of two headers do not collide
  under the hash function, the ids are equal exactly when the headers agree on every field but the signature and the public key of the
  validator.  The signature check binds that key too: if both headers pass it and their keys do not collide as addresses, only the
  signature may differ.
\<close>

theorem block_id_binds_header:
  assumes "hdr_fits h" and "hdr_fits g" and "inj_on H {HdrSigningBytes h, HdrSigningBytes g}"
  shows "(ID H h = ID H g \<longleftrightarrow> g = h\<lparr>HdrSig := HdrSig g, ValPubKey := ValPubKey g\<rparr>) \<and>
    (ID H h = ID H g \<and> HdrVerifySig H V h = None \<and> HdrVerifySig H V g = None \<and> inj_on (AddressFromPub H) {ValPubKey h, ValPubKey g}
       \<longrightarrow> g = h\<lparr>HdrSig := HdrSig g\<rparr>)"
proof -
  have eq: "g = h\<lparr>HdrSig := HdrSig g, ValPubKey := ValPubKey g\<rparr>" if "ID H h = ID H g"
  proof -
    have "HdrSigningBytes h = HdrSigningBytes g" using that assms(3) by (auto simp: ID_def dest: inj_onD)
    then have "h\<lparr>HdrSig := [], ValPubKey := []\<rparr> = g\<lparr>HdrSig := [], ValPubKey := []\<rparr>"
      by (rule HdrSigningBytes_inject [OF assms(1,2)])
    then have "h\<lparr>HdrSig := [], ValPubKey := []\<rparr>\<lparr>HdrSig := HdrSig g, ValPubKey := ValPubKey g\<rparr>
        = g\<lparr>HdrSig := [], ValPubKey := []\<rparr>\<lparr>HdrSig := HdrSig g, ValPubKey := ValPubKey g\<rparr>"
      by simp
    then show ?thesis by simp
  qed
  moreover have "ID H h = ID H g" if "g = h\<lparr>HdrSig := HdrSig g, ValPubKey := ValPubKey g\<rparr>"
    by (subst that) (simp add: ID_def HdrSigningBytes_def)
  moreover have "g = h\<lparr>HdrSig := HdrSig g\<rparr>"
    if "ID H h = ID H g" "HdrVerifySig H V h = None" "HdrVerifySig H V g = None" "inj_on (AddressFromPub H) {ValPubKey h, ValPubKey g}"
  proof -
    note e = eq [OF that(1)]
    have "AddressFromPub H (ValPubKey h) = Validator h" "AddressFromPub H (ValPubKey g) = Validator g"
      using that(2,3) by (simp_all add: HdrVerifySig_def PubMatchesAddress_def split: if_splits)
    moreover have "Validator g = Validator h" by (subst e) simp
    ultimately have "ValPubKey g = ValPubKey h" using that(4) by (auto dest: inj_onD)
    then show ?thesis using e by simp
  qed
  ultimately show ?thesis by blast
qed

definition sample_hdr :: Header where
  "sample_hdr = \<lparr>Height = 1, PrevHash = Zero, MerkleRoot = Zero, Timestamp = 7, Validator = [0x73],
     TxCount = 0, Round = 0, Spec = \<lparr>K = 2, M = 1\<rparr>, BodyHash = Zero, LogsRoot = Zero,
     HdrSig = [], ValPubKey = []\<rparr>"

theorem block_id_binds_header_witness:
  "ID sha256 sample_hdr = ID sha256 (sample_hdr\<lparr>HdrSig := [4], ValPubKey := [5]\<rparr>) \<and>
   ID (\<lambda>m. m) sample_hdr \<noteq> ID (\<lambda>m. m) (sample_hdr\<lparr>Height := 2\<rparr>)"
proof -
  let ?g = "sample_hdr\<lparr>HdrSig := [4], ValPubKey := [5]\<rparr>" and ?k = "sample_hdr\<lparr>Height := 2\<rparr>"
  have fits: "hdr_fits sample_hdr" "hdr_fits ?g" "hdr_fits ?k"
    by (simp_all add: hdr_fits_def sample_hdr_def Zero_def short_field_def maxAlloc_def)
  have "HdrSigningBytes sample_hdr = HdrSigningBytes ?g" by (simp add: HdrSigningBytes_def)
  then have "inj_on sha256 {HdrSigningBytes sample_hdr, HdrSigningBytes ?g}" by simp
  moreover have "inj_on (\<lambda>m. m) {HdrSigningBytes sample_hdr, HdrSigningBytes ?k}" by simp
  ultimately show ?thesis
    using block_id_binds_header [OF fits(1,2), of sha256] block_id_binds_header [OF fits(1,3), of "\<lambda>m. m"]
    by (simp add: sample_hdr_def)
qed

text \<open>
  Signing works: a transaction signed by the code passes the code's own signature
  check, for any hash function and any signature scheme that accepts its own signatures
  under the key pair used, with a public key of Ed25519 size.
\<close>

theorem signed_tx_verifies:
  assumes "length (Pub kp) = PublicKeySize" and "\<And>m. edVerify (Pub kp) m (edSign (Priv kp) m)"
  shows "TxVerifySig H edVerify (SignTx H edSign kp t) = None"
  using assms
  by (simp add: TxVerifySig_def SignTx_def Let_def PubMatchesAddress_def Address_def VerifyMsg_def
      Sign_def TxSigningBytes_def)

theorem signed_tx_verifies_witness:
  "TxVerifySig sha256 (\<lambda>pub m s. s = pub @ m)
     (SignTx sha256 (\<lambda>priv m. priv @ m) \<lparr>Priv = replicate 32 1, Pub = replicate 32 1\<rparr> sample_tx) = None"
  by (rule signed_tx_verifies) (simp_all add: PublicKeySize_def)

text \<open>
  What the decoder does with malformed fields: a field that is cut short is
  accepted and filled up with zero bytes instead of being rejected, and a length above
  the allocation limit panics before the input is consulted.
\<close>

theorem readBytes_malformed:
  assumes "short_field b" and "0 < k" and "k \<le> length b"
  shows "readBytes (put_u64 (of_nat (length b)) @ take k b) = Ok (take k b @ replicate (length b - k) 0, [])
    \<and> (maxAlloc < unat n \<longrightarrow> readBytes (put_u64 n @ rest) = Panic)"
proof -
  have len: "unat (of_nat (length b) :: u64) = length b" using assms(1) by (rule short_field_unat)
  with assms(2,3) have "(of_nat (length b) :: u64) \<noteq> 0" by auto
  with len assms show ?thesis
    by (auto simp: readBytes_def read_n_append read_n_def short_field_def min_def)
qed

theorem readBytes_malformed_witness:
  "readBytes (put_u64 2 @ [7]) = Ok ([7, 0], []) \<and> readBytes (put_u64 (2 ^ 63) @ [7]) = Panic"
  using readBytes_malformed [of "[7, 8]" 1 "2 ^ 63" "[7]"]
  by (simp add: short_field_def maxAlloc_def)

end
