(* ===== verification/SL_Vm.thy ===== *)
theory SL_Vm
  imports SL_Sha256
begin

text \<open>
  \<^verbatim>\<open>internal/vm/vm.go\<close>: the contract virtual machine, a stack machine over \<open>uint64\<close>
  words with gas metering, per-contract storage and calls to other contracts.

  One definition per arm of the interpreter's switch; \<open>vm_step\<close> is the switch,
  \<open>vm_loop\<close> the loop (its step counter is the termination measure, no fuel is added),
  \<open>ExecuteB\<close> the entry point.  The interface \<^verbatim>\<open>CallHost\<close> is a function over a host
  state \<open>'h\<close>: a call may change the host state even when the calling contract fails
  afterwards, so every run returns the host state next to its outcome.  \<open>None\<close> as the
  answer of a host is a panic inside the callee.  The interpreter stack is kept with its
  top at the head.
\<close>

section \<open>Instructions\<close>

datatype opcode =
    STOP | PUSH | POP | ADD | SUB | MUL | DIV | MOD | ADDC | SUBC | MULC
  | EQ | LT | GT | ISZERO | AND | OR | NOT | DUP | SWAP | JUMP | JUMPI
  | SLOAD | SSTORE | MIX | CALLER | VALUE | BAL | CDLOAD | SELF | CALL | RETURN | REVERT | LOG
  | CDLEN | BSTORE | BEQ | BLEN | BHASH | CALLERB | SELFB | RETURNB

primrec opcode_byte :: "opcode \<Rightarrow> byte" where
  "opcode_byte STOP = 0x00"
| "opcode_byte PUSH = 0x01"
| "opcode_byte POP = 0x02"
| "opcode_byte ADD = 0x10"
| "opcode_byte SUB = 0x11"
| "opcode_byte MUL = 0x12"
| "opcode_byte DIV = 0x13"
| "opcode_byte MOD = 0x14"
| "opcode_byte ADDC = 0x15"
| "opcode_byte SUBC = 0x16"
| "opcode_byte MULC = 0x17"
| "opcode_byte EQ = 0x20"
| "opcode_byte LT = 0x21"
| "opcode_byte GT = 0x22"
| "opcode_byte ISZERO = 0x23"
| "opcode_byte AND = 0x24"
| "opcode_byte OR = 0x25"
| "opcode_byte NOT = 0x26"
| "opcode_byte DUP = 0x30"
| "opcode_byte SWAP = 0x31"
| "opcode_byte JUMP = 0x40"
| "opcode_byte JUMPI = 0x41"
| "opcode_byte SLOAD = 0x50"
| "opcode_byte SSTORE = 0x51"
| "opcode_byte MIX = 0x57"
| "opcode_byte CALLER = 0x60"
| "opcode_byte VALUE = 0x61"
| "opcode_byte BAL = 0x62"
| "opcode_byte CDLOAD = 0x63"
| "opcode_byte SELF = 0x64"
| "opcode_byte CALL = 0x71"
| "opcode_byte RETURN = 0x70"
| "opcode_byte REVERT = 0x74"
| "opcode_byte LOG = 0x72"
| "opcode_byte CDLEN = 0x66"
| "opcode_byte BSTORE = 0x53"
| "opcode_byte BEQ = 0x54"
| "opcode_byte BLEN = 0x55"
| "opcode_byte BHASH = 0x56"
| "opcode_byte CALLERB = 0x67"
| "opcode_byte SELFB = 0x68"
| "opcode_byte RETURNB = 0x73"

definition all_opcodes :: "opcode list" where
  "all_opcodes = [STOP, PUSH, POP, ADD, SUB, MUL, DIV, MOD, ADDC, SUBC, MULC,
     EQ, LT, GT, ISZERO, AND, OR, NOT, DUP, SWAP, JUMP, JUMPI,
     SLOAD, SSTORE, MIX, CALLER, VALUE, BAL, CDLOAD, SELF, CALL, RETURN, REVERT, LOG,
     CDLEN, BSTORE, BEQ, BLEN, BHASH, CALLERB, SELFB, RETURNB]"

text \<open>The byte a \<open>switch\<close> arm matches; \<open>None\<close> is the default arm.\<close>

definition opcode_of :: "byte \<Rightarrow> opcode option" where
  "opcode_of b = find (\<lambda>op. opcode_byte op = b) all_opcodes"

definition maxLogTopics :: u64 where "maxLogTopics = 8"
definition maxStack :: nat where "maxStack = 1024"
definition maxSteps :: int where "maxSteps = 1000000"
definition maxDepth :: int where "maxDepth = 8"

datatype vm_error =
  ErrOutOfGas | ErrStackUnder | ErrStackOver | ErrBadJump | ErrDivZero | ErrBadCode
  | ErrStepLimit | ErrRevert | ErrOverflow

definition gasCost :: "byte \<Rightarrow> u64" where
  "gasCost b =
     (case opcode_of b of
        None \<Rightarrow> 1
      | Some op \<Rightarrow>
          if op \<in> {SSTORE, BSTORE, CALLERB, SELFB} then 100
          else if op = LOG then 50
          else if op \<in> {SLOAD, BEQ, BHASH, MIX} then 20
          else if op = PUSH then 3
          else 1)"

section \<open>Machine state\<close>

record Context =
  CtxCaller :: u64
  CtxSelf :: u64
  CtxCallerAddr :: bytes
  CtxSelfAddr :: bytes
  CtxValue :: u64
  CtxBalance :: u64
  CtxDepth :: int

record Result =
  GasUsed :: u64
  Return :: u64
  ReturnBytes :: bytes
  Stack :: "u64 list"
  Logs :: "u64 list list"

type_synonym 'h host = "'h \<Rightarrow> u64 \<Rightarrow> u64 \<Rightarrow> u64 \<Rightarrow> u64 \<Rightarrow> int \<Rightarrow> 'h \<times> (u64 \<times> u64 \<times> bool) option"

record vm =
  pc :: int
  st :: "u64 list"
  used :: u64
  work :: "(u64, u64) gomap"
  bwork :: "(u64, bytes) gomap"
  ret :: u64
  retBytes :: bytes
  logs :: "u64 list list"

datatype 's ctl = Continue 's | Halt 's

type_synonym vm_out = "(vm_error, vm ctl) result"

definition push :: "u64 \<Rightarrow> vm \<Rightarrow> (vm_error, vm) result" where
  "push v s = (if maxStack \<le> length (st s) then Err ErrStackOver else Ok (s\<lparr>st := v # st s\<rparr>))"

definition pop :: "vm \<Rightarrow> (vm_error, u64 \<times> vm) result" where
  "pop s = (case st s of [] \<Rightarrow> Err ErrStackUnder | v # r \<Rightarrow> Ok (v, s\<lparr>st := r\<rparr>))"

text \<open>A \<open>push\<close> whose error is ignored, and an append that skips the check.\<close>

definition push_ignore :: "u64 \<Rightarrow> vm \<Rightarrow> vm" where
  "push_ignore v s = (case push v s of Ok s' \<Rightarrow> s' | _ \<Rightarrow> s)"

definition append_st :: "u64 \<Rightarrow> vm \<Rightarrow> vm" where
  "append_st v s = s\<lparr>st := v # st s\<rparr>"

definition cont :: "(vm_error, vm) result \<Rightarrow> vm_out" where
  "cont r = rbind r (\<lambda>s. Ok (Continue s))"

definition b2u :: "bool \<Rightarrow> u64" where
  "b2u b = (if b then 1 else 0)"

definition binop :: "opcode \<Rightarrow> u64 \<Rightarrow> u64 \<Rightarrow> (vm_error, u64) result" where
  "binop op a b =
     (case op of
        ADD \<Rightarrow> Ok (a + b)
      | SUB \<Rightarrow> Ok (a - b)
      | MUL \<Rightarrow> Ok (a * b)
      | DIV \<Rightarrow> if b = 0 then Err ErrDivZero else Ok (a div b)
      | MOD \<Rightarrow> if b = 0 then Err ErrDivZero else Ok (a mod b)
      | EQ \<Rightarrow> Ok (b2u (a = b))
      | LT \<Rightarrow> Ok (b2u (a < b))
      | GT \<Rightarrow> Ok (b2u (b < a))
      | AND \<Rightarrow> Ok (and a b)
      | OR \<Rightarrow> Ok (or a b)
      | _ \<Rightarrow> Err ErrBadCode)"

definition checked :: "opcode \<Rightarrow> u64 \<Rightarrow> u64 \<Rightarrow> (vm_error, u64) result" where
  "checked op a b =
     (case op of
        ADDC \<Rightarrow> let r = a + b in if r < a then Err ErrOverflow else Ok r
      | SUBC \<Rightarrow> if a < b then Err ErrOverflow else Ok (a - b)
      | _ \<Rightarrow> let r = a * b in if a \<noteq> 0 \<and> r div a \<noteq> b then Err ErrOverflow else Ok r)"

definition vm_word :: "bytes \<Rightarrow> u64 \<Rightarrow> (vm_error, u64) result" where
  "vm_word input idx =
     (let off = idx * 8 in
      if of_nat (length input) < off + 8 then Ok 0
      else if length input < unat off + 8 then Panic  \<comment> \<open>\<open>input[off+i]\<close> out of range\<close>
      else Ok (be_get (take 8 (drop (unat off) input))))"

definition load :: "(u64, u64) gomap \<Rightarrow> u64 \<Rightarrow> u64" where
  "load m k = (case map_of m k of None \<Rightarrow> 0 | Some v \<Rightarrow> v)"

definition bload :: "(u64, bytes) gomap \<Rightarrow> u64 \<Rightarrow> bytes" where
  "bload m k = (case map_of m k of None \<Rightarrow> [] | Some v \<Rightarrow> v)"

definition beU64 :: "bytes \<Rightarrow> u64" where
  "beU64 b = be_get (take 8 b)"

section \<open>The arms of the switch\<close>

definition exec_push :: "bytes \<Rightarrow> vm \<Rightarrow> (vm_error, vm) result" where
  "exec_push code s =
     (if int (length code) < pc s + 8 then Err ErrBadCode
      else push (be_get (take 8 (drop (nat (pc s)) code))) (s\<lparr>pc := pc s + 8\<rparr>))"

definition exec_pop :: "vm \<Rightarrow> (vm_error, vm) result" where
  "exec_pop s = rbind (pop s) (\<lambda>(_, s). Ok s)"

definition exec_binop :: "opcode \<Rightarrow> vm \<Rightarrow> (vm_error, vm) result" where
  "exec_binop op s =
     rbind (pop s) (\<lambda>(b, s). rbind (pop s) (\<lambda>(a, s). rbind (binop op a b) (\<lambda>r. push r s)))"

definition exec_checked :: "opcode \<Rightarrow> vm \<Rightarrow> (vm_error, vm) result" where
  "exec_checked op s =
     rbind (pop s) (\<lambda>(b, s). rbind (pop s) (\<lambda>(a, s). rbind (checked op a b) (\<lambda>r. push r s)))"

definition exec_mix :: "(bytes \<Rightarrow> hash) \<Rightarrow> vm \<Rightarrow> (vm_error, vm) result" where
  "exec_mix H s =
     rbind (pop s) (\<lambda>(k, s). rbind (pop s) (\<lambda>(base, s). push (beU64 (H (put_u64 base @ put_u64 k))) s))"

definition exec_unary :: "opcode \<Rightarrow> vm \<Rightarrow> (vm_error, vm) result" where
  "exec_unary op s =
     rbind (pop s) (\<lambda>(a, s). Ok (append_st (if op = ISZERO then b2u (a = 0) else not a) s))"

definition exec_dup :: "vm \<Rightarrow> (vm_error, vm) result" where
  "exec_dup s = rbind (pop s) (\<lambda>(a, s). push a (push_ignore a s))"

definition exec_swap :: "vm \<Rightarrow> (vm_error, vm) result" where
  "exec_swap s =
     rbind (pop s) (\<lambda>(b, s). rbind (pop s) (\<lambda>(a, s). Ok (push_ignore a (push_ignore b s))))"

text \<open>
  \<^verbatim>\<open>int(dest) >= len(code)\<close> compares after a conversion to a signed integer, so a
  destination of \<open>2^63\<close> or more is negative and passes.
\<close>

definition jump_to :: "bytes \<Rightarrow> u64 \<Rightarrow> vm \<Rightarrow> (vm_error, vm) result" where
  "jump_to code dest s =
     (if int (length code) \<le> sint dest then Err ErrBadJump else Ok (s\<lparr>pc := sint dest\<rparr>))"

definition exec_jump :: "bytes \<Rightarrow> vm \<Rightarrow> (vm_error, vm) result" where
  "exec_jump code s = rbind (pop s) (\<lambda>(dest, s). jump_to code dest s)"

definition exec_jumpi :: "bytes \<Rightarrow> vm \<Rightarrow> (vm_error, vm) result" where
  "exec_jumpi code s =
     rbind (pop s) (\<lambda>(dest, s). rbind (pop s) (\<lambda>(cond, s).
       if cond \<noteq> 0 then jump_to code dest s else Ok s))"

definition exec_sload :: "vm \<Rightarrow> (vm_error, vm) result" where
  "exec_sload s = rbind (pop s) (\<lambda>(k, s). push (load (work s) k) s)"

definition exec_sstore :: "vm \<Rightarrow> (vm_error, vm) result" where
  "exec_sstore s =
     rbind (pop s) (\<lambda>(v, s). rbind (pop s) (\<lambda>(k, s). Ok (s\<lparr>work := AList.update k v (work s)\<rparr>)))"

definition exec_cdload :: "bytes \<Rightarrow> vm \<Rightarrow> (vm_error, vm) result" where
  "exec_cdload input s =
     rbind (pop s) (\<lambda>(idx, s). rbind (vm_word input idx) (\<lambda>v. push v s))"

definition exec_call ::
    "'h host option \<Rightarrow> u64 \<Rightarrow> Context \<Rightarrow> 'h \<Rightarrow> vm \<Rightarrow> 'h \<times> (vm_error, vm) result" where
  "exec_call host gas ctx h s =
     (case rbind (pop s) (\<lambda>(gl, s). rbind (pop s) (\<lambda>(arg, s). rbind (pop s) (\<lambda>(target, s).
             Ok (gl, arg, target, s)))) of
        Err e \<Rightarrow> (h, Err e)
      | Panic \<Rightarrow> (h, Panic)
      | Ok (gl, arg, target, s) \<Rightarrow>
          (case host of
             None \<Rightarrow> (h, push 0 s)
           | Some callee \<Rightarrow>
               if maxDepth \<le> CtxDepth ctx then (h, push 0 s)
               else let rem = gas - used s; forward = (if rem < gl then rem else gl) in
                 (case callee h (CtxSelf ctx) target arg forward (CtxDepth ctx + 1) of
                    (h', None) \<Rightarrow> (h', Panic)
                  | (h', Some (ret2, gu, ok)) \<Rightarrow>
                      let s' = s\<lparr>used := used s + gu\<rparr> in
                      if gas < used s' then (h', Err ErrOutOfGas)
                      else (h', push (if ok then ret2 else 0) s'))))"

primrec pop_n :: "nat \<Rightarrow> vm \<Rightarrow> (vm_error, u64 list \<times> vm) result" where
  "pop_n 0 s = Ok ([], s)"
| "pop_n (Suc k) s =
     rbind (pop s) (\<lambda>(v, s). rbind (pop_n k s) (\<lambda>(ts, s). Ok (ts @ [v], s)))"

definition exec_log :: "u64 \<Rightarrow> vm \<Rightarrow> (vm_error, vm) result" where
  "exec_log gas s =
     rbind (pop s) (\<lambda>(n, s).
       if maxLogTopics < n then Err ErrBadCode
       else if gas < used s + 8 * n then Err ErrOutOfGas
       else rbind (pop_n (unat n) (s\<lparr>used := used s + 8 * n\<rparr>)) (\<lambda>(topics, s).
         Ok (s\<lparr>logs := logs s @ [topics]\<rparr>)))"

definition exec_bstore :: "bytes \<Rightarrow> vm \<Rightarrow> (vm_error, vm) result" where
  "exec_bstore input s =
     rbind (pop s) (\<lambda>(bkey, s). rbind (pop s) (\<lambda>(off, s). rbind (pop s) (\<lambda>(ln, s).
       if of_nat (length input) < off + ln \<or> off + ln < off then Err ErrBadCode
       else Ok (s\<lparr>bwork := AList.update bkey (take (unat ln) (drop (unat off) input)) (bwork s)\<rparr>))))"

definition exec_beq :: "vm \<Rightarrow> (vm_error, vm) result" where
  "exec_beq s =
     rbind (pop s) (\<lambda>(a, s). rbind (pop s) (\<lambda>(b, s).
       push (b2u (bload (bwork s) a = bload (bwork s) b)) s))"

definition exec_blen :: "vm \<Rightarrow> (vm_error, vm) result" where
  "exec_blen s = rbind (pop s) (\<lambda>(k, s). push (of_nat (length (bload (bwork s) k))) s)"

definition exec_bhash :: "(bytes \<Rightarrow> hash) \<Rightarrow> vm \<Rightarrow> (vm_error, vm) result" where
  "exec_bhash H s = rbind (pop s) (\<lambda>(k, s). push (beU64 (H (bload (bwork s) k))) s)"

definition exec_bset :: "bytes \<Rightarrow> vm \<Rightarrow> (vm_error, vm) result" where
  "exec_bset addr s = rbind (pop s) (\<lambda>(k, s). Ok (s\<lparr>bwork := AList.update k addr (bwork s)\<rparr>))"

definition exec_returnb :: "vm \<Rightarrow> vm_out" where
  "exec_returnb s = rbind (pop s) (\<lambda>(k, s). Ok (Halt (s\<lparr>retBytes := bload (bwork s) k\<rparr>)))"

definition exec_return :: "vm \<Rightarrow> vm_out" where
  "exec_return s = rbind (pop s) (\<lambda>(r, s). Ok (Halt (s\<lparr>ret := r\<rparr>)))"

section \<open>Switch, loop and entry point\<close>

definition step_local ::
    "(bytes \<Rightarrow> hash) \<Rightarrow> bytes \<Rightarrow> bytes \<Rightarrow> u64 \<Rightarrow> Context \<Rightarrow> opcode \<Rightarrow> vm \<Rightarrow> vm_out" where
  "step_local H code input gas ctx op s =
     (case op of
        STOP \<Rightarrow> Ok (Halt s)
      | PUSH \<Rightarrow> cont (exec_push code s)
      | POP \<Rightarrow> cont (exec_pop s)
      | ADD \<Rightarrow> cont (exec_binop op s)
      | SUB \<Rightarrow> cont (exec_binop op s)
      | MUL \<Rightarrow> cont (exec_binop op s)
      | DIV \<Rightarrow> cont (exec_binop op s)
      | MOD \<Rightarrow> cont (exec_binop op s)
      | EQ \<Rightarrow> cont (exec_binop op s)
      | LT \<Rightarrow> cont (exec_binop op s)
      | GT \<Rightarrow> cont (exec_binop op s)
      | AND \<Rightarrow> cont (exec_binop op s)
      | OR \<Rightarrow> cont (exec_binop op s)
      | ADDC \<Rightarrow> cont (exec_checked op s)
      | SUBC \<Rightarrow> cont (exec_checked op s)
      | MULC \<Rightarrow> cont (exec_checked op s)
      | MIX \<Rightarrow> cont (exec_mix H s)
      | REVERT \<Rightarrow> Err ErrRevert
      | ISZERO \<Rightarrow> cont (exec_unary op s)
      | NOT \<Rightarrow> cont (exec_unary op s)
      | DUP \<Rightarrow> cont (exec_dup s)
      | SWAP \<Rightarrow> cont (exec_swap s)
      | JUMP \<Rightarrow> cont (exec_jump code s)
      | JUMPI \<Rightarrow> cont (exec_jumpi code s)
      | SLOAD \<Rightarrow> cont (exec_sload s)
      | SSTORE \<Rightarrow> cont (exec_sstore s)
      | CALLER \<Rightarrow> cont (push (CtxCaller ctx) s)
      | VALUE \<Rightarrow> cont (push (CtxValue ctx) s)
      | BAL \<Rightarrow> cont (push (CtxBalance ctx) s)
      | CDLOAD \<Rightarrow> cont (exec_cdload input s)
      | SELF \<Rightarrow> cont (push (CtxSelf ctx) s)
      | CALL \<Rightarrow> Err ErrBadCode  \<comment> \<open>not local: handled by \<open>vm_step\<close>\<close>
      | LOG \<Rightarrow> cont (exec_log gas s)
      | CDLEN \<Rightarrow> cont (push (of_nat (length input)) s)
      | BSTORE \<Rightarrow> cont (exec_bstore input s)
      | BEQ \<Rightarrow> cont (exec_beq s)
      | BLEN \<Rightarrow> cont (exec_blen s)
      | BHASH \<Rightarrow> cont (exec_bhash H s)
      | CALLERB \<Rightarrow> cont (exec_bset (CtxCallerAddr ctx) s)
      | SELFB \<Rightarrow> cont (exec_bset (CtxSelfAddr ctx) s)
      | RETURNB \<Rightarrow> exec_returnb s
      | RETURN \<Rightarrow> exec_return s)"

definition vm_step ::
    "(bytes \<Rightarrow> hash) \<Rightarrow> 'h host option \<Rightarrow> bytes \<Rightarrow> bytes \<Rightarrow> u64 \<Rightarrow> Context \<Rightarrow> byte \<Rightarrow> 'h \<Rightarrow> vm
       \<Rightarrow> 'h \<times> vm_out" where
  "vm_step H host code input gas ctx b h s =
     (case opcode_of b of
        None \<Rightarrow> (h, Err ErrBadCode)
      | Some op \<Rightarrow>
          if op = CALL then (case exec_call host gas ctx h s of (h', r) \<Rightarrow> (h', cont r))
          else (h, step_local H code input gas ctx op s))"

function vm_loop ::
    "(bytes \<Rightarrow> hash) \<Rightarrow> 'h host option \<Rightarrow> bytes \<Rightarrow> bytes \<Rightarrow> u64 \<Rightarrow> Context \<Rightarrow> int \<Rightarrow> 'h \<Rightarrow> vm
       \<Rightarrow> 'h \<times> (vm_error, vm) result" where
  "vm_loop H host code input gas ctx steps h s =
     (if \<not> pc s < int (length code) then (h, Ok s)
      else if maxSteps < steps + 1 then (h, Err ErrStepLimit)
      else if pc s < 0 then (h, Panic)  \<comment> \<open>\<open>code[pc]\<close> out of range\<close>
      else let b = code ! nat (pc s); c = gasCost b in
        if gas < used s + c then (h, Err ErrOutOfGas)
        else (case vm_step H host code input gas ctx b h (s\<lparr>used := used s + c, pc := pc s + 1\<rparr>) of
                (h', Ok (Continue s')) \<Rightarrow> vm_loop H host code input gas ctx (steps + 1) h' s'
              | (h', Ok (Halt s')) \<Rightarrow> (h', Ok s')
              | (h', Err e) \<Rightarrow> (h', Err e)
              | (h', Panic) \<Rightarrow> (h', Panic)))"
  by pat_completeness auto
termination
  by (relation "measure (\<lambda>(H, host, code, input, gas, ctx, steps, h, s). nat (maxSteps - steps))") auto

declare vm_loop.simps [simp del]

definition vm_init :: "(u64, u64) gomap \<Rightarrow> (u64, bytes) gomap option \<Rightarrow> vm" where
  "vm_init storage bstore =
     \<lparr>pc = 0, st = [], used = 0, work = storage,
      bwork = (case bstore of None \<Rightarrow> [] | Some b \<Rightarrow> b), ret = 0, retBytes = [], logs = []\<rparr>"

text \<open>The storage maps after the run (the byte store stays nil if it was nil) and the result.\<close>

definition commitB ::
    "(u64, bytes) gomap option \<Rightarrow> vm \<Rightarrow> (u64, u64) gomap \<times> (u64, bytes) gomap option \<times> Result" where
  "commitB bstore s =
     (work s, map_option (\<lambda>_. bwork s) bstore,
      \<lparr>GasUsed = used s, Return = ret s, ReturnBytes = retBytes s, Stack = rev (st s), Logs = logs s\<rparr>)"

definition ExecuteB ::
    "(bytes \<Rightarrow> hash) \<Rightarrow> 'h host option \<Rightarrow> bytes \<Rightarrow> bytes \<Rightarrow> (u64, u64) gomap \<Rightarrow> (u64, bytes) gomap option
       \<Rightarrow> u64 \<Rightarrow> Context \<Rightarrow> 'h
       \<Rightarrow> 'h \<times> (vm_error, (u64, u64) gomap \<times> (u64, bytes) gomap option \<times> Result) result" where
  "ExecuteB H host code input storage bstore gas ctx h =
     (case vm_loop H host code input gas ctx 0 h (vm_init storage bstore) of
        (h', r) \<Rightarrow> (h', rbind r (\<lambda>s. Ok (commitB bstore s))))"

definition Execute ::
    "(bytes \<Rightarrow> hash) \<Rightarrow> 'h host option \<Rightarrow> bytes \<Rightarrow> bytes \<Rightarrow> (u64, u64) gomap \<Rightarrow> u64 \<Rightarrow> Context \<Rightarrow> 'h
       \<Rightarrow> 'h \<times> (vm_error, (u64, u64) gomap \<times> Result) result" where
  "Execute H host code input storage gas ctx h =
     (case ExecuteB H host code input storage None gas ctx h of
        (h', r) \<Rightarrow> (h', rbind r (\<lambda>(sto, _, res). Ok (sto, res))))"


section \<open>Facts about single instructions\<close>

lemma opcode_of_byte [simp]: "opcode_of (opcode_byte op) = Some op"
  by (cases op) (simp_all add: opcode_of_def all_opcodes_def)

lemma gasCost_pos: "1 \<le> unat (gasCost b)"
  by (auto simp: gasCost_def split: option.split)

lemma gasCost_le: "unat (gasCost b) \<le> 100"
  by (auto simp: gasCost_def split: option.split)

lemma pop_Ok: "pop s = Ok (v, s') \<longleftrightarrow> st s = v # st s' \<and> s' = s\<lparr>st := st s'\<rparr>"
  by (cases "st s") (auto simp: pop_def)

lemma push_Ok: "push v s = Ok s' \<longleftrightarrow> length (st s) < maxStack \<and> s' = s\<lparr>st := v # st s\<rparr>"
  by (auto simp: push_def)

lemma push_ignore_simps:
  "used (push_ignore v s) = used s" "logs (push_ignore v s) = logs s"
  "length (st (push_ignore v s)) \<le> max (length (st s)) maxStack"
  by (auto simp: push_ignore_def push_def)

lemma pop_n_Ok:
  "pop_n n s = Ok (ts, s') \<Longrightarrow>
     n \<le> length (st s) \<and> ts = rev (take n (st s)) \<and> s' = s\<lparr>st := drop n (st s)\<rparr>"
proof (induction n arbitrary: s ts)
  case (Suc n)
  from Suc.prems obtain v s1 ts1 where p: "pop s = Ok (v, s1)" "pop_n n s1 = Ok (ts1, s')" "ts = ts1 @ [v]"
    by auto
  from p(1) obtain r where "st s = v # r" "s1 = s\<lparr>st := r\<rparr>"
    unfolding pop_Ok by blast
  with Suc.IH [OF p(2)] p(3) show ?case by simp
qed simp

primrec ctl_vm :: "'s ctl \<Rightarrow> 's" where
  "ctl_vm (Continue s) = s"
| "ctl_vm (Halt s) = s"

lemma cont_Ok [simp]: "cont r = Ok c \<longleftrightarrow> (\<exists>s. r = Ok s \<and> c = Continue s)"
  by (auto simp: cont_def)

lemmas exec_defs =
  exec_push_def exec_pop_def exec_binop_def exec_checked_def exec_mix_def exec_unary_def exec_dup_def
  exec_swap_def exec_jump_def exec_jumpi_def jump_to_def exec_sload_def exec_sstore_def exec_cdload_def
  exec_bstore_def exec_beq_def exec_blen_def exec_bhash_def exec_bset_def exec_returnb_def exec_return_def
  append_st_def

definition frame :: "vm \<Rightarrow> vm \<Rightarrow> bool" where
  "frame s s' \<longleftrightarrow> used s' = used s \<and> logs s' = logs s \<and> length (st s') \<le> max (length (st s)) maxStack"

lemma frame_exec:
  "exec_push code s = Ok s' \<Longrightarrow> frame s s'"
  "exec_pop s = Ok s' \<Longrightarrow> frame s s'"
  "exec_binop op s = Ok s' \<Longrightarrow> frame s s'"
  "exec_checked op s = Ok s' \<Longrightarrow> frame s s'"
  "exec_mix H s = Ok s' \<Longrightarrow> frame s s'"
  "exec_unary op s = Ok s' \<Longrightarrow> frame s s'"
  "exec_jump code s = Ok s' \<Longrightarrow> frame s s'"
  "exec_jumpi code s = Ok s' \<Longrightarrow> frame s s'"
  "exec_sload s = Ok s' \<Longrightarrow> frame s s'"
  "exec_sstore s = Ok s' \<Longrightarrow> frame s s'"
  "exec_cdload input s = Ok s' \<Longrightarrow> frame s s'"
  "exec_bstore input s = Ok s' \<Longrightarrow> frame s s'"
  "exec_beq s = Ok s' \<Longrightarrow> frame s s'"
  "exec_blen s = Ok s' \<Longrightarrow> frame s s'"
  "exec_bhash H s = Ok s' \<Longrightarrow> frame s s'"
  "exec_bset a s = Ok s' \<Longrightarrow> frame s s'"
  "push v s = Ok s' \<Longrightarrow> frame s s'"
  by (auto simp: exec_defs frame_def pop_def push_def split: list.splits if_splits)

lemma frame_dup: "exec_dup s = Ok s' \<Longrightarrow> frame s s'"
  by (auto simp: exec_dup_def frame_def pop_def push_Ok push_ignore_simps push_ignore_def push_def split: list.splits if_splits)

lemma frame_swap: "exec_swap s = Ok s' \<Longrightarrow> frame s s'"
  by (auto simp: exec_swap_def frame_def pop_def push_ignore_def push_def split: list.splits if_splits)

lemma frame_return:
  "exec_return s = Ok c \<Longrightarrow> frame s (ctl_vm c)"
  "exec_returnb s = Ok c \<Longrightarrow> frame s (ctl_vm c)"
  by (auto simp: exec_defs frame_def pop_def split: list.splits)

lemma frame_step_local:
  assumes "step_local H code input gas ctx op s = Ok c" "op \<noteq> LOG"
  shows "frame s (ctl_vm c)"
proof -
  have refl: "frame s s" by (simp add: frame_def)
  show ?thesis
    using assms by (cases op)
      (auto simp: step_local_def refl dest: frame_exec frame_dup frame_swap frame_return)
qed

lemma exec_log_Ok:
  assumes "exec_log gas s = Ok s'"
  shows "\<exists>n r. st s = n # r \<and> n \<le> 8 \<and> used s' = used s + 8 * n \<and> used s' \<le> gas
     \<and> unat n \<le> length r \<and> st s' = drop (unat n) r \<and> logs s' = logs s @ [rev (take (unat n) r)]"
  using assms
  by (cases "st s")
    (auto simp: exec_log_def pop_def maxLogTopics_def not_less split: if_splits dest!: pop_n_Ok)

section \<open>Resource bounds\<close>

definition vm_ok :: "u64 \<Rightarrow> vm \<Rightarrow> bool" where
  "vm_ok gas s \<longleftrightarrow> used s \<le> gas \<and> length (st s) \<le> maxStack \<and> (\<forall>l\<in>set (logs s). length l \<le> 8)"

lemma vm_ok_frame: "frame s s' \<Longrightarrow> vm_ok gas s \<Longrightarrow> vm_ok gas s'"
  by (auto simp: frame_def vm_ok_def)

lemma vm_ok_log: 
  assumes "exec_log gas s = Ok s'" "vm_ok gas s"
  shows "vm_ok gas s'"
proof -
  from exec_log_Ok [OF assms(1)] obtain n r where
    "st s = n # r" "n \<le> 8" "used s' \<le> gas" "st s' = drop (unat n) r"
    "logs s' = logs s @ [rev (take (unat n) r)]" by blast
  with assms(2) show ?thesis by (auto simp: vm_ok_def word_le_nat_alt)
qed

lemma vm_ok_step_local:
  assumes "step_local H code input gas ctx op s = Ok c" "vm_ok gas s"
  shows "vm_ok gas (ctl_vm c)"
proof (cases "op = LOG")
  case True
  with assms vm_ok_log show ?thesis by (auto simp: step_local_def)
next
  case False
  with assms frame_step_local vm_ok_frame show ?thesis by blast
qed

text \<open>What a call leaves behind, in terms of the host's answer.\<close>

lemma exec_call_cases:
  assumes "exec_call host gas ctx h s = (h', Ok s')"
  obtains (no_call) gl arg target r where "st s = gl # arg # target # r" "h' = h"
      "s' = s\<lparr>st := 0 # r\<rparr>" "length r < maxStack"
  | (call) gl arg target r callee ret2 gu ok where "host = Some callee" "st s = gl # arg # target # r"
      "callee h (CtxSelf ctx) target arg (min gl (gas - used s)) (CtxDepth ctx + 1) = (h', Some (ret2, gu, ok))"
      "used s + gu \<le> gas" "length r < maxStack"
      "s' = s\<lparr>used := used s + gu, st := (if ok then ret2 else 0) # r\<rparr>"
proof -
  from assms obtain gl arg target r where st: "st s = gl # arg # target # r"
    by (auto simp: exec_call_def pop_def split: list.splits)
  show thesis
  proof (cases "host = None \<or> maxDepth \<le> CtxDepth ctx")
    case True
    with assms st no_call show thesis
      by (auto simp: exec_call_def pop_def push_Ok split: option.splits)
  next
    case False
    then obtain callee where host: "host = Some callee" by auto
    have fwd: "(if gas - used s < gl then gas - used s else gl) = min gl (gas - used s)"
      by (simp add: min_def not_less [symmetric])
    obtain h2 a where c: "callee h (CtxSelf ctx) target arg (min gl (gas - used s)) (CtxDepth ctx + 1) = (h2, a)"
      by (metis surj_pair)
    show thesis
    proof (cases a)
      case None
      with assms st host False c show thesis by (auto simp: exec_call_def pop_def fwd)
    next
      case (Some x)
      obtain ret2 gu ok where "x = (ret2, gu, ok)" by (metis surj_pair)
      with assms st host False c Some call [OF host st] show thesis
        by (auto simp: exec_call_def pop_def push_Ok fwd Let_def not_less split: if_splits)
    qed
  qed
qed

lemma vm_ok_call: "exec_call host gas ctx h s = (h', Ok s') \<Longrightarrow> vm_ok gas s \<Longrightarrow> vm_ok gas s'"
  by (erule exec_call_cases) (auto simp: vm_ok_def)

lemma vm_ok_step:
  "vm_step H host code input gas ctx b h s = (h', Ok c) \<Longrightarrow> vm_ok gas s \<Longrightarrow> vm_ok gas (ctl_vm c)"
  by (auto simp: vm_step_def split: option.splits if_splits prod.splits
      dest: vm_ok_call vm_ok_step_local)

text \<open>
  The invariant rule of the interpreter loop: \<open>I\<close> holds of the step counter and the machine
  at the head of the loop, \<open>Q\<close> of the outcome.
\<close>

abbreviation charge :: "byte \<Rightarrow> vm \<Rightarrow> vm" where
  "charge b s \<equiv> s\<lparr>used := used s + gasCost b, pc := pc s + 1\<rparr>"

lemma vm_loop_rule:
  assumes "I steps s"
    and "\<And>steps h s b h' s'. \<lbrakk>I steps s; steps < maxSteps; used s + gasCost b \<le> gas;
           vm_step H host code input gas ctx b h (charge b s) = (h', Ok (Continue s'))\<rbrakk> \<Longrightarrow> I (steps + 1) s'"
    and "\<And>steps h s b h' s'. \<lbrakk>I steps s; used s + gasCost b \<le> gas;
           vm_step H host code input gas ctx b h (charge b s) = (h', Ok (Halt s'))\<rbrakk> \<Longrightarrow> Q (Ok s')"
    and "\<And>h s b h' e. vm_step H host code input gas ctx b h s = (h', Err e) \<Longrightarrow> Q (Err e)"
    and "\<And>steps s. I steps s \<Longrightarrow> Q (Ok s)"
    and "\<And>steps s. I steps s \<Longrightarrow> maxSteps \<le> steps \<Longrightarrow> Q (Err ErrStepLimit)"
    and "Q (Err ErrOutOfGas)" and "Q Panic"
  shows "Q (snd (vm_loop H host code input gas ctx steps h s))"
  using assms
proof (induction H host code input gas ctx steps h s rule: vm_loop.induct)
  case (1 H host code input gas ctx steps h s)
  let ?b = "code ! nat (pc s)"
  obtain h1 r where v: "vm_step H host code input gas ctx ?b h (charge ?b s) = (h1, r)"
    by (metis surj_pair)
  show ?case
  proof (cases "\<not> pc s < int (length code) \<or> maxSteps < steps + 1 \<or> pc s < 0 \<or> gas < used s + gasCost ?b")
    case True
    with 1(2) 1(6-) show ?thesis
      by (auto simp: vm_loop.simps [of H host code input gas ctx steps h s] Let_def)
  next
    case False
    then have next_step: "snd (vm_loop H host code input gas ctx (steps + 1) h1 s') = snd (vm_loop H host code input gas ctx steps h s)"
      if "r = Ok (Continue s')" for s'
      using that v by (simp add: vm_loop.simps [of H host code input gas ctx steps h s] Let_def)
    have IH: "Q (snd (vm_loop H host code input gas ctx (steps + 1) h1 s'))" if "r = Ok (Continue s')" for s'
    proof (rule 1(1) [OF _ _ _ refl refl _ v [symmetric] that refl])
      show "I (steps + 1) s'" using 1(3) [OF 1(2) _ _ v [unfolded that]] False by (simp add: not_less)
    qed (use False in simp, use False in simp, use False in simp, use False in simp, fact+)
    show ?thesis
      using False v IH next_step 1(4) [OF 1(2)] 1(5)  \<open>Q Panic\<close>
      by (cases r; cases "\<exists>c. r = Ok (Continue c)") 
        (auto simp: vm_loop.simps [of H host code input gas ctx steps h s] Let_def not_less split: ctl.splits)
  qed
qed

lemma vm_ok_charge: "vm_ok gas s \<Longrightarrow> used s + gasCost b \<le> gas \<Longrightarrow> vm_ok gas (charge b s)"
  by (simp add: vm_ok_def)

lemma vm_loop_ok:
  assumes "vm_loop H host code input gas ctx steps h s = (h', Ok s')" "vm_ok gas s"
  shows "vm_ok gas s'"
proof -
  have "\<forall>s'. snd (vm_loop H host code input gas ctx steps h s) = Ok s' \<longrightarrow> vm_ok gas s'"
    by (rule vm_loop_rule [where I = "\<lambda>_. vm_ok gas"])
      (auto simp: assms(2) vm_ok_charge dest!: vm_ok_step)
  with assms(1) show ?thesis by simp
qed

lemma vm_ok_init: "vm_ok gas (vm_init storage bstore)"
  by (simp add: vm_ok_def vm_init_def)


definition no_limit :: "(vm_error, 'a) result \<Rightarrow> bool" where
  "no_limit r \<longleftrightarrow> r \<noteq> Err ErrStepLimit"

lemma no_limit_rbind: "no_limit r \<Longrightarrow> (\<And>x. no_limit (f x)) \<Longrightarrow> no_limit (rbind r f)"
  by (cases r) (auto simp: no_limit_def)

lemma no_limit_Ok [simp]: "no_limit (Ok x)" "no_limit Panic" "no_limit (Err e) \<longleftrightarrow> e \<noteq> ErrStepLimit"
  by (auto simp: no_limit_def)

lemma no_limit_basic [simp]:
  "no_limit (pop s)" "no_limit (push v s)" "no_limit (jump_to code d s)" "no_limit (vm_word input i)"
  "no_limit (binop op a b)" "no_limit (checked op a b)"
  by (auto simp: pop_def push_def jump_to_def vm_word_def Let_def binop_def checked_def split: list.split opcode.split)

lemma no_limit_pop_n [simp]: "no_limit (pop_n n s)"
  by (induction n arbitrary: s) (auto intro!: no_limit_rbind)

lemma no_limit_step_local: "no_limit (step_local H code input gas ctx op s)"
  by (cases op) (auto simp: step_local_def cont_def exec_defs exec_log_def intro!: no_limit_rbind)

lemma no_limit_call: "no_limit (snd (exec_call host gas ctx h s))"
  by (auto simp: exec_call_def Let_def pop_def split: list.split option.split prod.split)

lemma step_no_limit: "vm_step H host code input gas ctx b h s = (h', r) \<Longrightarrow> no_limit r"
  using no_limit_call [of host gas ctx h s]
  by (auto simp: vm_step_def cont_def no_limit_step_local intro!: no_limit_rbind split: option.splits if_splits prod.splits)

section \<open>Hosts that respect the gas they are given\<close>

text \<open>
  The contract of \<^verbatim>\<open>CallHost\<close>: a call uses at most the gas forwarded to it.  Under it the
  metering of the caller never wraps and never goes back, so the gas limit also bounds the
  number of steps.
\<close>

locale call_host =
  fixes host :: "'h host option"
  assumes honest: "host = Some callee \<Longrightarrow> callee h self target arg gl d = (h', Some (r, gu, ok)) \<Longrightarrow> gu \<le> gl"
begin

lemma exec_call_used_mono:
  assumes "exec_call host gas ctx h s = (h', Ok s')" "used s \<le> gas"
  shows "used s \<le> used s'"
  using assms(1)
proof (cases rule: exec_call_cases)
  case (call gl arg target r callee ret2 gu ok)
  from honest [OF call(1) call(3)] have "gu \<le> gas - used s" by simp
  with assms(2) have "unat (used s) + unat gu < 2 ^ 64"
    using unat_sub_no_wrap [of "used s" gas] unsigned_less [of gas, where ?'a = nat] by (simp add: word_le_nat_alt)
  then show ?thesis using call(6) by (simp add: word_le_nat_alt unat_add_no_wrap)
qed simp

lemma step_used_mono:
  assumes "vm_step H host code input gas ctx b h s = (h', Ok c)" "used s \<le> gas" "unat gas + 64 < 2 ^ 64"
  shows "used s \<le> used (ctl_vm c)"
proof (cases "opcode_of b")
  case None
  with assms(1) show ?thesis by (simp add: vm_step_def)
next
  case (Some op)
  consider "op = CALL" | "op = LOG" | "op \<noteq> CALL" "op \<noteq> LOG" by blast
  then show ?thesis
  proof cases
    case 1
    with assms Some show ?thesis
      by (auto simp: vm_step_def split: prod.splits dest: exec_call_used_mono)
  next
    case 2
    with assms(1) Some obtain s' where l: "exec_log gas s = Ok s'" "c = Continue s'"
      by (auto simp: vm_step_def step_local_def)
    from exec_log_Ok [OF l(1)] obtain n where n: "n \<le> 8" "used s' = used s + 8 * n" by blast
    have "unat (8 * n) \<le> 64"
      using n(1) by (simp add: word_le_nat_alt unat_word_ariths)
    with assms(2,3) have "unat (used s) + unat (8 * n) < 2 ^ 64" by (simp add: word_le_nat_alt)
    with n(2) l(2) show ?thesis by (simp add: add_ge_iff_no_wrap)
  next
    case 3
    with assms(1) Some have "frame s (ctl_vm c)"
      by (auto simp: vm_step_def intro: frame_step_local)
    then show ?thesis by (simp add: frame_def)
  qed
qed

lemma no_step_limit:
  assumes "unat gas < 1000000" "nat steps \<le> unat (used s)" "vm_ok gas s"
  shows "snd (vm_loop H host code input gas ctx steps h s) \<noteq> Err ErrStepLimit"
proof (rule vm_loop_rule [where I = "\<lambda>steps s. nat steps \<le> unat (used s) \<and> vm_ok gas s"])
  show "nat steps \<le> unat (used s) \<and> vm_ok gas s" using assms by simp
next
  fix steps h s b h' s'
  assume I: "nat steps \<le> unat (used s) \<and> vm_ok gas s" and g: "used s + gasCost b \<le> gas"
    and v: "vm_step H host code input gas ctx b h (charge b s) = (h', Ok (Continue s'))"
  have "unat (used s + gasCost b) = unat (used s) + unat (gasCost b)"
    using I assms(1) gasCost_le [of b] by (intro unat_add_no_wrap) (simp add: vm_ok_def word_le_nat_alt)
  moreover have "used s + gasCost b \<le> used s'"
    using step_used_mono [OF v] g assms(1) by simp
  moreover have "vm_ok gas s'"
    using vm_ok_step [OF v] vm_ok_charge I g by simp
  ultimately show "nat (steps + 1) \<le> unat (used s') \<and> vm_ok gas s'"
    using I gasCost_pos [of b] unfolding word_le_nat_alt by linarith
next
  fix steps s assume "nat steps \<le> unat (used s) \<and> vm_ok gas s" "maxSteps \<le> steps"
  with assms(1) show "Err ErrStepLimit \<noteq> Err ErrStepLimit"
    by (auto simp: vm_ok_def word_le_nat_alt maxSteps_def)
qed (auto simp: no_limit_def dest: step_no_limit)

end


lemma ExecuteB_ok:
  assumes "ExecuteB H host code input storage bstore gas ctx h = (h', Ok (storage', bstore', res))"
  shows "GasUsed res \<le> gas" "length (Stack res) \<le> maxStack" "\<forall>l\<in>set (Logs res). length l \<le> 8"
proof -
  from assms obtain s where l: "vm_loop H host code input gas ctx 0 h (vm_init storage bstore) = (h', Ok s)"
    and r: "commitB bstore s = (storage', bstore', res)"
    by (auto simp: ExecuteB_def split: prod.splits)
  from vm_loop_ok [OF l vm_ok_init] r
  show "GasUsed res \<le> gas" "length (Stack res) \<le> maxStack" "\<forall>l\<in>set (Logs res). length l \<le> 8"
    by (auto simp: vm_ok_def commitB_def)
qed

section \<open>What a run does to the host state\<close>

text \<open>
  A run touches the host state through calls only, so any preorder on host states that every
  call respects relates the host states before and after a run.
\<close>

locale host_relation =
  fixes host :: "'h host option" and R :: "'h \<Rightarrow> 'h \<Rightarrow> bool"
  assumes R_refl: "R h h"
    and R_trans: "R h1 h2 \<Longrightarrow> R h2 h3 \<Longrightarrow> R h1 h3"
    and R_call: "host = Some callee \<Longrightarrow> R h (fst (callee h self target arg gl d))"
begin

lemma R_exec_call: "R h (fst (exec_call host gas ctx h s))"
proof (cases host)
  case None
  then show ?thesis by (auto simp: exec_call_def R_refl split: result.split prod.split)
next
  case (Some callee)
  have "R h h'" if "callee h self target arg gl d = (h', r)" for self target arg gl d h' r
    using R_call [OF Some, of h self target arg gl d] that by simp
  then show ?thesis
    by (auto simp: exec_call_def R_refl Some Let_def split: result.split prod.split option.split)
qed

lemma R_vm_step: "R h (fst (vm_step H host code input gas ctx b h s))"
  using R_exec_call [of h gas ctx s]
  by (auto simp: vm_step_def R_refl split: option.split prod.split)

lemma R_vm_loop: "R h (fst (vm_loop H host code input gas ctx steps h s))"
proof (induction steps arbitrary: h s rule: measure_induct_rule [where f = "\<lambda>k. nat (maxSteps - k)"])
  case (less steps)
  let ?b = "code ! nat (pc s)"
  obtain h1 r where v: "vm_step H host code input gas ctx ?b h (charge ?b s) = (h1, r)"
    by (metis surj_pair)
  have 1: "R h h1" using R_vm_step [of h H code input gas ctx ?b "charge ?b s"] v by simp
  have 2: "R h (fst (vm_loop H host code input gas ctx (steps + 1) h1 s'))" if "\<not> maxSteps < steps + 1" for s'
    using less.IH [of "steps + 1" h1 s'] that 1 R_trans by auto
  show ?case
    using v 1 2 by (auto simp: vm_loop.simps [of H host code input gas ctx steps h s] R_refl Let_def
        split: result.split ctl.split)
qed

lemma R_ExecuteB: "R h (fst (ExecuteB H host code input storage bstore gas ctx h))"
  using R_vm_loop [of h H code input gas ctx 0 "vm_init storage bstore"]
  by (auto simp: ExecuteB_def split: prod.split)

end

text \<open>A run asks its host only at the next call depth, and not at all from \<open>maxDepth\<close> on.\<close>

lemma exec_call_host_cong:
  assumes "maxDepth \<le> CtxDepth ctx \<or>
    (\<forall>h self target arg gl. f h self target arg gl (CtxDepth ctx + 1) = g h self target arg gl (CtxDepth ctx + 1))"
  shows "exec_call (Some f) gas ctx h s = exec_call (Some g) gas ctx h s"
  using assms by (auto simp: exec_call_def Let_def split: result.split)

lemma vm_loop_host_cong:
  assumes "maxDepth \<le> CtxDepth ctx \<or>
    (\<forall>h self target arg gl. f h self target arg gl (CtxDepth ctx + 1) = g h self target arg gl (CtxDepth ctx + 1))"
  shows "vm_loop H (Some f) code input gas ctx steps h s = vm_loop H (Some g) code input gas ctx steps h s"
proof (induction steps arbitrary: h s rule: measure_induct_rule [where f = "\<lambda>k. nat (maxSteps - k)"])
  case (less steps)
  have step: "vm_step H (Some f) code input gas ctx b h s = vm_step H (Some g) code input gas ctx b h s" for b h s
    by (simp add: vm_step_def exec_call_host_cong [of ctx f g, OF assms] split: option.split)
  show ?case
    using less.IH [of "steps + 1"]
    by (auto simp: vm_loop.simps [of H _ code input gas ctx steps h s] step Let_def
        split: prod.split result.split ctl.split)
qed

lemma ExecuteB_host_cong:
  assumes "maxDepth \<le> CtxDepth ctx \<or>
    (\<forall>h self target arg gl. f h self target arg gl (CtxDepth ctx + 1) = g h self target arg gl (CtxDepth ctx + 1))"
  shows "ExecuteB H (Some f) code input storage bstore gas ctx h = ExecuteB H (Some g) code input storage bstore gas ctx h"
  by (simp add: ExecuteB_def vm_loop_host_cong [of ctx f g, OF assms])

section \<open>Properties\<close>

definition ctx0 :: Context where
  "ctx0 = \<lparr>CtxCaller = 0, CtxSelf = 0, CtxCallerAddr = [], CtxSelfAddr = [], CtxValue = 0, CtxBalance = 0, CtxDepth = 0\<rparr>"

interpretation nil_host: call_host "None :: 'h host option"
  by unfold_locales simp

text \<open>
  C14. Whatever the code, the input, the host and the gas limit, a contract run that succeeds
  has used no more gas than its limit, ends with at most \<open>maxStack\<close> words on its stack, and every
  event it emitted has at most eight topics.
\<close>

theorem ExecuteB_bounds:
  assumes "ExecuteB H host code input storage bstore gas ctx h = (h', Ok (storage', bstore', res))"
  shows "GasUsed res \<le> gas \<and> length (Stack res) \<le> maxStack \<and> (\<forall>l\<in>set (Logs res). length l \<le> unat maxLogTopics)"
  using ExecuteB_ok [OF assms] by (simp add: maxLogTopics_def)

text \<open>Code of the witness: \<open>PUSH 7 PUSH 1 LOG PUSH 42 RETURN\<close>.\<close>

definition sample_code :: bytes where
  "sample_code = 0x01 # put_u64 7 @ 0x01 # put_u64 1 @ 0x72 # 0x01 # put_u64 42 @ [0x70]"

definition sample_result :: Result where
  "sample_result = \<lparr>GasUsed = 68, Return = 42, ReturnBytes = [], Stack = [], Logs = [[7]]\<rparr>"

lemma sample_run:
  "ExecuteB sha256 (None :: unit host option) sample_code [] [] None 100 ctx0 () = ((), Ok ([], None, sample_result))"
  by code_simp

theorem ExecuteB_bounds_witness:
  "ExecuteB sha256 (None :: unit host option) sample_code [] [] None 100 ctx0 () = ((), Ok ([], None, sample_result))
     \<and> GasUsed sample_result \<le> 100 \<and> length (Stack sample_result) \<le> maxStack
     \<and> length [7 :: u64] \<le> unat maxLogTopics"
proof -
  have "[7] \<in> set (Logs sample_result)" by (simp add: sample_result_def)
  with sample_run ExecuteB_bounds [OF sample_run] show ?thesis by blast
qed


lemma ExecuteB_no_step_limit:
  assumes "call_host host" "unat gas < 1000000"
  shows "snd (ExecuteB H host code input storage bstore gas ctx h) \<noteq> Err ErrStepLimit"
proof -
  have "snd (vm_loop H host code input gas ctx 0 h (vm_init storage bstore)) \<noteq> Err ErrStepLimit"
    by (rule call_host.no_step_limit [OF assms]) (auto simp: vm_ok_init)
  then show ?thesis
    by (auto simp: ExecuteB_def rbind_eq_Err_iff split: prod.splits)
qed

text \<open>
  With a gas limit below \<open>maxSteps\<close> and a host that uses no more gas than it was given, the
  step limit is never the reason a run fails: every instruction costs at least one unit and
  the meter never goes back, so gas runs out first.
\<close>

theorem gas_bounds_steps:
  assumes "call_host host" "unat gas < 1000000"
  shows "snd (ExecuteB H host code input storage bstore gas ctx h) \<noteq> Err ErrStepLimit"
  by (rule ExecuteB_no_step_limit [OF assms])

text \<open>A loop \<open>PUSH 0 JUMP\<close> runs out of gas.\<close>

theorem gas_bounds_steps_witness:
  "call_host (None :: unit host option) \<and> unat (10 :: u64) < 1000000 \<and>
   snd (ExecuteB sha256 (None :: unit host option) (0x01 # put_u64 0 @ [0x40]) [] [] None 10 ctx0 ()) \<noteq> Err ErrStepLimit"
proof (intro conjI)
  show h: "call_host (None :: unit host option)" by (rule nil_host.call_host_axioms)
  show l: "unat (10 :: u64) < 1000000" by simp
  show "snd (ExecuteB sha256 (None :: unit host option) (0x01 # put_u64 0 @ [0x40]) [] [] None 10 ctx0 ()) \<noteq> Err ErrStepLimit"
    by (rule gas_bounds_steps [OF h l])
qed

lemma unat_mult_div_eq_iff:
  assumes "a \<noteq> (0 :: u64)"
  shows "(a * b) div a = b \<longleftrightarrow> unat a * unat b < 2 ^ 64"
proof -
  have a: "0 < unat a" using assms by (simp add: unat_gt_0)
  have m: "unat (a * b) = (unat a * unat b) mod 2 ^ 64" by (simp add: unat_word_ariths)
  have "(a * b) div a = b \<longleftrightarrow> unat (a * b) div unat a = unat b"
    by (metis unat_div word_unat_eq_iff)
  also have "\<dots> \<longleftrightarrow> unat a * unat b < 2 ^ 64"
  proof
    assume "unat a * unat b < 2 ^ 64"
    with m a show "unat (a * b) div unat a = unat b" by simp
  next
    assume d: "unat (a * b) div unat a = unat b"
    show "unat a * unat b < 2 ^ 64"
    proof (rule ccontr)
      assume n: "\<not> unat a * unat b < 2 ^ 64"
      have "unat (a * b) < 2 ^ 64" unfolding m by simp
      with n have "unat (a * b) < unat b * unat a" by (simp add: mult.commute)
      then have "unat (a * b) div unat a < unat b" by (simp add: less_mult_imp_div_less)
      with d show False by simp
    qed
  qed
  finally show ?thesis .
qed

text \<open>
  Checked arithmetic is exact: \<open>ADDC\<close>, \<open>SUBC\<close> and \<open>MULC\<close> return the sum, difference and product
  over the natural numbers when it fits in 64 bits and \<open>ErrOverflow\<close> otherwise, in particular
  the division test of \<open>MULC\<close> detects every overflow.
\<close>

theorem checked_arith_exact:
  "checked ADDC a b = (if unat a + unat b < 2 ^ 64 then Ok (of_nat (unat a + unat b)) else Err ErrOverflow) \<and>
   checked SUBC a b = (if unat b \<le> unat a then Ok (of_nat (unat a - unat b)) else Err ErrOverflow) \<and>
   checked MULC a b = (if unat a * unat b < 2 ^ 64 then Ok (of_nat (unat a * unat b)) else Err ErrOverflow)"
proof (intro conjI)
  show "checked ADDC a b = (if unat a + unat b < 2 ^ 64 then Ok (of_nat (unat a + unat b)) else Err ErrOverflow)"
    using add_less_iff_wrap [of a b] by (simp add: checked_def Let_def not_less)
  show "checked SUBC a b = (if unat b \<le> unat a then Ok (of_nat (unat a - unat b)) else Err ErrOverflow)"
    by (simp add: checked_def word_less_nat_alt of_nat_diff)
  show "checked MULC a b = (if unat a * unat b < 2 ^ 64 then Ok (of_nat (unat a * unat b)) else Err ErrOverflow)"
    using unat_mult_div_eq_iff [of a b] by (cases "a = 0") (simp_all add: checked_def Let_def)
qed

text \<open>
  A jump target of \<open>2^63\<close> or more is not rejected: the comparison is made after conversion to
  a signed integer, and the program counter goes negative and the fetch panics, whatever the
  rest of the code, the storage and the host.
\<close>

theorem jump_panics:
  assumes "2 ^ 63 \<le> unat dest" "4 \<le> gas"
  shows "ExecuteB H host (0x01 # put_u64 dest @ 0x40 # rest) input storage bstore gas ctx h = (h, Panic)"
proof -
  let ?code = "0x01 # put_u64 dest @ 0x40 # rest"
  let ?s0 = "vm_init storage bstore"
  let ?s1 = "?s0\<lparr>used := 3, pc := 9, st := [dest]\<rparr>"
  let ?s2 = "?s0\<lparr>used := 4, pc := sint dest\<rparr>"
  have neg: "sint dest < 0" using assms(1) by (simp add: sint_negative_iff)
  have gas: "\<not> gas < 3" "\<not> gas < 4" using assms(2) by (auto simp: not_less intro: order_trans [of _ 4])
  have ops: "opcode_of 0x01 = Some PUSH" "opcode_of 0x40 = Some JUMP"
    using opcode_of_byte [of PUSH] opcode_of_byte [of JUMP] by simp_all
  have at9: "?code ! 9 = 0x40" by (simp add: nth_append)
  have push: "vm_step H host ?code input gas ctx 0x01 h (?s0\<lparr>used := 3, pc := 1\<rparr>) = (h, Ok (Continue ?s1))"
    by (simp add: vm_step_def ops step_local_def exec_push_def push_def cont_def vm_init_def maxStack_def)
  have jump: "vm_step H host ?code input gas ctx 0x40 h (?s1\<lparr>used := 4, pc := 10\<rparr>) = (h, Ok (Continue ?s2))"
    using neg by (simp add: vm_step_def ops step_local_def exec_jump_def jump_to_def pop_def cont_def vm_init_def)
  have "vm_loop H host ?code input gas ctx 0 h ?s0 = vm_loop H host ?code input gas ctx 1 h ?s1"
    using gas push by (simp add: vm_loop.simps [of H host ?code input gas ctx 0] gasCost_def ops maxSteps_def vm_init_def)
  also have "\<dots> = vm_loop H host ?code input gas ctx 2 h ?s2"
    using gas jump at9 by (simp add: vm_loop.simps [of H host ?code input gas ctx 1] gasCost_def ops maxSteps_def)
  also have "\<dots> = (h, Panic)"
    using neg by (simp add: vm_loop.simps [of H host ?code input gas ctx 2] maxSteps_def)
  finally show ?thesis by (simp add: ExecuteB_def)
qed

theorem jump_panics_witness:
  "2 ^ 63 \<le> unat (0x8000000000000000 :: u64) \<and> (4 :: u64) \<le> 100 \<and>
   ExecuteB sha256 (None :: unit host option) (0x01 # put_u64 0x8000000000000000 @ 0x40 # []) [] [] None 100 ctx0 ()
     = ((), Panic)"
  using jump_panics [of "0x8000000000000000" 100 sha256 "None :: unit host option" "[]"] by simp


lemma vm_word_spec:
  assumes "length input < 2 ^ 63" "unat idx < 2 ^ 61 - 1"
  shows "vm_word input idx =
    Ok (if length input < 8 * unat idx + 8 then 0 else be_get (take 8 (drop (8 * unat idx) input)))"
proof -
  have o: "unat (idx * 8) = 8 * unat idx" using assms(2) by (simp add: unat_word_ariths)
  have o8: "unat (idx * 8 + 8) = 8 * unat idx + 8"
    using assms(2) by (subst unat_add_no_wrap) (simp_all add: o)
  have l: "unat (of_nat (length input) :: u64) = length input"
    using assms(1) by (simp add: unat_of_nat_small)
  show ?thesis
    unfolding vm_word_def Let_def word_less_nat_alt o8 l o by simp
qed

lemma vm_word_wraps:
  assumes "length input < 2 ^ 63"
  shows "vm_word input 0x1FFFFFFFFFFFFFFF = Panic" "vm_word input 0x2000000000000000 = vm_word input 0"
proof -
  have w: "0x1FFFFFFFFFFFFFFF * 8 = (18446744073709551608 :: u64)" "18446744073709551608 + 8 = (0 :: u64)"
    "unat (18446744073709551608 :: u64) = 18446744073709551608" "0x2000000000000000 * 8 = (0 :: u64)"
    by (simp_all add: word_uint_eq_iff uint_word_ariths)
  show "vm_word input 0x1FFFFFFFFFFFFFFF = Panic"
    unfolding vm_word_def Let_def w using assms by simp
  show "vm_word input 0x2000000000000000 = vm_word input 0"
    unfolding vm_word_def Let_def w by simp
qed

text \<open>
  Calldata reads: for a call input shorter than \<open>2^63\<close> bytes, \<open>CDLOAD\<close> of word \<open>i\<close> yields the
  eight bytes at \<open>8 i\<close> in big-endian order when they exist and 0 when they do not, as long as
  \<open>8 i + 8\<close> does not wrap.  At \<open>i = 2^61 - 1\<close> it does wrap, and the read panics instead of
  yielding 0; at \<open>i = 2^61\<close> the offset wraps to 0 and the first word is read.
\<close>

theorem calldata_word:
  assumes "length input < 2 ^ 63"
  shows "(unat idx < 2 ^ 61 - 1 \<longrightarrow>
           vm_word input idx =
             Ok (if length input < 8 * unat idx + 8 then 0 else be_get (take 8 (drop (8 * unat idx) input)))) \<and>
         vm_word input 0x1FFFFFFFFFFFFFFF = Panic \<and>
         vm_word input 0x2000000000000000 = vm_word input 0"
  using vm_word_spec [OF assms] vm_word_wraps [OF assms] by blast

theorem calldata_word_witness:
  "length (put_u64 5 @ put_u64 6) < 2 ^ 63 \<and> unat (1 :: u64) < 2 ^ 61 - 1 \<and>
   vm_word (put_u64 5 @ put_u64 6) 1 = Ok 6 \<and> vm_word (put_u64 5 @ put_u64 6) 0x1FFFFFFFFFFFFFFF = Panic \<and>
   vm_word (put_u64 5 @ put_u64 6) 0x2000000000000000 = Ok 5"
  using calldata_word [of "put_u64 5 @ put_u64 6" 1] calldata_word [of "put_u64 5 @ put_u64 6" 0] by simp

section \<open>More gas does not change a run\<close>

lemma exec_log_mono:
  assumes "exec_log gas s = Ok s'" "gas \<le> gas'"
  shows "exec_log gas' s = Ok s'"
proof -
  have lt: "gas < x" if "gas' < x" for x using assms(2) that by (rule le_less_trans)
  from assms(1) show ?thesis
    by (cases "st s") (auto simp: exec_log_def pop_def split: if_splits dest: lt)
qed

lemma step_local_mono:
  assumes "step_local H code input gas ctx op s = Ok c" "gas \<le> gas'"
  shows "step_local H code input gas' ctx op s = Ok c"
proof (cases "op = LOG")
  case True
  with assms(1) obtain s' where "exec_log gas s = Ok s'" "c = Continue s'"
    by (auto simp: step_local_def)
  with True exec_log_mono [OF this(1) assms(2)] show ?thesis by (simp add: step_local_def)
next
  case False
  then have "step_local H code input gas' ctx op s = step_local H code input gas ctx op s"
    by (cases op) (simp_all add: step_local_def)
  with assms show ?thesis by simp
qed

lemma vm_step_mono:
  assumes "vm_step H None code input gas ctx b h s = (h', Ok c)" "gas \<le> gas'"
  shows "vm_step H None code input gas' ctx b h s = (h', Ok c)"
proof -
  have "exec_call None gas' ctx h s = exec_call None gas ctx h s"
    by (auto simp: exec_call_def split: result.split prod.split)
  with assms show ?thesis
    by (auto simp: vm_step_def split: option.splits if_splits prod.splits
        dest: step_local_mono [OF _ assms(2)])
qed

lemma vm_loop_mono:
  "vm_loop H None code input gas ctx steps h s = (h', Ok s') \<Longrightarrow> gas \<le> gas' \<Longrightarrow>
   vm_loop H None code input gas' ctx steps h s = (h', Ok s')"
proof (induction steps arbitrary: h s rule: measure_induct_rule [where f = "\<lambda>k. nat (maxSteps - k)"])
  case (less steps)
  let ?b = "code ! nat (pc s)"
  note unroll = vm_loop.simps [of H None code input _ ctx steps]
  show ?case
  proof (cases "pc s < int (length code)")
    case False
    with less.prems show ?thesis by (simp add: unroll)
  next
    case True
    with less.prems have c: "\<not> maxSteps < steps + 1" "\<not> pc s < 0" "\<not> gas < used s + gasCost ?b"
      by (auto simp: unroll Let_def split: if_splits)
    obtain h1 r where v: "vm_step H None code input gas ctx ?b h (charge ?b s) = (h1, r)"
      by (metis surj_pair)
    with True less.prems(1) c obtain k where r: "r = Ok k"
      by (auto simp: unroll Let_def split: result.splits)
    have g: "\<not> gas' < used s + gasCost ?b" using c(3) less.prems(2) by (auto dest: le_less_trans)
    note v' = vm_step_mono [OF v [unfolded r] less.prems(2)]
    show ?thesis
      using True c g v v' r less.prems less.IH [of "steps + 1" h1]
      by (cases k) (auto simp: unroll Let_def)
  qed
qed

text \<open>
  For contracts that cannot call out, gas only limits: a run that succeeds gives the same
  storage, result and gas used under every larger gas limit.
\<close>

theorem ExecuteB_gas_monotone:
  assumes "ExecuteB H None code input storage bstore gas ctx h = (h', Ok out)" "gas \<le> gas'"
  shows "ExecuteB H None code input storage bstore gas' ctx h = (h', Ok out)"
proof -
  from assms(1) obtain s where "vm_loop H None code input gas ctx 0 h (vm_init storage bstore) = (h', Ok s)"
    and "commitB bstore s = out"
    by (auto simp: ExecuteB_def split: prod.splits)
  with vm_loop_mono [OF this(1) assms(2)] show ?thesis by (simp add: ExecuteB_def)
qed

theorem ExecuteB_gas_monotone_witness:
  "ExecuteB sha256 (None :: unit host option) sample_code [] [] None 100 ctx0 () = ((), Ok ([], None, sample_result))
   \<and> ExecuteB sha256 (None :: unit host option) sample_code [] [] None 18446744073709551615 ctx0 ()
     = ((), Ok ([], None, sample_result))"
  using sample_run ExecuteB_gas_monotone [OF sample_run, of 18446744073709551615] by simp

end
