(* ===== verification/SL_Pow.thy ===== *)
theory SL_Pow
  imports SL_Crypto
begin

text \<open>
  \<^verbatim>\<open>internal/regpow/regpow.go\<close> and \<^verbatim>\<open>internal/faucet/faucet.go\<close>: the proof-of-work puzzles of
  validator registration and of the faucet.  Both packages share the shape of the puzzle:
  a hash with enough leading zero bits, searched from nonce 0 upwards in \<open>uint64\<close>
  arithmetic.  The search loop has no exit but a solution, so it is a partial function:
  \<open>None\<close> is a search that never returns.
\<close>

section \<open>Leading zero bits\<close>

text \<open>The inner loop over the bits of a byte that is not zero, from bit \<open>i - 1\<close> down.\<close>

fun byte_zeros :: "byte \<Rightarrow> nat \<Rightarrow> nat" where
  "byte_zeros b 0 = 0"
| "byte_zeros b (Suc i) = (if bit b i then 0 else Suc (byte_zeros b i))"

fun leadingZeroBits :: "bytes \<Rightarrow> nat" where
  "leadingZeroBits [] = 0"
| "leadingZeroBits (b # h) = (if b = 0 then 8 + leadingZeroBits h else byte_zeros b 8)"

section \<open>The registration puzzle\<close>

definition regpow_prefix :: bytes where
  "regpow_prefix = [0x73, 0x6c, 0x2d, 0x72, 0x65, 0x67, 0x70, 0x6f, 0x77, 0x3a]"  \<comment> \<open>\<open>"sl-regpow:"\<close>\<close>

definition RegHash :: "(bytes \<Rightarrow> hash) \<Rightarrow> u64 \<Rightarrow> address \<Rightarrow> u64 \<Rightarrow> hash" where
  "RegHash H chainID addr nonce = H (regpow_prefix @ put_u64 chainID @ addr @ put_u64 nonce)"

definition RegVerify :: "(bytes \<Rightarrow> hash) \<Rightarrow> u64 \<Rightarrow> address \<Rightarrow> u64 \<Rightarrow> int \<Rightarrow> bool" where
  "RegVerify H chainID addr nonce bits =
     (if bits \<le> 0 then True else bits \<le> int (leadingZeroBits (RegHash H chainID addr nonce)))"

text \<open>The search loop of both packages, over the test of a nonce.\<close>

partial_function (option) search :: "(u64 \<Rightarrow> bool) \<Rightarrow> u64 \<Rightarrow> u64 option" where
  "search ok nonce = (if ok nonce then Some nonce else search ok (nonce + 1))"

definition RegSolve :: "(bytes \<Rightarrow> hash) \<Rightarrow> u64 \<Rightarrow> address \<Rightarrow> int \<Rightarrow> u64 option" where
  "RegSolve H chainID addr bits =
     (if bits \<le> 0 then Some 0
      else search (\<lambda>nonce. bits \<le> int (leadingZeroBits (RegHash H chainID addr nonce))) 0)"

definition Seed :: "(bytes \<Rightarrow> hash) \<Rightarrow> u64 \<Rightarrow> address \<Rightarrow> u64 \<Rightarrow> hash" where
  "Seed H chainID addr nonce = RegHash H chainID addr nonce"

section \<open>The faucet puzzle\<close>

definition faucet_prefix :: bytes where
  "faucet_prefix = [0x73, 0x6c, 0x2d, 0x66, 0x61, 0x75, 0x63, 0x65, 0x74, 0x3a]"  \<comment> \<open>\<open>"sl-faucet:"\<close>\<close>

definition FaucetHash :: "(bytes \<Rightarrow> hash) \<Rightarrow> u64 \<Rightarrow> address \<Rightarrow> hash \<Rightarrow> u64 \<Rightarrow> hash" where
  "FaucetHash H chainID addr anchor nonce =
     H (faucet_prefix @ put_u64 chainID @ addr @ anchor @ put_u64 nonce)"

definition FaucetVerify :: "(bytes \<Rightarrow> hash) \<Rightarrow> u64 \<Rightarrow> address \<Rightarrow> hash \<Rightarrow> u64 \<Rightarrow> int \<Rightarrow> bool" where
  "FaucetVerify H chainID addr anchor nonce bits =
     (if bits \<le> 0 then True else bits \<le> int (leadingZeroBits (FaucetHash H chainID addr anchor nonce)))"

definition FaucetSolve :: "(bytes \<Rightarrow> hash) \<Rightarrow> u64 \<Rightarrow> address \<Rightarrow> hash \<Rightarrow> int \<Rightarrow> u64 option" where
  "FaucetSolve H chainID addr anchor bits =
     (if bits \<le> 0 then Some 0
      else search (\<lambda>nonce. bits \<le> int (leadingZeroBits (FaucetHash H chainID addr anchor nonce))) 0)"

section \<open>Leading zeros and magnitude\<close>

text \<open>The hash read as one big-endian number, the view of a difficulty target.\<close>

fun be_nat :: "bytes \<Rightarrow> nat" where
  "be_nat [] = 0"
| "be_nat (b # h) = unat b * 256 ^ length h + be_nat h"

lemma be_nat_less: "be_nat h < 256 ^ length h"
proof (induction h)
  case (Cons b h)
  have "unat b \<le> 255" using unsigned_less [of b, where ?'a = nat] by simp
  then have "unat b * 256 ^ length h \<le> 255 * 256 ^ length h" by (rule mult_le_mono1)
  with Cons.IH have "unat b * 256 ^ length h + be_nat h < 256 * 256 ^ length h" by linarith
  then show ?case by simp
qed simp

lemma byte_zeros_le: "byte_zeros b n \<le> n"
  by (induction n) auto

text \<open>Below bit \<open>n\<close>, at least \<open>k\<close> leading zeros means the remaining value fits in \<open>n - k\<close> bits.\<close>

lemma byte_zeros_iff:
  "k \<le> n \<Longrightarrow> k \<le> byte_zeros b n \<longleftrightarrow> take_bit n (unat b) < 2 ^ (n - k)"
proof (induction n arbitrary: k)
  case 0
  then show ?case by simp
next
  case (Suc n)
  have bit: "bit b n \<longleftrightarrow> bit (unat b) n" by (simp add: bit_unsigned_iff)
  have split: "take_bit (Suc n) (unat b) = take_bit n (unat b) + (if bit b n then 2 ^ n else 0)"
    by (auto simp: bit take_bit_Suc_from_most)
  show ?case
  proof (cases k)
    case 0
    have "take_bit (Suc n) (unat b) < 2 ^ Suc n" by (rule take_bit_nat_less_exp)
    with 0 show ?thesis by simp
  next
    case (Suc k')
    with Suc.prems have "2 ^ (n - k') \<le> (2 :: nat) ^ n" by simp
    then have "\<not> take_bit n (unat b) + 2 ^ n < 2 ^ (n - k')" by linarith
    with Suc.IH [of k'] Suc.prems \<open>k = Suc k'\<close> split show ?thesis
      by auto
  qed
qed

lemma leadingZeroBits_iff:
  "k \<le> 8 * length h \<Longrightarrow> k \<le> leadingZeroBits h \<longleftrightarrow> be_nat h < 2 ^ (8 * length h - k)"
proof (induction h arbitrary: k)
  case Nil
  then show ?case by simp
next
  case (Cons b h)
  have pow: "(256 :: nat) ^ length h = 2 ^ (8 * length h)" by (simp add: power_mult)
  have tb: "take_bit 8 (unat b) = unat b"
    using unsigned_less [of b, where ?'a = nat] by (simp add: take_bit_nat_eq_self)
  show ?case
  proof (cases "b = 0")
    case True
    show ?thesis
    proof (cases "k \<le> 8")
      case True
      have "be_nat h < 2 ^ (8 * length h)" using be_nat_less [of h] pow by simp
      also have "\<dots> \<le> 2 ^ (8 * length (b # h) - k)" using True by (intro power_increasing) auto
      finally show ?thesis using \<open>b = 0\<close> True by simp
    next
      case False
      with Cons.prems have "8 * length h - (k - 8) = 8 * length (b # h) - k" by simp
      with False Cons.prems Cons.IH [of "k - 8"] \<open>b = 0\<close> show ?thesis
        by (simp add: le_diff_conv add.commute)
    qed
  next
    case False
    then have pos: "1 \<le> unat b" by (metis less_one not_le unat_eq_zero)
    show ?thesis
    proof (cases "k \<le> 8")
      case True
      have e: "(2 :: nat) ^ (8 * length (b # h) - k) = 2 ^ (8 - k) * 256 ^ length h"
        using True by (simp add: pow flip: power_add)
      have "k \<le> leadingZeroBits (b # h) \<longleftrightarrow> unat b < 2 ^ (8 - k)"
        using byte_zeros_iff [OF True, of b] tb False by simp
      also have "\<dots> \<longleftrightarrow> be_nat (b # h) < 2 ^ (8 - k) * 256 ^ length h"
      proof
        assume "unat b < 2 ^ (8 - k)"
        then have "Suc (unat b) * 256 ^ length h \<le> 2 ^ (8 - k) * 256 ^ length h"
          by (intro mult_le_mono1) simp
        with be_nat_less [of h] show "be_nat (b # h) < 2 ^ (8 - k) * 256 ^ length h" by simp
      next
        assume "be_nat (b # h) < 2 ^ (8 - k) * 256 ^ length h"
        then have "unat b * 256 ^ length h < 2 ^ (8 - k) * 256 ^ length h"
          by (metis add_lessD1 be_nat.simps(2))
        then show "unat b < 2 ^ (8 - k)" by simp
      qed
      finally show ?thesis unfolding e .
    next
      case False
      then have nlz: "\<not> k \<le> leadingZeroBits (b # h)"
        using byte_zeros_le [of b 8] \<open>b \<noteq> 0\<close> by simp
      have "2 ^ (8 * length (b # h) - k) \<le> (256 :: nat) ^ length h"
        unfolding pow using False by (intro power_increasing) auto
      moreover have "256 ^ length h \<le> be_nat (b # h)"
        unfolding be_nat.simps using pos by (intro trans_le_add1) simp
      ultimately have "\<not> be_nat (b # h) < 2 ^ (8 * length (b # h) - k)" by linarith
      with nlz show ?thesis by simp
    qed
  qed
qed

section \<open>The search\<close>

lemma search_sound: "search ok n = Some m \<Longrightarrow> ok m"
  by (rule search.raw_induct [where P = "\<lambda>ok n m. ok m"]) (auto split: if_splits)

text \<open>From a solution within reach, the search stops at the first one.\<close>

lemma search_reaches:
  assumes "ok m" "n \<le> m" "\<And>i. n \<le> i \<Longrightarrow> i < m \<Longrightarrow> \<not> ok i"
  shows "search ok n = Some m"
  using assms(2,3)
proof (induction "unat m - unat n" arbitrary: n)
  case 0
  then have "n = m" by (simp add: word_le_nat_alt word_unat_eq_iff)
  with assms(1) show ?case by (simp add: search.simps)
next
  case (Suc d)
  have lt: "unat n < unat m" using Suc.hyps(2) by simp
  then have inc: "unat (n + 1) = unat n + 1"
    using unsigned_less [of m, where ?'a = nat] by (intro unat_inc_no_wrap) simp
  have "\<not> ok n" using Suc.prems lt by (simp add: word_less_nat_alt)
  moreover have "search ok (n + 1) = Some m"
  proof (rule Suc.hyps(1))
    show "d = unat m - unat (n + 1)" "n + 1 \<le> m" using Suc.hyps(2) inc lt by (simp_all add: word_le_nat_alt)
    show "\<not> ok i" if "n + 1 \<le> i" "i < m" for i
      using Suc.prems(2) [of i] that inc by (simp add: word_le_nat_alt)
  qed
  ultimately show ?case by (simp add: search.simps [of ok n])
qed

lemma search_total:
  "search ok 0 = (if \<exists>m. ok m then Some (LEAST m. ok m) else None)"
proof (cases "\<exists>m. ok m")
  case True
  then obtain m where "ok m" by blast
  then have l: "ok (LEAST m. ok m)" by (rule LeastI)
  have "search ok 0 = Some (LEAST m. ok m)"
    by (rule search_reaches [of ok, OF l]) (auto dest: not_less_Least)
  with True show ?thesis by simp
next
  case False
  then have "search ok 0 = None" using search_sound [of ok 0] by (cases "search ok 0") auto
  with False show ?thesis by simp
qed

text \<open>Difficulty as a target.\<close>

lemma difficulty_iff:
  assumes "length h = 32" "0 \<le> bits" "bits \<le> 256"
  shows "bits \<le> int (leadingZeroBits h) \<longleftrightarrow> be_nat h < 2 ^ nat (256 - bits)"
proof -
  have "bits \<le> int (leadingZeroBits h) \<longleftrightarrow> nat bits \<le> leadingZeroBits h" by linarith
  also have "\<dots> \<longleftrightarrow> be_nat h < 2 ^ (8 * 32 - nat bits)"
    using leadingZeroBits_iff [of "nat bits" h] assms(1,3) by simp
  also have "8 * 32 - nat bits = nat (256 - bits)" using assms(2) by (simp add: nat_diff_distrib)
  finally show ?thesis .
qed

lemma least_word_True [simp]: "(LEAST n :: u64. True) = 0"
  by (rule Least_equality) auto

text \<open>
  The proof-of-work puzzles: with a 32-byte digest, a nonce passes \<^verbatim>\<open>regpow.Verify\<close> (and
  likewise \<^verbatim>\<open>faucet.Verify\<close>) at difficulty \<open>bits\<close> exactly when the hash, read as a 256-bit
  number, is below \<open>2^(256 - bits)\<close>; \<^verbatim>\<open>Solve\<close> returns the least nonce that passes, and runs
  forever exactly when no \<open>uint64\<close> passes.
\<close>

theorem pow_puzzles:
  assumes "digest H" "0 \<le> bits" "bits \<le> 256"
  shows "(RegVerify H chainID addr nonce bits \<longleftrightarrow>
            be_nat (RegHash H chainID addr nonce) < 2 ^ nat (256 - bits)) \<and>
         (FaucetVerify H chainID addr anchor nonce bits \<longleftrightarrow>
            be_nat (FaucetHash H chainID addr anchor nonce) < 2 ^ nat (256 - bits)) \<and>
         RegSolve H chainID addr bits =
           (if \<exists>n. RegVerify H chainID addr n bits
            then Some (LEAST n. RegVerify H chainID addr n bits) else None) \<and>
         FaucetSolve H chainID addr anchor bits =
           (if \<exists>n. FaucetVerify H chainID addr anchor n bits
            then Some (LEAST n. FaucetVerify H chainID addr anchor n bits) else None)"
proof (intro conjI)
  have len: "length (RegHash H chainID addr n) = 32" "length (FaucetHash H chainID addr anchor n) = 32" for n
    by (simp_all add: RegHash_def FaucetHash_def digest.length_H [OF assms(1)])
  note target = difficulty_iff [OF len(1) assms(2,3)] difficulty_iff [OF len(2) assms(2,3)]
  have full: "be_nat (RegHash H chainID addr n) < 2 ^ 256" "be_nat (FaucetHash H chainID addr anchor n) < 2 ^ 256" for n
    using be_nat_less [of "RegHash H chainID addr n"] be_nat_less [of "FaucetHash H chainID addr anchor n"]
    by (simp_all add: len)
  show "RegVerify H chainID addr nonce bits \<longleftrightarrow>
      be_nat (RegHash H chainID addr nonce) < 2 ^ nat (256 - bits)"
    using target(1) full(1) assms(2) by (auto simp: RegVerify_def)
  show "FaucetVerify H chainID addr anchor nonce bits \<longleftrightarrow>
      be_nat (FaucetHash H chainID addr anchor nonce) < 2 ^ nat (256 - bits)"
    using target(2) full(2) assms(2) by (auto simp: FaucetVerify_def)
qed (simp_all add: RegSolve_def RegVerify_def FaucetSolve_def FaucetVerify_def search_total)

theorem pow_puzzles_witness:
  "digest sha256 \<and>
   (RegVerify sha256 7 [0x73] 2 3 \<longleftrightarrow> be_nat (RegHash sha256 7 [0x73] 2) < 2 ^ nat (256 - 3)) \<and>
   RegSolve sha256 7 [0x73] 3 =
     (if \<exists>n. RegVerify sha256 7 [0x73] n 3 then Some (LEAST n. RegVerify sha256 7 [0x73] n 3) else None)"
  using sha.digest_axioms pow_puzzles [OF sha.digest_axioms, of 3 7 "[0x73]" 2] by simp

end
