(* ===== verification/SL_Economy.thy ===== *)
theory SL_Economy
  imports SL_Prelude
begin

text \<open>
  \<^verbatim>\<open>internal/economy/economy.go\<close>: the monetary policy.  The subsidy of a block is
  the initial reward halved every \<open>HalvingInterval\<close> blocks and clamped to what is
  left under the supply cap.  \<open>minted_after\<close> runs the schedule the way
  \<^verbatim>\<open>state.ApplyBlock\<close> does (\<^verbatim>\<open>s.Minted += reward\<close> once per block).
\<close>

definition Coin :: u64 where
  "Coin = 100000000"

definition MaxSupply :: u64 where
  "MaxSupply = 21000000 * Coin"

definition InitialReward :: u64 where
  "InitialReward = 50 * Coin"

definition HalvingInterval :: u64 where
  "HalvingInterval = 210000"

definition MinBond :: u64 where
  "MinBond = 1000 * Coin"

definition BlockReward :: "u64 \<Rightarrow> u64 \<Rightarrow> u64" where
  "BlockReward height minted =
     (if MaxSupply \<le> minted then 0
      else let halvings = height div HalvingInterval in
        if 64 \<le> halvings then 0
        else let reward = drop_bit (unat halvings) InitialReward;
                 remaining = MaxSupply - minted
             in if remaining < reward then remaining else reward)"

text \<open>Minted total after the blocks \<open>1, \<dots>, n\<close>, each claiming its full subsidy.\<close>

primrec minted_after :: "u64 \<Rightarrow> nat \<Rightarrow> u64" where
  "minted_after premine 0 = premine"
| "minted_after premine (Suc n) =
     minted_after premine n + BlockReward (of_nat (Suc n)) (minted_after premine n)"

section \<open>Values of the constants\<close>

lemma MaxSupply_eq: "MaxSupply = 2100000000000000"
  by (simp add: MaxSupply_def Coin_def)

lemma unat_MaxSupply: "unat MaxSupply = 2100000000000000"
  by (simp add: MaxSupply_eq)

lemma unat_InitialReward: "unat InitialReward = 5000000000"
  by (simp add: InitialReward_def Coin_def)

lemma unat_HalvingInterval: "unat HalvingInterval = 210000"
  by (simp add: HalvingInterval_def)

lemma unat_MinBond: "unat MinBond = 100000000000"
  by (simp add: MinBond_def Coin_def)

section \<open>The subsidy\<close>

lemma InitialReward_shift: "33 \<le> n \<Longrightarrow> 5000000000 div (2 ^ n) = (0::nat)"
proof -
  assume "33 \<le> n"
  then have "(2::nat) ^ 33 \<le> 2 ^ n" by (rule power_increasing) simp
  then have "(5000000000::nat) < 2 ^ n" by simp
  then show ?thesis by simp
qed

text \<open>
  The code's guard on 64 halvings and its clamping amount to one formula over the
  natural numbers: the shift of a word is the division, and nothing wraps.
\<close>

lemma unat_BlockReward:
  "unat (BlockReward h m) =
     min (5000000000 div 2 ^ (unat h div 210000)) (2100000000000000 - unat m)"
proof -
  define k where "k = unat h div 210000"
  have hal: "unat (h div HalvingInterval) = k"
    by (simp add: k_def unat_div unat_HalvingInterval)
  have ge: "(64 \<le> h div HalvingInterval) \<longleftrightarrow> 64 \<le> k"
    by (simp add: word_le_nat_alt hal)
  have shift: "unat (drop_bit k InitialReward) = 5000000000 div 2 ^ k"
    unfolding unat_drop_bit_eq unat_InitialReward by (simp add: drop_bit_eq_div)
  show ?thesis
  proof (cases "MaxSupply \<le> m")
    case True
    then have "2100000000000000 \<le> unat m"
      by (simp add: word_le_nat_alt unat_MaxSupply)
    with True show ?thesis by (simp add: BlockReward_def)
  next
    case cap: False
    then have le: "m \<le> MaxSupply" by simp
    have rem: "unat (MaxSupply - m) = 2100000000000000 - unat m"
      using unat_sub_no_wrap [OF le] by (simp add: unat_MaxSupply)
    show ?thesis
    proof (cases "64 \<le> k")
      case True
      then have "5000000000 div 2 ^ k = (0::nat)" by (intro InitialReward_shift) simp
      with True cap show ?thesis by (simp add: BlockReward_def ge k_def)
    next
      case False
      then have "BlockReward h m = (if MaxSupply - m < drop_bit k InitialReward
          then MaxSupply - m else drop_bit k InitialReward)"
        using cap by (simp add: BlockReward_def ge hal Let_def)
      then show ?thesis
        by (auto simp: word_less_nat_alt rem shift k_def [symmetric] min_def)
    qed
  qed
qed

text \<open>Adding the subsidy to a total within the cap neither wraps nor passes the cap.\<close>

lemma mint_within_cap:
  assumes "m \<le> MaxSupply"
  shows "unat (m + BlockReward h m) = unat m + unat (BlockReward h m)"
    and "m + BlockReward h m \<le> MaxSupply"
proof -
  have le: "unat m + unat (BlockReward h m) \<le> 2100000000000000"
    using assms by (simp add: unat_BlockReward word_le_nat_alt unat_MaxSupply)
  show eq: "unat (m + BlockReward h m) = unat m + unat (BlockReward h m)"
    using le by (intro unat_add_no_wrap) simp
  show "m + BlockReward h m \<le> MaxSupply"
    using le by (simp add: word_le_nat_alt eq unat_MaxSupply)
qed

lemma BlockReward_antimono:
  assumes "h \<le> h'" and "m \<le> m'"
  shows "BlockReward h' m' \<le> BlockReward h m"
proof -
  have "unat h div 210000 \<le> unat h' div 210000"
    using assms(1) by (simp add: div_le_mono word_le_nat_alt)
  then have "(5000000000::nat) div 2 ^ (unat h' div 210000) \<le> 5000000000 div 2 ^ (unat h div 210000)"
    by (intro div_le_mono2 power_increasing) auto
  then show ?thesis
    using assms(2) by (auto simp: word_le_nat_alt unat_BlockReward min_def)
qed

lemma minted_after_capped: "premine \<le> MaxSupply \<Longrightarrow> minted_after premine n \<le> MaxSupply"
  by (induction n) (auto intro: mint_within_cap(2))

lemma minted_after_mono:
  "premine \<le> MaxSupply \<Longrightarrow> minted_after premine n \<le> minted_after premine (Suc n)"
  using mint_within_cap(1) [OF minted_after_capped [of premine n], of "of_nat (Suc n)"]
  by (simp add: word_le_nat_alt)

section \<open>Properties\<close>

text \<open>
  The emission schedule never breaks the 21,000,000 cap: from any premine within
  the cap, after any number of blocks that each claim the full subsidy the minted total
  is still within the cap, has not decreased, and the addition that produced it did not
  wrap around.
\<close>

theorem emission_capped:
  assumes "premine \<le> MaxSupply"
  shows "minted_after premine n \<le> MaxSupply
    \<and> premine \<le> minted_after premine n
    \<and> unat (minted_after premine (Suc n)) =
        unat (minted_after premine n) + unat (BlockReward (of_nat (Suc n)) (minted_after premine n))"
proof (intro conjI)
  show "minted_after premine n \<le> MaxSupply"
    using assms by (rule minted_after_capped)
  show "premine \<le> minted_after premine n"
    by (induction n) (use minted_after_mono [OF assms] order_trans in \<open>auto\<close>)
  show "unat (minted_after premine (Suc n)) =
      unat (minted_after premine n) + unat (BlockReward (of_nat (Suc n)) (minted_after premine n))"
    using mint_within_cap(1) [OF minted_after_capped [OF assms]] by simp
qed

theorem emission_capped_witness:
  "(100000000000000 :: u64) \<le> MaxSupply \<and> minted_after 100000000000000 3 \<le> MaxSupply"
proof -
  have h: "(100000000000000 :: u64) \<le> MaxSupply" by (simp add: MaxSupply_eq)
  show ?thesis using h emission_capped [OF h, of 3] by blast
qed

text \<open>
  The subsidy is exactly the halving formula clamped to the remaining supply, for
  every height and every minted total: 50 SHARD shifted down once per 210000 blocks.
  In particular it is never above 50 SHARD, and it never increases as the chain grows.
\<close>

theorem BlockReward_schedule:
  "unat (BlockReward h m) =
     min (5000000000 div 2 ^ (unat h div 210000)) (2100000000000000 - unat m)
   \<and> BlockReward h m \<le> InitialReward
   \<and> BlockReward (max h h') (max m m') \<le> BlockReward h m"
proof (intro conjI)
  show "BlockReward h m \<le> InitialReward"
    by (simp add: word_le_nat_alt unat_BlockReward unat_InitialReward min.coboundedI1)
qed (simp_all add: unat_BlockReward BlockReward_antimono)

end
