(* ===== verification/SL_Strconv.thy ===== *)
theory SL_Strconv
  imports SL_Prelude
begin

text \<open>
  Decimal conversion as \<^verbatim>\<open>strconv.FormatUint(_, 10)\<close> and \<^verbatim>\<open>strconv.ParseUint(_, 10, 64)\<close> do it:
  the contract storage keeps its \<open>uint64\<close> keys as decimal strings.
\<close>

fun dec_digits :: "nat \<Rightarrow> bytes" where
  "dec_digits n = (if n < 10 then [of_nat (48 + n)] else dec_digits (n div 10) @ [of_nat (48 + n mod 10)])"

declare dec_digits.simps [simp del]

definition FormatUint :: "u64 \<Rightarrow> bytes" where
  "FormatUint n = dec_digits (unat n)"

definition is_digit :: "byte \<Rightarrow> bool" where
  "is_digit c \<longleftrightarrow> 48 \<le> c \<and> c \<le> 57"

definition dec_value :: "bytes \<Rightarrow> int" where
  "dec_value s = foldl (\<lambda>n c. 10 * n + (uint c - 48)) 0 s"

definition ParseUint :: "bytes \<Rightarrow> u64 option" where
  "ParseUint s =
     (if s = [] \<or> \<not> list_all is_digit s \<or> 2 ^ 64 \<le> dec_value s then None else Some (of_int (dec_value s)))"

lemma unat_digit: "d < 10 \<Longrightarrow> unat (of_nat (48 + d) :: byte) = 48 + d"
  by (rule unat_of_nat_small) simp

lemma is_digit_of_nat: "d < 10 \<Longrightarrow> is_digit (of_nat (48 + d))"
  by (simp only: is_digit_def word_le_nat_alt unat_digit) simp

lemma uint_digit: "d < 10 \<Longrightarrow> uint (of_nat (48 + d) :: byte) = 48 + int d"
  by (simp only: uint_nat unat_digit)

lemma dec_value_snoc: "dec_value (s @ [c]) = 10 * dec_value s + (uint c - 48)"
  by (simp add: dec_value_def)

lemma dec_digits_ok: "dec_digits n \<noteq> [] \<and> list_all is_digit (dec_digits n) \<and> dec_value (dec_digits n) = int n"
proof (induction n rule: dec_digits.induct)
  case (1 n)
  show ?case
  proof (cases "n < 10")
    case True
    then have "dec_digits n = [of_nat (48 + n)]" by (subst dec_digits.simps) simp
    with True uint_digit [OF True] is_digit_of_nat [OF True] show ?thesis
      by (simp only: dec_value_def) simp
  next
    case False
    then have d: "dec_digits n = dec_digits (n div 10) @ [of_nat (48 + n mod 10)]"
      by (subst dec_digits.simps) simp
    have m: "n mod 10 < 10" by simp
    have "dec_value (dec_digits n) = 10 * int (n div 10) + int (n mod 10)"
      unfolding d dec_value_snoc uint_digit [OF m] using 1 False by simp
    moreover have "10 * int (n div 10) + int (n mod 10) = int n" by presburger
    ultimately show ?thesis using 1 False is_digit_of_nat [OF m] by (simp only: d) simp
  qed
qed

lemma ParseUint_FormatUint [simp]: "ParseUint (FormatUint n) = Some n"
  using dec_digits_ok [of "unat n"] unsigned_less [of n, where ?'a = int]
  by (simp add: ParseUint_def FormatUint_def not_le)

lemma FormatUint_inject [simp]: "FormatUint a = FormatUint b \<longleftrightarrow> a = b"
  by (metis ParseUint_FormatUint option.inject)

end
