(* ===== verification/SL_Order.thy ===== *)
theory SL_Order
  imports SL_Prelude "HOL-Library.Multiset"
begin

text \<open>
  Orders and sorting as the sources use them: bytewise order of strings and hashes, and
  \<^verbatim>\<open>sort.Slice\<close> with a comparison function.  \<open>sort.Slice\<close> is not stable; under a total
  antisymmetric order it has one result, which is the insertion sort below.
\<close>

section \<open>Bytewise order\<close>

fun str_less :: "bytes \<Rightarrow> bytes \<Rightarrow> bool" where
  "str_less _ [] = False"
| "str_less [] (y # ys) = True"
| "str_less (x # xs) (y # ys) = (if x \<noteq> y then x < y else str_less xs ys)"

lemma str_less_irrefl [simp]: "\<not> str_less a a"
  by (induction a) auto

lemma str_less_trans: "str_less a b \<Longrightarrow> str_less b c \<Longrightarrow> str_less a c"
proof (induction a b arbitrary: c rule: str_less.induct)
  case (2 y ys)
  then show ?case by (cases c) auto
next
  case (3 x xs y ys)
  then show ?case by (cases c) (auto split: if_splits)
qed simp

lemma str_less_total: "a \<noteq> b \<Longrightarrow> str_less a b \<or> str_less b a"
proof (induction a b rule: str_less.induct)
  case (1 a)
  then show ?case by (cases a) auto
qed auto

lemma str_less_asym: "str_less a b \<Longrightarrow> \<not> str_less b a"
  using str_less_trans str_less_irrefl by blast

section \<open>Sorting with a comparison\<close>

text \<open>What a comparison has to satisfy for its sort to be determined: a strict linear order.\<close>

locale sort_order =
  fixes lt :: "'a \<Rightarrow> 'a \<Rightarrow> bool"
  assumes lt_irrefl: "\<not> lt a a"
    and lt_trans: "lt a b \<Longrightarrow> lt b c \<Longrightarrow> lt a c"
    and lt_total: "a \<noteq> b \<Longrightarrow> lt a b \<or> lt b a"

fun insert_by :: "('a \<Rightarrow> 'a \<Rightarrow> bool) \<Rightarrow> 'a \<Rightarrow> 'a list \<Rightarrow> 'a list" where
  "insert_by lt x [] = [x]"
| "insert_by lt x (y # ys) = (if lt y x then y # insert_by lt x ys else x # y # ys)"

definition sort_by :: "('a \<Rightarrow> 'a \<Rightarrow> bool) \<Rightarrow> 'a list \<Rightarrow> 'a list" where
  "sort_by lt xs = foldr (insert_by lt) xs []"

lemma sort_by_simps [simp]: "sort_by lt [] = []" "sort_by lt (x # xs) = insert_by lt x (sort_by lt xs)"
  by (simp_all add: sort_by_def)

lemma mset_insert_by [simp]: "mset (insert_by lt x xs) = add_mset x (mset xs)"
  by (induction xs) auto

lemma mset_sort_by [simp]: "mset (sort_by lt xs) = mset xs"
  by (induction xs) auto

lemma set_sort_by [simp]: "set (sort_by lt xs) = set xs"
  by (metis mset_sort_by set_mset_mset)

lemma length_sort_by [simp]: "length (sort_by lt xs) = length xs"
  by (metis mset_sort_by size_mset)

lemma distinct_sort_by [simp]: "distinct (sort_by lt xs) = distinct xs"
  by (metis mset_eq_imp_distinct_iff mset_sort_by)

context sort_order
begin

abbreviation le where "le a b \<equiv> \<not> lt b a"

lemma lt_asym: "lt a b \<Longrightarrow> \<not> lt b a"
  using lt_trans lt_irrefl by blast

lemma le_trans: "le a b \<Longrightarrow> le b c \<Longrightarrow> le a c"
  using lt_total lt_trans by metis

lemma set_insert_by: "set (insert_by lt x xs) = insert x (set xs)"
  by (induction xs) auto

lemma sorted_insert_by: "sorted_wrt le xs \<Longrightarrow> sorted_wrt le (insert_by lt x xs)"
proof (induction xs)
  case (Cons y ys)
  then show ?case using le_trans [where a = x and b = y] by (auto simp: set_insert_by dest: lt_asym)
qed simp

lemma sorted_sort_by: "sorted_wrt le (sort_by lt xs)"
  by (induction xs) (auto intro: sorted_insert_by)

lemma insert_by_below: "\<forall>y\<in>set ys. le x y \<Longrightarrow> insert_by lt x ys = x # ys"
  by (cases ys) auto

lemma filter_insert_by:
  "sorted_wrt le xs \<Longrightarrow> filter P (insert_by lt x xs) = (if P x then insert_by lt x (filter P xs) else filter P xs)"
proof (induction xs)
  case (Cons y ys)
  show ?case
  proof (cases "lt y x")
    case True
    with Cons show ?thesis by auto
  next
    case False
    with Cons.prems have "\<forall>z\<in>set (filter P ys). le x z" using le_trans [where a = x and b = y] by auto
    then have "insert_by lt x (filter P ys) = x # filter P ys" by (rule insert_by_below)
    with False show ?thesis by auto
  qed
qed simp

lemma sort_by_filter: "sort_by lt (filter P xs) = filter P (sort_by lt xs)"
  by (induction xs) (auto simp: filter_insert_by sorted_sort_by)

text \<open>The result depends on the elements only, not on the order they come in.\<close>

lemma sorted_unique:
  "sorted_wrt le xs \<Longrightarrow> sorted_wrt le ys \<Longrightarrow> mset xs = mset ys \<Longrightarrow> xs = ys"
proof (induction xs arbitrary: ys)
  case (Cons x xs)
  then obtain y zs where ys: "ys = y # zs" by (cases ys) auto
  have "x \<in> set ys" "y \<in> set (x # xs)"
    using Cons.prems(3) ys by (metis list.set_intros(1) set_mset_mset)+
  with Cons.prems(1,2) ys have "le x y" "le y x" using lt_irrefl by auto
  then have xy: "x = y" using lt_total by blast
  with Cons ys show ?case by simp
qed simp

lemma sort_by_cong: "mset xs = mset ys \<Longrightarrow> sort_by lt xs = sort_by lt ys"
  by (rule sorted_unique) (auto intro: sorted_sort_by)

end

section \<open>Selecting the best of a collection\<close>

text \<open>
  Loops that keep the best candidate seen so far: under a strict order that is total on the
  candidates the result is the one candidate that beats all others, in whatever order they come.
\<close>

locale selection =
  fixes gt :: "'a \<Rightarrow> 'a \<Rightarrow> bool" and A :: "'a set"
  assumes gt_irrefl: "\<not> gt a a"
    and gt_trans: "gt a b \<Longrightarrow> gt b c \<Longrightarrow> gt a c"
    and gt_total: "a \<in> A \<Longrightarrow> b \<in> A \<Longrightarrow> a \<noteq> b \<Longrightarrow> gt a b \<or> gt b a"
begin

definition top_of :: "'a \<Rightarrow> 'a set \<Rightarrow> bool" where
  "top_of r C \<longleftrightarrow> r \<in> C \<and> (\<forall>q\<in>C. r = q \<or> gt r q)"

lemma top_unique: "top_of r C \<Longrightarrow> top_of r' C \<Longrightarrow> r = r'"
  unfolding top_of_def using gt_trans gt_irrefl by metis

lemma top_insert:
  assumes "a \<in> A" "b \<in> A" "top_of r (insert (if gt b a then b else a) C)"
  shows "top_of r (insert a (insert b C))"
proof (cases "gt b a")
  case True
  then have r: "top_of r (insert b C)" using assms(3) by simp
  then have "r = b \<or> gt r b" by (simp add: top_of_def)
  with True have "gt r a" using gt_trans by blast
  with r show ?thesis by (auto simp: top_of_def)
next
  case False
  then have r: "top_of r (insert a C)" using assms(3) by simp
  have "a = b \<or> gt a b" using False gt_total assms(1,2) by blast
  moreover have "r = a \<or> gt r a" using r by (simp add: top_of_def)
  ultimately have "r = b \<or> gt r b" using gt_trans by blast
  with r show ?thesis by (auto simp: top_of_def)
qed

lemma fold_select:
  assumes "acc \<in> A" "\<And>e. e \<in> set es \<Longrightarrow> f e \<in> A"
    and "\<And>e acc. e \<in> set es \<Longrightarrow> acc \<in> A \<Longrightarrow> step e acc = (if gt (f e) acc then f e else acc)"
  shows "top_of (fold step es acc) (insert acc (f ` set es))"
  using assms
proof (induction es arbitrary: acc)
  case Nil
  then show ?case by (simp add: top_of_def)
next
  case (Cons e es)
  have s: "step e acc = (if gt (f e) acc then f e else acc)" using Cons.prems by simp
  have "step e acc \<in> A" using Cons.prems by (simp add: s)
  then have "top_of (fold step es (step e acc)) (insert (step e acc) (f ` set es))"
    using Cons.IH Cons.prems(2,3) by simp
  then have "top_of (fold step es (step e acc)) (insert acc (insert (f e) (f ` set es)))"
    unfolding s using top_insert Cons.prems(1,2) by simp
  then show ?case by simp
qed

end

interpretation strings: sort_order str_less
  by unfold_locales (auto intro: str_less_trans dest: str_less_total)

abbreviation str_sort :: "bytes list \<Rightarrow> bytes list" where
  "str_sort \<equiv> sort_by str_less"

end
