(* ===== verification/SL_State.thy ===== *)
theory SL_State
  imports SL_Types SL_Vm SL_Pow SL_Economy SL_Strconv SL_Order
begin

text \<open>
  \<^verbatim>\<open>internal/state/state.go\<close>: the account ledger, the validator registry and the application
  of a block to them.

  \<open>State\<close> is the Go struct without its mutex; its maps are association lists.  A nil map and an
  empty map behave alike in the source and are both \<open>[]\<close>.  The resolvers the chain installs
  (\<open>AnchorBodyHash\<close>, \<open>ShardAt\<close>, \<open>ShardProofOK\<close>) are fields, \<open>None\<close> when nil.  The hash
  function \<open>H\<close>, the signature check \<open>V\<close> and the JSON decoder \<open>J\<close> of the slashing evidence are
  arguments.

  \<open>blk\<close> holds what \<^verbatim>\<open>ApplyBlock\<close> keeps while it runs: the state under mutation, the snapshots
  for the rollback, the fees and the events.  Every step returns it next to its outcome, also
  when it fails, because a rollback undoes only what was recorded.
\<close>

section \<open>Data\<close>

record Account =
  Balance :: u64
  AcctNonce :: u64
  Code :: bytes
  Storage :: "(bytes, u64) gomap"
  BStorage :: "(bytes, bytes) gomap"

definition empty_account :: Account where
  "empty_account = \<lparr>Balance = 0, AcctNonce = 0, Code = [], Storage = [], BStorage = []\<rparr>"

record ValidatorRec =
  Bond :: u64
  Active :: bool
  Since :: u64
  Slashed :: bool
  StorageScore :: u64
  LastProofAt :: u64

record State =
  Accounts :: "(address, Account) gomap"
  Validators :: "(address, ValidatorRec) gomap"
  StHeight :: u64
  Minted :: u64
  StChainID :: u64
  RegPoWBits :: int
  FaucetClaims :: "(address, u64) gomap"
  FaucetBits :: int
  FaucetAmount :: u64
  FaucetCooldown :: u64
  FaucetDepth :: u64
  FaucetSource :: address
  AnchorBodyHash :: "(u64 \<Rightarrow> hash option) option"
  StorageWindow :: u64
  StorageMinDepth :: u64
  StorageCap :: u64
  ShardAt :: "(u64 \<Rightarrow> (hash \<times> int) option) option"
  ShardProofOK :: "(u64 \<Rightarrow> int \<Rightarrow> bytes \<Rightarrow> bool) option"
  lastLogs :: "Log list"

datatype state_error =
    ErrSig types_error | ErrBadNonce | ErrInsufficient | ErrCoinbaseInBody | ErrBadCoinbase
  | ErrBondTooLow | ErrAlreadyValidator | ErrNotValidator | ErrBadEvidence | ErrBadChainID
  | ErrBadRegPoW | ErrFaucetDisabled | ErrBadFaucet | ErrBadFaucetPoW | ErrFaucetCooldown
  | ErrFaucetDry | ErrStorageDisabled | ErrBadStorageProof

section \<open>Construction, configuration and queries\<close>

definition New :: State where
  "New = \<lparr>Accounts = [], Validators = [], StHeight = 0, Minted = 0, StChainID = 0, RegPoWBits = 0,
          FaucetClaims = [], FaucetBits = 0, FaucetAmount = 0, FaucetCooldown = 0, FaucetDepth = 0,
          FaucetSource = [], AnchorBodyHash = None, StorageWindow = 0, StorageMinDepth = 0,
          StorageCap = 0, ShardAt = None, ShardProofOK = None, lastLogs = []\<rparr>"

definition IsContract :: "State \<Rightarrow> address \<Rightarrow> bool" where
  "IsContract s a = (case map_of (Accounts s) a of None \<Rightarrow> False | Some ac \<Rightarrow> 0 < length (Code ac))"

definition SetRegPoWBits :: "int \<Rightarrow> State \<Rightarrow> State" where
  "SetRegPoWBits bits s = s\<lparr>RegPoWBits := bits\<rparr>"

definition SetFaucet ::
    "int \<Rightarrow> u64 \<Rightarrow> u64 \<Rightarrow> u64 \<Rightarrow> address \<Rightarrow> (u64 \<Rightarrow> hash option) option \<Rightarrow> State \<Rightarrow> State" where
  "SetFaucet bits amount cooldown depth source anchor s =
     s\<lparr>FaucetBits := bits, FaucetAmount := amount, FaucetCooldown := cooldown, FaucetDepth := depth,
       FaucetSource := source, AnchorBodyHash := anchor\<rparr>"

definition InheritConfig :: "State \<Rightarrow> State \<Rightarrow> State" where
  "InheritConfig src s =
     s\<lparr>StChainID := StChainID src, RegPoWBits := RegPoWBits src,
       FaucetBits := FaucetBits src, FaucetAmount := FaucetAmount src,
       FaucetCooldown := FaucetCooldown src, FaucetDepth := FaucetDepth src,
       FaucetSource := FaucetSource src, AnchorBodyHash := AnchorBodyHash src,
       StorageWindow := StorageWindow src, StorageMinDepth := StorageMinDepth src,
       StorageCap := StorageCap src, ShardAt := ShardAt src, ShardProofOK := ShardProofOK src\<rparr>"

definition SetStorageProof ::
    "u64 \<Rightarrow> u64 \<Rightarrow> u64 \<Rightarrow> (u64 \<Rightarrow> (hash \<times> int) option) option \<Rightarrow> (u64 \<Rightarrow> int \<Rightarrow> bytes \<Rightarrow> bool) option
       \<Rightarrow> State \<Rightarrow> State" where
  "SetStorageProof window minDepth cap shardAt proofOK s =
     s\<lparr>StorageWindow := window, StorageMinDepth := minDepth, StorageCap := cap,
       ShardAt := shardAt, ShardProofOK := proofOK\<rparr>"

definition storage_weight :: "State \<Rightarrow> ValidatorRec \<Rightarrow> u64" where
  "storage_weight s v =
     (if StorageWindow s = 0 \<or> StHeight s < LastProofAt v + StorageWindow s then 1 + StorageScore v else 1)"

definition StorageWeights :: "State \<Rightarrow> (address, u64) gomap" where
  "StorageWeights s = map (\<lambda>(a, v). (a, storage_weight s v)) (filter (\<lambda>(a, v). Active v) (Validators s))"

definition SetChainID :: "u64 \<Rightarrow> State \<Rightarrow> State" where
  "SetChainID i s = s\<lparr>StChainID := i\<rparr>"

definition LastLogs :: "State \<Rightarrow> Log list" where
  "LastLogs s = lastLogs s"

definition RegisterGenesisValidator :: "address \<Rightarrow> State \<Rightarrow> State" where
  "RegisterGenesisValidator a s =
     s\<lparr>Validators := AList.update a
        \<lparr>Bond = 0, Active = True, Since = 0, Slashed = False, StorageScore = 0, LastProofAt = 0\<rparr> (Validators s)\<rparr>"

definition ActiveValidators :: "State \<Rightarrow> address list" where
  "ActiveValidators s = str_sort (map fst (filter (\<lambda>(a, v). Active v) (Validators s)))"

definition ValidatorInfo :: "State \<Rightarrow> address \<Rightarrow> ValidatorRec option" where
  "ValidatorInfo s a = map_of (Validators s) a"

definition Supply :: "State \<Rightarrow> u64" where
  "Supply s = Minted s"

definition NextReward :: "State \<Rightarrow> u64 \<Rightarrow> u64" where
  "NextReward s height = BlockReward height (Minted s)"

definition SetMinted :: "u64 \<Rightarrow> State \<Rightarrow> State" where
  "SetMinted v s = s\<lparr>Minted := v\<rparr>"

definition Clone :: "State \<Rightarrow> State" where
  "Clone s =
     New\<lparr>Accounts := Accounts s, Validators := Validators s, StHeight := StHeight s, Minted := Minted s,
         StChainID := StChainID s, RegPoWBits := RegPoWBits s, FaucetClaims := FaucetClaims s,
         FaucetBits := FaucetBits s, FaucetAmount := FaucetAmount s, FaucetCooldown := FaucetCooldown s,
         FaucetDepth := FaucetDepth s, FaucetSource := FaucetSource s, AnchorBodyHash := AnchorBodyHash s\<rparr>"

definition ReplaceWith :: "State \<Rightarrow> State \<Rightarrow> State" where
  "ReplaceWith other s =
     s\<lparr>Accounts := Accounts other, Validators := Validators other, StHeight := StHeight other,
       Minted := Minted other, FaucetClaims := FaucetClaims other\<rparr>"

definition Get :: "State \<Rightarrow> address \<Rightarrow> Account" where
  "Get s a = (case map_of (Accounts s) a of Some ac \<Rightarrow> ac | None \<Rightarrow> empty_account)"

text \<open>
  \<open>s.acct(a)\<close> creates the account when it is missing; \<open>upd_acct\<close> is a write through the pointer
  it returns.
\<close>

definition acct :: "address \<Rightarrow> State \<Rightarrow> State" where
  "acct a s =
     (case map_of (Accounts s) a of
        Some ac \<Rightarrow> s
      | None \<Rightarrow> s\<lparr>Accounts := AList.update a empty_account (Accounts s)\<rparr>)"

definition upd_acct :: "address \<Rightarrow> (Account \<Rightarrow> Account) \<Rightarrow> State \<Rightarrow> State" where
  "upd_acct a f s = s\<lparr>Accounts := AList.update a (f (Get s a)) (Accounts s)\<rparr>"

definition Credit :: "address \<Rightarrow> u64 \<Rightarrow> State \<Rightarrow> State" where
  "Credit a amount s = upd_acct a (\<lambda>ac. ac\<lparr>Balance := Balance ac + amount\<rparr>) s"

definition debit :: "address \<Rightarrow> u64 \<Rightarrow> State \<Rightarrow> State" where
  "debit a amount s = upd_acct a (\<lambda>ac. ac\<lparr>Balance := Balance ac - amount\<rparr>) s"

definition CheckTx ::
    "(bytes \<Rightarrow> hash) \<Rightarrow> (bytes \<Rightarrow> bytes \<Rightarrow> bytes \<Rightarrow> bool) \<Rightarrow> State \<Rightarrow> Transaction \<Rightarrow> state_error option" where
  "CheckTx H V s t =
     (case TxVerifySig H V t of
        Some e \<Rightarrow> Some (ErrSig e)
      | None \<Rightarrow>
          if IsCoinbase t then Some ErrCoinbaseInBody
          else if ChainID t \<noteq> StChainID s then Some ErrBadChainID
          else let bal = Balance (Get s (From t)); nonce = AcctNonce (Get s (From t)) in
            if Nonce t \<noteq> nonce then Some ErrBadNonce
            else let total = Amount t + Fee t in
              if total < Amount t then Some ErrInsufficient
              else if bal < total then Some ErrInsufficient
              else None)"

section \<open>Contract storage\<close>

definition decode_keys :: "(bytes \<times> 'v) list \<Rightarrow> (u64 \<times> 'v) list" where
  "decode_keys m =
     fold (\<lambda>(k, v) out. case ParseUint k of Some n \<Rightarrow> AList.update n v out | None \<Rightarrow> out) m []"

definition encode_keys :: "(u64 \<times> 'v) list \<Rightarrow> (bytes \<times> 'v) list" where
  "encode_keys m = fold (\<lambda>(k, v) out. AList.update (FormatUint k) v out) m []"

definition storageDecode :: "(bytes, u64) gomap \<Rightarrow> (u64, u64) gomap" where
  "storageDecode m = decode_keys m"

definition storageEncode :: "(u64, u64) gomap \<Rightarrow> (bytes, u64) gomap" where
  "storageEncode m = encode_keys m"

definition bstoreDecode :: "(bytes, bytes) gomap \<Rightarrow> (u64, bytes) gomap" where
  "bstoreDecode m = decode_keys m"

definition bstoreEncode :: "(u64, bytes) gomap \<Rightarrow> (bytes, bytes) gomap" where
  "bstoreEncode m = (if length m = 0 then [] else encode_keys m)"

text \<open>
  The map iteration of the source stops at the first match in an unspecified order, here in
  list order; contracts with equal digests are the only case where the order shows.
\<close>

definition contractByDigest :: "(bytes \<Rightarrow> hash) \<Rightarrow> State \<Rightarrow> u64 \<Rightarrow> address option" where
  "contractByDigest H s d =
     map_option fst (find (\<lambda>(addr, ac). 0 < length (Code ac) \<and> AddrDigest H addr = d) (Accounts s))"

definition u64word :: "u64 \<Rightarrow> bytes" where
  "u64word v = put_u64 v"

section \<open>Running contracts inside a block\<close>

record blk =
  cur :: State
  saved :: "(address, Account option) gomap"
  fees :: u64
  blockLogs :: "Log list"

definition on_state :: "(State \<Rightarrow> State) \<Rightarrow> blk \<Rightarrow> blk" where
  "on_state f x = x\<lparr>cur := f (cur x)\<rparr>"

definition snap :: "address \<Rightarrow> blk \<Rightarrow> blk" where
  "snap a x =
     (case map_of (saved x) a of
        Some _ \<Rightarrow> x
      | None \<Rightarrow> x\<lparr>saved := AList.update a (map_of (Accounts (cur x)) a) (saved x)\<rparr>)"

text \<open>The body of \<open>execContract\<close>, over the host its VM context carries; \<open>None\<close> is a panic.\<close>

definition exec_body ::
    "(bytes \<Rightarrow> hash) \<Rightarrow> blk host \<Rightarrow> address \<Rightarrow> u64 \<Rightarrow> address \<Rightarrow> bytes \<Rightarrow> u64 \<Rightarrow> u64 \<Rightarrow> int \<Rightarrow> int \<Rightarrow> blk
       \<Rightarrow> blk \<times> (u64 \<times> u64 \<times> bool) option" where
  "exec_body H host addr caller callerAddr input val gas depth txIndex x =
     (let x1 = snap addr (on_state (acct addr) x);
          c = Get (cur x1) addr;
          ctx = \<lparr>CtxCaller = caller, CtxSelf = AddrDigest H addr, CtxCallerAddr = callerAddr,
                 CtxSelfAddr = addr, CtxValue = val, CtxBalance = Balance c, CtxDepth = depth\<rparr>
      in case ExecuteB H (Some host) (Code c) input (storageDecode (Storage c))
                (Some (bstoreDecode (BStorage c))) gas ctx x1 of
           (x2, Err e) \<Rightarrow> (x2, Some (0, gas, False))
         | (x2, Panic) \<Rightarrow> (x2, None)
         | (x2, Ok (sto, bst, res)) \<Rightarrow>
             ((on_state (upd_acct addr (\<lambda>c. c\<lparr>Storage := storageEncode sto, BStorage := bstoreEncode (the bst)\<rparr>)) x2)
                \<lparr>blockLogs := blockLogs x2
                   @ map (\<lambda>ev. \<lparr>Contract = addr, Topics = ev, TxIndex = txIndex\<rparr>) (Logs res)\<rparr>,
              Some (Return res, GasUsed res, True)))"

type_synonym exec_fun =
  "address \<Rightarrow> u64 \<Rightarrow> address \<Rightarrow> bytes \<Rightarrow> u64 \<Rightarrow> u64 \<Rightarrow> int \<Rightarrow> int \<Rightarrow> blk \<Rightarrow> blk \<times> (u64 \<times> u64 \<times> bool) option"

definition vmHost_Call :: "(bytes \<Rightarrow> hash) \<Rightarrow> exec_fun \<Rightarrow> int \<Rightarrow> blk host" where
  "vmHost_Call H exec txIndex x self target arg gasLimit depth =
     (case contractByDigest H (cur x) target of
        None \<Rightarrow> (x, Some (0, 0, False))
      | Some addr \<Rightarrow>
          (case exec addr self [] (u64word arg) 0 gasLimit depth txIndex x of
             (x', None) \<Rightarrow> (x', None)
           | (x', Some (r, u, ok)) \<Rightarrow> (x', Some (if ok then (r, u, True) else (0, gasLimit, False)))))"

text \<open>
  \<open>execContract\<close> and the host call each other; the VM refuses calls from depth \<open>maxDepth\<close> on, so
  the recursion is on the number of levels left.  At level 0 the host is never asked.
\<close>

primrec exec_levels :: "nat \<Rightarrow> (bytes \<Rightarrow> hash) \<Rightarrow> exec_fun" where
  "exec_levels 0 H addr caller callerAddr input val gas depth txIndex x =
     exec_body H (\<lambda>x _ _ _ _ _. (x, None)) addr caller callerAddr input val gas depth txIndex x"
| "exec_levels (Suc n) H addr caller callerAddr input val gas depth txIndex x =
     exec_body H (vmHost_Call H (exec_levels n H) txIndex) addr caller callerAddr input val gas depth txIndex x"

definition execContract :: "(bytes \<Rightarrow> hash) \<Rightarrow> exec_fun" where
  "execContract H addr caller callerAddr input val gas depth txIndex x =
     exec_levels (nat (maxDepth - depth)) H addr caller callerAddr input val gas depth txIndex x"

definition QueryContractRaw ::
    "(bytes \<Rightarrow> hash) \<Rightarrow> State \<Rightarrow> address \<Rightarrow> u64 \<Rightarrow> bytes \<Rightarrow> u64 \<Rightarrow> (u64 \<times> bytes \<times> bool) option" where
  "QueryContractRaw H s addr caller input gas =
     (case map_of (Accounts s) addr of
        None \<Rightarrow> Some (0, [], False)
      | Some c \<Rightarrow>
          if length (Code c) = 0 then Some (0, [], False)
          else let gas' = (if gas = 0 then 1000000 else gas);
                   ctx = \<lparr>CtxCaller = caller, CtxSelf = AddrDigest H addr, CtxCallerAddr = [],
                          CtxSelfAddr = addr, CtxValue = 0, CtxBalance = Balance c, CtxDepth = 0\<rparr>
            in case ExecuteB H (None :: unit host option) (Code c) input (storageDecode (Storage c))
                      (Some (bstoreDecode (BStorage c))) gas' ctx () of
                 (_, Err e) \<Rightarrow> Some (0, [], False)
               | (_, Panic) \<Rightarrow> None
               | (_, Ok (_, _, res)) \<Rightarrow> Some (Return res, ReturnBytes res, True))"

definition QueryContract ::
    "(bytes \<Rightarrow> hash) \<Rightarrow> State \<Rightarrow> address \<Rightarrow> u64 \<Rightarrow> bytes \<Rightarrow> u64 \<Rightarrow> (u64 \<times> bool) option" where
  "QueryContract H s addr caller input gas =
     map_option (\<lambda>(r, _, ok). (r, ok)) (QueryContractRaw H s addr caller input gas)"

section \<open>Accounts\<close>

lemma Get_upd_acct [simp]: "Get (upd_acct a f s) b = (if b = a then f (Get s a) else Get s b)"
  by (simp add: Get_def upd_acct_def)

lemma Get_acct [simp]: "Get (acct a s) b = Get s b"
  by (auto simp: Get_def acct_def split: option.splits)

lemma acct_frame [simp]:
  "Validators (acct a s) = Validators s" "StHeight (acct a s) = StHeight s" "Minted (acct a s) = Minted s"
  "StChainID (acct a s) = StChainID s" "FaucetClaims (acct a s) = FaucetClaims s" 
  by (simp_all add: acct_def split: option.splits)

lemma upd_acct_frame [simp]:
  "Validators (upd_acct a f s) = Validators s" "StHeight (upd_acct a f s) = StHeight s"
  "Minted (upd_acct a f s) = Minted s" "StChainID (upd_acct a f s) = StChainID s"
  "FaucetClaims (upd_acct a f s) = FaucetClaims s"
  by (simp_all add: upd_acct_def)

lemma snap_frame [simp]: "cur (snap a x) = cur x" "fees (snap a x) = fees x" "blockLogs (snap a x) = blockLogs x"
  by (simp_all add: snap_def split: option.splits)

lemma on_state_sel [simp]:
  "cur (on_state f x) = f (cur x)" "saved (on_state f x) = saved x" "fees (on_state f x) = fees x"
  "blockLogs (on_state f x) = blockLogs x"
  by (simp_all add: on_state_def)

text \<open>Everything but the accounts, for the frame conditions.\<close>

definition rest_of :: "State \<Rightarrow> State" where
  "rest_of s = s\<lparr>Accounts := []\<rparr>"

lemma rest_of_acct [simp]: "rest_of (acct a s) = rest_of s"
  by (simp add: rest_of_def acct_def split: option.splits)

lemma rest_of_upd_acct [simp]: "rest_of (upd_acct a f s) = rest_of s"
  by (simp add: rest_of_def upd_acct_def)

section \<open>Levels of execContract\<close>

lemma exec_body_host_cong:
  assumes "maxDepth \<le> depth \<or>
    (\<forall>h self target arg gl. f h self target arg gl (depth + 1) = g h self target arg gl (depth + 1))"
  shows "exec_body H f addr caller ca input val gas depth ti x = exec_body H g addr caller ca input val gas depth ti x"
proof -
  have "ExecuteB H (Some f) code input sto bst gas ctx h = ExecuteB H (Some g) code input sto bst gas ctx h"
    if "CtxDepth ctx = depth" for code sto bst ctx h
    using ExecuteB_host_cong [of ctx f g] assms that by simp
  then show ?thesis by (simp add: exec_body_def Let_def)
qed

lemma execContract_unfold:
  "execContract H addr caller ca input val gas depth ti x =
     exec_body H (vmHost_Call H (execContract H) ti) addr caller ca input val gas depth ti x"
proof (cases "nat (maxDepth - depth)")
  case 0
  then have "maxDepth \<le> depth" by simp
  then show ?thesis
    unfolding execContract_def 0 exec_levels.simps by (intro exec_body_host_cong) simp
next
  case (Suc n)
  then have "nat (maxDepth - (depth + 1)) = n" by simp
  then have "vmHost_Call H (exec_levels n H) ti h self target arg gl (depth + 1) =
      vmHost_Call H (execContract H) ti h self target arg gl (depth + 1)" for h self target arg gl
    by (simp add: vmHost_Call_def execContract_def split: option.split)
  then show ?thesis
    unfolding execContract_def Suc exec_levels.simps by (intro exec_body_host_cong) (simp flip: execContract_def)
qed

lemma exec_body_gas:
  assumes "exec_body H host addr caller ca input val gas depth ti x = (x', Some (r, u, ok))"
  shows "u \<le> gas"
proof -
  have "GasUsed res \<le> gas" if "ExecuteB H (Some host) code input sto bst gas ctx h = (h', Ok (sto', bst', res))"
    for code sto bst ctx h h' sto' bst' res
    using ExecuteB_ok(1) [OF that] .
  with assms show ?thesis
    by (auto simp: exec_body_def Let_def split: prod.splits result.splits)
qed

lemma exec_levels_gas:
  "exec_levels n H addr caller ca input val gas depth ti x = (x', Some (r, u, ok)) \<Longrightarrow> u \<le> gas"
  by (cases n) (auto dest: exec_body_gas)

interpretation vm_host: call_host "Some (vmHost_Call H (execContract H) ti)"
proof
  fix callee h self target arg gl d h' r gu ok
  assume "Some (vmHost_Call H (execContract H) ti) = Some callee"
    and "callee h self target arg gl d = (h', Some (r, gu, ok))"
  then show "gu \<le> gl"
    by (auto simp: vmHost_Call_def execContract_def split: option.splits prod.splits if_splits
        dest: exec_levels_gas)
qed

section \<open>Money\<close>

definition balances :: "State \<Rightarrow> nat" where
  "balances s = map_sum (\<lambda>ac. unat (Balance ac)) (Accounts s)"

definition bonds :: "State \<Rightarrow> nat" where
  "bonds s = map_sum (\<lambda>v. unat (Bond v)) (Validators s)"

lemma balances_upd_acct:
  "gomap (Accounts s) \<Longrightarrow>
     balances (upd_acct a f s) + unat (Balance (Get s a)) = balances s + unat (Balance (f (Get s a)))"
  using map_sum_update [of "Accounts s" "\<lambda>ac. unat (Balance ac)" a "f (Get s a)"]
  by (auto simp: balances_def upd_acct_def Get_def empty_account_def split: option.splits)

lemma balances_acct [simp]: "gomap (Accounts s) \<Longrightarrow> balances (acct a s) = balances s"
  using map_sum_update [of "Accounts s" "\<lambda>ac. unat (Balance ac)" a empty_account]
  by (auto simp: balances_def acct_def empty_account_def split: option.splits)

lemma balances_ge: "unat (Balance (Get s a)) \<le> balances s"
  by (auto simp: Get_def balances_def empty_account_def split: option.splits
      intro: map_sum_ge [where f = "\<lambda>ac. unat (Balance ac)"])

lemma gomap_acct [simp]: "gomap (Accounts s) \<Longrightarrow> gomap (Accounts (acct a s))"
  by (simp add: acct_def split: option.splits)

lemma gomap_upd_acct [simp]: "gomap (Accounts s) \<Longrightarrow> gomap (Accounts (upd_acct a f s))"
  by (simp add: upd_acct_def)

section \<open>What a rollback would restore\<close>

definition orig :: "blk \<Rightarrow> address \<Rightarrow> Account" where
  "orig x a = (case map_of (saved x) a of None \<Rightarrow> Get (cur x) a | Some None \<Rightarrow> empty_account | Some (Some ac) \<Rightarrow> ac)"

definition snapped :: "address \<Rightarrow> blk \<Rightarrow> bool" where
  "snapped a x \<longleftrightarrow> map_of (saved x) a \<noteq> None"

lemma orig_frame [simp]: "orig (x\<lparr>blockLogs := l\<rparr>) = orig x" "orig (x\<lparr>fees := u\<rparr>) = orig x"
  by (simp_all add: orig_def fun_eq_iff split: option.split)

lemma snapped_frame [simp]:
  "snapped a (x\<lparr>blockLogs := l\<rparr>) = snapped a x" "snapped a (x\<lparr>fees := u\<rparr>) = snapped a x"
  "snapped a (on_state g x) = snapped a x"
  by (simp_all add: snapped_def)

lemma snapped_snap [simp]: "snapped a (snap b x) \<longleftrightarrow> a = b \<or> snapped a x"
  by (auto simp: snapped_def snap_def split: option.splits)

lemma orig_snap [simp]: "orig (snap a x) = orig x"
  by (rule ext) (auto simp: orig_def snap_def Get_def split: option.splits)

definition keeps :: "blk \<Rightarrow> blk \<Rightarrow> bool" where
  "keeps x x' \<longleftrightarrow> orig x' = orig x \<and> (\<forall>a. snapped a x \<longrightarrow> snapped a x')
     \<and> (gomap (saved x) \<longrightarrow> gomap (saved x'))
     \<and> (gomap (Accounts (cur x)) \<longrightarrow> gomap (Accounts (cur x')))"

lemma keeps_refl: "keeps x x"
  by (simp add: keeps_def)

lemma keeps_trans [trans]: "keeps x y \<Longrightarrow> keeps y z \<Longrightarrow> keeps x z"
  by (auto simp: keeps_def)

lemma keeps_snap: "keeps x (snap a x)"
  by (auto simp: keeps_def) (auto simp: snap_def split: option.splits)

lemma keeps_acct: "keeps x (on_state (acct a) x)"
  by (auto simp: keeps_def orig_def snapped_def fun_eq_iff split: option.splits)

lemma keeps_upd_acct: "snapped a x \<Longrightarrow> keeps x (on_state (upd_acct a f) x)"
  by (auto simp: keeps_def orig_def snapped_def fun_eq_iff split: option.splits)

text \<open>A contract run changes nothing of an account but its two stores.\<close>

definition core :: "Account \<Rightarrow> u64 \<times> u64 \<times> bytes" where
  "core ac = (Balance ac, AcctNonce ac, Code ac)"

definition stores_only :: "blk \<Rightarrow> blk \<Rightarrow> bool" where
  "stores_only x x' \<longleftrightarrow> keeps x x' \<and> rest_of (cur x') = rest_of (cur x) \<and> fees x' = fees x
     \<and> (\<forall>a. core (Get (cur x') a) = core (Get (cur x) a))
     \<and> (gomap (Accounts (cur x)) \<longrightarrow> balances (cur x') = balances (cur x))"

lemma stores_only_refl: "stores_only x x"
  by (simp add: stores_only_def keeps_refl)

lemma stores_only_trans [trans]: "stores_only x y \<Longrightarrow> stores_only y z \<Longrightarrow> stores_only x z"
  unfolding stores_only_def by (auto intro: keeps_trans) (auto simp: keeps_def)

lemma stores_only_enter: "stores_only x (snap a (on_state (acct a) x))"
  unfolding stores_only_def using keeps_trans [OF keeps_acct keeps_snap] by simp

lemma stores_only_commit:
  assumes "snapped a x"
  shows "stores_only x ((on_state (upd_acct a (\<lambda>c. c\<lparr>Storage := p, BStorage := q\<rparr>)) x)\<lparr>blockLogs := l\<rparr>)"
proof -
  have "keeps x ((on_state (upd_acct a (\<lambda>c. c\<lparr>Storage := p, BStorage := q\<rparr>)) x)\<lparr>blockLogs := l\<rparr>)"
    using keeps_upd_acct [OF assms, of "\<lambda>c. c\<lparr>Storage := p, BStorage := q\<rparr>"]
    by (simp add: keeps_def)
  moreover have "gomap (Accounts (cur x)) \<Longrightarrow>
      balances (upd_acct a (\<lambda>c. c\<lparr>Storage := p, BStorage := q\<rparr>) (cur x)) = balances (cur x)"
    using balances_upd_acct [of "cur x" a "\<lambda>c. c\<lparr>Storage := p, BStorage := q\<rparr>"] by simp
  ultimately show ?thesis by (simp add: stores_only_def core_def)
qed

lemma exec_body_stores_only:
  assumes "host_relation (Some host) stores_only"
  shows "stores_only x (fst (exec_body H host addr caller ca input val gas depth ti x))"
proof -
  let ?x = "snap addr (on_state (acct addr) x)"
  have run: "stores_only ?x x2" if "ExecuteB H (Some host) code input sto bst gas ctx ?x = (x2, r)"
    for code sto bst ctx x2 r
    using host_relation.R_ExecuteB [OF assms, of ?x H code input sto bst gas ctx] that by simp
  have "snapped addr x2" if "stores_only ?x x2" for x2
    using that by (simp add: stores_only_def keeps_def)
  then have "stores_only ?x (fst (exec_body H host addr caller ca input val gas depth ti x))"
    by (auto simp: exec_body_def Let_def split: prod.split result.split
        intro: run stores_only_trans [OF run stores_only_commit])
  with stores_only_enter stores_only_trans show ?thesis by blast
qed

lemma host_stores_only:
  assumes "\<And>addr caller ca input val gas depth ti x. stores_only x (fst (exec addr caller ca input val gas depth ti x))"
  shows "host_relation (Some (vmHost_Call H exec ti)) stores_only"
proof
  fix callee h self target arg gl d
  assume "Some (vmHost_Call H exec ti) = Some callee"
  then have c: "callee = vmHost_Call H exec ti" by simp
  have "stores_only h x'" if "exec addr self [] (u64word arg) 0 gl d ti h = (x', r)" for addr x' r
    using assms [of h addr self "[]" "u64word arg" 0 gl d ti] that by simp
  then show "stores_only h (fst (callee h self target arg gl d))"
    by (auto simp: c vmHost_Call_def stores_only_refl split: option.split prod.split)
qed (auto intro: stores_only_refl stores_only_trans)

lemma exec_levels_stores_only: "stores_only x (fst (exec_levels n H addr caller ca input val gas depth ti x))"
proof (induction n arbitrary: addr caller ca input val gas depth ti x)
  case 0
  have "host_relation (Some (\<lambda>x _ _ _ _ _. (x, None))) stores_only"
    by unfold_locales (auto intro: stores_only_refl stores_only_trans)
  then show ?case by (simp add: exec_body_stores_only)
next
  case (Suc n)
  then have "host_relation (Some (vmHost_Call H (exec_levels n H) ti)) stores_only"
    by (rule host_stores_only)
  then show ?case by (simp add: exec_body_stores_only)
qed

lemma execContract_stores_only: "stores_only x (fst (execContract H addr caller ca input val gas depth ti x))"
  by (simp add: execContract_def exec_levels_stores_only)

interpretation vm_host_rel: host_relation "Some (vmHost_Call H (execContract H) ti)" stores_only
  by (rule host_stores_only) (rule execContract_stores_only)

section \<open>Round trip of the stores\<close>

lemma update_append: "k \<notin> fst ` set m \<Longrightarrow> AList.update k v m = m @ [(k, v)]"
  by (induction m) auto

lemma fold_update:
  "distinct (map fst acc @ map (f \<circ> fst) m) \<Longrightarrow>
     fold (\<lambda>(k, v) out. AList.update (f k) v out) m acc = acc @ map (\<lambda>(k, v). (f k, v)) m"
proof (induction m arbitrary: acc)
  case (Cons p m)
  obtain k v where p: "p = (k, v)" by (cases p)
  from Cons.prems have new: "f k \<notin> fst ` set acc" and d: "distinct (map fst (acc @ [(f k, v)]) @ map (f \<circ> fst) m)"
    by (auto simp: p comp_def)
  show ?case using Cons.IH [OF d] new by (simp add: p update_append)
qed simp

lemma encode_keys_eq: "gomap m \<Longrightarrow> encode_keys m = map (\<lambda>(k, v). (FormatUint k, v)) m"
proof -
  assume "gomap m"
  then have "distinct (map fst [] @ map (FormatUint \<circ> fst) m)"
    by (simp add: gomap_def distinct_map comp_inj_on_iff [symmetric] inj_on_def)
  then show ?thesis unfolding encode_keys_def using fold_update [of "[]" FormatUint m] by simp
qed

lemma decode_encode_keys: "gomap m \<Longrightarrow> decode_keys (encode_keys m) = m"
proof -
  assume g: "gomap m"
  have "decode_keys (map (\<lambda>(k, v). (FormatUint k, v)) m) = fold (\<lambda>(k, v) out. AList.update (id k) v out) m []"
    unfolding decode_keys_def by (simp add: fold_map comp_def split_def)
  also have "\<dots> = m"
    using fold_update [of "[]" id m] g by (simp add: gomap_def)
  finally show ?thesis by (simp add: encode_keys_eq [OF g])
qed

section \<open>Properties\<close>

text \<open>
  Contract storage survives the trip through its persisted form: decoding the decimal keys of
  an encoded store gives the store back, for words and for byte strings.
\<close>

theorem storage_roundtrip:
  assumes "gomap m" "gomap n"
  shows "storageDecode (storageEncode m) = m \<and> bstoreDecode (bstoreEncode n) = n"
  using assms by (auto simp: storageDecode_def storageEncode_def bstoreDecode_def bstoreEncode_def
      decode_encode_keys) (simp add: decode_keys_def)

theorem storage_roundtrip_witness:
  "gomap [(3 :: u64, 40 :: u64), (12, 1)] \<and> gomap [(0 :: u64, [7 :: byte])] \<and>
   storageDecode (storageEncode [(3, 40), (12, 1)]) = [(3, 40), (12, 1)] \<and> bstoreDecode (bstoreEncode [(0, [7])]) = [(0, [7])]"
proof -
  have g: "gomap [(3 :: u64, 40 :: u64), (12, 1)]" "gomap [(0 :: u64, [7 :: byte])]" by (simp_all add: gomap_def)
  show ?thesis using g storage_roundtrip [OF g] by simp
qed

text \<open>
  The call depth bounds the recursion: for every depth, \<^verbatim>\<open>execContract\<close> is its body run with the
  host whose calls are \<^verbatim>\<open>execContract\<close> again.  The levels the model counts down are always enough.
\<close>

theorem execContract_recursion:
  "execContract H addr caller ca input val gas depth ti x =
     exec_body H (vmHost_Call H (execContract H) ti) addr caller ca input val gas depth ti x"
  by (rule execContract_unfold)

text \<open>
  C8. Contract runs are confined: whatever the code does, nested calls included, a run changes no
  balance, nonce or code of any account, nor the validators, the supply or the configuration;
  it reports at most the gas it was given; and with less than a million gas the step limit of
  the VM is never what stops it.
\<close>

theorem execContract_confined:
  "(case execContract H addr caller ca input val gas depth ti x of (x', r) \<Rightarrow>
      (\<forall>a. Balance (Get (cur x') a) = Balance (Get (cur x) a) \<and> AcctNonce (Get (cur x') a) = AcctNonce (Get (cur x) a)
         \<and> Code (Get (cur x') a) = Code (Get (cur x) a)) \<and>
      (cur x')\<lparr>Accounts := Accounts (cur x)\<rparr> = cur x \<and>
      (case r of None \<Rightarrow> True | Some (_, u, _) \<Rightarrow> u \<le> gas)) \<and>
   (unat gas < 1000000 \<longrightarrow>
      snd (ExecuteB H (Some (vmHost_Call H (execContract H) ti)) code input sto bst gas ctx x) \<noteq> Err ErrStepLimit)"
proof (intro conjI impI)
  obtain x' r where e: "execContract H addr caller ca input val gas depth ti x = (x', r)" by fastforce
  have so: "stores_only x x'"
    using execContract_stores_only [of x H addr caller ca input val gas depth ti] e by simp
  have rest: "rest_of (cur x') = rest_of (cur x)" using so by (simp add: stores_only_def)
  have "(cur x')\<lparr>Accounts := Accounts (cur x)\<rparr> = (rest_of (cur x'))\<lparr>Accounts := Accounts (cur x)\<rparr>"
    by (simp add: rest_of_def)
  then have "(cur x')\<lparr>Accounts := Accounts (cur x)\<rparr> = cur x" unfolding rest by (simp add: rest_of_def)
  moreover have "u \<le> gas" if "r = Some (v, u, ok)" for v u ok
    using e that by (auto simp: execContract_def dest: exec_levels_gas)
  ultimately show "case execContract H addr caller ca input val gas depth ti x of (x', r) \<Rightarrow>
      (\<forall>a. Balance (Get (cur x') a) = Balance (Get (cur x) a) \<and> AcctNonce (Get (cur x') a) = AcctNonce (Get (cur x) a)
         \<and> Code (Get (cur x') a) = Code (Get (cur x) a)) \<and>
      (cur x')\<lparr>Accounts := Accounts (cur x)\<rparr> = cur x \<and>
      (case r of None \<Rightarrow> True | Some (_, u, _) \<Rightarrow> u \<le> gas)"
    using so e by (auto simp: stores_only_def core_def split: option.split)
  assume "unat gas < 1000000"
  then show "snd (ExecuteB H (Some (vmHost_Call H (execContract H) ti)) code input sto bst gas ctx x) \<noteq> Err ErrStepLimit"
    by (rule ExecuteB_no_step_limit [OF vm_host.call_host_axioms])
qed

theorem execContract_confined_witness:
  "unat (100 :: u64) < 1000000 \<and>
   snd (ExecuteB sha256 (Some (vmHost_Call sha256 (execContract sha256) 0)) (0x01 # put_u64 0 @ [0x40]) [] [] None 100 ctx0
     \<lparr>cur = New, saved = [], fees = 0, blockLogs = []\<rparr>) \<noteq> Err ErrStepLimit"
proof -
  have g: "unat (100 :: u64) < 1000000" by simp
  then show ?thesis using execContract_confined by blast
qed

end
