(* ===== verification/SL_ApplyBlock.thy ===== *)
theory SL_ApplyBlock
  imports SL_State
begin

text \<open>
  \<^verbatim>\<open>State.ApplyBlock\<close> of \<^verbatim>\<open>internal/state/state.go\<close>: one definition per arm of the switch on the
  transaction kind, the checks and the debit before the switch, the loop over the payload,
  and the coinbase.  A failed step returns the state it leaves behind; \<open>ApplyBlock\<close> then
  rolls back as the source does.  A panic inside the VM is not recovered by the source:
  the state stays as it was at that moment.
\<close>

section \<open>Steps\<close>

type_synonym outcome = "(state_error, unit) result"

abbreviation fine :: "blk \<Rightarrow> blk \<times> outcome" where
  "fine x \<equiv> (x, Ok ())"

abbreviation fail :: "state_error \<Rightarrow> blk \<Rightarrow> blk \<times> outcome" where
  "fail e x \<equiv> (x, Err e)"

definition and_then :: "blk \<times> outcome \<Rightarrow> (blk \<Rightarrow> blk \<times> outcome) \<Rightarrow> blk \<times> outcome" where
  "and_then r f = (case r of (x, Ok ()) \<Rightarrow> f x | (x, Err e) \<Rightarrow> (x, Err e) | (x, Panic) \<Rightarrow> (x, Panic))"

definition restore :: "address \<times> Account option \<Rightarrow> State \<Rightarrow> State" where
  "restore p s =
     (case p of
        (a, Some ac) \<Rightarrow> s\<lparr>Accounts := AList.update a ac (Accounts s)\<rparr>
      | (a, None) \<Rightarrow> s\<lparr>Accounts := AList.delete a (Accounts s)\<rparr>)"

definition rollback :: "(address, ValidatorRec) gomap \<Rightarrow> blk \<Rightarrow> State" where
  "rollback valBackup x = (fold restore (saved x) (cur x))\<lparr>Validators := valBackup\<rparr>"

definition applySlash ::
    "(bytes \<Rightarrow> hash) \<Rightarrow> (bytes \<Rightarrow> bytes \<Rightarrow> bytes \<Rightarrow> bool) \<Rightarrow> (bytes \<Rightarrow> EquivocationEvidence option)
       \<Rightarrow> Transaction \<Rightarrow> blk \<Rightarrow> blk \<times> outcome" where
  "applySlash H V J t x =
     (case J (Data t) of
        None \<Rightarrow> fail ErrBadEvidence x
      | Some ev \<Rightarrow>
          if HdrVerifySig H V (EvA ev) \<noteq> None then fail ErrBadEvidence x
          else if HdrVerifySig H V (EvB ev) \<noteq> None then fail ErrBadEvidence x
          else if Validator (EvA ev) \<noteq> Validator (EvB ev) \<or> Height (EvA ev) \<noteq> Height (EvB ev)
                  \<or> ID H (EvA ev) = ID H (EvB ev) then fail ErrBadEvidence x
          else let a = Validator (EvA ev) in
            (case map_of (Validators (cur x)) a of
               None \<Rightarrow> fail ErrNotValidator x
             | Some v \<Rightarrow>
                 if \<not> Active v then fail ErrNotValidator x
                 else let reward = Bond v div 10;
                          x1 = on_state (Credit (From t) reward) (snap (From t) x)
                   in fine (on_state (\<lambda>s. s\<lparr>Validators := AList.update a
                        \<lparr>Bond = 0, Active = False, Since = Since v, Slashed = True,
                         StorageScore = 0, LastProofAt = 0\<rparr> (Validators s)\<rparr>) x1)))"

definition tx_deploy :: "(bytes \<Rightarrow> hash) \<Rightarrow> Transaction \<Rightarrow> blk \<Rightarrow> blk \<times> outcome" where
  "tx_deploy H t x =
     (let caddr = ContractAddress H (From t) (Nonce t)
      in fine (on_state (upd_acct caddr (\<lambda>c. c\<lparr>Code := Data t, Balance := Balance c + Amount t\<rparr>)) (snap caddr x)))"

definition tx_call :: "(bytes \<Rightarrow> hash) \<Rightarrow> int \<Rightarrow> Transaction \<Rightarrow> blk \<Rightarrow> blk \<times> outcome" where
  "tx_call H i t x =
     (let x1 = on_state (Credit (To t) (Amount t)) (snap (To t) x) in
      if length (Code (Get (cur x1) (To t))) = 0 then fine x1
      else case execContract H (To t) (AddrDigest H (From t)) (From t) (Data t) (Amount t) (Gas t) 0 i x1 of
             (x2, None) \<Rightarrow> (x2, Panic)
           | (x2, Some (r, u, ok)) \<Rightarrow>
               if ok then fine x2
               else fine (on_state (Credit (From t) (Amount t)) (on_state (debit (To t) (Amount t)) x2)))"

definition tx_register :: "(bytes \<Rightarrow> hash) \<Rightarrow> u64 \<Rightarrow> Transaction \<Rightarrow> blk \<Rightarrow> blk \<times> outcome" where
  "tx_register H height t x =
     (let nonce = (if 8 \<le> length (Data t) then be_get (take 8 (Data t)) else 0); s = cur x in
      if \<not> RegVerify H (StChainID s) (From t) nonce (RegPoWBits s) then fail ErrBadRegPoW x
      else if Amount t < MinBond then fail ErrBondTooLow x
      else if (case map_of (Validators s) (From t) of Some v \<Rightarrow> Active v \<or> Slashed v | None \<Rightarrow> False)
      then fail ErrAlreadyValidator x
      else fine (on_state (\<lambda>s. s\<lparr>Validators := AList.update (From t)
             \<lparr>Bond = Amount t, Active = True, Since = height, Slashed = False, StorageScore = 0, LastProofAt = 0\<rparr>
             (Validators s)\<rparr>) x))"

definition tx_unregister :: "Transaction \<Rightarrow> blk \<Rightarrow> blk \<times> outcome" where
  "tx_unregister t x =
     (case map_of (Validators (cur x)) (From t) of
        None \<Rightarrow> fail ErrNotValidator x
      | Some v \<Rightarrow>
          if \<not> Active v then fail ErrNotValidator x
          else fine (on_state (\<lambda>s. s\<lparr>Validators := AList.delete (From t) (Validators s)\<rparr>)
                 (on_state (Credit (From t) (Bond v + Amount t)) x)))"

definition tx_faucet :: "(bytes \<Rightarrow> hash) \<Rightarrow> u64 \<Rightarrow> Transaction \<Rightarrow> blk \<Rightarrow> blk \<times> outcome" where
  "tx_faucet H height t x =
     (let s = cur x in
      case AnchorBodyHash s of
        None \<Rightarrow> fail ErrFaucetDisabled x
      | Some anchorAt \<Rightarrow>
          if FaucetAmount s = 0 then fail ErrFaucetDisabled x
          else if length (Data t) < 16 then fail ErrBadFaucet x
          else let anchorHeight = be_get (take 8 (Data t)); nonce = be_get (take 8 (drop 8 (Data t))) in
            if height < anchorHeight + FaucetDepth s \<or> anchorHeight + 256 < height then fail ErrBadFaucet x
            else (case anchorAt anchorHeight of
                    None \<Rightarrow> fail ErrBadFaucet x
                  | Some anchor \<Rightarrow>
                      if \<not> FaucetVerify H (StChainID s) (From t) anchor nonce (FaucetBits s)
                      then fail ErrBadFaucetPoW x
                      else if (case map_of (FaucetClaims s) (From t) of
                                 Some l \<Rightarrow> height < l + FaucetCooldown s | None \<Rightarrow> False)
                      then fail ErrFaucetCooldown x
                      else let x1 = on_state (acct (FaucetSource s)) x in
                        if Balance (Get (cur x1) (FaucetSource s)) < FaucetAmount s then fail ErrFaucetDry x1
                        else fine
                          (on_state (\<lambda>s. s\<lparr>FaucetClaims := AList.update (From t) height (FaucetClaims s)\<rparr>)
                          (on_state (Credit (From t) (FaucetAmount s))
                          (on_state (debit (FaucetSource s) (FaucetAmount s))
                          (snap (FaucetSource s) x1))))))"

text \<open>The record of a validator after an accepted storage proof.\<close>

definition proved :: "u64 \<Rightarrow> u64 \<Rightarrow> ValidatorRec \<Rightarrow> ValidatorRec" where
  "proved cap height v =
     v\<lparr>StorageScore := (if StorageScore v < cap then StorageScore v + 1 else StorageScore v), LastProofAt := height\<rparr>"

definition tx_storage_proof :: "(bytes \<Rightarrow> hash) \<Rightarrow> u64 \<Rightarrow> Transaction \<Rightarrow> blk \<Rightarrow> blk \<times> outcome" where
  "tx_storage_proof H height t x =
     (let s = cur x in
      case (ShardAt s, ShardProofOK s) of
        (Some shardAt, Some proofOK) \<Rightarrow>
          (case map_of (Validators s) (From t) of
             None \<Rightarrow> fail ErrNotValidator x
           | Some v \<Rightarrow>
               if \<not> Active v then fail ErrNotValidator x
               else if length (Data t) < 8 then fail ErrBadStorageProof x
               else let target = be_get (take 8 (Data t)); shard = drop 8 (Data t) in
                 if height \<le> target \<or> target + StorageWindow s < height \<or> height - target < StorageMinDepth s
                 then fail ErrBadStorageProof x
                 else (case shardAt target of
                         None \<Rightarrow> fail ErrBadStorageProof x
                       | Some (blockID, tot) \<Rightarrow>
                           if tot \<le> 0 then fail ErrBadStorageProof x
                           else let idx = uint ((be_get (take 8 (H (From t @ blockID))) :: u64) mod word_of_int tot) in
                             if \<not> proofOK target idx shard then fail ErrBadStorageProof x
                             else let v' = proved (StorageCap s) height v
                               in fine (on_state (\<lambda>s. s\<lparr>Validators := AList.update (From t) v' (Validators s)\<rparr>) x)))
      | _ \<Rightarrow> fail ErrStorageDisabled x)"

definition tx_transfer :: "Transaction \<Rightarrow> blk \<Rightarrow> blk \<times> outcome" where
  "tx_transfer t x = fine (on_state (Credit (To t) (Amount t)) (snap (To t) x))"

definition dispatch ::
    "(bytes \<Rightarrow> hash) \<Rightarrow> (bytes \<Rightarrow> bytes \<Rightarrow> bytes \<Rightarrow> bool) \<Rightarrow> (bytes \<Rightarrow> EquivocationEvidence option)
       \<Rightarrow> u64 \<Rightarrow> int \<Rightarrow> Transaction \<Rightarrow> blk \<Rightarrow> blk \<times> outcome" where
  "dispatch H V J height i t x =
     (if Kind t = KindDeploy then tx_deploy H t x
      else if Kind t = KindCall then tx_call H i t x
      else if Kind t = KindRegister then tx_register H height t x
      else if Kind t = KindSlash then applySlash H V J t x
      else if Kind t = KindUnregister then tx_unregister t x
      else if Kind t = KindFaucet then tx_faucet H height t x
      else if Kind t = KindStorageProof then tx_storage_proof H height t x
      else tx_transfer t x)"

text \<open>The checks before the switch, and the debit.\<close>

definition admit ::
    "(bytes \<Rightarrow> hash) \<Rightarrow> (bytes \<Rightarrow> bytes \<Rightarrow> bytes \<Rightarrow> bool) \<Rightarrow> Transaction \<Rightarrow> blk \<Rightarrow> blk \<times> outcome" where
  "admit H V t x =
     (if IsCoinbase t then fail ErrCoinbaseInBody x
      else case TxVerifySig H V t of
        Some e \<Rightarrow> fail (ErrSig e) x
      | None \<Rightarrow>
          if ChainID t \<noteq> StChainID (cur x) then fail ErrBadChainID x
          else let x1 = snap (From t) (on_state (acct (From t)) x); from = Get (cur x1) (From t) in
            if Nonce t \<noteq> AcctNonce from then fail ErrBadNonce x1
            else let tot = Amount t + Fee t in
              if tot < Amount t \<or> Balance from < tot then fail ErrInsufficient x1
              else fine ((on_state (upd_acct (From t)
                       (\<lambda>ac. ac\<lparr>Balance := Balance ac - tot, AcctNonce := AcctNonce ac + 1\<rparr>)) x1)
                     \<lparr>fees := fees x1 + Fee t\<rparr>))"

definition apply_tx ::
    "(bytes \<Rightarrow> hash) \<Rightarrow> (bytes \<Rightarrow> bytes \<Rightarrow> bytes \<Rightarrow> bool) \<Rightarrow> (bytes \<Rightarrow> EquivocationEvidence option)
       \<Rightarrow> u64 \<Rightarrow> int \<Rightarrow> Transaction \<Rightarrow> blk \<Rightarrow> blk \<times> outcome" where
  "apply_tx H V J height i t x = and_then (admit H V t x) (dispatch H V J height i t)"

primrec apply_payload ::
    "(bytes \<Rightarrow> hash) \<Rightarrow> (bytes \<Rightarrow> bytes \<Rightarrow> bytes \<Rightarrow> bool) \<Rightarrow> (bytes \<Rightarrow> EquivocationEvidence option)
       \<Rightarrow> u64 \<Rightarrow> int \<Rightarrow> Transaction list \<Rightarrow> blk \<Rightarrow> blk \<times> outcome" where
  "apply_payload H V J height i [] x = fine x"
| "apply_payload H V J height i (t # ts) x =
     and_then (apply_tx H V J height i t x) (apply_payload H V J height (i + 1) ts)"

section \<open>Coinbase and the whole block\<close>

definition coinbase_of :: "Block \<Rightarrow> Transaction option" where
  "coinbase_of b = (case Txs b of t # _ \<Rightarrow> if IsCoinbase t then Some t else None | [] \<Rightarrow> None)"

definition payload_of :: "Block \<Rightarrow> Transaction list" where
  "payload_of b = (case coinbase_of b of Some _ \<Rightarrow> tl (Txs b) | None \<Rightarrow> Txs b)"

definition settle :: "Block \<Rightarrow> blk \<Rightarrow> blk \<times> outcome" where
  "settle b x =
     (let reward = BlockReward (Height (Hdr b)) (Minted (cur x)); val = Validator (Hdr b) in
      case coinbase_of b of
        Some cb \<Rightarrow>
          if To cb \<noteq> val then fail ErrBadCoinbase x
          else if Amount cb \<noteq> reward + fees x then fail ErrBadCoinbase x
          else fine (on_state (\<lambda>s. s\<lparr>Minted := Minted s + reward\<rparr>)
                 (on_state (Credit (To cb) (Amount cb)) (snap (To cb) x)))
      | None \<Rightarrow>
          if 0 < reward + fees x \<and> val \<noteq> [] then fine (on_state (Credit val (fees x)) (snap val x))
          else fine x)"

definition start :: "State \<Rightarrow> blk" where
  "start s = \<lparr>cur = s, saved = [], fees = 0, blockLogs = []\<rparr>"

definition ApplyBlock ::
    "(bytes \<Rightarrow> hash) \<Rightarrow> (bytes \<Rightarrow> bytes \<Rightarrow> bytes \<Rightarrow> bool) \<Rightarrow> (bytes \<Rightarrow> EquivocationEvidence option)
       \<Rightarrow> Block \<Rightarrow> State \<Rightarrow> State \<times> outcome" where
  "ApplyBlock H V J b s =
     (case and_then (apply_payload H V J (Height (Hdr b)) 0 (payload_of b) (start s)) (settle b) of
        (x, Ok ()) \<Rightarrow> ((cur x)\<lparr>StHeight := Height (Hdr b), lastLogs := blockLogs x\<rparr>, Ok ())
      | (x, Err e) \<Rightarrow> (rollback (Validators s) x, Err e)
      | (x, Panic) \<Rightarrow> (cur x, Panic))"

section \<open>Sequencing\<close>

lemma and_then_simps [simp]:
  "and_then (x, Ok u) f = f x" "and_then (x, Err e) f = (x, Err e)" "and_then (x, Panic) f = (x, Panic)"
  by (simp_all add: and_then_def split: unit.split)

lemma and_then_Ok_iff [simp]: "and_then r f = (y, Ok u) \<longleftrightarrow> (\<exists>x. r = (x, Ok ()) \<and> f x = (y, Ok ()))"
proof -
  obtain x w where "r = (x, w)" by (cases r)
  then show ?thesis by (cases w) auto
qed

lemma and_then_keeps:
  assumes "keeps x (fst r)" "\<And>y. r = (y, Ok ()) \<Longrightarrow> keeps y (fst (f y))"
  shows "keeps x (fst (and_then r f))"
proof -
  obtain z w where r: "r = (z, w)" by (cases r)
  then show ?thesis using assms by (cases w) (auto intro: keeps_trans)
qed

section \<open>Every step records what it changes\<close>

lemma Credit_eq: "Credit a v = upd_acct a (\<lambda>ac. ac\<lparr>Balance := Balance ac + v\<rparr>)"
  by (simp add: fun_eq_iff Credit_def)

lemma debit_eq: "debit a v = upd_acct a (\<lambda>ac. ac\<lparr>Balance := Balance ac - v\<rparr>)"
  by (simp add: fun_eq_iff debit_def)

lemma keeps_step:
  "keeps x y \<Longrightarrow> keeps x (snap a y)"
  "keeps x y \<Longrightarrow> keeps x (on_state (acct a) y)"
  "keeps x y \<Longrightarrow> snapped a y \<Longrightarrow> keeps x (on_state (upd_acct a f) y)"
  "keeps x y \<Longrightarrow> snapped a y \<Longrightarrow> keeps x (on_state (Credit a v) y)"
  "keeps x y \<Longrightarrow> snapped a y \<Longrightarrow> keeps x (on_state (debit a v) y)"
  unfolding Credit_eq debit_eq
  by (auto intro: keeps_trans [OF _ keeps_snap] keeps_trans [OF _ keeps_acct] keeps_trans [OF _ keeps_upd_acct])

lemma Get_frame [simp]:
  "Get (s\<lparr>Validators := v\<rparr>) = Get s" "Get (s\<lparr>FaucetClaims := c\<rparr>) = Get s" "Get (s\<lparr>Minted := n\<rparr>) = Get s"
  "Get (s\<lparr>StHeight := n\<rparr>) = Get s" "Get (s\<lparr>lastLogs := l\<rparr>) = Get s"
  by (simp_all add: Get_def fun_eq_iff)

lemma orig_on_state: "(\<And>s. Get (f s) = Get s) \<Longrightarrow> orig (on_state f y) = orig y"
  by (simp add: orig_def fun_eq_iff split: option.split)

lemma keeps_other:
  "keeps x y \<Longrightarrow> keeps x (on_state (\<lambda>s. s\<lparr>Validators := v s\<rparr>) y)"
  "keeps x y \<Longrightarrow> keeps x (on_state (\<lambda>s. s\<lparr>FaucetClaims := c s\<rparr>) y)"
  "keeps x y \<Longrightarrow> keeps x (on_state (\<lambda>s. s\<lparr>Minted := n s\<rparr>) y)"
  by (simp_all add: keeps_def orig_on_state)

lemmas keepsI = keeps_refl keeps_step keeps_other

lemma keeps_applySlash: "keeps x (fst (applySlash H V J t x))"
  by (auto simp: applySlash_def Let_def intro!: keepsI split: option.split)

lemma keeps_deploy: "keeps x (fst (tx_deploy H t x))"
  by (auto simp: tx_deploy_def Let_def intro!: keepsI)

lemma stores_only_keeps: "stores_only x y \<Longrightarrow> keeps x y"
  by (simp add: stores_only_def)

lemma keeps_call:
  assumes "snapped (From t) x"
  shows "keeps x (fst (tx_call H i t x))"
proof -
  let ?x = "on_state (Credit (To t) (Amount t)) (snap (To t) x)"
  have k: "keeps x ?x" by (auto intro!: keepsI)
  have run: "keeps ?x y" if "execContract H (To t) c (From t) d v g 0 i ?x = (y, r)" for c d v g y r
    using stores_only_keeps [OF execContract_stores_only [of ?x H "To t" c "From t" d v g 0 i]] that by simp
  have snp: "snapped (From t) y" "snapped (To t) y" if "keeps ?x y" for y
    using that assms by (auto simp: keeps_def)
  show ?thesis
    using k snp by (auto simp: tx_call_def Let_def split: option.split prod.split
        intro!: keeps_step intro: keeps_trans [OF k] dest!: run)
qed

lemma keeps_register: "keeps x (fst (tx_register H h t x))"
  by (auto simp: tx_register_def Let_def intro!: keepsI split: option.split)

lemma keeps_unregister: "snapped (From t) x \<Longrightarrow> keeps x (fst (tx_unregister t x))"
  by (auto simp: tx_unregister_def Let_def intro!: keepsI split: option.split)

lemma keeps_faucet: "snapped (From t) x \<Longrightarrow> keeps x (fst (tx_faucet H h t x))"
  by (auto simp: tx_faucet_def Let_def intro!: keepsI split: option.split)

lemma keeps_storage_proof: "keeps x (fst (tx_storage_proof H h t x))"
  by (auto simp: tx_storage_proof_def Let_def intro!: keepsI split: option.split prod.split)

lemma keeps_transfer: "keeps x (fst (tx_transfer t x))"
  by (auto simp: tx_transfer_def intro!: keepsI)

lemma keeps_dispatch: "snapped (From t) x \<Longrightarrow> keeps x (fst (dispatch H V J h i t x))"
  unfolding dispatch_def
  by (simp add: keeps_applySlash keeps_deploy keeps_call keeps_register keeps_unregister keeps_faucet
      keeps_storage_proof keeps_transfer)

lemma keeps_fees: "keeps x y \<Longrightarrow> keeps x (y\<lparr>fees := u\<rparr>)"
  by (simp add: keeps_def)

lemma keeps_admit: "keeps x (fst (admit H V t x))"
  by (auto simp: admit_def Let_def intro!: keepsI keeps_fees split: option.split)

lemma admit_Ok:
  "admit H V t x = (y, Ok ()) \<Longrightarrow> snapped (From t) y"
  by (auto simp: admit_def Let_def split: option.splits if_splits)

lemma keeps_apply_tx: "keeps x (fst (apply_tx H V J h i t x))"
  unfolding apply_tx_def by (rule and_then_keeps) (auto intro: keeps_admit keeps_dispatch dest: admit_Ok)

lemma keeps_apply_payload: "keeps x (fst (apply_payload H V J h i ts x))"
  by (induction ts arbitrary: i x) (auto intro: keeps_refl and_then_keeps keeps_apply_tx)

lemma keeps_settle: "keeps x (fst (settle b x))"
  by (auto simp: settle_def Let_def intro!: keepsI split: option.split)

section \<open>Rollback\<close>

lemma Get_restore: "Get (restore (a, oac) s) b = (if b = a then (case oac of Some ac \<Rightarrow> ac | None \<Rightarrow> empty_account) else Get s b)"
  by (auto simp: restore_def Get_def split: option.splits)

lemma Get_fold_restore:
  "gomap m \<Longrightarrow> Get (fold restore m s) a =
     (case map_of m a of None \<Rightarrow> Get s a | Some None \<Rightarrow> empty_account | Some (Some ac) \<Rightarrow> ac)"
proof (induction m arbitrary: s)
  case (Cons p m)
  obtain b oac where p: "p = (b, oac)" by (cases p)
  from Cons have "gomap m" and nb: "map_of m b = None" by (auto simp: gomap_def p map_of_eq_None_iff)
  then show ?case using Cons.IH by (auto simp: p Get_restore split: option.split)
qed simp

lemma fold_restore_rest: "rest_of (fold restore m s) = rest_of s"
  by (induction m arbitrary: s) (auto simp: restore_def rest_of_def split: prod.split option.split)

lemma Get_rollback: "gomap (saved x) \<Longrightarrow> Get (rollback vs x) a = orig x a"
  using Get_fold_restore [of "saved x" "cur x" a]
  by (simp add: rollback_def orig_def Get_def)

lemma rollback_rest:
  "rest_of (rollback vs x) = (rest_of (cur x))\<lparr>Validators := vs\<rparr>"
proof -
  have "rest_of (s\<lparr>Validators := vs\<rparr>) = (rest_of s)\<lparr>Validators := vs\<rparr>" for s by (simp add: rest_of_def)
  then show ?thesis by (simp add: rollback_def fold_restore_rest)
qed

section \<open>What the payload leaves alone\<close>

definition config :: "State \<Rightarrow> State" where
  "config s = s\<lparr>Accounts := [], Validators := [], FaucetClaims := []\<rparr>"

lemma config_simps [simp]:
  "config (acct a s) = config s" "config (upd_acct a f s) = config s" "config (Credit a v s) = config s"
  "config (debit a v s) = config s" "config (s\<lparr>Validators := vs\<rparr>) = config s"
  "config (s\<lparr>FaucetClaims := fc\<rparr>) = config s"
  by (simp_all add: config_def acct_def upd_acct_def Credit_def debit_def split: option.splits)

lemma stores_only_config: "stores_only x y \<Longrightarrow> config (cur y) = config (cur x)"
proof -
  assume "stores_only x y"
  then have "rest_of (cur y) = rest_of (cur x)" by (simp add: stores_only_def)
  moreover have "config s = (rest_of s)\<lparr>Validators := [], FaucetClaims := []\<rparr>" for s
    by (simp add: config_def rest_of_def)
  ultimately show ?thesis by simp
qed

lemma stores_only_sel:
  assumes "stores_only x y"
  shows "Validators (cur y) = Validators (cur x)" "FaucetClaims (cur y) = FaucetClaims (cur x)" "fees y = fees x"
proof -
  have r: "rest_of (cur y) = rest_of (cur x)" using assms by (simp add: stores_only_def)
  have "Validators s = Validators (rest_of s)" "FaucetClaims s = FaucetClaims (rest_of s)" for s
    by (simp_all add: rest_of_def)
  with r show "Validators (cur y) = Validators (cur x)" "FaucetClaims (cur y) = FaucetClaims (cur x)" by metis+
  show "fees y = fees x" using assms by (simp add: stores_only_def)
qed

lemma execContract_frame:
  assumes "execContract H addr caller ca input val gas depth ti x = (y, r)"
  shows "config (cur y) = config (cur x)" "Validators (cur y) = Validators (cur x)"
    "FaucetClaims (cur y) = FaucetClaims (cur x)" "fees y = fees x"
  using stores_only_config stores_only_sel execContract_stores_only [of x H addr caller ca input val gas depth ti] assms
  by (simp_all)

lemma Credit_frame [simp]:
  "Validators (Credit a v s) = Validators s" "FaucetClaims (Credit a v s) = FaucetClaims s"
  "Minted (Credit a v s) = Minted s"
  "Validators (debit a v s) = Validators s" "FaucetClaims (debit a v s) = FaucetClaims s"
  "Minted (debit a v s) = Minted s"
  by (simp_all add: Credit_def debit_def)

text \<open>Configuration and fees after every arm; the faucet claims after every arm but the faucet's.\<close>

definition same :: "blk \<Rightarrow> blk \<Rightarrow> bool" where
  "same x y \<longleftrightarrow> config (cur y) = config (cur x) \<and> fees y = fees x \<and> FaucetClaims (cur y) = FaucetClaims (cur x)"

lemma same_call: "same x (fst (tx_call H i t x))"
proof -
  let ?x = "on_state (Credit (To t) (Amount t)) (snap (To t) x)"
  have "same ?x y" if "execContract H (To t) c (From t) d v g 0 i ?x = (y, r)" for c d v g y r
    using execContract_frame [OF that] by (simp add: same_def)
  then show ?thesis
    by (fastforce simp: tx_call_def Let_def same_def split: option.split prod.split)
qed

lemma same_txs:
  "same x (fst (applySlash H V J t x))" "same x (fst (tx_deploy H t x))" "same x (fst (tx_register H h t x))"
  "same x (fst (tx_unregister t x))" "same x (fst (tx_storage_proof H h t x))" "same x (fst (tx_transfer t x))"
  by (auto simp: same_def applySlash_def tx_deploy_def tx_register_def tx_unregister_def tx_storage_proof_def
      tx_transfer_def Let_def split: option.split)

lemma config_faucet: "config (cur (fst (tx_faucet H h t x))) = config (cur x)" "fees (fst (tx_faucet H h t x)) = fees x"
  by (auto simp: tx_faucet_def Let_def split: option.split)

lemma same_dispatch: "Kind t \<noteq> KindFaucet \<Longrightarrow> same x (fst (dispatch H V J h i t x))"
  by (simp add: dispatch_def same_txs same_call)

lemma config_dispatch:
  "config (cur (fst (dispatch H V J h i t x))) = config (cur x)" "fees (fst (dispatch H V J h i t x)) = fees x"
  using same_dispatch [of t x H V J h i] config_faucet [of H h t x]
  by (cases "Kind t = KindFaucet"; simp add: same_def dispatch_def Kind_defs)+

lemma claims_dispatch: "Kind t \<noteq> KindFaucet \<Longrightarrow> FaucetClaims (cur (fst (dispatch H V J h i t x))) = FaucetClaims (cur x)"
  using same_dispatch by (simp add: same_def)

lemma admit_frame:
  "config (cur (fst (admit H V t x))) = config (cur x)"
  "FaucetClaims (cur (fst (admit H V t x))) = FaucetClaims (cur x)"
  "Validators (cur (fst (admit H V t x))) = Validators (cur x)"
  by (auto simp: admit_def Let_def split: option.split)

lemma and_then_frame:
  assumes "P (cur (fst r)) = P (cur x)" "\<And>y. P (cur (fst (f y))) = P (cur y)"
  shows "P (cur (fst (and_then r f))) = P (cur x)"
proof -
  obtain z w where r: "r = (z, w)" by (cases r)
  then show ?thesis using assms by (cases w) auto
qed

lemma config_apply_payload: "config (cur (fst (apply_payload H V J h i ts x))) = config (cur x)"
proof (induction ts arbitrary: i x)
  case (Cons t ts)
  have "config (cur (fst (apply_tx H V J h i t x))) = config (cur x)"
    unfolding apply_tx_def by (rule and_then_frame) (rule admit_frame config_dispatch(1))+
  then show ?case by (simp add: and_then_frame Cons)
qed simp

lemma claims_apply_payload:
  "\<forall>t\<in>set ts. Kind t \<noteq> KindFaucet \<Longrightarrow>
     FaucetClaims (cur (fst (apply_payload H V J h i ts x))) = FaucetClaims (cur x)"
proof (induction ts arbitrary: i x)
  case (Cons t ts)
  then have "FaucetClaims (cur (fst (apply_tx H V J h i t x))) = FaucetClaims (cur x)"
    unfolding apply_tx_def by (intro and_then_frame) (simp_all add: admit_frame claims_dispatch)
  with Cons show ?case by (simp add: and_then_frame)
qed simp

lemma settle_Err: "settle b x = (y, Err e) \<Longrightarrow> y = x"
  by (auto simp: settle_def Let_def split: option.splits if_splits)

lemma settle_no_Panic: "settle b x \<noteq> (y, Panic)"
  by (auto simp: settle_def Let_def split: option.splits if_splits)

text \<open>Where a failing block stops.\<close>

lemma ApplyBlock_Err:
  assumes "ApplyBlock H V J b s = (s', Err e)"
  shows "s' = rollback (Validators s) (fst (apply_payload H V J (Height (Hdr b)) 0 (payload_of b) (start s)))"
proof -
  obtain y w where p: "apply_payload H V J (Height (Hdr b)) 0 (payload_of b) (start s) = (y, w)" by fastforce
  obtain z v where q: "settle b y = (z, v)" by fastforce
  show ?thesis
    using assms p q settle_Err [of b y z] by (cases w; cases v) (auto simp: ApplyBlock_def split: unit.splits)
qed

lemma payload_subset: "set (payload_of b) \<subseteq> set (Txs b)"
  by (auto simp: payload_of_def coinbase_of_def dest: list.set_sel(2) split: list.splits if_splits)

lemma ApplyBlock_Err_frame:
  assumes "ApplyBlock H V J b s = (s', Err e)"
  shows "Get s' = Get s" "Validators s' = Validators s" "config s' = config s"
    "(\<forall>t\<in>set (payload_of b). Kind t \<noteq> KindFaucet) \<Longrightarrow> FaucetClaims s' = FaucetClaims s"
proof -
  let ?x = "fst (apply_payload H V J (Height (Hdr b)) 0 (payload_of b) (start s))"
  have k: "keeps (start s) ?x" by (rule keeps_apply_payload)
  have s': "s' = rollback (Validators s) ?x" using assms by (rule ApplyBlock_Err)
  have "gomap (saved ?x)" "orig ?x = orig (start s)" using k by (auto simp: keeps_def start_def)
  moreover have "orig (start s) = Get s" by (simp add: orig_def start_def fun_eq_iff)
  ultimately show "Get s' = Get s" by (simp add: s' Get_rollback fun_eq_iff)
  have r: "rest_of s' = (rest_of (cur ?x))\<lparr>Validators := Validators s\<rparr>"
    unfolding s' by (rule rollback_rest)
  have sel: "Validators u = Validators (rest_of u)" "FaucetClaims u = FaucetClaims (rest_of u)"
    "config u = config (rest_of u)" for u by (simp_all add: rest_of_def config_def)
  show "Validators s' = Validators s" by (subst sel(1)) (simp add: r)
  have "config s' = config (cur ?x)" by (subst sel(3), simp add: r) (simp add: sel(3) [of "cur ?x"])
  then show "config s' = config s" using config_apply_payload [of H V J _ 0 "payload_of b" "start s"]
    by (simp add: start_def)
  assume nf: "\<forall>t\<in>set (payload_of b). Kind t \<noteq> KindFaucet"
  have "FaucetClaims s' = FaucetClaims (cur ?x)" by (subst sel(2), simp add: r) (simp add: sel(2) [of "cur ?x"])
  also have "\<dots> = FaucetClaims s" using claims_apply_payload [OF nf] by (simp add: start_def)
  finally show "FaucetClaims s' = FaucetClaims s" .
qed

section \<open>Properties\<close>

text \<open>
  A 32-byte digest, two keys and blocks of transfers that the kernel can evaluate, for the
  witnesses.
\<close>

definition pad32 :: "bytes \<Rightarrow> hash" where
  "pad32 m = take 32 (m @ replicate 32 0)"

definition alice_pub :: bytes where "alice_pub = replicate 32 1"
definition alice :: address where "alice = AddressFromPub pad32 alice_pub"
definition bob :: address where "bob = [0x62]"

definition pay :: "u8 \<Rightarrow> u64 \<Rightarrow> u64 \<Rightarrow> bytes \<Rightarrow> Transaction" where
  "pay kind amount nonce dat =
     \<lparr>From = alice, To = bob, Amount = amount, Fee = 1, Nonce = nonce, ChainID = 7, Kind = kind, Gas = 1000,
      Data = dat, PubKey = alice_pub, Sig = []\<rparr>"

definition hdr_at :: "u64 \<Rightarrow> Header" where
  "hdr_at h = \<lparr>Height = h, PrevHash = Zero, MerkleRoot = Zero, Timestamp = 0, Validator = [0x76], TxCount = 0,
     Round = 0, Spec = \<lparr>K = 1, M = 1\<rparr>, BodyHash = Zero, LogsRoot = Zero, HdrSig = [], ValPubKey = []\<rparr>"

definition block_of :: "u64 \<Rightarrow> Transaction list \<Rightarrow> Block" where
  "block_of h ts = \<lparr>Hdr = hdr_at h, Txs = ts\<rparr>"

definition ledger0 :: State where
  "ledger0 = SetChainID 7 (SetMinted 1000 (Credit alice 1000 New))"

text \<open>
  C3. A block that is rejected changes nothing: after an error every account reads as before,
  the validator registry is the old one, and so are height, minted supply, events and all
  configuration.  The one exception is the map of faucet claims, which the rollback does not
  restore; it is unchanged too when the block holds no faucet claim.
\<close>

theorem ApplyBlock_atomic:
  assumes "ApplyBlock H V J b s = (s', Err e)"
  shows "(\<forall>a. Get s' a = Get s a) \<and> s'\<lparr>Accounts := Accounts s, FaucetClaims := FaucetClaims s\<rparr> = s
    \<and> ((\<forall>t\<in>set (Txs b). Kind t \<noteq> KindFaucet) \<longrightarrow> FaucetClaims s' = FaucetClaims s)"
proof (intro conjI)
  note f = ApplyBlock_Err_frame [OF assms]
  show "\<forall>a. Get s' a = Get s a" using f(1) by simp
  have "s'\<lparr>Accounts := Accounts s, FaucetClaims := FaucetClaims s\<rparr> =
      (config s')\<lparr>Accounts := Accounts s, Validators := Validators s', FaucetClaims := FaucetClaims s\<rparr>"
    by (simp add: config_def)
  also have "\<dots> = s" by (simp add: f(2,3)) (simp add: config_def)
  finally show "s'\<lparr>Accounts := Accounts s, FaucetClaims := FaucetClaims s\<rparr> = s" .
  show "(\<forall>t\<in>set (Txs b). Kind t \<noteq> KindFaucet) \<longrightarrow> FaucetClaims s' = FaucetClaims s"
    using f(4) payload_subset [of b] by blast
qed

definition bad_block :: Block where
  "bad_block = block_of 1 [pay KindTransfer 5 0 [], pay KindTransfer 5 0 []]"

lemma bad_block_run:
  "snd (ApplyBlock pad32 (\<lambda>_ _ _. True) (\<lambda>_. None) bad_block ledger0) = Err ErrBadNonce"
  by code_simp

theorem ApplyBlock_atomic_witness:
  "\<exists>s'. ApplyBlock pad32 (\<lambda>_ _ _. True) (\<lambda>_. None) bad_block ledger0 = (s', Err ErrBadNonce)
      \<and> Balance (Get s' alice) = 1000 \<and> Balance (Get s' bob) = 0 \<and> Minted s' = 1000"
proof -
  obtain s' where r: "ApplyBlock pad32 (\<lambda>_ _ _. True) (\<lambda>_. None) bad_block ledger0 = (s', Err ErrBadNonce)"
    using bad_block_run by (metis prod.collapse)
  have "Get s' a = Get ledger0 a" "s'\<lparr>Accounts := Accounts ledger0, FaucetClaims := FaucetClaims ledger0\<rparr> = ledger0" for a
    using ApplyBlock_atomic [OF r] by simp_all
  moreover have "Balance (Get ledger0 alice) = 1000" "Balance (Get ledger0 bob) = 0" "Minted ledger0 = 1000"
    by code_simp+
  ultimately show ?thesis using r by (metis State.select_convs(4) State.surjective State.update_convs(1,7))
qed

end
