(* ===== verification/SL_Ledger.thy ===== *)
theory SL_Ledger
  imports SL_ApplyBlock
begin

text \<open>
  What \<^verbatim>\<open>ApplyBlock\<close> guarantees of the ledger over blocks: no money out of nothing, nonces
  that only advance, and the life cycle of validators.
\<close>

section \<open>Supply\<close>

definition wealth :: "State \<Rightarrow> nat" where
  "wealth s = balances s + bonds s"

definition maps_ok :: "State \<Rightarrow> bool" where
  "maps_ok s \<longleftrightarrow> gomap (Accounts s) \<and> gomap (Validators s)"

lemma maps_ok_simps [simp]:
  "maps_ok s \<Longrightarrow> maps_ok (acct a s)" "maps_ok s \<Longrightarrow> maps_ok (upd_acct a f s)"
  "maps_ok s \<Longrightarrow> maps_ok (Credit a v s)" "maps_ok s \<Longrightarrow> maps_ok (debit a v s)"
  "maps_ok s \<Longrightarrow> maps_ok (s\<lparr>Validators := AList.update k w (Validators s)\<rparr>)"
  "maps_ok s \<Longrightarrow> maps_ok (s\<lparr>Validators := AList.delete k (Validators s)\<rparr>)"
  "maps_ok (s\<lparr>FaucetClaims := c\<rparr>) = maps_ok s" "maps_ok (s\<lparr>Minted := n\<rparr>) = maps_ok s"
  by (simp_all add: maps_ok_def Credit_def debit_def)

lemma bonds_simps [simp]:
  "bonds (acct a s) = bonds s" "bonds (upd_acct a f s) = bonds s" "bonds (Credit a v s) = bonds s"
  "bonds (debit a v s) = bonds s" "bonds (s\<lparr>FaucetClaims := c\<rparr>) = bonds s" "bonds (s\<lparr>Minted := n\<rparr>) = bonds s"
  by (simp_all add: bonds_def Credit_def debit_def)

lemma balances_frame [simp]:
  "balances (s\<lparr>Validators := v\<rparr>) = balances s" "balances (s\<lparr>FaucetClaims := c\<rparr>) = balances s"
  "balances (s\<lparr>Minted := n\<rparr>) = balances s"
  by (simp_all add: balances_def)

lemma bonds_update:
  assumes "maps_ok s"
  shows "bonds (s\<lparr>Validators := AList.update a w (Validators s)\<rparr>)
      + (case map_of (Validators s) a of Some v \<Rightarrow> unat (Bond v) | None \<Rightarrow> 0) = bonds s + unat (Bond w)"
  using map_sum_update [of "Validators s" "\<lambda>v. unat (Bond v)" a w] assms
  by (simp add: bonds_def maps_ok_def split: option.split)

lemma bonds_delete:
  assumes "maps_ok s" "map_of (Validators s) a = Some v"
  shows "bonds (s\<lparr>Validators := AList.delete a (Validators s)\<rparr>) + unat (Bond v) = bonds s"
  using map_sum_delete [of "Validators s" "\<lambda>v. unat (Bond v)" a] assms
  by (simp add: bonds_def maps_ok_def)

text \<open>Credits and debits move exactly what they say as long as the total stays below \<open>2^64\<close>.\<close>

lemma balances_Credit:
  assumes "maps_ok s" "balances s + unat v < 2 ^ 64"
  shows "balances (Credit a v s) = balances s + unat v"
proof -
  have "unat (Balance (Get s a) + v) = unat (Balance (Get s a)) + unat v"
    using balances_ge [of s a] assms(2) by (intro unat_add_no_wrap) simp
  then show ?thesis
    using balances_upd_acct [of s a "\<lambda>ac. ac\<lparr>Balance := Balance ac + v\<rparr>"] assms(1)
    by (simp add: Credit_def maps_ok_def)
qed

lemma balances_debit:
  assumes "maps_ok s" "v \<le> Balance (Get s a)"
  shows "balances (debit a v s) + unat v = balances s"
proof -
  have le: "unat v \<le> unat (Balance (Get s a))" using assms(2) by (simp add: word_le_nat_alt)
  have "unat (Balance (Get s a) - v) = unat (Balance (Get s a)) - unat v"
    using assms(2) by (rule unat_sub_no_wrap)
  then show ?thesis
    using balances_upd_acct [of s a "\<lambda>ac. ac\<lparr>Balance := Balance ac - v\<rparr>"] assms(1) le balances_ge [of s a]
    by (simp add: debit_def maps_ok_def)
qed

text \<open>
  The bound kept while a block runs: what is on accounts, in bonds and collected as fees, plus the
  value in flight, stays within \<open>n\<close>.
\<close>

definition funded :: "nat \<Rightarrow> nat \<Rightarrow> blk \<Rightarrow> bool" where
  "funded n flight x \<longleftrightarrow> maps_ok (cur x) \<and> wealth (cur x) + unat (fees x) + flight \<le> n"

lemma admit_funded:
  assumes "admit H V t x = (y, Ok ())" "funded n 0 x" "n < 2 ^ 64"
  shows "funded n (unat (Amount t)) y"
proof -
  let ?a = "From t" and ?tot = "Amount t + Fee t"
  let ?s = "acct ?a (cur x)"
  let ?f = "\<lambda>ac. ac\<lparr>Balance := Balance ac - ?tot, AcctNonce := AcctNonce ac + 1\<rparr>"
  from assms(1) have y: "cur y = upd_acct ?a ?f ?s" "fees y = fees x + Fee t"
    and c: "\<not> ?tot < Amount t" "\<not> Balance (Get (cur x) ?a) < ?tot"
    by (auto simp: admit_def Let_def split: option.splits if_splits)
  have m: "maps_ok ?s" using assms(2) by (simp add: funded_def)
  have tot: "unat ?tot = unat (Amount t) + unat (Fee t)"
    using c(1) by (intro unat_add_no_wrap) (simp add: add_less_iff_wrap not_le)
  have le: "unat ?tot \<le> unat (Balance (Get (cur x) ?a))" using c(2) by (simp add: word_le_nat_alt not_less)
  have bal: "balances (cur y) + unat ?tot = balances (cur x)"
    using balances_upd_acct [of ?s ?a ?f] m le balances_ge [of "cur x" ?a] assms(2)
    by (simp add: y maps_ok_def unat_sub_no_wrap word_le_nat_alt funded_def)
  have fee: "unat (fees y) = unat (fees x) + unat (Fee t)"
    unfolding y using assms(2,3) le tot balances_ge [of "cur x" ?a]
    by (intro unat_add_no_wrap) (simp add: funded_def wealth_def)
  show ?thesis
    using assms(2) bal fee tot m by (simp add: funded_def wealth_def y)
qed

lemma funded_snap [simp]: "funded n k (snap a x) = funded n k x"
  by (simp add: funded_def)

lemma funded_credit:
  "funded n (k + unat v) x \<Longrightarrow> n < 2 ^ 64 \<Longrightarrow> funded n k (on_state (Credit a v) x)"
  using balances_Credit [of "cur x" v a] by (auto simp: funded_def wealth_def)

lemma funded_debit:
  "funded n k x \<Longrightarrow> v \<le> Balance (Get (cur x) a) \<Longrightarrow> funded n (k + unat v) (on_state (debit a v) x)"
  using balances_debit [of "cur x" v a] by (auto simp: funded_def wealth_def)

lemma funded_weaken: "funded n k x \<Longrightarrow> l \<le> k \<Longrightarrow> funded n l x"
  by (auto simp: funded_def)

lemma funded_validator:
  assumes "funded n k x"
    and "l + unat (Bond w) \<le> k + (case map_of (Validators (cur x)) a of Some v \<Rightarrow> unat (Bond v) | None \<Rightarrow> 0)"
  shows "funded n l (on_state (\<lambda>s. s\<lparr>Validators := AList.update a w (Validators s)\<rparr>) x)"
  using bonds_update [of "cur x" a w] assms by (auto simp: funded_def wealth_def)

lemma funded_unbond:
  assumes "funded n k x" "map_of (Validators (cur x)) a = Some v"
  shows "funded n (k + unat (Bond v)) (on_state (\<lambda>s. s\<lparr>Validators := AList.delete a (Validators s)\<rparr>) x)"
  using bonds_delete [of "cur x" a v] assms by (auto simp: funded_def wealth_def)

lemma Credit_Validators:
  "on_state (\<lambda>s. s\<lparr>Validators := g (Validators s)\<rparr>) (on_state (Credit a v) x) =
   on_state (Credit a v) (on_state (\<lambda>s. s\<lparr>Validators := g (Validators s)\<rparr>) x)"
  by (simp add: on_state_def Credit_def upd_acct_def)

lemma slash_funded:
  assumes "applySlash H V J t x = (y, Ok ())" "funded n k x" "n < 2 ^ 64"
  shows "funded n 0 y"
proof -
  from assms(1) obtain a v i where v: "map_of (Validators (cur x)) a = Some v"
    and y: "y = on_state (\<lambda>s. s\<lparr>Validators := AList.update a \<lparr>Bond = 0, Active = False, Since = i, Slashed = True,
        StorageScore = 0, LastProofAt = 0\<rparr> (Validators s)\<rparr>) (on_state (Credit (From t) (Bond v div 10)) (snap (From t) x))"
    by (auto simp: applySlash_def Let_def split: option.splits if_splits)
  show ?thesis
    unfolding y Credit_Validators using assms(2,3) v
    by (intro funded_credit funded_validator [where k = k]) (auto simp: unat_div)
qed

lemma deploy_funded: "tx_deploy H t x = (y, Ok ()) \<Longrightarrow> funded n (unat (Amount t)) x \<Longrightarrow> n < 2 ^ 64 \<Longrightarrow> funded n 0 y"
proof -
  assume d: "tx_deploy H t x = (y, Ok ())" and f: "funded n (unat (Amount t)) x" "n < 2 ^ 64"
  let ?a = "ContractAddress H (From t) (Nonce t)"
  let ?s = "upd_acct ?a (\<lambda>c. c\<lparr>Code := Data t\<rparr>)"
  have "upd_acct ?a (\<lambda>c. c\<lparr>Code := Data t, Balance := Balance c + Amount t\<rparr>) s = Credit ?a (Amount t) (?s s)" for s
    by (simp add: Credit_def upd_acct_def Get_def)
  then have y: "y = on_state (Credit ?a (Amount t)) (on_state ?s (snap ?a x))"
    using d by (simp add: tx_deploy_def Let_def on_state_def)
  have "funded n (unat (Amount t)) (on_state ?s (snap ?a x))"
    using f balances_upd_acct [of "cur x" ?a "\<lambda>c. c\<lparr>Code := Data t\<rparr>"]
    by (simp add: funded_def wealth_def maps_ok_def)
  then show ?thesis unfolding y using f by (intro funded_credit) simp_all
qed

lemma transfer_funded:
  "tx_transfer t x = (y, Ok ()) \<Longrightarrow> funded n (unat (Amount t)) x \<Longrightarrow> n < 2 ^ 64 \<Longrightarrow> funded n 0 y"
  by (auto simp: tx_transfer_def intro: funded_credit)

lemma unregister_funded:
  assumes "tx_unregister t x = (y, Ok ())" "funded n (unat (Amount t)) x" "n < 2 ^ 64"
  shows "funded n 0 y"
proof -
  from assms(1) obtain v where v: "map_of (Validators (cur x)) (From t) = Some v"
    and y: "y = on_state (\<lambda>s. s\<lparr>Validators := AList.delete (From t) (Validators s)\<rparr>)
        (on_state (Credit (From t) (Bond v + Amount t)) x)"
    by (auto simp: tx_unregister_def split: option.splits if_splits)
  have f: "funded n (unat (Amount t) + unat (Bond v)) (on_state (\<lambda>s. s\<lparr>Validators := AList.delete (From t) (Validators s)\<rparr>) x)"
    using funded_unbond assms(2) v by blast
  then have "unat (Bond v + Amount t) = unat (Amount t) + unat (Bond v)"
    using assms(3) by (subst unat_add_no_wrap) (auto simp: funded_def)
  then show ?thesis unfolding y Credit_Validators using f assms(3) by (intro funded_credit) simp_all
qed

lemma register_funded:
  assumes "tx_register H h t x = (y, Ok ())" "funded n (unat (Amount t)) x"
  shows "funded n 0 y"
proof -
  have "y = on_state (\<lambda>s. s\<lparr>Validators := AList.update (From t)
             \<lparr>Bond = Amount t, Active = True, Since = h, Slashed = False, StorageScore = 0, LastProofAt = 0\<rparr>
             (Validators s)\<rparr>) x"
    using assms(1) by (auto simp: tx_register_def Let_def split: if_splits)
  with assms(2) show ?thesis by (auto intro: funded_validator)
qed

lemma storage_proof_funded:
  assumes "tx_storage_proof H h t x = (y, Ok ())" "funded n k x"
  shows "funded n 0 y"
proof -
  from assms(1) obtain v where v: "map_of (Validators (cur x)) (From t) = Some v" and
    y: "y = on_state (\<lambda>s. s\<lparr>Validators := AList.update (From t) (proved (StorageCap (cur x)) h v) (Validators s)\<rparr>) x"
    by (auto simp: tx_storage_proof_def Let_def split: option.splits if_splits prod.splits)
  from assms(2) v show ?thesis unfolding y by (intro funded_validator) (auto simp: proved_def intro: funded_weaken)
qed

lemma faucet_funded:
  assumes "tx_faucet H h t x = (y, Ok ())" "funded n k x" "n < 2 ^ 64"
  shows "funded n 0 y"
proof -
  let ?src = "FaucetSource (cur x)" and ?v = "FaucetAmount (cur x)"
  let ?x = "on_state (acct ?src) x"
  from assms(1) have b: "\<not> Balance (Get (cur x) ?src) < ?v"
    and y: "y = on_state (\<lambda>s. s\<lparr>FaucetClaims := AList.update (From t) h (FaucetClaims s)\<rparr>)
      (on_state (Credit (From t) ?v) (on_state (debit ?src ?v) (snap ?src ?x)))"
    by (auto simp: tx_faucet_def Let_def split: option.splits if_splits)
  have "funded n 0 ?x" using assms(2) by (auto simp: funded_def wealth_def maps_ok_def)
  then have "funded n (0 + unat ?v) (on_state (debit ?src ?v) (snap ?src ?x))"
    using b by (intro funded_debit) (simp_all add: not_less)
  then have "funded n 0 (on_state (Credit (From t) ?v) (on_state (debit ?src ?v) (snap ?src ?x)))"
    using assms(3) by (rule funded_credit)
  then show ?thesis unfolding y by (simp add: funded_def wealth_def)
qed

lemma stores_only_funded: "stores_only x y \<Longrightarrow> funded n k x \<Longrightarrow> funded n k y"
proof -
  assume so: "stores_only x y" and f: "funded n k x"
  have "bonds (cur y) = bonds (cur x)" using stores_only_sel(1) [OF so] by (simp add: bonds_def)
  moreover have "maps_ok (cur y)" "balances (cur y) = balances (cur x)"
    using so f stores_only_sel(1) [OF so] by (auto simp: stores_only_def funded_def maps_ok_def keeps_def)
  ultimately show ?thesis using f stores_only_sel(3) [OF so] by (simp add: funded_def wealth_def)
qed

lemma call_funded:
  assumes "tx_call H i t x = (y, Ok ())" "funded n (unat (Amount t)) x" "n < 2 ^ 64"
  shows "funded n 0 y"
proof -
  let ?x = "on_state (Credit (To t) (Amount t)) (snap (To t) x)"
  have f1: "funded n 0 ?x" using assms(2,3) by (intro funded_credit) simp_all
  obtain x2 r where e: "execContract H (To t) (AddrDigest H (From t)) (From t) (Data t) (Amount t) (Gas t) 0 i ?x = (x2, r)"
    by fastforce
  have so: "stores_only ?x x2" using execContract_stores_only e by (metis fst_conv)
  have f2: "funded n 0 x2" using stores_only_funded [OF so f1] .
  have nowrap: "unat (Balance (Get (cur x) (To t)) + Amount t) = unat (Balance (Get (cur x) (To t))) + unat (Amount t)"
    using assms(2,3) balances_ge [of "cur x" "To t"]
    by (intro unat_add_no_wrap) (simp add: funded_def wealth_def)
  have "Balance (Get (cur x2) (To t)) = Balance (Get (cur ?x) (To t))"
    using so by (simp add: stores_only_def core_def)
  then have le: "Amount t \<le> Balance (Get (cur x2) (To t))"
    using nowrap by (simp add: Credit_def word_le_nat_alt)
  have f3: "funded n 0 (on_state (Credit (From t) (Amount t)) (on_state (debit (To t) (Amount t)) x2))"
    using funded_debit [OF f2 le] assms(3) by (intro funded_credit) simp_all
  show ?thesis
    using assms(1) e f1 f2 f3 by (auto simp: tx_call_def Let_def split: if_splits option.splits)
qed

lemma dispatch_funded:
  assumes "dispatch H V J h i t x = (y, Ok ())" "funded n (unat (Amount t)) x" "n < 2 ^ 64"
  shows "funded n 0 y"
  using assms(1) unfolding dispatch_def
  by (auto split: if_splits intro: slash_funded [OF _ assms(2,3)] deploy_funded [OF _ assms(2,3)]
      call_funded [OF _ assms(2,3)] register_funded [OF _ assms(2)] unregister_funded [OF _ assms(2,3)]
      faucet_funded [OF _ assms(2,3)] storage_proof_funded [OF _ assms(2)] transfer_funded [OF _ assms(2,3)])

lemma payload_funded:
  "apply_payload H V J h i ts x = (y, Ok ()) \<Longrightarrow> funded n 0 x \<Longrightarrow> n < 2 ^ 64 \<Longrightarrow> funded n 0 y"
proof (induction ts arbitrary: i x)
  case (Cons t ts)
  from Cons.prems(1) obtain z w where z: "admit H V t x = (z, Ok ())" "dispatch H V J h i t z = (w, Ok ())"
    "apply_payload H V J h (i + 1) ts w = (y, Ok ())" by (auto simp: apply_tx_def)
  have "funded n 0 w"
    using admit_funded [OF z(1) Cons.prems(2,3)] z(2) Cons.prems(3) by (auto intro: dispatch_funded)
  with Cons.IH z(3) Cons.prems(3) show ?case by blast
qed simp

definition supply_ok :: "State \<Rightarrow> bool" where
  "supply_ok s \<longleftrightarrow> maps_ok s \<and> wealth s \<le> unat (Minted s) \<and> Minted s \<le> MaxSupply"

lemma Minted_config: "Minted (config s) = Minted s"
  by (simp add: config_def)

lemma payload_Minted:
  "apply_payload H V J h i ts x = (y, r) \<Longrightarrow> Minted (cur y) = Minted (cur x)"
  using config_apply_payload [of H V J h i ts x] by (metis Minted_config fst_conv)

lemma settle_supply:
  assumes "settle b x = (y, Ok ())" "funded (unat (Minted (cur x))) 0 x" "Minted (cur x) \<le> MaxSupply"
  shows "supply_ok (cur y)"
proof -
  let ?m = "Minted (cur x)" and ?r = "BlockReward (Height (Hdr b)) (Minted (cur x))"
  have small: "unat ?m < 2 ^ 63" "unat (?m + ?r) < 2 ^ 63"
    using assms(3) mint_within_cap(2) [OF assms(3), of "Height (Hdr b)"]
    by (auto simp: word_le_nat_alt unat_MaxSupply)
  have mint: "unat (?m + ?r) = unat ?m + unat ?r" "?m + ?r \<le> MaxSupply"
    using mint_within_cap [OF assms(3)] by auto
  show ?thesis
  proof (cases "coinbase_of b")
    case None
    with assms(1) have "y = x \<or> y = on_state (Credit (Validator (Hdr b)) (fees x)) (snap (Validator (Hdr b)) x)"
      by (auto simp: settle_def Let_def split: if_splits)
    moreover have "balances (Credit a (fees x) (cur x)) = balances (cur x) + unat (fees x)" for a
      using assms(2) small by (intro balances_Credit) (auto simp: funded_def wealth_def)
    ultimately show ?thesis using assms(2,3) by (auto simp: supply_ok_def funded_def wealth_def)
  next
    case (Some cb)
    with assms(1) have y: "cur y = (Credit (To cb) (?r + fees x) (cur x))\<lparr>Minted := ?m + ?r\<rparr>"
      by (auto simp: settle_def Let_def split: if_splits)
    have "unat (?r + fees x) = unat ?r + unat (fees x)"
      using assms(2) small mint by (intro unat_add_no_wrap) (simp add: funded_def)
    then have "balances (Credit a (?r + fees x) (cur x)) = balances (cur x) + unat ?r + unat (fees x)" for a
      using assms(2) small mint by (subst balances_Credit) (auto simp: funded_def wealth_def)
    then show ?thesis
      using assms(2) mint by (simp add: y supply_ok_def funded_def wealth_def)
  qed
qed

lemma ApplyBlock_Ok:
  assumes "ApplyBlock H V J b s = (s', Ok u)"
  obtains x y where "apply_payload H V J (Height (Hdr b)) 0 (payload_of b) (start s) = (x, Ok ())"
    "settle b x = (y, Ok ())" "s' = (cur y)\<lparr>StHeight := Height (Hdr b), lastLogs := blockLogs y\<rparr>"
proof -
  obtain x w where p: "apply_payload H V J (Height (Hdr b)) 0 (payload_of b) (start s) = (x, w)" by fastforce
  obtain y v where q: "settle b x = (y, v)" by fastforce
  from assms p q that show thesis
    by (cases w; cases v) (auto simp: ApplyBlock_def split: unit.splits)
qed

lemma supply_frame [simp]: "supply_ok (s\<lparr>StHeight := h, lastLogs := l\<rparr>) = supply_ok s"
  by (simp add: supply_ok_def maps_ok_def wealth_def balances_def bonds_def)

lemma ApplyBlock_supply:
  assumes "supply_ok s" "ApplyBlock H V J b s = (s', Ok u)"
  shows "supply_ok s'" 
proof -
  from assms(2) obtain x y where p: "apply_payload H V J (Height (Hdr b)) 0 (payload_of b) (start s) = (x, Ok ())"
    and q: "settle b x = (y, Ok ())" and s': "s' = (cur y)\<lparr>StHeight := Height (Hdr b), lastLogs := blockLogs y\<rparr>"
    by (rule ApplyBlock_Ok)
  have m: "Minted (cur x) = Minted s" using payload_Minted [OF p] by (simp add: start_def)
  have "funded (unat (Minted s)) 0 (start s)" using assms(1) by (simp add: funded_def start_def supply_ok_def)
  then have "funded (unat (Minted s)) 0 x"
    by (rule payload_funded [OF p]) (use unsigned_less [of "Minted s", where ?'a = nat] in simp)
  then have "supply_ok (cur y)"
    using settle_supply [OF q] m assms(1) by (simp add: supply_ok_def)
  then show ?thesis by (simp add: s')
qed

section \<open>Balances are a function of the account lookups\<close>

lemma map_sum_as_sum:
  "gomap m \<Longrightarrow> map_sum f m = (\<Sum>k\<in>fst ` set m. case map_of m k of Some v \<Rightarrow> f v | None \<Rightarrow> 0)"
proof (induction m)
  case (Cons p m)
  obtain k v where p: "p = (k, v)" by (cases p)
  from Cons.prems have g: "gomap m" and k: "k \<notin> fst ` set m" by (auto simp: gomap_def p)
  have "(\<Sum>j\<in>fst ` set m. case (if j = k then Some v else map_of m j) of Some v \<Rightarrow> f v | None \<Rightarrow> 0)
      = (\<Sum>j\<in>fst ` set m. case map_of m j of Some v \<Rightarrow> f v | None \<Rightarrow> 0)"
    using k by (intro sum.cong) auto
  then show ?case using Cons.IH [OF g] k by (simp add: p)
qed simp

lemma balances_cong:
  assumes "gomap (Accounts s)" "gomap (Accounts s')" "Get s = Get s'"
  shows "balances s = balances s'"
proof -
  let ?U = "fst ` set (Accounts s) \<union> fst ` set (Accounts s')"
  have *: "balances u = (\<Sum>a\<in>?U. unat (Balance (Get u a)))"
    if "gomap (Accounts u)" "fst ` set (Accounts u) \<subseteq> ?U" for u
  proof -
    have "balances u = (\<Sum>a\<in>fst ` set (Accounts u). unat (Balance (Get u a)))"
      unfolding balances_def map_sum_as_sum [OF that(1)]
      by (intro sum.cong) (auto simp: Get_def empty_account_def split: option.split)
    also have "\<dots> = (\<Sum>a\<in>?U. unat (Balance (Get u a)))"
      using that(2) by (intro sum.mono_neutral_left) (auto simp: Get_def empty_account_def split: option.split dest!: map_of_SomeD intro: rev_image_eqI)
    finally show ?thesis .
  qed
  show ?thesis using *[OF assms(1)] *[OF assms(2)] assms(3) by simp
qed

lemma gomap_restore: "gomap (Accounts s) \<Longrightarrow> gomap (Accounts (fold restore m s))"
  by (induction m arbitrary: s) (auto simp: restore_def split: option.split)

lemma ApplyBlock_Err_supply:
  assumes "supply_ok s" "ApplyBlock H V J b s = (s', Err e)"
  shows "supply_ok s'"
proof -
  note f = ApplyBlock_Err_frame [OF assms(2)]
  let ?x = "fst (apply_payload H V J (Height (Hdr b)) 0 (payload_of b) (start s))"
  have "gomap (Accounts (cur ?x))"
    using keeps_apply_payload [of "start s" H V J _ 0 "payload_of b"] assms(1)
    by (simp add: keeps_def start_def supply_ok_def maps_ok_def)
  then have g: "gomap (Accounts s')"
    using ApplyBlock_Err [OF assms(2)] gomap_restore by (simp add: rollback_def)
  have "balances s' = balances s"
    using g assms(1) f(1) by (intro balances_cong) (simp_all add: supply_ok_def maps_ok_def)
  moreover have "Minted s' = Minted s" using f(3) by (metis Minted_config)
  ultimately show ?thesis
    using assms(1) g f(2) by (simp add: supply_ok_def maps_ok_def wealth_def bonds_def)
qed

section \<open>Nonces\<close>

definition nonce_of :: "blk \<Rightarrow> address \<Rightarrow> u64" where
  "nonce_of x a = AcctNonce (Get (cur x) a)"

lemma nonce_simps [simp]:
  "nonce_of (snap a x) = nonce_of x" "nonce_of (on_state (acct a) x) = nonce_of x"
  "nonce_of (on_state (Credit a v) x) = nonce_of x" "nonce_of (on_state (debit a v) x) = nonce_of x"
  "nonce_of (on_state (\<lambda>s. s\<lparr>Validators := f s\<rparr>) x) = nonce_of x"
  "nonce_of (on_state (\<lambda>s. s\<lparr>FaucetClaims := g s\<rparr>) x) = nonce_of x"
  "nonce_of (on_state (\<lambda>s. s\<lparr>Minted := k s\<rparr>) x) = nonce_of x"
  "nonce_of (on_state (upd_acct b (\<lambda>c. c\<lparr>Code := cd, Balance := Balance c + w\<rparr>)) x) = nonce_of x"
  by (simp_all add: nonce_of_def fun_eq_iff Credit_def debit_def)

lemma stores_only_nonce: "stores_only x y \<Longrightarrow> nonce_of y = nonce_of x"
  by (simp add: stores_only_def core_def nonce_of_def fun_eq_iff)

lemma nonce_call: "nonce_of (fst (tx_call H i t x)) = nonce_of x"
proof -
  let ?x = "on_state (Credit (To t) (Amount t)) (snap (To t) x)"
  have "nonce_of y = nonce_of x" if "execContract H (To t) c (From t) d v g 0 i ?x = (y, r)" for c d v g y r
    using stores_only_nonce [OF execContract_stores_only [of ?x H "To t" c "From t" d v g 0 i]] that by simp
  then show ?thesis by (auto simp: tx_call_def Let_def split: option.split prod.split)
qed

lemma nonce_txs:
  "nonce_of (fst (applySlash H V J t x)) = nonce_of x" "nonce_of (fst (tx_deploy H t x)) = nonce_of x"
  "nonce_of (fst (tx_register H h t x)) = nonce_of x" "nonce_of (fst (tx_unregister t x)) = nonce_of x"
  "nonce_of (fst (tx_faucet H h t x)) = nonce_of x" "nonce_of (fst (tx_storage_proof H h t x)) = nonce_of x"
  "nonce_of (fst (tx_transfer t x)) = nonce_of x"
  by (auto simp: applySlash_def tx_deploy_def tx_register_def tx_unregister_def tx_faucet_def
      tx_storage_proof_def tx_transfer_def Let_def split: option.split)

lemma nonce_dispatch: "nonce_of (fst (dispatch H V J h i t x)) = nonce_of x"
  by (simp add: dispatch_def nonce_txs nonce_call)

lemma nonce_admit:
  assumes "admit H V t x = (y, Ok ())"
  shows "Nonce t = nonce_of x (From t)" "nonce_of y = (nonce_of x)(From t := Nonce t + 1)"
  using assms by (auto simp: admit_def nonce_of_def Let_def fun_eq_iff split: option.splits if_splits)

lemma nonce_settle: "nonce_of (fst (settle b x)) = nonce_of x"
  by (auto simp: settle_def Let_def split: option.split)

definition from_txs :: "address \<Rightarrow> Transaction list \<Rightarrow> Transaction list" where
  "from_txs a ts = filter (\<lambda>t. From t = a) ts"

lemma nonce_payload:
  "apply_payload H V J h i ts x = (y, Ok ()) \<Longrightarrow>
     nonce_of y a = nonce_of x a + of_nat (length (from_txs a ts)) \<and>
     map Nonce (from_txs a ts) = map (\<lambda>k. nonce_of x a + of_nat k) [0..<length (from_txs a ts)]"
proof (induction ts arbitrary: i x)
  case (Cons t ts)
  from Cons.prems obtain z w where z: "admit H V t x = (z, Ok ())" "dispatch H V J h i t z = (w, Ok ())"
    "apply_payload H V J h (i + 1) ts w = (y, Ok ())" by (auto simp: apply_tx_def)
  have w: "nonce_of w = (nonce_of x)(From t := Nonce t + 1)"
    using nonce_dispatch [of H V J h i t z] z(2) nonce_admit(2) [OF z(1)] by simp
  have up: "[0..<Suc n] = 0 # map Suc [0..<n]" for n by (simp add: upt_conv_Cons map_Suc_upt del: upt_Suc)
  show ?case
    using Cons.IH [OF z(3)] w nonce_admit(1) [OF z(1)]
    by (cases "From t = a") (auto simp: from_txs_def up algebra_simps comp_def simp del: upt_Suc)
qed (simp add: from_txs_def)

text \<open>Nonces after an accepted block.\<close>

lemma ApplyBlock_nonces:
  assumes "ApplyBlock H V J b s = (s', Ok u)"
  shows "AcctNonce (Get s' a) = AcctNonce (Get s a) + of_nat (length (from_txs a (payload_of b)))"
    and "map Nonce (from_txs a (payload_of b)) =
      map (\<lambda>k. AcctNonce (Get s a) + of_nat k) [0..<length (from_txs a (payload_of b))]"
proof -
  from assms obtain x y where p: "apply_payload H V J (Height (Hdr b)) 0 (payload_of b) (start s) = (x, Ok ())"
    and q: "settle b x = (y, Ok ())" and s': "s' = (cur y)\<lparr>StHeight := Height (Hdr b), lastLogs := blockLogs y\<rparr>"
    by (rule ApplyBlock_Ok)
  have "nonce_of y = nonce_of x" using nonce_settle [of b x] q by simp
  moreover have "Get s' = Get (cur y)" by (simp add: s' Get_def fun_eq_iff)
  ultimately show "AcctNonce (Get s' a) = AcctNonce (Get s a) + of_nat (length (from_txs a (payload_of b)))"
    and "map Nonce (from_txs a (payload_of b)) =
      map (\<lambda>k. AcctNonce (Get s a) + of_nat k) [0..<length (from_txs a (payload_of b))]"
    using nonce_payload [OF p, of a] by (simp_all add: nonce_of_def start_def fun_eq_iff)
qed

section \<open>Sequences of blocks\<close>

fun ApplyBlocks ::
    "(bytes \<Rightarrow> hash) \<Rightarrow> (bytes \<Rightarrow> bytes \<Rightarrow> bytes \<Rightarrow> bool) \<Rightarrow> (bytes \<Rightarrow> EquivocationEvidence option)
       \<Rightarrow> Block list \<Rightarrow> State \<Rightarrow> State option" where
  "ApplyBlocks H V J [] s = Some s"
| "ApplyBlocks H V J (b # bs) s =
     (case ApplyBlock H V J b s of (s', Ok ()) \<Rightarrow> ApplyBlocks H V J bs s' | _ \<Rightarrow> None)"

lemma ApplyBlocks_Cons:
  "ApplyBlocks H V J (b # bs) s = Some s' \<longleftrightarrow>
     (\<exists>s1. ApplyBlock H V J b s = (s1, Ok ()) \<and> ApplyBlocks H V J bs s1 = Some s')"
  by (auto split: prod.splits result.splits unit.splits)

declare ApplyBlocks.simps(2) [simp del]

text \<open>An invariant of accepted blocks is one of accepted chains.\<close>

lemma ApplyBlocks_invariant:
  assumes "ApplyBlocks H V J bs s = Some s'" "P s"
    and "\<And>b s s'. P s \<Longrightarrow> ApplyBlock H V J b s = (s', Ok ()) \<Longrightarrow> P s'"
  shows "P s'"
  using assms(1,2) by (induction bs arbitrary: s) (auto simp: ApplyBlocks_Cons intro: assms(3))

definition txs_from :: "address \<Rightarrow> Block list \<Rightarrow> nat" where
  "txs_from a bs = length (from_txs a (concat (map payload_of bs)))"

lemma txs_from_Cons: "txs_from a (b # bs) = length (from_txs a (payload_of b)) + txs_from a bs"
  by (simp add: txs_from_def from_txs_def)

lemma ApplyBlocks_nonce:
  "ApplyBlocks H V J bs s = Some s' \<Longrightarrow> AcctNonce (Get s' a) = AcctNonce (Get s a) + of_nat (txs_from a bs)"
proof (induction bs arbitrary: s)
  case (Cons b bs)
  then show ?case
    by (auto simp: ApplyBlocks_Cons txs_from_Cons dest: ApplyBlock_nonces(1) [where a = a] simp: algebra_simps)
qed (simp add: txs_from_def from_txs_def)

text \<open>The nonces an accepted block can carry for one sender, as numbers.\<close>

lemma accepted_nonce_range:
  assumes "ApplyBlock H V J b s = (s', Ok ())" "t \<in> set (payload_of b)"
    and "unat (AcctNonce (Get s (From t))) + length (from_txs (From t) (payload_of b)) < 2 ^ 64"
  shows "unat (AcctNonce (Get s (From t))) \<le> unat (Nonce t)" "unat (Nonce t) < unat (AcctNonce (Get s' (From t)))"
proof -
  let ?n = "AcctNonce (Get s (From t))" and ?l = "length (from_txs (From t) (payload_of b))"
  have "Nonce t \<in> set (map Nonce (from_txs (From t) (payload_of b)))"
    using assms(2) by (simp add: from_txs_def)
  then obtain k where k: "k < ?l" "Nonce t = ?n + of_nat k"
    unfolding ApplyBlock_nonces(2) [OF assms(1)] by auto
  have add: "unat (?n + of_nat j) = unat ?n + j" if "j \<le> ?l" for j
    using that assms(3) by (simp add: unat_add_no_wrap unat_of_nat_small)
  show "unat ?n \<le> unat (Nonce t)" "unat (Nonce t) < unat (AcctNonce (Get s' (From t)))"
    using k add [of k] add [of ?l] by (simp_all add: ApplyBlock_nonces(1) [OF assms(1)])
qed

lemma replay_rejected:
  assumes b: "ApplyBlock H V J b s = (s1, Ok ())" "t \<in> set (payload_of b)"
    and bs: "ApplyBlocks H V J bs s1 = Some s2"
    and bound: "unat (AcctNonce (Get s (From t))) + txs_from (From t) (b # bs @ [b']) < 2 ^ 64"
  shows "unat (Nonce t) < unat (AcctNonce (Get s2 (From t)))"
    and "t \<in> set (payload_of b') \<Longrightarrow> snd (ApplyBlock H V J b' s2) \<noteq> Ok ()"
proof -
  let ?a = "From t"
  let ?n = "AcctNonce (Get s ?a)"
  let ?k = "length (from_txs ?a (payload_of b))"
  have sum: "txs_from ?a (b # bs @ [b']) = ?k + txs_from ?a bs + length (from_txs ?a (payload_of b'))"
    by (simp add: txs_from_def from_txs_def)
  have n1: "unat (AcctNonce (Get s1 ?a)) = unat ?n + ?k"
    using ApplyBlock_nonces(1) [OF b(1), of ?a] bound sum by (simp add: unat_add_no_wrap unat_of_nat_small)
  have n2: "unat (AcctNonce (Get s2 ?a)) = unat ?n + ?k + txs_from ?a bs"
    using ApplyBlocks_nonce [OF bs, of ?a] bound sum n1 by (simp add: unat_add_no_wrap unat_of_nat_small)
  show lt: "unat (Nonce t) < unat (AcctNonce (Get s2 ?a))"
    using accepted_nonce_range(2) [OF b] bound sum n1 n2 by simp
  assume t: "t \<in> set (payload_of b')"
  show "snd (ApplyBlock H V J b' s2) \<noteq> Ok ()"
  proof
    assume "snd (ApplyBlock H V J b' s2) = Ok ()"
    then obtain s3 where "ApplyBlock H V J b' s2 = (s3, Ok ())" by (metis prod.collapse)
    from accepted_nonce_range(1) [OF this t] lt bound sum n2 show False by simp
  qed
qed

section \<open>The registry as a state machine\<close>

text \<open>
  What a transaction may do to the record of one validator, at block height \<open>h\<close> and score
  cap \<open>c\<close>.
\<close>

inductive vstep :: "u64 \<Rightarrow> u64 \<Rightarrow> ValidatorRec option \<Rightarrow> ValidatorRec option \<Rightarrow> bool" for h c where
  register: "v = None \<or> (\<exists>w. v = Some w \<and> \<not> Active w \<and> \<not> Slashed w) \<Longrightarrow> MinBond \<le> d \<Longrightarrow>
    vstep h c v (Some \<lparr>Bond = d, Active = True, Since = h, Slashed = False, StorageScore = 0, LastProofAt = 0\<rparr>)"
| unregister: "Active w \<Longrightarrow> vstep h c (Some w) None"
| slash: "Active w \<Longrightarrow> vstep h c (Some w)
    (Some \<lparr>Bond = 0, Active = False, Since = Since w, Slashed = True, StorageScore = 0, LastProofAt = 0\<rparr>)"
| prove: "Active w \<Longrightarrow> vstep h c (Some w) (Some (proved c h w))"

inductive_cases vstep_SomeE: "vstep h c (Some w) v"

definition val_at :: "blk \<Rightarrow> address \<Rightarrow> ValidatorRec option" where
  "val_at x a = map_of (Validators (cur x)) a"

lemma vstep_refl: "(vstep h c)\<^sup>=\<^sup>= v v"
  by simp

lemma vstep_dispatch:
  assumes "dispatch H V J h i t x = (y, Ok ())"
  shows "(vstep h (StorageCap (cur x)))\<^sup>=\<^sup>= (val_at x a) (val_at y a)"
proof -
  have call: "val_at y = val_at x" if "tx_call H i t x = (y, Ok ())"
    using that by (auto simp: tx_call_def Let_def val_at_def fun_eq_iff split: if_splits option.splits prod.splits
        dest!: execContract_frame(2))
  have others: "val_at y = val_at x" if "tx_deploy H t x = (y, Ok ()) \<or> tx_faucet H h t x = (y, Ok ()) \<or> tx_transfer t x = (y, Ok ())"
    using that by (auto simp: tx_deploy_def tx_faucet_def tx_transfer_def Let_def val_at_def fun_eq_iff
        split: if_splits option.splits)
  have reg: "(vstep h c)\<^sup>=\<^sup>= (val_at x a) (val_at y a)" if "tx_register H h t x = (y, Ok ())" for c
    using that by (auto simp: tx_register_def Let_def val_at_def not_less split: if_splits option.splits
        intro!: vstep.register)
  have unreg: "(vstep h c)\<^sup>=\<^sup>= (val_at x a) (val_at y a)" if "tx_unregister t x = (y, Ok ())" for c
    using that by (auto simp: tx_unregister_def Let_def val_at_def split: if_splits option.splits intro!: vstep.unregister)
  have sl: "(vstep h c)\<^sup>=\<^sup>= (val_at x a) (val_at y a)" if "applySlash H V J t x = (y, Ok ())" for c
    using that by (auto simp: applySlash_def Let_def val_at_def split: if_splits option.splits intro!: vstep.slash)
  have pr: "(vstep h (StorageCap (cur x)))\<^sup>=\<^sup>= (val_at x a) (val_at y a)" if "tx_storage_proof H h t x = (y, Ok ())"
    using that by (auto simp: tx_storage_proof_def Let_def val_at_def split: if_splits option.splits prod.splits intro!: vstep.prove)
  show ?thesis
    using assms call others reg unreg sl pr unfolding dispatch_def by (auto split: if_splits)
qed

lemma StorageCap_config: "StorageCap (config s) = StorageCap s"
  by (simp add: config_def)

lemma vsteps_payload:
  "apply_payload H V J h i ts x = (y, Ok ()) \<Longrightarrow> (vstep h (StorageCap (cur x)))\<^sup>*\<^sup>* (val_at x a) (val_at y a)"
proof (induction ts arbitrary: i x)
  case (Cons t ts)
  from Cons.prems obtain z w where z: "admit H V t x = (z, Ok ())" "dispatch H V J h i t z = (w, Ok ())"
    "apply_payload H V J h (i + 1) ts w = (y, Ok ())" by (auto simp: apply_tx_def)
  have zx: "val_at z = val_at x" "StorageCap (cur z) = StorageCap (cur x)"
    using admit_frame(1,3) [of H V t x] z(1) by (auto simp: val_at_def fun_eq_iff) (metis StorageCap_config)
  have wz: "StorageCap (cur w) = StorageCap (cur z)"
    using config_dispatch(1) [of H V J h i t z] z(2) by (metis StorageCap_config fst_conv)
  have "(vstep h (StorageCap (cur x)))\<^sup>*\<^sup>* (val_at x a) (val_at w a)"
    using vstep_dispatch [OF z(2), of a] zx by auto
  with Cons.IH [OF z(3)] wz zx(2) show ?case by (simp add: rtranclp_trans)
qed simp

lemma Validators_settle: "Validators (cur (fst (settle b x))) = Validators (cur x)"
  by (auto simp: settle_def Let_def split: option.split)

lemma vsteps_ApplyBlock:
  assumes "ApplyBlock H V J b s = (s', Ok u)"
  shows "(vstep (Height (Hdr b)) (StorageCap s))\<^sup>*\<^sup>* (map_of (Validators s) a) (map_of (Validators s') a)"
proof -
  from assms obtain x y where p: "apply_payload H V J (Height (Hdr b)) 0 (payload_of b) (start s) = (x, Ok ())"
    and q: "settle b x = (y, Ok ())" and s': "s' = (cur y)\<lparr>StHeight := Height (Hdr b), lastLogs := blockLogs y\<rparr>"
    by (rule ApplyBlock_Ok)
  show ?thesis
    using vsteps_payload [OF p, of a] Validators_settle [of b x] q by (simp add: s' val_at_def start_def)
qed

text \<open>Invariants of the machine, by rule induction.\<close>

definition val_wf :: "u64 \<Rightarrow> ValidatorRec option \<Rightarrow> bool" where
  "val_wf c v \<longleftrightarrow> (case v of None \<Rightarrow> True | Some w \<Rightarrow> (Slashed w \<longrightarrow> \<not> Active w \<and> Bond w = 0) \<and> StorageScore w \<le> c)"

definition is_slashed :: "ValidatorRec option \<Rightarrow> bool" where
  "is_slashed v \<longleftrightarrow> (case v of None \<Rightarrow> False | Some w \<Rightarrow> Slashed w)"

lemma proved_score: "StorageScore v \<le> c \<Longrightarrow> StorageScore (proved c h v) \<le> c"
  by (auto simp: proved_def inc_le)

lemma vstep_wf: "vstep h c v v' \<Longrightarrow> val_wf c v \<Longrightarrow> val_wf c v' \<and> (is_slashed v \<longrightarrow> v' = v)"
  by (induction rule: vstep.induct) (auto simp: val_wf_def is_slashed_def proved_score, auto simp: proved_def)

lemma vsteps_wf: "(vstep h c)\<^sup>*\<^sup>* v v' \<Longrightarrow> val_wf c v \<Longrightarrow> val_wf c v' \<and> (is_slashed v \<longrightarrow> v' = v)"
  by (induction rule: rtranclp_induct) (auto dest: vstep_wf)

lemma StorageCap_settle: "StorageCap (cur (fst (settle b x))) = StorageCap (cur x)"
  by (auto simp: settle_def Let_def Credit_def upd_acct_def split: option.split)

lemma StorageCap_ApplyBlock: "ApplyBlock H V J b s = (s', Ok u) \<Longrightarrow> StorageCap s' = StorageCap s"
proof (erule ApplyBlock_Ok)
  fix x y
  assume p: "apply_payload H V J (Height (Hdr b)) 0 (payload_of b) (start s) = (x, Ok ())"
    and q: "settle b x = (y, Ok ())" and s': "s' = (cur y)\<lparr>StHeight := Height (Hdr b), lastLogs := blockLogs y\<rparr>"
  have "StorageCap (cur x) = StorageCap s"
    using config_apply_payload [of H V J "Height (Hdr b)" 0 "payload_of b" "start s"] p
    by (metis StorageCap_config fst_conv blk.select_convs(1) start_def)
  with StorageCap_settle [of b x] q show "StorageCap s' = StorageCap s" by (simp add: s')
qed

definition registry_ok :: "State \<Rightarrow> bool" where
  "registry_ok s \<longleftrightarrow> (\<forall>a. val_wf (StorageCap s) (map_of (Validators s) a))"

lemma registry_step:
  assumes "registry_ok s" "ApplyBlock H V J b s = (s', Ok u)"
  shows "registry_ok s'" "is_slashed (map_of (Validators s) a) \<Longrightarrow> map_of (Validators s') a = map_of (Validators s) a"
  using vsteps_wf [OF vsteps_ApplyBlock [OF assms(2)]] assms(1) StorageCap_ApplyBlock [OF assms(2)]
  by (auto simp: registry_ok_def)

lemma registry_chain:
  assumes "ApplyBlocks H V J bs s = Some s'" "registry_ok s" "map_of (Validators s) a = Some v" "Slashed v"
  shows "registry_ok s'" "map_of (Validators s') a = Some v"
proof -
  have "registry_ok s' \<and> map_of (Validators s') a = Some v"
    by (rule ApplyBlocks_invariant [OF assms(1)])
      (use assms registry_step(2) [of _ H V J _ _ "()" a] in \<open>auto simp: is_slashed_def dest: registry_step(1)\<close>)
  then show "registry_ok s'" "map_of (Validators s') a = Some v" by auto
qed

section \<open>Admission\<close>

lemma admit_iff_CheckTx:
  "snd (admit H V t (start s)) = Ok () \<longleftrightarrow> CheckTx H V s t = None"
  by (auto simp: admit_def CheckTx_def start_def Let_def split: option.split)

section \<open>Failed calls\<close>

text \<open>
  A call whose contract run fails: what the transaction as a whole changes.
\<close>

lemma failed_call:
  assumes adm: "admit H V t x = (y, Ok ())"
    and run: "execContract H (To t) (AddrDigest H (From t)) (From t) (Data t) (Amount t) (Gas t) 0 i
        (on_state (Credit (To t) (Amount t)) (snap (To t) y)) = (w, Some (r, u, False))"
    and code: "Code (Get (cur x) (To t)) \<noteq> []" and kind: "Kind t = KindCall"
  shows "\<exists>z. apply_tx H V J h i t x = (z, Ok ()) \<and>
    (\<forall>a. unat (Balance (Get (cur z) a)) = unat (Balance (Get (cur x) a)) - (if a = From t then unat (Fee t) else 0))"
proof -
  let ?y = "on_state (Credit (To t) (Amount t)) (snap (To t) y)"
  let ?z = "on_state (Credit (From t) (Amount t)) (on_state (debit (To t) (Amount t)) w)"
  from adm have cy: "cur y = upd_acct (From t)
        (\<lambda>ac. ac\<lparr>Balance := Balance ac - (Amount t + Fee t), AcctNonce := AcctNonce ac + 1\<rparr>) (acct (From t) (cur x))"
    and c: "\<not> Amount t + Fee t < Amount t" "\<not> Balance (Get (cur x) (From t)) < Amount t + Fee t"
    by (auto simp: admit_def Let_def split: option.splits if_splits)
  have core: "Balance (Get (cur w) a) = Balance (Get (cur ?y) a)" for a
    using execContract_stores_only [of ?y H "To t" "AddrDigest H (From t)" "From t" "Data t" "Amount t" "Gas t" 0 i] run
    by (simp add: stores_only_def core_def)
  have "apply_tx H V J h i t x = (?z, Ok ())"
    using adm run code kind by (auto simp: apply_tx_def dispatch_def tx_call_def Let_def Kind_defs cy Credit_def)
  moreover have "Balance (Get (cur ?z) a) = Balance (Get (cur x) a) - (if a = From t then Fee t else 0)" for a
    using core [of a] by (auto simp: Credit_def debit_def cy)
  moreover have "unat (Amount t + Fee t) = unat (Amount t) + unat (Fee t)"
    using c(1) by (intro unat_add_no_wrap) (simp add: add_less_iff_wrap not_le)
  then have "Fee t \<le> Balance (Get (cur x) (From t))"
    using c(2) by (simp add: word_le_nat_alt word_less_nat_alt not_less)
  ultimately show ?thesis by (auto simp: unat_sub_no_wrap)
qed

section \<open>The faucet\<close>

lemma faucet_Ok:
  assumes "tx_faucet H h t x = (y, Ok ())"
  obtains anchorAt anchor where "AnchorBodyHash (cur x) = Some anchorAt" "anchorAt (be_get (take 8 (Data t))) = Some anchor"
    "FaucetVerify H (StChainID (cur x)) (From t) anchor (be_get (take 8 (drop 8 (Data t)))) (FaucetBits (cur x))"
    "\<And>l. map_of (FaucetClaims (cur x)) (From t) = Some l \<Longrightarrow> l + FaucetCooldown (cur x) \<le> h"
    "FaucetAmount (cur x) \<le> Balance (Get (cur x) (FaucetSource (cur x)))"
    "FaucetClaims (cur y) = AList.update (From t) h (FaucetClaims (cur x))"
    "\<And>a. Balance (Get (cur y) a) = Balance (Get (cur x) a)
       - (if a = FaucetSource (cur x) then FaucetAmount (cur x) else 0) + (if a = From t then FaucetAmount (cur x) else 0)"
proof -
  let ?src = "FaucetSource (cur x)" and ?v = "FaucetAmount (cur x)"
  from assms obtain anchorAt anchor where a: "AnchorBodyHash (cur x) = Some anchorAt"
      "anchorAt (be_get (take 8 (Data t))) = Some anchor"
      "FaucetVerify H (StChainID (cur x)) (From t) anchor (be_get (take 8 (drop 8 (Data t)))) (FaucetBits (cur x))"
      "\<not> Balance (Get (cur x) ?src) < ?v"
    and cd: "\<And>l. map_of (FaucetClaims (cur x)) (From t) = Some l \<Longrightarrow> \<not> h < l + FaucetCooldown (cur x)"
    and y: "y = on_state (\<lambda>s. s\<lparr>FaucetClaims := AList.update (From t) h (FaucetClaims s)\<rparr>)
      (on_state (Credit (From t) ?v) (on_state (debit ?src ?v) (snap ?src (on_state (acct ?src) x))))"
    by (auto simp: tx_faucet_def Let_def split: option.splits if_splits)
  show thesis
    by (rule that [OF a(1-3)]) (use a(4) cd in \<open>auto simp: y Credit_def debit_def not_less\<close>)
qed

definition is_claim :: "address \<Rightarrow> Transaction \<Rightarrow> bool" where
  "is_claim a t \<longleftrightarrow> From t = a \<and> Kind t = KindFaucet"

lemma claim_dispatch:
  assumes "dispatch H V J h i t x = (y, Ok ())"
  shows "map_of (FaucetClaims (cur y)) a = (if is_claim a t then Some h else map_of (FaucetClaims (cur x)) a)"
    and "is_claim a t \<Longrightarrow> map_of (FaucetClaims (cur x)) a = Some l \<Longrightarrow> l + FaucetCooldown (cur x) \<le> h"
proof -
  have f: "tx_faucet H h t x = (y, Ok ())" if "Kind t = KindFaucet"
    using assms that by (simp add: dispatch_def Kind_defs)
  show "map_of (FaucetClaims (cur y)) a = (if is_claim a t then Some h else map_of (FaucetClaims (cur x)) a)"
  proof (cases "Kind t = KindFaucet")
    case True
    show ?thesis by (rule faucet_Ok [OF f [OF True]]) (simp add: is_claim_def True)
  next
    case False
    with claims_dispatch [of t H V J h i x] assms show ?thesis by (simp add: is_claim_def)
  qed
  show "l + FaucetCooldown (cur x) \<le> h" if "is_claim a t" "map_of (FaucetClaims (cur x)) a = Some l"
    using that f by (auto simp: is_claim_def elim: faucet_Ok)
qed

lemma FaucetCooldown_config: "FaucetCooldown (config s) = FaucetCooldown s"
  by (simp add: config_def)

lemma claims_payload:
  assumes "h < h + c"
  shows "apply_payload H V J h i ts x = (y, Ok ()) \<Longrightarrow> FaucetCooldown (cur x) = c \<Longrightarrow>
     length (filter (is_claim a) ts) \<le> (if map_of (FaucetClaims (cur x)) a = Some h then 0 else 1) \<and>
     (filter (is_claim a) ts \<noteq> [] \<longrightarrow> map_of (FaucetClaims (cur y)) a = Some h \<and>
        (\<forall>l. map_of (FaucetClaims (cur x)) a = Some l \<longrightarrow> l + c \<le> h)) \<and>
     (filter (is_claim a) ts = [] \<longrightarrow> map_of (FaucetClaims (cur y)) a = map_of (FaucetClaims (cur x)) a)"
proof (induction ts arbitrary: i x)
  case (Cons t ts)
  from Cons.prems(1) obtain z w where z: "admit H V t x = (z, Ok ())" "dispatch H V J h i t z = (w, Ok ())"
    "apply_payload H V J h (i + 1) ts w = (y, Ok ())" by (auto simp: apply_tx_def)
  have zx: "FaucetClaims (cur z) = FaucetClaims (cur x)" "FaucetCooldown (cur z) = c"
    using admit_frame(1,2) [of H V t x] z(1) Cons.prems(2) by auto (metis FaucetCooldown_config)
  have wz: "FaucetCooldown (cur w) = c"
    using config_dispatch(1) [of H V J h i t z] z(2) zx(2) by (metis FaucetCooldown_config fst_conv)
  note d = claim_dispatch [OF z(2), of a]
  note IH = Cons.IH [OF z(3) wz]
  show ?case
  proof (cases "is_claim a t")
    case True
    with d have w: "map_of (FaucetClaims (cur w)) a = Some h" by simp
    have "map_of (FaucetClaims (cur x)) a \<noteq> Some h"
      using d(2) [OF True, of h] zx assms by auto
    with IH w True d(2) [OF True] zx show ?thesis by auto
  next
    case False
    with d(1) zx IH show ?thesis by (auto split: if_splits)
  qed
qed simp

lemma claims_settle: "FaucetClaims (cur (fst (settle b x))) = FaucetClaims (cur x)"
  by (auto simp: settle_def Let_def split: option.split)

lemma payload_append:
  "apply_payload H V J h i (ts @ us) x =
     and_then (apply_payload H V J h i ts x) (apply_payload H V J h (i + int (length ts)) us)"
proof (induction ts arbitrary: i x)
  case (Cons t ts)
  obtain y w where "apply_tx H V J h i t x = (y, w)" by fastforce
  then show ?case by (cases w) (simp_all add: Cons add.assoc add.commute add.left_commute)
qed simp

text \<open>Whatever the outcome, a transaction at height \<open>h\<close> leaves the record of an address or sets it to \<open>h\<close>.\<close>

lemma claim_dispatch_any:
  "map_of (FaucetClaims (cur (fst (dispatch H V J h i t x)))) a \<in> {map_of (FaucetClaims (cur x)) a, Some h}"
proof (cases "Kind t = KindFaucet")
  case True
  then have "dispatch H V J h i t x = tx_faucet H h t x" by (simp add: dispatch_def Kind_defs)
  then show ?thesis by (auto simp: tx_faucet_def Let_def split: option.split)
qed (simp add: claims_dispatch)

lemma claim_payload_any:
  "map_of (FaucetClaims (cur (fst (apply_payload H V J h i ts x)))) a \<in> {map_of (FaucetClaims (cur x)) a, Some h}"
proof (induction ts arbitrary: i x)
  case (Cons t ts)
  obtain y w where y: "admit H V t x = (y, w)" by fastforce
  have yx: "FaucetClaims (cur y) = FaucetClaims (cur x)" using admit_frame(2) [of H V t x] y by simp
  obtain z v where z: "dispatch H V J h i t y = (z, v)" by fastforce
  show ?case
    using claim_dispatch_any [of H V J h i t y a] Cons [of "i + 1" z] y yx z
    by (cases w; cases v) (auto simp: apply_tx_def)
qed simp

lemma claim_recorded:
  assumes "apply_payload H V J h i ts x = (y, Ok ())" "t \<in> set ts" "is_claim a t"
  shows "map_of (FaucetClaims (cur y)) a = Some h"
  using assms
proof (induction ts arbitrary: i x)
  case (Cons u ts)
  from Cons.prems(1) obtain z w where z: "dispatch H V J h i u z = (w, Ok ())" "apply_payload H V J h (i + 1) ts w = (y, Ok ())"
    by (auto simp: apply_tx_def)
  show ?case
  proof (cases "t \<in> set ts")
    case True
    then show ?thesis using Cons.IH [OF z(2)] Cons.prems(3) by blast
  next
    case False
    with Cons.prems claim_dispatch(1) [OF z(1), of a] have "map_of (FaucetClaims (cur w)) a = Some h" by simp
    then show ?thesis using claim_payload_any [of H V J h "i + 1" ts w a] z(2) by simp
  qed
qed simp

text \<open>An address whose cooldown has not passed claims nothing, in a block and in a chain of blocks.\<close>

lemma locked_payload:
  assumes "apply_payload H V J h i ts x = (y, Ok ())" "map_of (FaucetClaims (cur x)) a = Some l" "h < l + FaucetCooldown (cur x)"
  shows "filter (is_claim a) ts = [] \<and> map_of (FaucetClaims (cur y)) a = Some l"
  using assms
proof (induction ts arbitrary: i x)
  case (Cons t ts)
  from Cons.prems(1) obtain z w where z: "admit H V t x = (z, Ok ())" "dispatch H V J h i t z = (w, Ok ())"
    "apply_payload H V J h (i + 1) ts w = (y, Ok ())" by (auto simp: apply_tx_def)
  have zx: "FaucetClaims (cur z) = FaucetClaims (cur x)" "FaucetCooldown (cur z) = FaucetCooldown (cur x)"
    using admit_frame(1,2) [of H V t x] z(1) by auto (metis FaucetCooldown_config)
  have wz: "FaucetCooldown (cur w) = FaucetCooldown (cur x)"
    using config_dispatch(1) [of H V J h i t z] z(2) zx(2) by (metis FaucetCooldown_config fst_conv)
  note d = claim_dispatch [OF z(2), of a]
  have nc: "\<not> is_claim a t" using d(2) [of l] zx Cons.prems(2,3) by (auto simp: not_less [symmetric])
  with d(1) zx Cons.prems(2) have "map_of (FaucetClaims (cur w)) a = Some l" by simp
  from Cons.IH [OF z(3) this] Cons.prems(3) wz nc show ?case by simp
qed simp

lemma FaucetCooldown_ApplyBlock: "ApplyBlock H V J b s = (s', Ok ()) \<Longrightarrow> FaucetCooldown s' = FaucetCooldown s"
proof (erule ApplyBlock_Ok)
  fix x y assume p: "apply_payload H V J (Height (Hdr b)) 0 (payload_of b) (start s) = (x, Ok ())"
    and q: "settle b x = (y, Ok ())" and s': "s' = (cur y)\<lparr>StHeight := Height (Hdr b), lastLogs := blockLogs y\<rparr>"
  have "FaucetCooldown (cur x) = FaucetCooldown s"
    using config_apply_payload [of H V J "Height (Hdr b)" 0 "payload_of b" "start s"] p
    by (metis FaucetCooldown_config fst_conv start_def blk.select_convs(1))
  with q show ?thesis by (auto simp: s' settle_def Credit_def upd_acct_def Let_def split: option.splits if_splits)
qed

lemma locked_block:
  assumes "ApplyBlock H V J b s = (s', Ok ())" "map_of (FaucetClaims s) a = Some l" "Height (Hdr b) < l + FaucetCooldown s"
  shows "filter (is_claim a) (payload_of b) = [] \<and> map_of (FaucetClaims s') a = Some l"
proof -
  from assms(1) obtain x y where p: "apply_payload H V J (Height (Hdr b)) 0 (payload_of b) (start s) = (x, Ok ())"
    and q: "settle b x = (y, Ok ())" and s': "s' = (cur y)\<lparr>StHeight := Height (Hdr b), lastLogs := blockLogs y\<rparr>"
    by (rule ApplyBlock_Ok)
  then show ?thesis
    using locked_payload [OF p, of a l] claims_settle [of b x] q assms(2,3) by (simp add: s' start_def)
qed

lemma locked_chain:
  assumes "ApplyBlocks H V J bs s = Some s'" "map_of (FaucetClaims s) a = Some l" "\<forall>b\<in>set bs. Height (Hdr b) < l + FaucetCooldown s"
  shows "\<forall>b\<in>set bs. filter (is_claim a) (payload_of b) = []"
  using assms
proof (induction bs arbitrary: s)
  case (Cons b bs)
  from Cons.prems(1) obtain s1 where s1: "ApplyBlock H V J b s = (s1, Ok ())" "ApplyBlocks H V J bs s1 = Some s'"
    unfolding ApplyBlocks_Cons by blast
  from locked_block [OF s1(1) Cons.prems(2)] Cons.prems(3) Cons.IH [OF s1(2)] FaucetCooldown_ApplyBlock [OF s1(1)] show ?case by simp
qed simp

lemma ApplyBlock_Err_claims:
  assumes "ApplyBlock H V J b s = (s', Err e)"
  shows "FaucetClaims s' = FaucetClaims (cur (fst (apply_payload H V J (Height (Hdr b)) 0 (payload_of b) (start s))))"
proof -
  let ?x = "fst (apply_payload H V J (Height (Hdr b)) 0 (payload_of b) (start s))"
  have sel: "FaucetClaims u = FaucetClaims (rest_of u)" for u by (simp add: rest_of_def)
  have "rest_of s' = (rest_of (cur ?x))\<lparr>Validators := Validators s\<rparr>"
    using ApplyBlock_Err [OF assms] rollback_rest by simp
  then show ?thesis by (subst sel, simp) (simp add: sel [of "cur ?x"])
qed

section \<open>A call that panics\<close>

lemma crash_call:
  assumes "Code (Get (cur y) (To t)) = 0x01 # put_u64 dest @ 0x40 # rest" "2 ^ 63 \<le> unat dest" "4 \<le> Gas t"
  obtains z where "tx_call H i t y = (z, Panic)" "Get (cur z) = Get (Credit (To t) (Amount t) (cur y))"
proof -
  let ?x1 = "on_state (Credit (To t) (Amount t)) (snap (To t) y)"
  let ?x2 = "snap (To t) (on_state (acct (To t)) ?x1)"
  have code: "Code (Get (cur ?x1) (To t)) = 0x01 # put_u64 dest @ 0x40 # rest" "Code (Get (cur ?x2) (To t)) = 0x01 # put_u64 dest @ 0x40 # rest"
    using assms(1) by (simp_all add: Credit_def)
  have "execContract H (To t) (AddrDigest H (From t)) (From t) (Data t) (Amount t) (Gas t) 0 i ?x1 = (?x2, None)"
    by (subst execContract_unfold) (simp only: exec_body_def Let_def code(2) jump_panics [OF assms(2,3)] prod.case result.case)
  then have "tx_call H i t y = (?x2, Panic)" using code(1) by (simp add: tx_call_def Let_def)
  then show thesis by (rule that) (simp add: fun_eq_iff)
qed

section \<open>Properties\<close>

abbreviation sig_ok :: "bytes \<Rightarrow> bytes \<Rightarrow> bytes \<Rightarrow> bool" where
  "sig_ok \<equiv> \<lambda>_ _ _. True"

abbreviation no_json :: "bytes \<Rightarrow> EquivocationEvidence option" where
  "no_json \<equiv> \<lambda>_. None"

definition good_block :: Block where
  "good_block = block_of 1 [pay KindTransfer 5 0 [], pay KindTransfer 6 1 []]"

definition ledger1 :: State where
  "ledger1 = fst (ApplyBlock pad32 sig_ok no_json good_block ledger0)"

lemma good_block_run: "ApplyBlock pad32 sig_ok no_json good_block ledger0 = (ledger1, Ok ())"
proof -
  have "snd (ApplyBlock pad32 sig_ok no_json good_block ledger0) = Ok ()" by code_simp
  then show ?thesis by (metis ledger1_def prod.collapse)
qed

text \<open>
  C1. No money out of nothing: if all balances and bonds together are within the minted supply
  and the supply within the 21M cap, the same holds after any block, accepted or rejected
  (only a panic inside the VM can break off half-way); an accepted block raises the supply
  exactly by the scheduled subsidy, and only when it carries a coinbase.  The sums are over
  natural numbers, so no balance ever wraps.
\<close>

theorem supply_conserved:
  assumes "supply_ok s" "ApplyBlock H V J b s = (s', r)" "r \<noteq> Panic"
  shows "supply_ok s' \<and>
    unat (Minted s') = unat (Minted s) +
      (if r = Ok () \<and> coinbase_of b \<noteq> None then unat (BlockReward (Height (Hdr b)) (Minted s)) else 0)"
proof (cases r)
  case (Ok u)
  with assms(2) have a: "ApplyBlock H V J b s = (s', Ok u)" by simp
  then obtain x y where p: "apply_payload H V J (Height (Hdr b)) 0 (payload_of b) (start s) = (x, Ok ())"
    and q: "settle b x = (y, Ok ())" and s': "s' = (cur y)\<lparr>StHeight := Height (Hdr b), lastLogs := blockLogs y\<rparr>"
    by (rule ApplyBlock_Ok)
  have m: "Minted (cur x) = Minted s" using payload_Minted [OF p] by (simp add: start_def)
  have "Minted s' = (if coinbase_of b \<noteq> None then Minted s + BlockReward (Height (Hdr b)) (Minted s) else Minted s)"
    using q m by (auto simp: s' settle_def Let_def split: option.splits if_splits)
  then show ?thesis
    using ApplyBlock_supply [OF assms(1) a] mint_within_cap(1) [of "Minted s" "Height (Hdr b)"] assms(1) Ok
    by (simp add: supply_ok_def)
next
  case (Err e)
  with assms(2) have a: "ApplyBlock H V J b s = (s', Err e)" by simp
  have "Minted s' = Minted s" using ApplyBlock_Err_frame(3) [OF a] by (metis Minted_config)
  with ApplyBlock_Err_supply [OF assms(1) a] Err show ?thesis by simp
qed (use assms(3) in simp)

theorem supply_conserved_witness:
  "supply_ok ledger0 \<and> ApplyBlock pad32 sig_ok no_json good_block ledger0 = (ledger1, Ok ()) \<and> supply_ok ledger1"
proof -
  have s: "supply_ok ledger0" by code_simp
  show ?thesis using s good_block_run supply_conserved [OF s good_block_run] by simp
qed

text \<open>
  Nonces: in an accepted block the transactions of each sender carry consecutive nonces,
  starting at the nonce of its account, and afterwards the account nonce has advanced by
  their number.
\<close>

theorem nonce_sequence:
  assumes "ApplyBlock H V J b s = (s', Ok ())"
  shows "map Nonce (filter (\<lambda>t. From t = a) (payload_of b)) =
      map (\<lambda>k. AcctNonce (Get s a) + of_nat k) [0..<length (filter (\<lambda>t. From t = a) (payload_of b))] \<and>
    AcctNonce (Get s' a) = AcctNonce (Get s a) + of_nat (length (filter (\<lambda>t. From t = a) (payload_of b)))"
  using ApplyBlock_nonces [OF assms, of a] by (simp add: from_txs_def)

theorem nonce_sequence_witness:
  "ApplyBlock pad32 sig_ok no_json good_block ledger0 = (ledger1, Ok ()) \<and>
   map Nonce (filter (\<lambda>t. From t = alice) (payload_of good_block)) =
      map (\<lambda>k. AcctNonce (Get ledger0 alice) + of_nat k) [0..<length (filter (\<lambda>t. From t = alice) (payload_of good_block))]"
  using good_block_run nonce_sequence [OF good_block_run, of alice] by simp

text \<open>
  C5. No replay: once a transaction was part of an accepted block, then after any further
  accepted blocks the mempool check rejects it and so does every block that carries it
  again, as long as its sender's nonce has not run through all \<open>2^64\<close> values.
\<close>

theorem no_replay:
  assumes "ApplyBlock H V J b s = (s1, Ok ())" "t \<in> set (payload_of b)" "ApplyBlocks H V J bs s1 = Some s2"
    and "unat (AcctNonce (Get s (From t))) + txs_from (From t) (b # bs @ [b']) < 2 ^ 64"
  shows "CheckTx H V s2 t \<noteq> None \<and> (t \<in> set (payload_of b') \<longrightarrow> snd (ApplyBlock H V J b' s2) \<noteq> Ok ())"
proof -
  note r = replay_rejected [OF assms]
  have "Nonce t \<noteq> AcctNonce (Get s2 (From t))" using r(1) by auto
  with r(2) show ?thesis by (auto simp: CheckTx_def Let_def split: option.split)
qed

theorem no_replay_witness:
  "CheckTx pad32 sig_ok ledger1 (pay KindTransfer 5 0 []) \<noteq> None \<and>
   snd (ApplyBlock pad32 sig_ok no_json good_block ledger1) \<noteq> Ok ()"
proof -
  have t: "pay KindTransfer 5 0 [] \<in> set (payload_of good_block)" by code_simp
  have "AcctNonce (Get ledger0 (From (pay KindTransfer 5 0 []))) = 0"
    "txs_from (From (pay KindTransfer 5 0 [])) (good_block # [] @ [good_block]) = 4" by code_simp+
  then have n: "unat (AcctNonce (Get ledger0 (From (pay KindTransfer 5 0 []))))
      + txs_from (From (pay KindTransfer 5 0 [])) (good_block # [] @ [good_block]) < 2 ^ 64" by simp
  have e: "ApplyBlocks pad32 sig_ok no_json [] ledger1 = Some ledger1" by simp
  show ?thesis using no_replay [OF good_block_run t e n] t by simp
qed

text \<open>
  C10. The validator registry refines a state machine: whatever a block does, every record goes
  only through the steps register (with at least the minimum bond, never from an active or
  slashed record), unregister, slash and prove, and through none when the block is rejected.
\<close>

theorem registry_refines:
  assumes "ApplyBlock H V J b s = (s', r)" "r \<noteq> Panic"
  shows "(vstep (Height (Hdr b)) (StorageCap s))\<^sup>*\<^sup>* (map_of (Validators s) a) (map_of (Validators s') a) \<and>
    (r \<noteq> Ok () \<longrightarrow> Validators s' = Validators s)"
  using assms vsteps_ApplyBlock [of H V J b s s'] ApplyBlock_Err_frame(2) [of H V J b s s'] by (cases r) auto

definition bonded :: ValidatorRec where
  "bonded = \<lparr>Bond = 50, Active = True, Since = 0, Slashed = False, StorageScore = 0, LastProofAt = 0\<rparr>"

definition bonded_ledger :: State where
  "bonded_ledger = ledger0\<lparr>Validators := [(alice, bonded)]\<rparr>"

definition leave_block :: Block where
  "leave_block = block_of 1 [pay KindUnregister 0 0 []]"

theorem registry_refines_witness:
  "\<exists>s'. ApplyBlock pad32 sig_ok no_json leave_block bonded_ledger = (s', Ok ()) \<and> map_of (Validators s') alice = None \<and>
     (vstep 1 0)\<^sup>*\<^sup>* (Some bonded) None"
proof -
  let ?r = "ApplyBlock pad32 sig_ok no_json leave_block bonded_ledger"
  have "snd ?r = Ok ()" by code_simp
  then have r: "?r = (fst ?r, Ok ())" by (metis prod.collapse)
  have v: "Height (Hdr leave_block) = 1" "StorageCap bonded_ledger = 0" "map_of (Validators bonded_ledger) alice = Some bonded"
    "map_of (Validators (fst ?r)) alice = None" by code_simp+
  from registry_refines [OF r, of alice] have "(vstep 1 0)\<^sup>*\<^sup>* (Some bonded) None" unfolding v by simp
  with r v(4) show ?thesis by blast
qed

text \<open>
  C16. Slashing is for good: in a registry where slashed records are inactive and carry no bond
  and no score passes the cap, a slashed record is the same after any sequence of accepted
  blocks, and the registry keeps that shape.
\<close>

theorem slashed_forever:
  assumes "ApplyBlocks H V J bs s = Some s'" "registry_ok s" "map_of (Validators s) a = Some v" "Slashed v"
  shows "map_of (Validators s') a = Some v \<and> registry_ok s' \<and> \<not> Active v \<and> Bond v = 0"
proof -
  have "val_wf (StorageCap s) (Some v)" using assms(2,3) by (metis registry_ok_def)
  then show ?thesis using registry_chain [OF assms] assms(4) by (simp add: val_wf_def)
qed

definition barred :: ValidatorRec where
  "barred = \<lparr>Bond = 0, Active = False, Since = 0, Slashed = True, StorageScore = 0, LastProofAt = 0\<rparr>"

definition ledger_barred :: State where
  "ledger_barred = ledger0\<lparr>Validators := [(bob, barred)]\<rparr>"

theorem slashed_forever_witness:
  "\<exists>s'. ApplyBlocks pad32 sig_ok no_json [good_block] ledger_barred = Some s' \<and> map_of (Validators s') bob = Some barred"
proof -
  have "snd (ApplyBlock pad32 sig_ok no_json good_block ledger_barred) = Ok ()" by code_simp
  then obtain s' where r: "ApplyBlocks pad32 sig_ok no_json [good_block] ledger_barred = Some s'"
    by (metis ApplyBlocks.simps(1) ApplyBlocks_Cons prod.collapse)
  have ok: "registry_ok ledger_barred" by (simp add: registry_ok_def ledger_barred_def val_wf_def barred_def)
  have v: "map_of (Validators ledger_barred) bob = Some barred" by (simp add: ledger_barred_def)
  have sl: "Slashed barred" by (simp add: barred_def)
  show ?thesis using r slashed_forever [OF r ok v sl] by blast
qed

text \<open>
  The mempool check and the block's own admission agree: \<^verbatim>\<open>CheckTx\<close> accepts a transaction
  exactly when the checks of \<^verbatim>\<open>ApplyBlock\<close> before the switch accept it as the first one.
\<close>

theorem CheckTx_admission: "CheckTx H V s t = None \<longleftrightarrow> snd (admit H V t (start s)) = Ok ()"
  by (simp add: admit_iff_CheckTx)


text \<open>
  A call that fails costs the fee and nothing else: when the contract run of a \<^verbatim>\<open>KindCall\<close>
  transaction fails, the transaction still succeeds, the sender's balance is lower by exactly
  the fee, and every other balance, that of the contract included, is what it was.
\<close>

theorem failed_call_refunds:
  assumes "admit H V t x = (y, Ok ())" "Kind t = KindCall" "Code (Get (cur x) (To t)) \<noteq> []"
    and "execContract H (To t) (AddrDigest H (From t)) (From t) (Data t) (Amount t) (Gas t) 0 i
        (on_state (Credit (To t) (Amount t)) (snap (To t) y)) = (w, Some (r, u, False))"
  shows "\<exists>z. apply_tx H V J h i t x = (z, Ok ()) \<and>
    (\<forall>a. unat (Balance (Get (cur z) a)) = unat (Balance (Get (cur x) a)) - (if a = From t then unat (Fee t) else 0))"
  using failed_call [OF assms(1,4,3,2)] .

definition revert_ledger :: State where
  "revert_ledger = upd_acct bob (\<lambda>c. c\<lparr>Code := [0x74], Balance := 3\<rparr>) ledger0"

theorem failed_call_refunds_witness:
  "\<exists>z. apply_tx pad32 sig_ok no_json 1 0 (pay KindCall 5 0 []) (start revert_ledger) = (z, Ok ()) \<and>
     Balance (Get (cur z) alice) = 999 \<and> Balance (Get (cur z) bob) = 3"
proof -
  let ?t = "pay KindCall 5 0 []" and ?x = "start revert_ledger"
  let ?y = "fst (admit pad32 sig_ok ?t ?x)"
  let ?run = "execContract pad32 (To ?t) (AddrDigest pad32 (From ?t)) (From ?t) (Data ?t) (Amount ?t) (Gas ?t) 0 0
        (on_state (Credit (To ?t) (Amount ?t)) (snap (To ?t) ?y))"
  have "snd (admit pad32 sig_ok ?t ?x) = Ok ()" by code_simp
  then have y: "admit pad32 sig_ok ?t ?x = (?y, Ok ())" by (metis prod.collapse)
  have k: "Kind ?t = KindCall" and c: "Code (Get (cur ?x) (To ?t)) \<noteq> []" by code_simp+
  have "snd ?run = Some (0, 1000, False)" by code_simp
  then have e: "?run = (fst ?run, Some (0, 1000, False))" by (metis prod.collapse)
  obtain z where z: "apply_tx pad32 sig_ok no_json 1 0 ?t ?x = (z, Ok ())"
    and b: "\<And>a. unat (Balance (Get (cur z) a)) = unat (Balance (Get (cur ?x) a)) - (if a = From ?t then unat (Fee ?t) else 0)"
    using failed_call_refunds [OF y k c e, of no_json 1] by blast
  have v: "Balance (Get (cur ?x) alice) = 1000" "Balance (Get (cur ?x) bob) = 3" "From ?t = alice" "Fee ?t = 1" "bob \<noteq> alice"
    by code_simp+
  have "unat (Balance (Get (cur z) alice)) = 999" "unat (Balance (Get (cur z) bob)) = 3"
    using b [of alice] b [of bob] v by simp_all
  then have "Balance (Get (cur z) alice) = 999" "Balance (Get (cur z) bob) = 3"
    by (simp_all add: word_unat_eq_iff)
  with z show ?thesis by blast
qed

text \<open>
  C17. The faucet's rate limit: in an accepted block at height \<open>h\<close>, with a cooldown that is not 0
  and does not wrap, each address claims at most once; a claim sets the recorded height to
  \<open>h\<close>, and if the address claimed before, at least the cooldown lies between.  After a claim
  no chain of accepted blocks below \<open>h\<close> plus the cooldown has another one.
\<close>

theorem faucet_rate_limit:
  assumes "ApplyBlock H V J b s = (s', Ok ())" "Height (Hdr b) < Height (Hdr b) + FaucetCooldown s"
  shows "length (filter (is_claim a) (payload_of b)) \<le> 1 \<and>
    (filter (is_claim a) (payload_of b) \<noteq> [] \<longrightarrow>
       map_of (FaucetClaims s') a = Some (Height (Hdr b)) \<and>
       (\<forall>l. map_of (FaucetClaims s) a = Some l \<longrightarrow> l + FaucetCooldown s \<le> Height (Hdr b)) \<and>
       (\<forall>bs s''. ApplyBlocks H V J bs s' = Some s'' \<and> (\<forall>b'\<in>set bs. Height (Hdr b') < Height (Hdr b) + FaucetCooldown s) \<longrightarrow>
          (\<forall>b'\<in>set bs. filter (is_claim a) (payload_of b') = [])))"
proof -
  from assms(1) obtain x y where p: "apply_payload H V J (Height (Hdr b)) 0 (payload_of b) (start s) = (x, Ok ())"
    and q: "settle b x = (y, Ok ())" and s': "s' = (cur y)\<lparr>StHeight := Height (Hdr b), lastLogs := blockLogs y\<rparr>"
    by (rule ApplyBlock_Ok)
  have "FaucetClaims s' = FaucetClaims (cur x)" using claims_settle [of b x] q by (simp add: s')
  with claims_payload [OF assms(2) p, of a] have one: "length (filter (is_claim a) (payload_of b)) \<le> 1"
    and rec: "filter (is_claim a) (payload_of b) \<noteq> [] \<Longrightarrow> map_of (FaucetClaims s') a = Some (Height (Hdr b)) \<and>
       (\<forall>l. map_of (FaucetClaims s) a = Some l \<longrightarrow> l + FaucetCooldown s \<le> Height (Hdr b))"
    by (auto simp: start_def split: if_splits)
  show ?thesis
    using one rec locked_chain [of H V J _ s' _ a "Height (Hdr b)"] FaucetCooldown_ApplyBlock [OF assms(1)] by metis
qed

definition faucet_ledger :: State where
  "faucet_ledger = SetFaucet 0 10 100 1 bob (Some (\<lambda>_. Some Zero)) (Credit bob 50 ledger0)"

definition claim_data :: bytes where
  "claim_data = put_u64 4 @ put_u64 0"

definition claim_block :: Block where
  "claim_block = block_of 5 [pay KindFaucet 0 0 claim_data]"

theorem faucet_rate_limit_witness:
  "\<exists>s'. ApplyBlock pad32 sig_ok no_json claim_block faucet_ledger = (s', Ok ()) \<and> (5 :: u64) < 5 + 100 \<and>
     map_of (FaucetClaims s') alice = Some 5"
proof -
  have "snd (ApplyBlock pad32 sig_ok no_json claim_block faucet_ledger) = Ok ()" by code_simp
  then obtain s' where r: "ApplyBlock pad32 sig_ok no_json claim_block faucet_ledger = (s', Ok ())"
    by (metis prod.collapse)
  have v: "Height (Hdr claim_block) = 5" "FaucetCooldown faucet_ledger = 100"
    "filter (is_claim alice) (payload_of claim_block) \<noteq> []" by code_simp+
  have lt: "Height (Hdr claim_block) < Height (Hdr claim_block) + FaucetCooldown faucet_ledger"
    by (simp add: v)
  show ?thesis using r faucet_rate_limit [OF r lt, of alice] v by auto
qed

definition claim_then_bad :: Block where
  "claim_then_bad = block_of 5 [pay KindFaucet 0 0 claim_data, pay KindTransfer 5 0 []]"

text \<open>
  C23. The rollback forgets the faucet claims.  If a block applies a claim of \<open>a\<close> and is refused for something after it, every account
  reads as before the block, so \<open>a\<close> was paid nothing; yet the claim stays on record with the height of the refused block.  From then on no
  chain of blocks that the node accepts, all below that height plus the cooldown, has a claim of \<open>a\<close>: the node refuses what a node that
  never saw the bad block accepts.
\<close>

theorem faucet_claim_survives_rollback:
  assumes "ApplyBlock H V J b s = (s', Err e)" "payload_of b = ts @ us" "t \<in> set ts" "is_claim a t"
    and "apply_payload H V J (Height (Hdr b)) 0 ts (start s) = (x, Ok ())"
  shows "(\<forall>c. Get s' c = Get s c) \<and> map_of (FaucetClaims s') a = Some (Height (Hdr b)) \<and>
    (\<forall>bs s''. ApplyBlocks H V J bs s' = Some s'' \<and> (\<forall>b'\<in>set bs. Height (Hdr b') < Height (Hdr b) + FaucetCooldown s) \<longrightarrow>
       (\<forall>b'\<in>set bs. filter (is_claim a) (payload_of b') = []))"
proof -
  let ?h = "Height (Hdr b)"
  have x: "map_of (FaucetClaims (cur x)) a = Some ?h" by (rule claim_recorded [OF assms(5,3,4)])
  have "map_of (FaucetClaims s') a = Some ?h"
    using claim_payload_any [of H V J ?h "int (length ts)" us x a] x ApplyBlock_Err_claims [OF assms(1)] assms(2,5)
    by (simp add: payload_append)
  moreover have "FaucetCooldown s' = FaucetCooldown s"
    using ApplyBlock_Err_frame(3) [OF assms(1)] by (metis FaucetCooldown_config)
  ultimately show ?thesis using ApplyBlock_Err_frame(1) [OF assms(1)] locked_chain [of H V J _ s' _ a ?h] by metis
qed

theorem faucet_claim_survives_rollback_witness:
  "\<exists>s' e. ApplyBlock pad32 sig_ok no_json claim_then_bad faucet_ledger = (s', Err e) \<and> Balance (Get s' alice) = 1000 \<and>
     map_of (FaucetClaims s') alice = Some 5 \<and> snd (ApplyBlock pad32 sig_ok no_json claim_block faucet_ledger) = Ok () \<and>
     snd (ApplyBlock pad32 sig_ok no_json claim_block s') \<noteq> Ok ()"
proof -
  let ?run = "ApplyBlock pad32 sig_ok no_json" and ?ts = "[pay KindFaucet 0 0 claim_data]"
  have "snd (?run claim_then_bad faucet_ledger) = Err ErrBadNonce" by code_simp
  then obtain s' where r: "?run claim_then_bad faucet_ledger = (s', Err ErrBadNonce)" by (metis prod.collapse)
  have "snd (apply_payload pad32 sig_ok no_json (Height (Hdr claim_then_bad)) 0 ?ts (start faucet_ledger)) = Ok ()" by code_simp
  then obtain x where x: "apply_payload pad32 sig_ok no_json (Height (Hdr claim_then_bad)) 0 ?ts (start faucet_ledger) = (x, Ok ())"
    by (metis prod.collapse)
  have p: "payload_of claim_then_bad = ?ts @ [pay KindTransfer 5 0 []]" by code_simp
  have c: "is_claim alice (pay KindFaucet 0 0 claim_data)" by code_simp
  have t: "pay KindFaucet 0 0 claim_data \<in> set ?ts" by simp
  note f = faucet_claim_survives_rollback [OF r p t c x]
  have v: "Height (Hdr claim_then_bad) = 5" "FaucetCooldown faucet_ledger = 100" "Balance (Get faucet_ledger alice) = 1000"
    "Height (Hdr claim_block) = 5" "filter (is_claim alice) (payload_of claim_block) \<noteq> []" by code_simp+
  have "?run claim_block s' \<noteq> (s'', Ok ())" for s''
    using f v ApplyBlocks_Cons [of pad32 sig_ok no_json claim_block "[]" s' s''] by fastforce
  then have "snd (?run claim_block s') \<noteq> Ok ()" by (metis prod.collapse)
  moreover have "snd (?run claim_block faucet_ledger) = Ok ()" by code_simp
  ultimately show ?thesis using r f v by auto
qed

text \<open>
  C24. A contract can stop a node: take any block whose payload gets as far as a call, with at least 4 units of gas, of a contract whose
  code starts with a push of a number from \<open>2^63\<close> on and a jump.  Applying the block panics.  Nothing is rolled back: the transactions before
  the call keep their effect, the sender has paid amount and fee and used its nonce, and the contract holds the amount.
\<close>

theorem crash_block_panics:
  assumes "payload_of b = ts @ t # us" "apply_payload H V J (Height (Hdr b)) 0 ts (start s) = (x, Ok ())" "admit H V t x = (y, Ok ())"
    and "Kind t = KindCall" "Code (Get (cur x) (To t)) = 0x01 # put_u64 dest @ 0x40 # rest" "2 ^ 63 \<le> unat dest" "4 \<le> Gas t"
  shows "\<exists>s'. ApplyBlock H V J b s = (s', Panic) \<and>
    (\<forall>a. AcctNonce (Get s' a) = AcctNonce (Get (cur x) a) + (if a = From t then 1 else 0) \<and>
       Balance (Get s' a) = Balance (Get (cur x) a) - (if a = From t then Amount t + Fee t else 0) + (if a = To t then Amount t else 0))"
proof -
  have y: "cur y = upd_acct (From t) (\<lambda>ac. ac\<lparr>Balance := Balance ac - (Amount t + Fee t), AcctNonce := AcctNonce ac + 1\<rparr>) (acct (From t) (cur x))"
    using assms(3) by (auto simp: admit_def Let_def split: option.splits if_splits)
  have c: "Code (Get (cur y) (To t)) = 0x01 # put_u64 dest @ 0x40 # rest" using assms(5) by (auto simp: y)
  obtain z where z: "tx_call H (int (length ts)) t y = (z, Panic)" "Get (cur z) = Get (Credit (To t) (Amount t) (cur y))"
    by (rule crash_call [OF c assms(6,7)])
  have "apply_payload H V J (Height (Hdr b)) 0 (payload_of b) (start s) = (z, Panic)"
    using assms(1-4) z(1) by (simp add: payload_append apply_tx_def dispatch_def Kind_defs)
  then have "ApplyBlock H V J b s = (cur z, Panic)" by (simp add: ApplyBlock_def)
  with z(2) show ?thesis by (auto simp: y Credit_def)
qed

definition crash_code :: bytes where
  "crash_code = 0x01 # put_u64 0x8000000000000000 @ [0x40]"

definition crash_block :: Block where
  "crash_block = block_of 1 [pay KindDeploy 0 0 crash_code, (pay KindCall 5 1 [])\<lparr>To := ContractAddress pad32 alice 0\<rparr>]"

theorem crash_block_panics_witness:
  "\<exists>s'. ApplyBlock pad32 sig_ok no_json crash_block ledger0 = (s', Panic) \<and> Balance (Get s' alice) = 993 \<and> AcctNonce (Get s' alice) = 2 \<and>
     Balance (Get s' (ContractAddress pad32 alice 0)) = 5"
proof -
  let ?d = "pay KindDeploy 0 0 crash_code" and ?t = "(pay KindCall 5 1 [])\<lparr>To := ContractAddress pad32 alice 0\<rparr>"
  let ?x = "fst (apply_payload pad32 sig_ok no_json (Height (Hdr crash_block)) 0 [?d] (start ledger0))"
  have p: "payload_of crash_block = [?d] @ ?t # []" by code_simp
  have "snd (apply_payload pad32 sig_ok no_json (Height (Hdr crash_block)) 0 [?d] (start ledger0)) = Ok ()" by code_simp
  then have x: "apply_payload pad32 sig_ok no_json (Height (Hdr crash_block)) 0 [?d] (start ledger0) = (?x, Ok ())" by (metis prod.collapse)
  have "snd (admit pad32 sig_ok ?t ?x) = Ok ()" by code_simp
  then have y: "admit pad32 sig_ok ?t ?x = (fst (admit pad32 sig_ok ?t ?x), Ok ())" by (metis prod.collapse)
  have k: "Kind ?t = KindCall" by code_simp
  have "Code (Get (cur ?x) (To ?t)) = crash_code" by code_simp
  then have c: "Code (Get (cur ?x) (To ?t)) = 0x01 # put_u64 0x8000000000000000 @ 0x40 # []" by (simp add: crash_code_def)
  have g: "2 ^ 63 \<le> unat (0x8000000000000000 :: u64)" "4 \<le> Gas ?t" by (simp_all add: pay_def)
  have v: "Balance (Get (cur ?x) alice) = 999" "AcctNonce (Get (cur ?x) alice) = 1" "From ?t = alice" "To ?t = ContractAddress pad32 alice 0"
    "Amount ?t = 5" "Fee ?t = 1" "ContractAddress pad32 alice 0 \<noteq> alice" "Balance (Get (cur ?x) (ContractAddress pad32 alice 0)) = 0"
    by code_simp+
  from crash_block_panics [OF p x y k c g] obtain s' where "ApplyBlock pad32 sig_ok no_json crash_block ledger0 = (s', Panic)"
    and b: "\<And>a. AcctNonce (Get s' a) = AcctNonce (Get (cur ?x) a) + (if a = From ?t then 1 else 0) \<and>
       Balance (Get s' a) = Balance (Get (cur ?x) a) - (if a = From ?t then Amount ?t + Fee ?t else 0) + (if a = To ?t then Amount ?t else 0)"
    by blast
  moreover have "Balance (Get s' alice) = 993" "AcctNonce (Get s' alice) = 2" "Balance (Get s' (ContractAddress pad32 alice 0)) = 5"
    using b [of alice] b [of "ContractAddress pad32 alice 0"] unfolding v using v(7) by simp_all
  ultimately show ?thesis by blast
qed

end
