(* ===== verification/SL_Forkchoice.thy ===== *)
theory SL_Forkchoice
  imports SL_Order SL_Merkle
begin

text \<open>
  \<^verbatim>\<open>internal/forkchoice/forkchoice.go\<close>: the tree of known headers and the rule that selects the
  canonical tip, the heaviest block with ties broken by the lower id.

  The tree is a Go map, an association list here; \<open>Best\<close> ranges over it, so its result must not
  depend on the order.  The two walks of \<open>CommonAncestor\<close> follow parent links and have no other
  exit, so they are partial functions: \<open>None\<close> is a walk that never returns.
\<close>

section \<open>Model\<close>

record entry =
  parent :: hash
  height :: u64
  cum :: u64

type_synonym Tree = "(hash, entry) gomap"

definition NewTree :: Tree where
  "NewTree = []"

definition Add :: "hash \<Rightarrow> hash \<Rightarrow> u64 \<Rightarrow> u64 \<Rightarrow> Tree \<Rightarrow> Tree" where
  "Add i p h weight t =
     (case map_of t i of
        Some _ \<Rightarrow> t
      | None \<Rightarrow>
          let c = (case map_of t p of Some e \<Rightarrow> weight + cum e | None \<Rightarrow> weight)
          in AList.update i \<lparr>parent = p, height = h, cum = c\<rparr> t)"

text \<open>\<open>less\<close> on hashes: the first byte that differs decides.\<close>

fun less_hash :: "hash \<Rightarrow> hash \<Rightarrow> bool" where
  "less_hash (x # xs) (y # ys) = (if x \<noteq> y then x < y else less_hash xs ys)"
| "less_hash _ _ = False"

text \<open>The loop variables of \<open>Best\<close>; \<open>None\<close> is \<open>first\<close>.\<close>

definition best_step :: "hash \<times> entry \<Rightarrow> (hash \<times> u64) option \<Rightarrow> (hash \<times> u64) option" where
  "best_step p acc =
     (case (p, acc) of
        ((i, e), None) \<Rightarrow> Some (i, cum e)
      | ((i, e), Some (best, bestCum)) \<Rightarrow>
          if bestCum < cum e \<or> (cum e = bestCum \<and> less_hash i best) then Some (i, cum e) else acc)"

definition Best :: "Tree \<Rightarrow> hash \<times> u64" where
  "Best t = (case fold best_step t None of Some r \<Rightarrow> r | None \<Rightarrow> (Zero, 0))"

definition HeightOf :: "Tree \<Rightarrow> hash \<Rightarrow> u64 option" where
  "HeightOf t i = map_option height (map_of t i)"

text \<open>The first walk collects the branch of \<open>a\<close>, the second looks for it from \<open>b\<close>.\<close>

partial_function (option) walk_seen :: "Tree \<Rightarrow> hash \<Rightarrow> hash list \<Rightarrow> hash list option" where
  "walk_seen t a seen =
     (case map_of t a of
        None \<Rightarrow> Some seen
      | Some e \<Rightarrow>
          if a = parent e then Some (a # seen)
          else if parent e = Zero then Some (a # seen)
          else walk_seen t (parent e) (a # seen))"

partial_function (option) walk_find :: "Tree \<Rightarrow> hash list \<Rightarrow> hash \<Rightarrow> hash option option" where
  "walk_find t seen b =
     (if b \<in> set seen then Some (Some b)
      else case map_of t b of
        None \<Rightarrow> Some None
      | Some e \<Rightarrow> if b = Zero then Some None else walk_find t seen (parent e))"

definition CommonAncestor :: "Tree \<Rightarrow> hash \<Rightarrow> hash \<Rightarrow> hash option option" where
  "CommonAncestor t a b = (case walk_seen t a [] of None \<Rightarrow> None | Some seen \<Rightarrow> walk_find t seen b)"

section \<open>The selection rule\<close>

lemma less_hash_irrefl [simp]: "\<not> less_hash a a"
  by (induction a) auto

lemma less_hash_trans: "less_hash a b \<Longrightarrow> less_hash b c \<Longrightarrow> less_hash a c"
proof (induction a b arbitrary: c rule: less_hash.induct)
  case (1 x xs y ys)
  then show ?case by (cases c) (auto split: if_splits)
qed auto

lemma less_hash_total: "length a = length b \<Longrightarrow> a \<noteq> b \<Longrightarrow> less_hash a b \<or> less_hash b a"
  by (induction a b rule: list_induct2) auto

text \<open>A candidate beats another one; on hashes of equal length this is a strict linear order.\<close>

definition beats :: "hash \<times> u64 \<Rightarrow> hash \<times> u64 \<Rightarrow> bool" where
  "beats p q \<longleftrightarrow> snd q < snd p \<or> (snd p = snd q \<and> less_hash (fst p) (fst q))"

lemma beats_irrefl: "\<not> beats p p"
  by (simp add: beats_def)

lemma beats_trans: "beats p q \<Longrightarrow> beats q r \<Longrightarrow> beats p r"
  by (auto simp: beats_def intro: less_hash_trans)

lemma beats_total: "length (fst p) = length (fst q) \<Longrightarrow> p \<noteq> q \<Longrightarrow> beats p q \<or> beats q p"
  by (cases p; cases q) (auto simp: beats_def dest: less_hash_total)

definition cands :: "Tree \<Rightarrow> (hash \<times> u64) list" where
  "cands t = map (\<lambda>(i, e). (i, cum e)) t"

lemma cands_simps [simp]: "cands [] = []" "cands ((i, e) # t) = (i, cum e) # cands t"
  by (simp_all add: cands_def)

lemma fst_cands: "fst ` set (cands t) = fst ` set t"
  by (force simp: cands_def)

definition ids32 :: "Tree \<Rightarrow> bool" where
  "ids32 t \<longleftrightarrow> (\<forall>i\<in>fst ` set t. length i = 32)"

interpretation heaviest: selection beats "{p. length (fst p) = 32}"
proof
  show "beats a b \<or> beats b a" if "a \<in> {p. length (fst p) = 32}" "b \<in> {p. length (fst p) = 32}" "a \<noteq> b" for a b
    using that beats_total [of a b] by simp
qed (auto simp: beats_irrefl intro: beats_trans)

definition keep_best :: "hash \<times> entry \<Rightarrow> hash \<times> u64 \<Rightarrow> hash \<times> u64" where
  "keep_best p c = (if beats (fst p, cum (snd p)) c then (fst p, cum (snd p)) else c)"

lemma fold_best: "fold best_step t (Some c) = Some (fold keep_best t c)"
proof (induction t arbitrary: c)
  case (Cons p t)
  have "best_step p (Some c) = Some (keep_best p c)"
    by (cases p; cases c) (auto simp: best_step_def keep_best_def beats_def)
  with Cons show ?case by simp
qed simp

lemma Best_top:
  assumes "t \<noteq> []" "ids32 t"
  shows "heaviest.top_of (Best t) (set (cands t))"
proof -
  obtain i e r where t: "t = (i, e) # r" using assms(1) by (metis neq_Nil_conv surj_pair)
  have "heaviest.top_of (fold keep_best r (i, cum e)) (insert (i, cum e) ((\<lambda>p. (fst p, cum (snd p))) ` set r))"
    using assms(2) by (intro heaviest.fold_select) (auto simp: keep_best_def t ids32_def)
  moreover have "(\<lambda>p. (fst p, cum (snd p))) ` set r = set (cands r)" by (force simp: cands_def)
  ultimately show ?thesis by (simp add: Best_def t best_step_def fold_best)
qed

lemma Best_spec:
  assumes "t \<noteq> []" "ids32 t"
  shows "Best t \<in> set (cands t)" "\<forall>q\<in>set (cands t). Best t = q \<or> beats (Best t) q"
  using Best_top [OF assms] by (auto simp: heaviest.top_of_def)

lemma Best_order:
  assumes "ids32 t" "set (cands t) = set (cands t')"
  shows "Best t = Best t'"
proof (cases "t = []")
  case True
  with assms show ?thesis by (cases t') auto
next
  case False
  have "fst ` set t' = fst ` set t" using assms(2) by (simp flip: fst_cands)
  then have t': "ids32 t'" "t' \<noteq> []" using assms False by (auto simp: ids32_def)
  show ?thesis using heaviest.top_unique Best_top [OF False assms(1)] Best_top [OF t'(2,1)] assms(2) by simp
qed

section \<open>Building the tree\<close>

record blockref =
  bid :: hash
  bparent :: hash
  bheight :: u64
  bweight :: u64

definition add_ref :: "blockref \<Rightarrow> Tree \<Rightarrow> Tree" where
  "add_ref b t = Add (bid b) (bparent b) (bheight b) (bweight b) t"

definition build_tree :: "blockref list \<Rightarrow> Tree" where
  "build_tree bs = fold add_ref bs NewTree"

text \<open>Every block comes after its parent, if the parent comes at all.\<close>

definition parent_first :: "blockref list \<Rightarrow> bool" where
  "parent_first bs \<longleftrightarrow>
     (\<forall>pre b post. bs = pre @ b # post \<longrightarrow> bparent b \<notin> bid ` set (b # post))"

lemma map_of_Add: "map_of (Add i p h w t) j =
   (if map_of t i = None \<and> j = i
    then Some \<lparr>parent = p, height = h, cum = (case map_of t p of Some e \<Rightarrow> w + cum e | None \<Rightarrow> w)\<rparr>
    else map_of t j)"
  by (auto simp: Add_def Let_def split: option.splits)

lemma dom_build: "map_of (fold add_ref bs t) j = None \<longleftrightarrow> map_of t j = None \<and> j \<notin> bid ` set bs"
  by (induction bs arbitrary: t) (auto simp: add_ref_def map_of_Add)

lemma build_stable: "map_of t j = Some e \<Longrightarrow> map_of (fold add_ref bs t) j = Some e"
proof (induction bs arbitrary: t)
  case (Cons b bs)
  have "map_of (add_ref b t) j = Some e" using Cons.prems by (auto simp: add_ref_def map_of_Add)
  with Cons.IH show ?case by simp
qed simp

text \<open>The entry of a block, in terms of the finished tree.\<close>

lemma build_entry:
  assumes "parent_first bs" "distinct (map bid bs)" "b \<in> set bs"
  shows "map_of (build_tree bs) (bid b) = Some \<lparr>parent = bparent b, height = bheight b,
    cum = (case map_of (build_tree bs) (bparent b) of Some e \<Rightarrow> bweight b + cum e | None \<Rightarrow> bweight b)\<rparr>"
proof -
  obtain pre post where bs: "bs = pre @ b # post" using assms(3) by (metis split_list)
  let ?t = "fold add_ref pre NewTree"
  have new: "map_of ?t (bid b) = None" using assms(2) by (auto simp: dom_build bs NewTree_def)
  have par: "bparent b \<noteq> bid b" "bparent b \<notin> bid ` set post"
    using assms(1) unfolding parent_first_def bs by force+
  have tree: "build_tree bs = fold add_ref post (add_ref b ?t)" by (simp add: build_tree_def bs)
  have p: "map_of (build_tree bs) (bparent b) = map_of ?t (bparent b)"
  proof (cases "map_of ?t (bparent b)")
    case None
    then have "map_of (add_ref b ?t) (bparent b) = None" using par by (simp add: add_ref_def map_of_Add)
    then have "map_of (build_tree bs) (bparent b) = None" unfolding tree dom_build using par(2) by simp
    with None show ?thesis by simp
  next
    case (Some e)
    then have "map_of (add_ref b ?t) (bparent b) = Some e" using par by (simp add: add_ref_def map_of_Add)
    then show ?thesis using Some by (simp add: tree build_stable)
  qed
  have "map_of (add_ref b ?t) (bid b) = Some \<lparr>parent = bparent b, height = bheight b,
      cum = (case map_of ?t (bparent b) of Some e \<Rightarrow> bweight b + cum e | None \<Rightarrow> bweight b)\<rparr>"
    using new by (simp add: add_ref_def map_of_Add)
  then show ?thesis unfolding p by (simp add: tree build_stable)
qed

lemma build_agrees:
  assumes "parent_first bs" "parent_first cs" "distinct (map bid bs)" "distinct (map bid cs)" "set bs = set cs"
  shows "map_of (build_tree bs) j = map_of (build_tree cs) j"
proof -
  have "j \<in> bid ` set pre \<Longrightarrow> map_of (build_tree bs) j = map_of (build_tree cs) j"
    if "bs = pre @ post" for pre post j
    using that
  proof (induction pre arbitrary: post j rule: rev_induct)
    case (snoc b pre)
    have b: "b \<in> set bs" "b \<in> set cs" using snoc.prems assms(5) by auto
    have par: "map_of (build_tree bs) (bparent b) = map_of (build_tree cs) (bparent b)"
    proof (cases "bparent b \<in> bid ` set pre")
      case True
      with snoc show ?thesis by simp
    next
      case False
      have "bparent b \<notin> bid ` set (b # post)"
        using assms(1) snoc.prems(2) unfolding parent_first_def by simp
      with False have "bparent b \<notin> bid ` set bs" by (auto simp: snoc.prems(2))
      then have "map_of (build_tree bs) (bparent b) = None" "map_of (build_tree cs) (bparent b) = None"
        using assms(5) by (simp_all add: build_tree_def dom_build NewTree_def)
      then show ?thesis by simp
    qed
    show ?case
    proof (cases "j = bid b")
      case True
      then show ?thesis
        using build_entry [OF assms(1,3) b(1)] build_entry [OF assms(2,4) b(2)] par by simp
    next
      case False
      with snoc show ?thesis by auto
    qed
  qed simp
  from this [of bs "[]"] show ?thesis
  proof (cases "j \<in> bid ` set bs")
    case False
    then have "map_of (build_tree bs) j = None" "map_of (build_tree cs) j = None"
      using assms(5) by (simp_all add: build_tree_def dom_build NewTree_def)
    then show ?thesis by simp
  qed simp
qed

section \<open>Common ancestors\<close>

definition link :: "Tree \<Rightarrow> hash \<Rightarrow> hash \<Rightarrow> bool" where
  "link t x y \<longleftrightarrow> (\<exists>e. map_of t x = Some e \<and> parent e = y \<and> y \<noteq> Zero)"

abbreviation anc :: "Tree \<Rightarrow> hash \<Rightarrow> hash \<Rightarrow> bool" where
  "anc t \<equiv> (link t)\<^sup>*\<^sup>*"

text \<open>Heights fall along parent links, and the zero hash is no block.\<close>

definition tree_ok :: "Tree \<Rightarrow> bool" where
  "tree_ok t \<longleftrightarrow> map_of t Zero = None \<and>
     (\<forall>i e p. map_of t i = Some e \<and> map_of t (parent e) = Some p \<longrightarrow> height p < height e)"

definition level :: "Tree \<Rightarrow> hash \<Rightarrow> nat" where
  "level t i = (case map_of t i of None \<Rightarrow> 0 | Some e \<Rightarrow> Suc (unat (height e)))"

lemma level_parent: "tree_ok t \<Longrightarrow> map_of t i = Some e \<Longrightarrow> level t (parent e) < level t i"
  by (auto simp: tree_ok_def level_def word_less_nat_alt split: option.split)

lemma link_det: "link t x y \<Longrightarrow> link t x z \<Longrightarrow> y = z"
  by (auto simp: link_def)

lemma anc_unfold:
  "map_of t x = Some e \<Longrightarrow> anc t x d \<longleftrightarrow> d = x \<or> (parent e \<noteq> Zero \<and> anc t (parent e) d)"
  by (auto simp: link_def elim: converse_rtranclpE intro: converse_rtranclp_into_rtranclp)

lemma anc_None: "map_of t x = None \<Longrightarrow> anc t x d \<longleftrightarrow> d = x"
  by (auto simp: link_def elim: converse_rtranclpE)

lemma walk_seen_total:
  assumes "tree_ok t"
  shows "\<exists>s. walk_seen t a acc = Some s \<and> set s = set acc \<union> {x. anc t a x \<and> map_of t x \<noteq> None}"
proof (induction "level t a" arbitrary: a acc rule: less_induct)
  case less
  show ?case
  proof (cases "map_of t a")
    case None
    then show ?thesis by (auto simp: walk_seen.simps anc_None)
  next
    case (Some e)
    show ?thesis
    proof (cases "parent e = Zero")
      case True
      with Some show ?thesis by (auto simp: walk_seen.simps anc_unfold)
    next
      case False
      have "a \<noteq> parent e" using level_parent [OF assms Some] by auto
      moreover obtain s where "walk_seen t (parent e) (a # acc) = Some s"
          "set s = set (a # acc) \<union> {x. anc t (parent e) x \<and> map_of t x \<noteq> None}"
        using less [OF level_parent [OF assms Some]] by blast
      ultimately show ?thesis
        using Some False by (auto simp: walk_seen.simps [of t a] anc_unfold [OF Some])
    qed
  qed
qed

lemma walk_find_total:
  assumes "tree_ok t" "Zero \<notin> set seen"
  shows "\<exists>r. walk_find t seen b = Some r \<and>
    (case r of Some c \<Rightarrow> anc t b c \<and> c \<in> set seen \<and> (\<forall>d\<in>set seen. anc t b d \<longrightarrow> anc t c d)
     | None \<Rightarrow> \<forall>d\<in>set seen. \<not> anc t b d)"
proof (induction "level t b" arbitrary: b rule: less_induct)
  case less
  show ?case
  proof (cases "b \<in> set seen")
    case True
    then show ?thesis by (auto simp: walk_find.simps)
  next
    case nb: False
    show ?thesis
    proof (cases "map_of t b")
      case None
      with nb show ?thesis by (auto simp: walk_find.simps anc_None)
    next
      case (Some e)
      then have "b \<noteq> Zero" using assms(1) by (auto simp: tree_ok_def)
      then have step: "walk_find t seen b = walk_find t seen (parent e)"
        using nb Some by (simp add: walk_find.simps [of t seen b])
      show ?thesis
      proof (cases "parent e = Zero")
        case True
        then have "walk_find t seen (parent e) = Some None"
          using assms by (simp add: walk_find.simps tree_ok_def)
        with step nb show ?thesis by (auto simp: anc_unfold [OF Some] True)
      next
        case False
        from less [OF level_parent [OF assms(1) Some]] obtain r where
          r: "walk_find t seen (parent e) = Some r" and
          p: "case r of Some c \<Rightarrow> anc t (parent e) c \<and> c \<in> set seen \<and> (\<forall>d\<in>set seen. anc t (parent e) d \<longrightarrow> anc t c d)
             | None \<Rightarrow> \<forall>d\<in>set seen. \<not> anc t (parent e) d" by blast
        show ?thesis
          using step r p nb by (auto simp: anc_unfold [OF Some] False split: option.splits)
      qed
    qed
  qed
qed

lemma CommonAncestor_total:
  assumes "tree_ok t"
  shows "\<exists>r. CommonAncestor t a b = Some r \<and>
    (case r of
       Some c \<Rightarrow> map_of t c \<noteq> None \<and> anc t a c \<and> anc t b c \<and>
         (\<forall>d. map_of t d \<noteq> None \<and> anc t a d \<and> anc t b d \<longrightarrow> anc t c d)
     | None \<Rightarrow> \<nexists>d. map_of t d \<noteq> None \<and> anc t a d \<and> anc t b d)"
proof -
  obtain s where s: "walk_seen t a [] = Some s" "set s = {x. anc t a x \<and> map_of t x \<noteq> None}"
    using walk_seen_total [OF assms, of a "[]"] by auto
  then have "Zero \<notin> set s" using assms by (auto simp: tree_ok_def)
  from walk_find_total [OF assms this, of b] obtain r where
    "walk_find t s b = Some r" and
    "case r of Some c \<Rightarrow> anc t b c \<and> c \<in> set s \<and> (\<forall>d\<in>set s. anc t b d \<longrightarrow> anc t c d)
     | None \<Rightarrow> \<forall>d\<in>set s. \<not> anc t b d" by blast
  then show ?thesis using s by (auto simp: CommonAncestor_def split: option.splits)
qed

section \<open>Properties\<close>

definition ref_ids32 :: "blockref list \<Rightarrow> bool" where
  "ref_ids32 bs \<longleftrightarrow> (\<forall>b\<in>set bs. length (bid b) = 32)"

lemma build_gomap: "gomap (build_tree bs)"
proof -
  have "gomap t \<Longrightarrow> gomap (fold add_ref bs t)" for t
    by (induction bs arbitrary: t) (auto simp: add_ref_def Add_def Let_def split: option.split)
  then show ?thesis by (simp add: build_tree_def NewTree_def)
qed

lemma cands_build:
  "set (cands (build_tree bs)) = {(i, cum e) |i e. map_of (build_tree bs) i = Some e}"
  using build_gomap [of bs] by (force simp: cands_def gomap_def)

lemma build_ids32: "ref_ids32 bs \<Longrightarrow> ids32 (build_tree bs)"
proof -
  assume r: "ref_ids32 bs"
  have "i \<in> bid ` set bs" if "i \<in> fst ` set (build_tree bs)" for i
    using that dom_build [of bs NewTree i] by (auto simp: build_tree_def NewTree_def map_of_eq_None_iff)
  with r show ?thesis unfolding ids32_def ref_ids32_def by (metis imageE)
qed

text \<open>
  The selected tip is the heaviest block and the lowest id among the heaviest, whatever
  order the map is ranged over, and it is the only one with that property.
\<close>

theorem Best_selects:
  assumes "t \<noteq> []" "ids32 t"
  shows "(\<exists>e. (fst (Best t), e) \<in> set t \<and> cum e = snd (Best t)) \<and>
    (\<forall>(i, e)\<in>set t. cum e < snd (Best t) \<or> (cum e = snd (Best t) \<and> (i = fst (Best t) \<or> less_hash (fst (Best t)) i))) \<and>
    (\<forall>t'. set t' = set t \<longrightarrow> Best t' = Best t)"
proof (intro conjI allI impI)
  note b = Best_spec [OF assms]
  show "\<exists>e. (fst (Best t), e) \<in> set t \<and> cum e = snd (Best t)" using b(1) by (force simp: cands_def)
  have "cum e < snd (Best t) \<or> (cum e = snd (Best t) \<and> (i = fst (Best t) \<or> less_hash (fst (Best t)) i))"
    if "(i, e) \<in> set t" for i e
  proof -
    have "(i, cum e) \<in> set (cands t)" using that by (force simp: cands_def)
    with b(2) have "Best t = (i, cum e) \<or> beats (Best t) (i, cum e)" by blast
    then show ?thesis by (cases "Best t") (auto simp: beats_def)
  qed
  then show "\<forall>(i, e)\<in>set t. cum e < snd (Best t) \<or>
      (cum e = snd (Best t) \<and> (i = fst (Best t) \<or> less_hash (fst (Best t)) i))" by blast
  fix t' assume "set t' = set t"
  then show "Best t' = Best t" using Best_order [OF assms(2), of t'] by (simp add: cands_def)
qed

definition fork_refs :: "blockref list" where
  "fork_refs =
     [\<lparr>bid = replicate 32 1, bparent = Zero, bheight = 0, bweight = 1\<rparr>,
      \<lparr>bid = replicate 32 2, bparent = replicate 32 1, bheight = 1, bweight = 1\<rparr>,
      \<lparr>bid = replicate 32 3, bparent = replicate 32 1, bheight = 1, bweight = 1\<rparr>]"

lemma less_hash_replicate: "less_hash (replicate (Suc n) x) (replicate (Suc n) y) \<longleftrightarrow> x < y"
  by (induction n) auto

lemma fork_tree:
  "build_tree fork_refs =
     [(replicate 32 1, \<lparr>parent = Zero, height = 0, cum = 1\<rparr>),
      (replicate 32 2, \<lparr>parent = replicate 32 1, height = 1, cum = 2\<rparr>),
      (replicate 32 3, \<lparr>parent = replicate 32 1, height = 1, cum = 2\<rparr>)]"
  by (simp add: build_tree_def NewTree_def fork_refs_def add_ref_def Add_def Zero_def)

theorem Best_selects_witness:
  "build_tree fork_refs \<noteq> [] \<and> ids32 (build_tree fork_refs) \<and> Best (build_tree fork_refs) = (replicate 32 2, 2) \<and>
   Best (rev (build_tree fork_refs)) = (replicate 32 2, 2)"
proof -
  have l: "\<not> less_hash (replicate 32 3) (replicate 32 (2 :: byte))"
    using less_hash_replicate [of 31 "3 :: byte" 2] by simp
  have h1: "build_tree fork_refs \<noteq> []" by (simp add: fork_tree)
  have h2: "ids32 (build_tree fork_refs)" by (simp add: fork_tree ids32_def)
  have h3: "Best (build_tree fork_refs) = (replicate 32 2, 2)"
    by (simp add: fork_tree Best_def best_step_def l)
  have "\<forall>t'. set t' = set (build_tree fork_refs) \<longrightarrow> Best t' = Best (build_tree fork_refs)"
    using Best_selects [OF h1 h2] by (elim conjE)
  from this [rule_format, OF set_rev] have "Best (rev (build_tree fork_refs)) = (replicate 32 2, 2)"
    unfolding h3 .
  with h1 h2 h3 show ?thesis by (intro conjI)
qed

text \<open>
  C25. Convergence: two nodes that received the same blocks, each after its parent but otherwise
  in any order, hold the same tree and select the same tip.
\<close>

theorem nodes_converge:
  assumes "set bs = set cs" "distinct (map bid bs)" "distinct (map bid cs)" "ref_ids32 bs"
    and "parent_first bs" "parent_first cs"
  shows "map_of (build_tree bs) = map_of (build_tree cs) \<and> Best (build_tree bs) = Best (build_tree cs)"
proof -
  have m: "map_of (build_tree bs) = map_of (build_tree cs)"
    using build_agrees [OF assms(5,6,2,3,1)] by (rule ext)
  then have "set (cands (build_tree bs)) = set (cands (build_tree cs))" by (simp add: cands_build)
  with m Best_order [OF build_ids32 [OF assms(4)]] show ?thesis by blast
qed

lemma parent_first_Cons:
  "parent_first (b # bs) \<longleftrightarrow> bparent b \<notin> bid ` set (b # bs) \<and> parent_first bs"
  unfolding parent_first_def by (auto simp: Cons_eq_append_conv) blast+

lemma parent_first_Nil: "parent_first []"
  by (simp add: parent_first_def)

definition fork_refs' :: "blockref list" where
  "fork_refs' = [fork_refs ! 0, fork_refs ! 2, fork_refs ! 1]"

theorem nodes_converge_witness:
  "parent_first fork_refs \<and> parent_first fork_refs' \<and> set fork_refs = set fork_refs' \<and>
   Best (build_tree fork_refs) = Best (build_tree fork_refs')"
proof -
  have p: "parent_first fork_refs" "parent_first fork_refs'"
    by (simp_all add: fork_refs_def fork_refs'_def parent_first_Cons parent_first_Nil Zero_def)
  have h: "set fork_refs = set fork_refs'" "distinct (map bid fork_refs)" "distinct (map bid fork_refs')" "ref_ids32 fork_refs"
    by (auto simp: fork_refs_def fork_refs'_def ref_ids32_def)
  show ?thesis using p h nodes_converge [OF h p] by simp
qed

text \<open>
  In a tree whose heights fall along parent links, \<^verbatim>\<open>CommonAncestor\<close> returns, and returns the
  nearest known common ancestor of the two blocks when there is one and none otherwise.
\<close>

theorem CommonAncestor_correct:
  assumes "tree_ok t"
  shows "\<exists>r. CommonAncestor t a b = Some r \<and>
    (case r of
       Some c \<Rightarrow> map_of t c \<noteq> None \<and> anc t a c \<and> anc t b c \<and>
         (\<forall>d. map_of t d \<noteq> None \<and> anc t a d \<and> anc t b d \<longrightarrow> anc t c d)
     | None \<Rightarrow> \<nexists>d. map_of t d \<noteq> None \<and> anc t a d \<and> anc t b d)"
  by (rule CommonAncestor_total [OF assms])

theorem CommonAncestor_correct_witness:
  "tree_ok (build_tree fork_refs) \<and> (\<exists>r. CommonAncestor (build_tree fork_refs) (replicate 32 2) (replicate 32 3) = Some r)"
proof -
  have ok: "tree_ok (build_tree fork_refs)"
    by (auto simp: tree_ok_def fork_tree Zero_def)
  show ?thesis using ok CommonAncestor_correct [OF ok] by blast
qed

end
