(* ===== verification/SL_Consensus.thy ===== *)
theory SL_Consensus
  imports SL_State
begin

text \<open>
  \<^verbatim>\<open>internal/consensus/consensus.go\<close>: who may produce a block.  \<open>Authority\<close> is a fixed set of
  producers; \<open>PoStorage\<close> elects one leader per height and round by rendezvous hashing over the
  validator set, each validator entering with as many copies as its proven storage weighs.

  The providers \<^verbatim>\<open>validators\<close> and \<^verbatim>\<open>weights\<close> read the ledger live; the model takes what they return.
  The advisory gate compares floating-point ratios of a scoreboard; its verdict for the
  node itself is a field.
\<close>

section \<open>Model\<close>

datatype consensus_error = ErrHdrSig types_error | ErrUnauthorizedValidator | ErrNotLeader

text \<open>The loop of \<open>validatorSet\<close> that drops repetitions, and the sorted list.\<close>

definition dedup_step :: "address \<Rightarrow> address list \<Rightarrow> address list" where
  "dedup_step v out = (if v \<in> set out then out else out @ [v])"

definition validatorSet :: "address list \<Rightarrow> address list" where
  "validatorSet validators = str_sort (fold dedup_step validators [])"

record Authority =
  AuthSet :: "address list"
  AuthSelf :: address

definition NewAuthority :: "address list \<Rightarrow> address \<Rightarrow> Authority" where
  "NewAuthority validators self = \<lparr>AuthSet = validatorSet validators, AuthSelf = self\<rparr>"

definition AuthLeaderFor :: "Authority \<Rightarrow> u64 \<Rightarrow> hash \<Rightarrow> u32 \<Rightarrow> address" where
  "AuthLeaderFor a h prev round = AuthSelf a"

definition AuthAuthorizeHeader ::
    "(bytes \<Rightarrow> hash) \<Rightarrow> (bytes \<Rightarrow> bytes \<Rightarrow> bytes \<Rightarrow> bool) \<Rightarrow> Authority \<Rightarrow> Header \<Rightarrow> consensus_error option" where
  "AuthAuthorizeHeader H V a h =
     (case HdrVerifySig H V h of
        Some e \<Rightarrow> Some (ErrHdrSig e)
      | None \<Rightarrow> if Validator h \<notin> set (AuthSet a) then Some ErrUnauthorizedValidator else None)"

definition AuthCanProduce :: "Authority \<Rightarrow> u64 \<Rightarrow> hash \<Rightarrow> u32 \<Rightarrow> bool" where
  "AuthCanProduce a h prev round \<longleftrightarrow> AuthSelf a \<noteq> [] \<and> AuthSelf a \<in> set (AuthSet a)"

definition AuthIsValidator :: "Authority \<Rightarrow> bool" where
  "AuthIsValidator a \<longleftrightarrow> AuthSelf a \<noteq> [] \<and> AuthSelf a \<in> set (AuthSet a)"

record PoStorage =
  validators :: "address list"
  weights :: "(address, u64) gomap option"
  PosSelf :: address
  eligible :: bool   \<comment> \<open>\<open>true\<close> without a scoreboard\<close>

definition SetWeights :: "(address, u64) gomap option \<Rightarrow> PoStorage \<Rightarrow> PoStorage" where
  "SetWeights w p = p\<lparr>weights := w\<rparr>"

definition leaderScore :: "(bytes \<Rightarrow> hash) \<Rightarrow> hash \<Rightarrow> address \<Rightarrow> u64 \<Rightarrow> u32 \<Rightarrow> u64 \<Rightarrow> u64" where
  "leaderScore H prev v h round cp =
     be_get (take 8 (H (prev @ v @ put_u64 h @ put_u32 round @ put_u64 cp)))"

definition copies :: "(address, u64) gomap option \<Rightarrow> address \<Rightarrow> u64" where
  "copies w v =
     (case w of
        None \<Rightarrow> 1
      | Some m \<Rightarrow> (case map_of m v of Some cw \<Rightarrow> if 1 < cw then cw else 1 | None \<Rightarrow> 1))"

text \<open>One turn of the inner loop of \<open>LeaderFor\<close>; the empty address is "none yet".\<close>

definition elect_step :: "(bytes \<Rightarrow> hash) \<Rightarrow> hash \<Rightarrow> u64 \<Rightarrow> u32 \<Rightarrow> address \<times> u64 \<Rightarrow> address \<times> u64 \<Rightarrow> address \<times> u64" where
  "elect_step H prev h round entrant acc =
     (case (entrant, acc) of ((v, j), (best, bestScore)) \<Rightarrow>
        let s = leaderScore H prev v h round j in
        if best = [] \<or> bestScore < s \<or> (s = bestScore \<and> str_less v best) then (v, s) else (best, bestScore))"

definition entrants :: "(address, u64) gomap option \<Rightarrow> address list \<Rightarrow> (address \<times> u64) list" where
  "entrants w list = concat (map (\<lambda>v. map (\<lambda>j. (v, of_nat j)) [0..<unat (copies w v)]) list)"

definition LeaderFor :: "(bytes \<Rightarrow> hash) \<Rightarrow> PoStorage \<Rightarrow> u64 \<Rightarrow> hash \<Rightarrow> u32 \<Rightarrow> address" where
  "LeaderFor H p h prev round =
     fst (fold (elect_step H prev h round) (entrants (weights p) (validatorSet (validators p))) ([], 0))"

definition AuthorizeHeader ::
    "(bytes \<Rightarrow> hash) \<Rightarrow> (bytes \<Rightarrow> bytes \<Rightarrow> bytes \<Rightarrow> bool) \<Rightarrow> PoStorage \<Rightarrow> Header \<Rightarrow> consensus_error option" where
  "AuthorizeHeader H V p h =
     (case HdrVerifySig H V h of
        Some e \<Rightarrow> Some (ErrHdrSig e)
      | None \<Rightarrow>
          if Validator h \<notin> set (validatorSet (validators p)) then Some ErrUnauthorizedValidator
          else if Height h = 0 then None
          else if Validator h \<noteq> LeaderFor H p (Height h) (PrevHash h) (Round h) then Some ErrNotLeader
          else None)"

definition CanProduce :: "(bytes \<Rightarrow> hash) \<Rightarrow> PoStorage \<Rightarrow> u64 \<Rightarrow> hash \<Rightarrow> u32 \<Rightarrow> bool" where
  "CanProduce H p nextHeight prev round =
     (if PosSelf p = [] \<or> PosSelf p \<notin> set (validatorSet (validators p)) then False
      else if LeaderFor H p nextHeight prev round \<noteq> PosSelf p then False
      else eligible p)"

definition IsValidator :: "PoStorage \<Rightarrow> bool" where
  "IsValidator p \<longleftrightarrow> PosSelf p \<noteq> [] \<and> PosSelf p \<in> set (validatorSet (validators p))"

section \<open>The validator set\<close>

lemma set_dedup: "set (fold dedup_step vs out) = set out \<union> set vs"
  by (induction vs arbitrary: out) (auto simp: dedup_step_def)

lemma distinct_dedup: "distinct out \<Longrightarrow> distinct (fold dedup_step vs out)"
  by (induction vs arbitrary: out) (auto simp: dedup_step_def)

lemma set_validatorSet [simp]: "set (validatorSet vs) = set vs"
  by (simp add: validatorSet_def set_dedup)

lemma distinct_validatorSet: "distinct (validatorSet vs)"
  by (simp add: validatorSet_def distinct_dedup)

lemma validatorSet_cong: "set vs = set ws \<Longrightarrow> validatorSet vs = validatorSet ws"
  unfolding validatorSet_def
  by (rule strings.sort_by_cong) (simp add: set_eq_iff_mset_eq_distinct [symmetric] distinct_dedup set_dedup)

section \<open>The election\<close>

definition sc :: "(bytes \<Rightarrow> hash) \<Rightarrow> hash \<Rightarrow> u64 \<Rightarrow> u32 \<Rightarrow> address \<times> u64 \<Rightarrow> address \<times> u64" where
  "sc H prev h round e = (fst e, leaderScore H prev (fst e) h round (snd e))"

definition outranks :: "address \<times> u64 \<Rightarrow> address \<times> u64 \<Rightarrow> bool" where
  "outranks p q \<longleftrightarrow> snd q < snd p \<or> (snd p = snd q \<and> str_less (fst p) (fst q))"

lemma outranks_trans: "outranks p q \<Longrightarrow> outranks q r \<Longrightarrow> outranks p r"
  by (auto simp: outranks_def intro: str_less_trans)

lemma outranks_irrefl: "\<not> outranks p p"
  by (simp add: outranks_def)

lemma outranks_total: "p \<noteq> q \<Longrightarrow> outranks p q \<or> outranks q p"
  by (cases p; cases q) (auto simp: outranks_def dest: str_less_total)

lemma elect_step_eq:
  "fst acc \<noteq> [] \<Longrightarrow> elect_step H prev h round e acc = (if outranks (sc H prev h round e) acc then sc H prev h round e else acc)"
  by (cases e; cases acc) (simp add: elect_step_def sc_def outranks_def Let_def)

interpretation election: selection outranks UNIV
  by unfold_locales (simp_all add: outranks_irrefl outranks_total, rule outranks_trans)

lemma elect_fold:
  assumes "fst acc \<noteq> []" "\<forall>e\<in>set es. fst e \<noteq> []"
  shows "fold (elect_step H prev h round) es acc =
    fold (\<lambda>e acc. if outranks (sc H prev h round e) acc then sc H prev h round e else acc) es acc"
  using assms
proof (induction es arbitrary: acc)
  case (Cons e es)
  then have "fst (if outranks (sc H prev h round e) acc then sc H prev h round e else acc) \<noteq> []"
    by (simp add: sc_def)
  with Cons show ?case by (simp add: elect_step_eq)
qed simp

lemma copies_pos: "0 < unat (copies w v)"
  by (auto simp: copies_def word_less_nat_alt split: option.split)

lemma set_entrants: "set (entrants w vs) = {(v, j). v \<in> set vs \<and> unat j < unat (copies w v)}"
proof -
  have "unat (of_nat j :: u64) = j" if "j < unat (copies w v)" for v j
    using that unsigned_less [of "copies w v", where ?'a = nat] by (intro unat_of_nat_small) simp
  moreover have "\<exists>k<unat (copies w v). j = of_nat k" if "unat j < unat (copies w v)" for v and j :: u64
    using that by (intro exI [of _ "unat j"]) simp
  ultimately show ?thesis by (force simp: entrants_def)
qed

text \<open>The scored entries of an election.\<close>

definition ballot :: "(bytes \<Rightarrow> hash) \<Rightarrow> PoStorage \<Rightarrow> u64 \<Rightarrow> hash \<Rightarrow> u32 \<Rightarrow> (address \<times> u64) set" where
  "ballot H p h prev round =
     {(v, leaderScore H prev v h round j) | v j. v \<in> set (validators p) \<and> unat j < unat (copies (weights p) v)}"

lemma LeaderFor_wins:
  assumes "validators p \<noteq> []" "[] \<notin> set (validators p)"
  shows "\<exists>s. election.top_of (LeaderFor H p h prev round, s) (ballot H p h prev round)"
proof -
  let ?es = "entrants (weights p) (validatorSet (validators p))"
  let ?r = "fold (elect_step H prev h round) ?es ([], 0)"
  have ball: "sc H prev h round ` set ?es = ballot H p h prev round"
    by (force simp: ballot_def set_entrants sc_def)
  obtain v where "v \<in> set (validators p)" using assms(1) by (meson last_in_set)
  then have "(v, 0) \<in> set ?es" using copies_pos by (simp add: set_entrants)
  then obtain e es where es: "?es = e # es" by (cases ?es) auto
  have ne: "\<forall>x\<in>set ?es. fst x \<noteq> []" using assms(2) by (auto simp: set_entrants)
  have first: "elect_step H prev h round e ([], 0) = sc H prev h round e"
    by (cases e) (simp add: elect_step_def sc_def Let_def)
  have "election.top_of ?r (insert (sc H prev h round e) (sc H prev h round ` set es))"
    using ne by (simp add: es first elect_fold sc_def) (intro election.fold_select, auto simp: sc_def)
  then have "election.top_of ?r (ballot H p h prev round)" by (simp add: es flip: ball)
  then show ?thesis unfolding LeaderFor_def by (intro exI [of _ "snd ?r"]) simp
qed

section \<open>Properties\<close>

definition demo_pos :: PoStorage where
  "demo_pos = \<lparr>validators = [[0x62], [0x61], [0x62]], weights = Some [([0x61], 3)], PosSelf = [0x61], eligible = True\<rparr>"

text \<open>
  C19. Leader election: over a non-empty validator set (no empty address) the leader is a validator,
  one of its weighted entries has the highest score, ties go to the lower address, and the
  result depends on the set and the weights only, not on order or repetitions of the list.
\<close>

theorem LeaderFor_elected:
  assumes "validators p \<noteq> []" "[] \<notin> set (validators p)"
  shows "LeaderFor H p h prev round \<in> set (validators p) \<and>
    (\<exists>j. unat j < unat (copies (weights p) (LeaderFor H p h prev round)) \<and>
      (\<forall>v\<in>set (validators p). \<forall>i. unat i < unat (copies (weights p) v) \<longrightarrow>
         leaderScore H prev v h round i < leaderScore H prev (LeaderFor H p h prev round) h round j \<or>
         (leaderScore H prev v h round i = leaderScore H prev (LeaderFor H p h prev round) h round j \<and>
            \<not> str_less v (LeaderFor H p h prev round)))) \<and>
    (\<forall>q :: PoStorage. set (validators q) = set (validators p) \<and> weights q = weights p \<longrightarrow>
       LeaderFor H q h prev round = LeaderFor H p h prev round)"
proof (intro conjI allI impI)
  let ?l = "LeaderFor H p h prev round"
  from LeaderFor_wins [OF assms, of H h prev round] obtain s where
    s: "(?l, s) \<in> ballot H p h prev round"
    and top: "\<And>q. q \<in> ballot H p h prev round \<Longrightarrow> (?l, s) = q \<or> outranks (?l, s) q"
    by (auto simp: election.top_of_def)
  from s obtain j where l: "?l \<in> set (validators p)" and j: "unat j < unat (copies (weights p) ?l)"
    "s = leaderScore H prev ?l h round j" by (auto simp: ballot_def)
  show "?l \<in> set (validators p)" by (rule l)
  have "leaderScore H prev v h round i < s \<or> (leaderScore H prev v h round i = s \<and> \<not> str_less v ?l)"
    if "v \<in> set (validators p)" "unat i < unat (copies (weights p) v)" for v i
    using top [of "(v, leaderScore H prev v h round i)"] that
    by (auto simp: ballot_def outranks_def dest: str_less_asym)
  with j show "\<exists>j. unat j < unat (copies (weights p) ?l) \<and>
      (\<forall>v\<in>set (validators p). \<forall>i. unat i < unat (copies (weights p) v) \<longrightarrow>
         leaderScore H prev v h round i < leaderScore H prev ?l h round j \<or>
         (leaderScore H prev v h round i = leaderScore H prev ?l h round j \<and> \<not> str_less v ?l))" by blast
  fix q :: PoStorage assume "set (validators q) = set (validators p) \<and> weights q = weights p"
  then show "LeaderFor H q h prev round = ?l"
    using validatorSet_cong [of "validators q" "validators p"] by (simp add: LeaderFor_def)
qed

theorem LeaderFor_elected_witness:
  "validators demo_pos \<noteq> [] \<and> [] \<notin> set (validators demo_pos) \<and>
   LeaderFor sha256 demo_pos 1 Zero 0 \<in> {[0x61], [0x62]}"
proof -
  have h: "validators demo_pos \<noteq> []" "[] \<notin> set (validators demo_pos)" by (simp_all add: demo_pos_def)
  have "LeaderFor sha256 demo_pos 1 Zero 0 \<in> set (validators demo_pos)"
    by (rule LeaderFor_elected [OF h, THEN conjunct1])
  with h show ?thesis by (auto simp: demo_pos_def)
qed

text \<open>
  One producer per height and round: of two headers that the engine authorizes for the same
  height above genesis, previous block and round, both name the same validator; and a header
  that a node allowed to produce signs for the slot is authorized.
\<close>

theorem AuthorizeHeader_one_leader:
  assumes "AuthorizeHeader H V p a = None" "Height a \<noteq> 0"
    and "Height b = Height a" "PrevHash b = PrevHash a" "Round b = Round a"
  shows "(AuthorizeHeader H V p b = None \<longrightarrow> Validator b = Validator a) \<and>
    (CanProduce H p (Height a) (PrevHash a) (Round a) \<and> Validator b = PosSelf p \<and> HdrVerifySig H V b = None \<longrightarrow>
       AuthorizeHeader H V p b = None \<and> Validator a = PosSelf p)"
  using assms by (auto simp: AuthorizeHeader_def CanProduce_def split: option.splits if_splits)

definition solo :: PoStorage where
  "solo = \<lparr>validators = [AddressFromPub sha256 (replicate 32 1)], weights = None,
     PosSelf = AddressFromPub sha256 (replicate 32 1), eligible = True\<rparr>"

definition slot_hdr :: Header where
  "slot_hdr = \<lparr>Height = 1, PrevHash = Zero, MerkleRoot = Zero, Timestamp = 0,
     Validator = AddressFromPub sha256 (replicate 32 1), TxCount = 0, Round = 0, Spec = \<lparr>K = 1, M = 1\<rparr>,
     BodyHash = Zero, LogsRoot = Zero, HdrSig = [], ValPubKey = replicate 32 1\<rparr>"

lemma solo_leader: "LeaderFor sha256 solo h prev round = AddressFromPub sha256 (replicate 32 1)"
proof -
  have "validators solo \<noteq> []" "[] \<notin> set (validators solo)"
    by (simp_all add: solo_def AddressFromPub_def AddressPrefix_def)
  from LeaderFor_wins [OF this, of sha256 h prev round] show ?thesis
    by (auto simp: election.top_of_def ballot_def solo_def)
qed

theorem AuthorizeHeader_one_leader_witness:
  "AuthorizeHeader sha256 (\<lambda>_ _ _. True) solo slot_hdr = None \<and> Height slot_hdr \<noteq> 0 \<and>
   AuthorizeHeader sha256 (\<lambda>_ _ _. True) solo (slot_hdr\<lparr>Timestamp := 9\<rparr>) = None"
proof -
  let ?b = "slot_hdr\<lparr>Timestamp := 9\<rparr>" and ?V = "\<lambda>_ _ _. True"
  have sig: "HdrVerifySig sha256 ?V slot_hdr = None" "HdrVerifySig sha256 ?V ?b = None"
    by (simp_all add: HdrVerifySig_def slot_hdr_def PubMatchesAddress_def VerifyMsg_def PublicKeySize_def)
  have a: "AuthorizeHeader sha256 ?V solo slot_hdr = None"
    using sig(1) by (simp add: AuthorizeHeader_def solo_leader) (simp add: slot_hdr_def solo_def)
  have h: "Height slot_hdr \<noteq> 0" "Height ?b = Height slot_hdr" "PrevHash ?b = PrevHash slot_hdr" "Round ?b = Round slot_hdr"
    by (simp_all add: slot_hdr_def)
  have c: "CanProduce sha256 solo (Height slot_hdr) (PrevHash slot_hdr) (Round slot_hdr)" "Validator ?b = PosSelf solo"
    by (simp_all add: CanProduce_def solo_leader) (simp_all add: solo_def slot_hdr_def AddressFromPub_def AddressPrefix_def)
  show ?thesis using a h c sig AuthorizeHeader_one_leader [OF a h] by blast
qed

end
