(* ===== verification/SL_Sharding.thy ===== *)
theory SL_Sharding
  imports SL_Types SL_Order
begin

text \<open>
  Who stores what: \<^verbatim>\<open>internal/netparams/netparams.go\<close> (shard counts and replication for a network
  size), \<^verbatim>\<open>internal/rendezvous/rendezvous.go\<close> (the holders of a shard by highest random weight)
  and \<^verbatim>\<open>internal/erasure/erasure.go\<close> (framing, sharding and rebuilding of a body).

  The Reed-Solomon code itself is the package \<^verbatim>\<open>klauspost/reedsolomon\<close>: splitting and encoding a
  padded payload, reconstructing missing shards and the parity check are the arguments \<open>rs\<close>,
  \<open>rebuild\<close> and \<open>check\<close> of the definitions.
\<close>

section \<open>Network parameters\<close>

definition minTotalShards :: int where "minTotalShards = 3"
definition maxTotalShards :: int where "maxTotalShards = 24"

definition SpecFor :: "int \<Rightarrow> ShardSpec" where
  "SpecFor n =
     (let t = (if n < minTotalShards then minTotalShards else n);
          t = (if maxTotalShards < t then maxTotalShards else t);
          m = t div 3;
          m = (if m < 1 then 1 else m);
          k = t - m;
          k = (if k < 1 then 1 else k)
      in \<lparr>K = word_of_int k, M = word_of_int m\<rparr>)"

definition GenesisSpec :: ShardSpec where
  "GenesisSpec = \<lparr>K = 2, M = 1\<rparr>"

definition Replication :: "int \<Rightarrow> int" where
  "Replication n = (if n < 3 then 1 else if n < 8 then 2 else 3)"

section \<open>Rendezvous hashing\<close>

definition score :: "(bytes \<Rightarrow> hash) \<Rightarrow> bytes \<Rightarrow> hash \<Rightarrow> int \<Rightarrow> u64" where
  "score H nodeID blockID shardIndex =
     be_get (take 8 (H (nodeID @ blockID @ put_u32 (word_of_int shardIndex))))"

record ranked =
  rid :: bytes
  rscore :: u64

definition rank_less :: "ranked \<Rightarrow> ranked \<Rightarrow> bool" where
  "rank_less a b = (if rscore a \<noteq> rscore b then rscore b < rscore a else str_less (rid a) (rid b))"

definition Holders :: "(bytes \<Rightarrow> hash) \<Rightarrow> bytes list \<Rightarrow> hash \<Rightarrow> int \<Rightarrow> int \<Rightarrow> bytes list" where
  "Holders H nodes blockID shardIndex r =
     (if r \<le> 0 \<or> length nodes = 0 then []
      else let rs = sort_by rank_less (map (\<lambda>n. \<lparr>rid = n, rscore = score H n blockID shardIndex\<rparr>) nodes);
               r' = (if int (length rs) < r then int (length rs) else r)
           in map rid (take (nat r') rs))"

definition IsHolder :: "(bytes \<Rightarrow> hash) \<Rightarrow> bytes \<Rightarrow> bytes list \<Rightarrow> hash \<Rightarrow> int \<Rightarrow> int \<Rightarrow> bool" where
  "IsHolder H nodeID nodes blockID shardIndex r = (nodeID \<in> set (Holders H nodes blockID shardIndex r))"

definition AssignedShards :: "(bytes \<Rightarrow> hash) \<Rightarrow> bytes \<Rightarrow> bytes list \<Rightarrow> hash \<Rightarrow> int \<Rightarrow> int \<Rightarrow> int list" where
  "AssignedShards H nodeID nodes blockID tot r =
     filter (\<lambda>i. IsHolder H nodeID nodes blockID i r) (map int [0..<nat tot])"

section \<open>Erasure coding\<close>

datatype erasure_error = ErrBadSpec | ErrShortInput | ErrRS | ErrParity | ErrLength

definition shard_len :: "nat \<Rightarrow> nat \<Rightarrow> nat" where
  "shard_len k framed = (let l = (framed + k - 1) div k in if l = 0 then 1 else l)"

definition EncodeShards ::
    "(nat \<Rightarrow> nat \<Rightarrow> bytes \<Rightarrow> bytes list option) \<Rightarrow> bytes \<Rightarrow> ShardSpec \<Rightarrow> (erasure_error, bytes list \<times> nat \<times> nat) result" where
  "EncodeShards rs body spec =
     (let k = unat (K spec); m = unat (M spec) in
      if k < 1 \<or> m < 1 then Err ErrBadSpec
      else let framed = put_u32 (of_nat (length body)) @ body;
               shardLen = shard_len k (length framed);
               padded = framed @ replicate (shardLen * k - length framed) 0
           in case rs k m padded of
                None \<Rightarrow> Err ErrRS
              | Some all \<Rightarrow> Ok (all, shardLen, length body))"

definition Reconstruct ::
    "(nat \<Rightarrow> nat \<Rightarrow> bytes option list \<Rightarrow> bytes list option) \<Rightarrow> (nat \<Rightarrow> nat \<Rightarrow> bytes list \<Rightarrow> bool)
       \<Rightarrow> bytes option list \<Rightarrow> ShardSpec \<Rightarrow> int \<Rightarrow> (erasure_error, bytes) result" where
  "Reconstruct rebuild check shards spec origLen =
     (let k = unat (K spec); m = unat (M spec) in
      if k < 1 \<or> m < 1 then Err ErrBadSpec
      else if length shards \<noteq> k + m then Err ErrShortInput
      else if length (filter (\<lambda>s. s \<noteq> None) shards) < k then Err ErrShortInput
      else case rebuild k m shards of
        None \<Rightarrow> Err ErrRS
      | Some full \<Rightarrow>
          if \<not> check k m full then Err ErrParity
          else let joined = concat (take k full) in
            if length joined < 4 then Err ErrShortInput
            else let n = (be_get (take 4 joined) :: u32) in
              if uint n \<noteq> origLen \<or> length joined < unat n + 4 then Err ErrLength
              else Ok (take (unat n) (drop 4 joined)))"

definition ShardHash :: "(bytes \<Rightarrow> hash) \<Rightarrow> hash \<Rightarrow> int \<Rightarrow> bytes \<Rightarrow> hash" where
  "ShardHash H blockID i data = H (blockID @ put_u32 (word_of_int i) @ data)"

definition BuildShardSet ::
    "(bytes \<Rightarrow> hash) \<Rightarrow> (nat \<Rightarrow> nat \<Rightarrow> bytes \<Rightarrow> bytes list option) \<Rightarrow> hash \<Rightarrow> bytes \<Rightarrow> ShardSpec
       \<Rightarrow> (erasure_error, bytes list \<times> ShardSet) result" where
  "BuildShardSet H rs blockID body spec =
     rbind (EncodeShards rs body spec) (\<lambda>(shards, paddedLen, origLen).
       Ok (shards, \<lparr>SetBlockID = blockID, SetSpec = spec, PaddedLen = int paddedLen, OrigLen = int origLen,
                    SetShardHash = map (\<lambda>(i, s). ShardHash H blockID (int i) s) (enumerate 0 shards)\<rparr>))"

definition VerifyShard :: "(bytes \<Rightarrow> hash) \<Rightarrow> ShardSet \<Rightarrow> int \<Rightarrow> bytes \<Rightarrow> bool" where
  "VerifyShard H ss i data =
     (if i < 0 \<or> int (length (SetShardHash ss)) \<le> i then False
      else ShardHash H (SetBlockID ss) i data = SetShardHash ss ! nat i)"

section \<open>Holders\<close>

lemma rank_order: "sort_order rank_less"
proof
  show "rank_less a b \<Longrightarrow> rank_less b c \<Longrightarrow> rank_less a c" for a b c
    by (auto simp: rank_less_def split: if_splits intro: str_less_trans)
  show "rank_less a b \<or> rank_less b a" if "a \<noteq> b" for a b :: ranked
  proof (cases "rscore a = rscore b")
    case True
    with that have "rid a \<noteq> rid b" by (cases a; cases b) simp
    with True show ?thesis by (auto simp: rank_less_def dest: str_less_total)
  next
    case False
    then show ?thesis by (auto simp: rank_less_def)
  qed
qed (simp add: rank_less_def)

interpretation ranks: sort_order rank_less
  by (rule rank_order)

definition ranking :: "(bytes \<Rightarrow> hash) \<Rightarrow> bytes list \<Rightarrow> hash \<Rightarrow> int \<Rightarrow> bytes list" where
  "ranking H nodes blockID i = map rid (sort_by rank_less (map (\<lambda>n. \<lparr>rid = n, rscore = score H n blockID i\<rparr>) nodes))"

lemma Holders_ranking: "Holders H nodes blockID i r = take (nat r) (ranking H nodes blockID i)"
  by (auto simp: Holders_def ranking_def Let_def take_map min_def)

lemma mset_ranking: "mset (ranking H nodes blockID i) = mset nodes"
proof -
  have "mset (ranking H nodes blockID i) = image_mset rid (mset (map (\<lambda>n. \<lparr>rid = n, rscore = score H n blockID i\<rparr>) nodes))"
    by (simp add: ranking_def)
  also have "\<dots> = mset nodes" by (simp add: multiset.map_comp comp_def)
  finally show ?thesis .
qed

lemma length_ranking [simp]: "length (ranking H nodes blockID i) = length nodes"
  by (simp add: ranking_def)

lemma set_ranking [simp]: "set (ranking H nodes blockID i) = set nodes"
  using mset_ranking by (metis set_mset_mset)

lemma ranking_filter: "ranking H (filter P nodes) blockID i = filter P (ranking H nodes blockID i)"
proof -
  let ?f = "\<lambda>n. \<lparr>rid = n, rscore = score H n blockID i\<rparr>"
  have "map ?f (filter P nodes) = filter (\<lambda>x. P (rid x)) (map ?f nodes)"
    by (simp add: filter_map comp_def)
  then have "ranking H (filter P nodes) blockID i = map rid (filter (\<lambda>x. P (rid x)) (sort_by rank_less (map ?f nodes)))"
    unfolding ranking_def by (simp only: ranks.sort_by_filter)
  also have "\<dots> = filter P (ranking H nodes blockID i)"
    unfolding ranking_def filter_map comp_def ..
  finally show ?thesis .
qed

lemma ranking_cong: "mset nodes = mset nodes' \<Longrightarrow> ranking H nodes blockID i = ranking H nodes' blockID i"
  unfolding ranking_def by (rule arg_cong [where f = "map rid"], rule ranks.sort_by_cong) (simp add: mset_map)

lemma take_filter_id: "\<forall>x\<in>set (take n xs). P x \<Longrightarrow> take n (filter P xs) = take n xs"
proof (induction xs arbitrary: n)
  case (Cons x xs)
  then show ?case by (cases n) auto
qed simp

lemma take_filter_mono: "set (take n xs) \<inter> {x. P x} \<subseteq> set (take n (filter P xs))"
proof (induction xs arbitrary: n)
  case (Cons x xs)
  show ?case
  proof (cases n)
    case (Suc k)
    have "set (take k (filter P xs)) \<subseteq> set (take (Suc k) (filter P xs))" by (rule set_take_subset_set_take) simp
    with Cons.IH [of k] Suc show ?thesis by auto
  qed simp
qed simp

section \<open>Erasure framing\<close>

lemma shard_len_enough: "0 < k \<Longrightarrow> framed \<le> shard_len k framed * k"
proof -
  assume k: "0 < k"
  have "framed \<le> (framed + k - 1) div k * k"
  proof -
    have "(framed + k - 1) mod k < k" using k by simp
    then have "framed + k - 1 < (framed + k - 1) div k * k + k"
      using div_mult_mod_eq [of "framed + k - 1" k] by linarith
    with k show ?thesis by linarith
  qed
  then show ?thesis by (auto simp: shard_len_def Let_def)
qed

definition padded_payload :: "nat \<Rightarrow> bytes \<Rightarrow> bytes" where
  "padded_payload k body =
     (let framed = put_u32 (of_nat (length body)) @ body
      in framed @ replicate (shard_len k (length framed) * k - length framed) 0)"

lemma unframe:
  assumes "length body < 2 ^ 32"
  shows "unat (be_get (take 4 (padded_payload k body)) :: u32) = length body"
    "length body + 4 \<le> length (padded_payload k body)"
    "take (length body) (drop 4 (padded_payload k body)) = body"
  using assms by (simp_all add: padded_payload_def Let_def unat_of_nat_small)

lemma Encode_Ok:
  assumes "EncodeShards rs body spec = Ok (shards, pl, ol)"
  shows "1 \<le> unat (K spec)" "1 \<le> unat (M spec)" "rs (unat (K spec)) (unat (M spec)) (padded_payload (unat (K spec)) body) = Some shards"
    "ol = length body"
  using assms by (auto simp: EncodeShards_def padded_payload_def Let_def split: if_splits option.splits)

section \<open>Properties\<close>

text \<open>
  Shard counts: for every network size the spec has 3 to 24 shards in all, at least two data
  shards and one parity shard, and a third of them, rounded down, are parity; the \<open>uint8\<close>
  fields never wrap.
\<close>

theorem SpecFor_bounds:
  "3 \<le> Total (SpecFor n) \<and> Total (SpecFor n) \<le> 24 \<and> 2 \<le> K (SpecFor n) \<and> 1 \<le> M (SpecFor n) \<and>
   uint (M (SpecFor n)) = Total (SpecFor n) div 3 \<and>
   (3 \<le> n \<and> n \<le> 24 \<longrightarrow> Total (SpecFor n) = n)"
proof -
  define t where "t = (if n < 3 then 3 else if 24 < n then 24 else n)"
  have t: "3 \<le> t" "t \<le> 24" by (auto simp: t_def)
  have e: "SpecFor n = \<lparr>K = word_of_int (t - t div 3), M = word_of_int (t div 3)\<rparr>"
    by (auto simp: SpecFor_def Let_def t_def minTotalShards_def maxTotalShards_def)
  have u: "uint (word_of_int (t - t div 3) :: u8) = t - t div 3" "uint (word_of_int (t div 3) :: u8) = t div 3"
    using t by (subst uint_word_of_int_eq, subst take_bit_int_eq_self, auto)+
  have km: "uint (K (SpecFor n)) = t - t div 3" "uint (M (SpecFor n)) = t div 3"
    unfolding e ShardSpec.select_convs by (rule u)+
  have "2 \<le> K (SpecFor n)" "1 \<le> M (SpecFor n)" using t km by (simp_all add: word_le_def)
  moreover have "Total (SpecFor n) = t" by (simp add: Total_def km)
  ultimately show ?thesis using t km(2) by (auto simp: t_def)
qed

theorem SpecFor_bounds_witness: "3 \<le> (6 :: int) \<and> (6 :: int) \<le> 24 \<and> Total (SpecFor 6) = 6"
  using SpecFor_bounds [of 6] by simp

text \<open>
  C26. Rendezvous placement: a shard has \<open>min r n\<close> holders among distinct nodes, in an order that does
  not depend on the order of the node list; when a node that is not a holder leaves, the
  holders stay the same, and when any node leaves, the other holders remain holders.
\<close>

theorem Holders_stable:
  assumes "distinct nodes" "0 \<le> r"
  shows "length (Holders H nodes blockID i r) = min (nat r) (length nodes) \<and>
    distinct (Holders H nodes blockID i r) \<and> set (Holders H nodes blockID i r) \<subseteq> set nodes \<and>
    (\<forall>nodes'. mset nodes' = mset nodes \<longrightarrow> Holders H nodes' blockID i r = Holders H nodes blockID i r) \<and>
    (\<forall>gone. gone \<notin> set (Holders H nodes blockID i r) \<longrightarrow>
       Holders H (filter (\<lambda>n. n \<noteq> gone) nodes) blockID i r = Holders H nodes blockID i r) \<and>
    (\<forall>gone. set (Holders H nodes blockID i r) - {gone} \<subseteq>
       set (Holders H (filter (\<lambda>n. n \<noteq> gone) nodes) blockID i r))"
proof (intro conjI allI impI)
  let ?rk = "ranking H nodes blockID i"
  have d: "distinct ?rk" using assms(1) mset_ranking mset_eq_imp_distinct_iff by blast
  show "length (Holders H nodes blockID i r) = min (nat r) (length nodes)"
    by (simp add: Holders_ranking min.commute)
  show "distinct (Holders H nodes blockID i r)" using d by (simp add: Holders_ranking)
  show "set (Holders H nodes blockID i r) \<subseteq> set nodes"
    unfolding Holders_ranking using set_take_subset [of "nat r" ?rk] by simp
  show "Holders H nodes' blockID i r = Holders H nodes blockID i r" if "mset nodes' = mset nodes" for nodes'
    unfolding Holders_ranking by (simp only: ranking_cong [OF that])
  show "Holders H (filter (\<lambda>n. n \<noteq> gone) nodes) blockID i r = Holders H nodes blockID i r"
    if "gone \<notin> set (Holders H nodes blockID i r)" for gone
    unfolding Holders_ranking ranking_filter using that
    by (intro take_filter_id) (auto simp: Holders_ranking)
  show "set (Holders H nodes blockID i r) - {gone} \<subseteq> set (Holders H (filter (\<lambda>n. n \<noteq> gone) nodes) blockID i r)" for gone
    unfolding Holders_ranking ranking_filter using take_filter_mono [of "nat r" ?rk "\<lambda>n. n \<noteq> gone"] by auto
qed

theorem Holders_stable_witness:
  "distinct [[1], [2], [3 :: byte]] \<and> length (Holders sha256 [[1], [2], [3]] Zero 0 2) = 2"
proof -
  have d: "distinct [[1], [2], [3 :: byte]]" and r: "0 \<le> (2 :: int)" by simp_all
  have "length (Holders sha256 [[1], [2], [3]] Zero 0 2) = min (nat 2) (length [[1], [2], [3 :: byte]])"
    by (rule Holders_stable [OF d r, THEN conjunct1])
  with d show ?thesis by simp
qed

lemma Reconstruct_eq:
  assumes "1 \<le> unat (K spec)" "1 \<le> unat (M spec)" "length got = unat (K spec) + unat (M spec)"
    and "unat (K spec) \<le> length (filter (\<lambda>g. g \<noteq> None) got)"
    and "rebuild (unat (K spec)) (unat (M spec)) got = Some full" "check (unat (K spec)) (unat (M spec)) full"
    and "concat (take (unat (K spec)) full) = joined"
    and "unat (be_get (take 4 joined) :: u32) = n" "n + 4 \<le> length joined"
  shows "Reconstruct rebuild check got spec (int n) = Ok (take n (drop 4 joined))"
  using assms by (auto simp: Reconstruct_def Let_def)

text \<open>
  Rebuilding a body: let the Reed-Solomon code split a payload into shards that begin with the
  payload, restore all shards from any \<open>K\<close> of them, and accept its own shards in the parity
  check.  Then a body under 4 GiB is rebuilt from any \<open>K\<close> of the shards \<^verbatim>\<open>Encode\<close> made of it.
\<close>

lemma Reconstruct_Encode:
  assumes "EncodeShards rs body spec = Ok (shards, pl, ol)" "length body < 2 ^ 32"
    and "length shards = unat (K spec) + unat (M spec)"
    and "concat (take (unat (K spec)) shards) = padded_payload (unat (K spec)) body"
    and "\<And>got. list_all2 (\<lambda>g s. g = None \<or> g = Some s) got shards \<Longrightarrow>
       unat (K spec) \<le> length (filter (\<lambda>g. g \<noteq> None) got) \<Longrightarrow> rebuild (unat (K spec)) (unat (M spec)) got = Some shards"
    and "check (unat (K spec)) (unat (M spec)) shards"
    and "list_all2 (\<lambda>g s. g = None \<or> g = Some s) got shards" "unat (K spec) \<le> length (filter (\<lambda>g. g \<noteq> None) got)"
  shows "Reconstruct rebuild check got spec (int ol) = Ok body"
proof -
  note e = Encode_Ok [OF assms(1)] and u = unframe [OF assms(2), of "unat (K spec)"]
  have l: "length got = unat (K spec) + unat (M spec)" using list_all2_lengthD [OF assms(7)] assms(3) by (rule trans)
  have "Reconstruct rebuild check got spec (int (length body)) = Ok (take (length body) (drop 4 (padded_payload (unat (K spec)) body)))"
    by (rule Reconstruct_eq [where rebuild = rebuild and check = check and full = shards])
      (rule e(1,2) l assms(8) assms(5) [OF assms(7,8)] assms(6,4) u(1,2))+
  then show ?thesis unfolding e(4) u(3) .
qed

text \<open>The witness: one data shard and one parity shard, the parity a copy of the data.\<close>

definition copy_code :: "nat \<Rightarrow> nat \<Rightarrow> bytes \<Rightarrow> bytes list option" where
  "copy_code k m p = (if k = 1 \<and> m = 1 then Some [p, p] else None)"

definition copy_rebuild :: "nat \<Rightarrow> nat \<Rightarrow> bytes option list \<Rightarrow> bytes list option" where
  "copy_rebuild k m got =
     (case got of [Some p, _] \<Rightarrow> Some [p, p] | [None, Some p] \<Rightarrow> Some [p, p] | _ \<Rightarrow> None)"

lemma Reconstruct_Encode_example:
  "\<exists>shards pl. EncodeShards copy_code [7, 8, 9] \<lparr>K = 1, M = 1\<rparr> = Ok (shards, pl, 3) \<and>
     Reconstruct copy_rebuild (\<lambda>_ _ s. s ! 0 = s ! 1) [None, Some (shards ! 1)] \<lparr>K = 1, M = 1\<rparr> 3 = Ok [7, 8, 9]"
proof -
  let ?spec = "\<lparr>K = 1, M = 1\<rparr>" and ?p = "padded_payload 1 [7, 8, 9]"
  have e: "EncodeShards copy_code [7, 8, 9] ?spec = Ok ([?p, ?p], 7, 3)"
    by (simp add: EncodeShards_def copy_code_def padded_payload_def Let_def shard_len_def)
  have r: "copy_rebuild (unat (K ?spec)) (unat (M ?spec)) got = Some [?p, ?p]"
    if "list_all2 (\<lambda>g s. g = None \<or> g = Some s) got [?p, ?p]" "unat (K ?spec) \<le> length (filter (\<lambda>g. g \<noteq> None) got)" for got
    using that by (auto simp: list_all2_Cons2 copy_rebuild_def)
  have "Reconstruct copy_rebuild (\<lambda>_ _ s. s ! 0 = s ! 1) [None, Some ?p] ?spec (int 3) = Ok [7, 8, 9]"
  proof (rule Reconstruct_Encode [where shards = "[?p, ?p]" and rs = copy_code and pl = 7])
    show "EncodeShards copy_code [7, 8, 9] ?spec = Ok ([?p, ?p], 7, 3)" by (rule e)
  qed (use r in \<open>simp_all\<close>)
  with e show ?thesis by auto
qed

lemma VerifyShard_eq:
  assumes "BuildShardSet H rs blockID body spec = Ok (shards, ss)" "i < length shards"
  shows "VerifyShard H ss (int i) d \<longleftrightarrow>
    H (blockID @ put_u32 (of_nat i) @ d) = H (blockID @ put_u32 (of_nat i) @ shards ! i)"
proof -
  from assms(1) have ss: "SetBlockID ss = blockID"
    "SetShardHash ss = map (\<lambda>(i, s). ShardHash H blockID (int i) s) (enumerate 0 shards)"
    by (auto simp: BuildShardSet_def)
  then have h: "SetShardHash ss ! i = ShardHash H blockID (int i) (shards ! i)" "length (SetShardHash ss) = length shards"
    using assms(2) by (simp_all add: nth_enumerate_eq)
  then show ?thesis using assms(2) by (simp add: VerifyShard_def ss(1) ShardHash_def)
qed

lemma VerifyShard_own:
  assumes "BuildShardSet H rs blockID body spec = Ok (shards, ss)" "i < length shards"
  shows "VerifyShard H ss (int i) (shards ! i)"
  by (simp add: VerifyShard_eq [OF assms])

text \<open>
  C27. Shard commitments: every shard of a built set passes \<^verbatim>\<open>VerifyShard\<close> at its index, and other
  bytes that pass there exhibit a collision of the hash function.
\<close>

theorem VerifyShard_commits:
  assumes "BuildShardSet H rs blockID body spec = Ok (shards, ss)" "i < length shards"
  shows "VerifyShard H ss (int i) (shards ! i) \<and>
    (\<forall>d. VerifyShard H ss (int i) d \<longrightarrow> d = shards ! i \<or>
       (let enc = (\<lambda>d. blockID @ put_u32 (of_nat i) @ d) in enc d \<noteq> enc (shards ! i) \<and> H (enc d) = H (enc (shards ! i))))"
  by (simp add: VerifyShard_eq [OF assms] Let_def)

theorem VerifyShard_commits_witness:
  "\<exists>shards ss. BuildShardSet sha256 copy_code Zero [7] \<lparr>K = 1, M = 1\<rparr> = Ok (shards, ss) \<and> 0 < length shards \<and>
     VerifyShard sha256 ss 0 (shards ! 0)"
proof -
  obtain shards ss where b: "BuildShardSet sha256 copy_code Zero [7] \<lparr>K = 1, M = 1\<rparr> = Ok (shards, ss)" and l: "0 < length shards"
    by (auto simp: BuildShardSet_def EncodeShards_def copy_code_def Let_def)
  show ?thesis using b l VerifyShard_commits [OF b l] by auto
qed

end
