(* ===== verification/SL_Bloom.thy ===== *)
theory SL_Bloom
  imports SL_Prelude
begin

unbundle bit_operations_syntax

text \<open>
  \<^verbatim>\<open>internal/bloom/bloom.go\<close>: the Bloom filter of the shards a node holds.  The sizing in \<^verbatim>\<open>New\<close>
  computes with floating-point logarithms and is not modelled; what the rest relies on is that
  the filter has at least one bit and a bitmap that covers its bits.  Outside that the code
  panics, on a division by zero or an index out of range.
\<close>

record Filter =
  Bits :: "u64 list"
  FM :: u64
  FK :: u64

text \<open>\<^verbatim>\<open>hash/fnv\<close>, the 64-bit FNV-1a hash.\<close>

definition fnv64a :: "bytes \<Rightarrow> u64" where
  "fnv64a d = fold (\<lambda>b h. (h XOR ucast b) * 1099511628211) d 14695981039346656037"

definition hashes :: "bytes \<Rightarrow> u64 \<times> u64" where
  "hashes h = (fnv64a h, be_get (take 8 (drop 24 h)) OR 1)"

definition nth_bit :: "Filter \<Rightarrow> bytes \<Rightarrow> nat \<Rightarrow> u64" where
  "nth_bit f h i = (case hashes h of (a, b) \<Rightarrow> (a + of_nat i * b) mod FM f)"

definition word_at :: "u64 \<Rightarrow> nat" where
  "word_at b = unat (b div 64)"

definition mask_of :: "u64 \<Rightarrow> u64" where
  "mask_of b = push_bit (unat (b mod 64)) 1"

text \<open>One turn of the loops of \<open>Add\<close> and \<open>Test\<close>; \<open>Panic\<close> when the index is out of range or \<open>M\<close> is 0.\<close>

definition add_bit :: "bytes \<Rightarrow> nat \<Rightarrow> Filter \<Rightarrow> (unit, Filter) result" where
  "add_bit h i f =
     (if FM f = 0 then Panic
      else let b = nth_bit f h i in
        if length (Bits f) \<le> word_at b then Panic
        else Ok (f\<lparr>Bits := (Bits f)[word_at b := Bits f ! word_at b OR mask_of b]\<rparr>))"

fun AddLoop :: "bytes \<Rightarrow> nat list \<Rightarrow> Filter \<Rightarrow> (unit, Filter) result" where
  "AddLoop h [] f = Ok f"
| "AddLoop h (i # is) f = rbind (add_bit h i f) (AddLoop h is)"

definition AddTo :: "bytes \<Rightarrow> Filter \<Rightarrow> (unit, Filter) result" where
  "AddTo h f = AddLoop h [0..<unat (FK f)] f"

definition test_bit_at :: "Filter \<Rightarrow> bytes \<Rightarrow> nat \<Rightarrow> (unit, bool) result" where
  "test_bit_at f h i =
     (if FM f = 0 then Panic
      else let b = nth_bit f h i in
        if length (Bits f) \<le> word_at b then Panic
        else Ok (Bits f ! word_at b AND mask_of b \<noteq> 0))"

fun TestLoop :: "Filter \<Rightarrow> bytes \<Rightarrow> nat list \<Rightarrow> (unit, bool) result" where
  "TestLoop f h [] = Ok True"
| "TestLoop f h (i # is) = rbind (test_bit_at f h i) (\<lambda>ok. if ok then TestLoop f h is else Ok False)"

definition Test :: "Filter \<Rightarrow> bytes \<Rightarrow> (unit, bool) result" where
  "Test f h = TestLoop f h [0..<unat (FK f)]"

section \<open>Bits\<close>

definition filter_ok :: "Filter \<Rightarrow> bool" where
  "filter_ok f \<longleftrightarrow> FM f \<noteq> 0 \<and> unat (FM f) \<le> 64 * length (Bits f)"

definition has :: "Filter \<Rightarrow> u64 \<Rightarrow> bool" where
  "has f b \<longleftrightarrow> bit (Bits f ! word_at b) (unat (b mod 64))"

lemma mod64_less: "unat (b mod 64 :: u64) < 64"
  by (simp add: unat_mod)

lemma bit_mask: "bit (mask_of b) n \<longleftrightarrow> n = unat (b mod 64)"
  using mod64_less [of b] by (auto simp: mask_of_def bit_simps)

lemma and_mask: "(w AND mask_of b \<noteq> 0) = bit w (unat (b mod 64))"
proof
  assume "bit w (unat (b mod 64))"
  then have "bit (w AND mask_of b) (unat (b mod 64))" by (simp add: bit_and_iff bit_mask)
  then show "w AND mask_of b \<noteq> 0" by auto
next
  assume "w AND mask_of b \<noteq> 0"
  then obtain n where "bit (w AND mask_of b) n" using bit_word_eqI [of "w AND mask_of b" 0] by auto
  then show "bit w (unat (b mod 64))" by (auto simp: bit_and_iff bit_mask)
qed

lemma bit_or_mask: "n < 64 \<Longrightarrow> bit (w OR mask_of b) n \<longleftrightarrow> bit w n \<or> n = unat (b mod 64)"
  by (simp add: bit_or_iff bit_mask)

lemma nth_bit_range:
  assumes "filter_ok f"
  shows "word_at (nth_bit f h i) < length (Bits f)"
proof -
  have "unat (nth_bit f h i) < unat (FM f)"
    using assms by (auto simp: nth_bit_def filter_ok_def unat_mod unat_gt_0 split: prod.split)
  then have "unat (nth_bit f h i) div 64 < length (Bits f)"
    using assms by (auto simp: filter_ok_def)
  then show ?thesis by (simp add: word_at_def unat_div)
qed

lemma add_bit_Ok:
  assumes "filter_ok f"
  shows "\<exists>g. add_bit h i f = Ok g \<and> FM g = FM f \<and> FK g = FK f \<and> filter_ok g \<and> has g (nth_bit f h i) \<and>
    (\<forall>b. word_at b < length (Bits f) \<longrightarrow> has f b \<longrightarrow> has g b) \<and> length (Bits g) = length (Bits f)"
proof -
  let ?b = "nth_bit f h i"
  let ?g = "f\<lparr>Bits := (Bits f)[word_at ?b := Bits f ! word_at ?b OR mask_of ?b]\<rparr>"
  have r: "word_at ?b < length (Bits f)" using nth_bit_range [OF assms] .
  then have "add_bit h i f = Ok ?g" using assms by (simp add: add_bit_def Let_def filter_ok_def)
  moreover have "has ?g ?b" using r mod64_less [of ?b] by (simp add: has_def bit_or_mask)
  moreover have "has ?g c" if "word_at c < length (Bits f)" "has f c" for c
    using that mod64_less [of c] by (cases "word_at c = word_at ?b") (simp_all add: has_def bit_or_mask)
  ultimately show ?thesis using assms by (auto simp: filter_ok_def)
qed

lemma nth_bit_cong: "FM g = FM f \<Longrightarrow> nth_bit g h i = nth_bit f h i"
  by (simp add: nth_bit_def)

lemma AddLoop_Ok:
  "filter_ok f \<Longrightarrow> \<exists>g. AddLoop h is f = Ok g \<and> FM g = FM f \<and> FK g = FK f \<and> filter_ok g \<and>
     (\<forall>i\<in>set is. has g (nth_bit f h i)) \<and> (\<forall>b. word_at b < length (Bits f) \<longrightarrow> has f b \<longrightarrow> has g b)
     \<and> length (Bits g) = length (Bits f)"
proof (induction "is" arbitrary: f)
  case (Cons i "is")
  from add_bit_Ok [OF Cons.prems, of h i] obtain g1 where g1: "add_bit h i f = Ok g1" "FM g1 = FM f" "FK g1 = FK f"
    "filter_ok g1" "has g1 (nth_bit f h i)" "\<And>b. word_at b < length (Bits f) \<Longrightarrow> has f b \<Longrightarrow> has g1 b"
    "length (Bits g1) = length (Bits f)" by blast
  from Cons.IH [OF g1(4)] obtain g where g: "AddLoop h is g1 = Ok g" "FM g = FM g1" "FK g = FK g1" "filter_ok g"
    "\<forall>i\<in>set is. has g (nth_bit g1 h i)" "\<And>b. word_at b < length (Bits g1) \<Longrightarrow> has g1 b \<Longrightarrow> has g b"
    "length (Bits g) = length (Bits g1)" by blast
  have "has g (nth_bit f h i)" using g(6) g1(5,7) nth_bit_range [OF Cons.prems] by simp
  then show ?case using g g1 by (auto simp: nth_bit_cong [OF g1(2)])
qed simp

lemma test_bit_Ok: "filter_ok f \<Longrightarrow> test_bit_at f h i = Ok (has f (nth_bit f h i))"
  using nth_bit_range [of f h i]
  by (auto simp: test_bit_at_def Let_def has_def and_mask filter_ok_def)

lemma TestLoop_Ok: "filter_ok f \<Longrightarrow> TestLoop f h is = Ok (\<forall>i\<in>set is. has f (nth_bit f h i))"
  by (induction "is") (auto simp: test_bit_Ok)

section \<open>Properties\<close>

text \<open>
  No false negatives: on a filter with at least one bit and a bitmap that covers its bits,
  adding a hash never fails, the hash then tests positive, everything that tested positive
  before still does, and the filter keeps that shape.
\<close>

theorem bloom_no_false_negatives:
  assumes "filter_ok f"
  shows "\<exists>g. AddTo h f = Ok g \<and> filter_ok g \<and> Test g h = Ok True \<and>
    (\<forall>h'. Test f h' = Ok True \<longrightarrow> Test g h' = Ok True)"
proof -
  from AddLoop_Ok [OF assms, of h "[0..<unat (FK f)]"] obtain g where
    g: "AddTo h f = Ok g" "FM g = FM f" "FK g = FK f" "filter_ok g"
      "\<forall>i\<in>set [0..<unat (FK f)]. has g (nth_bit f h i)"
      "\<And>b. word_at b < length (Bits f) \<Longrightarrow> has f b \<Longrightarrow> has g b"
    unfolding AddTo_def by blast
  have "has g (nth_bit g h' i)" if "has f (nth_bit f h' i)" for h' i
    using g(6) [OF nth_bit_range [OF assms] that] by (simp add: nth_bit_cong [OF g(2)])
  moreover have "Test g h' = Ok (\<forall>i\<in>set [0..<unat (FK f)]. has g (nth_bit f h' i))" for h'
    using TestLoop_Ok [OF g(4)] by (simp add: Test_def g(3) nth_bit_cong [OF g(2)])
  moreover have "Test f h' = Ok (\<forall>i\<in>set [0..<unat (FK f)]. has f (nth_bit f h' i))" for h'
    using TestLoop_Ok [OF assms] by (simp add: Test_def)
  ultimately show ?thesis using g by (auto simp: nth_bit_cong [OF g(2)])
qed

theorem bloom_no_false_negatives_witness:
  "\<exists>g. AddTo (replicate 32 5) \<lparr>Bits = [0, 0], FM = 100, FK = 3\<rparr> = Ok g \<and> Test g (replicate 32 5) = Ok True"
proof -
  have ok: "filter_ok \<lparr>Bits = [0, 0], FM = 100, FK = 3\<rparr>" by (simp add: filter_ok_def)
  show ?thesis using bloom_no_false_negatives [OF ok, of "replicate 32 5"] by blast
qed

end
