(* ===== verification/SL_Mempool.thy ===== *)
theory SL_Mempool
  imports SL_Ledger
begin

text \<open>
  \<^verbatim>\<open>internal/mempool/mempool.go\<close>: the pool of checked transactions waiting for a block.

  The pool keeps a pointer to the ledger; the operations that read it take the state as an
  argument.  \<^verbatim>\<open>Reap\<close> ranges over a map of senders, whose order Go leaves open: the order is an
  argument, any list of senders.
\<close>

record Pool =
  byID :: "(hash, Transaction) gomap"
  limit :: int

datatype pool_error = ErrCheck state_error | ErrFull

definition NewPool :: "int \<Rightarrow> Pool" where
  "NewPool n = \<lparr>byID = [], limit = (if n < 1 then 10000 else n)\<rparr>"

definition Submit ::
    "(bytes \<Rightarrow> hash) \<Rightarrow> (bytes \<Rightarrow> bytes \<Rightarrow> bytes \<Rightarrow> bool) \<Rightarrow> State \<Rightarrow> Transaction \<Rightarrow> Pool \<Rightarrow> (pool_error, Pool) result" where
  "Submit H V s t p =
     (case CheckTx H V s t of
        Some e \<Rightarrow> Err (ErrCheck e)
      | None \<Rightarrow>
          if limit p \<le> int (length (byID p)) then Err ErrFull
          else Ok (p\<lparr>byID := AList.update (TxHash H t) t (byID p)\<rparr>))"

definition Len :: "Pool \<Rightarrow> int" where
  "Len p = int (length (byID p))"

definition nonce_less :: "Transaction \<Rightarrow> Transaction \<Rightarrow> bool" where
  "nonce_less a b \<longleftrightarrow> Nonce a < Nonce b"

text \<open>
  The inner loop of \<open>Reap\<close>: take while the nonces run on, stop when the batch is full.  The flag
  is the early return.
\<close>

fun reap_sender :: "int \<Rightarrow> u64 \<Rightarrow> Transaction list \<Rightarrow> Transaction list \<Rightarrow> Transaction list \<times> bool" where
  "reap_sender mx next_nonce [] out = (out, False)"
| "reap_sender mx next_nonce (t # ts) out =
     (if Nonce t \<noteq> next_nonce then (out, False)
      else if mx \<le> int (length (out @ [t])) then (out @ [t], True)
      else reap_sender mx (next_nonce + 1) ts (out @ [t]))"

fun reap_all :: "int \<Rightarrow> State \<Rightarrow> Transaction list \<Rightarrow> address list \<Rightarrow> Transaction list \<Rightarrow> Transaction list" where
  "reap_all mx s txs [] out = out"
| "reap_all mx s txs (a # order) out =
     (case reap_sender mx (AcctNonce (Get s a)) (sort_by nonce_less (filter (\<lambda>t. From t = a) txs)) out of
        (out', True) \<Rightarrow> out'
      | (out', False) \<Rightarrow> reap_all mx s txs order out')"

definition Reap :: "address list \<Rightarrow> int \<Rightarrow> State \<Rightarrow> Pool \<Rightarrow> Transaction list" where
  "Reap order mx s p = reap_all mx s (map snd (byID p)) order []"

definition RemoveTxs :: "(bytes \<Rightarrow> hash) \<Rightarrow> Transaction list \<Rightarrow> Pool \<Rightarrow> Pool" where
  "RemoveTxs H txs p = p\<lparr>byID := fold (\<lambda>t m. AList.delete (TxHash H t) m) txs (byID p)\<rparr>"

section \<open>The batch\<close>

definition run_of :: "u64 \<Rightarrow> Transaction list \<Rightarrow> bool" where
  "run_of n ts \<longleftrightarrow> map Nonce ts = map (\<lambda>k. n + of_nat k) [0..<length ts]"

lemma run_of_Nil [simp]: "run_of n []"
  by (simp add: run_of_def)

lemma run_of_Cons: "run_of n (t # ts) \<longleftrightarrow> Nonce t = n \<and> run_of (n + 1) ts"
proof -
  have "[0..<Suc l] = 0 # map Suc [0..<l]" for l by (simp add: upt_conv_Cons map_Suc_upt del: upt_Suc)
  then show ?thesis by (simp add: run_of_def comp_def algebra_simps del: upt_Suc)
qed

lemma reap_sender_out:
  "\<exists>took. fst (reap_sender mx n ts out) = out @ took \<and> set took \<subseteq> set ts \<and> run_of n took \<and>
     (snd (reap_sender mx n ts out) \<longleftrightarrow> took \<noteq> [] \<and> mx \<le> int (length (out @ took))) \<and>
     (int (length out) < mx \<longrightarrow> int (length (out @ took)) \<le> mx)"
proof (induction ts arbitrary: n out)
  case (Cons t ts)
  show ?case
  proof (cases "Nonce t = n \<and> \<not> mx \<le> int (length (out @ [t]))")
    case True
    from Cons.IH [of "n + 1" "out @ [t]"] obtain took where
      "fst (reap_sender mx (n + 1) ts (out @ [t])) = (out @ [t]) @ took" "set took \<subseteq> set ts" "run_of (n + 1) took"
      "snd (reap_sender mx (n + 1) ts (out @ [t])) \<longleftrightarrow> took \<noteq> [] \<and> mx \<le> int (length ((out @ [t]) @ took))"
      "int (length (out @ [t])) < mx \<longrightarrow> int (length ((out @ [t]) @ took)) \<le> mx" by blast
    with True show ?thesis by (intro exI [of _ "t # took"]) (auto simp: run_of_Cons)
  next
    case False
    show ?thesis
    proof (cases "Nonce t = n")
      case True
      with False show ?thesis by (intro exI [of _ "[t]"]) (auto simp: run_of_Cons)
    next
      case False
      then show ?thesis by (intro exI [of _ "[]"]) auto
    qed
  qed
qed (auto intro: exI [of _ "[]"])

lemma from_txs_append [simp]: "from_txs a (xs @ ys) = from_txs a xs @ from_txs a ys"
  by (simp add: from_txs_def)

lemma from_txs_all: "\<forall>t\<in>set ts. From t = b \<Longrightarrow> from_txs a ts = (if a = b then ts else [])"
  by (auto simp: from_txs_def)

lemma reap_all_out:
  assumes "distinct order" "int (length out) < mx" "\<forall>t\<in>set out. From t \<notin> set order"
    and "\<And>a. run_of (AcctNonce (Get s a)) (from_txs a out)"
  shows "set (reap_all mx s txs order out) \<subseteq> set out \<union> set txs \<and>
    int (length (reap_all mx s txs order out)) \<le> mx \<and>
    (\<forall>a. run_of (AcctNonce (Get s a)) (from_txs a (reap_all mx s txs order out)))"
  using assms
proof (induction order arbitrary: out)
  case (Cons b order)
  let ?ts = "sort_by nonce_less (filter (\<lambda>t. From t = b) txs)"
  obtain took where took: "fst (reap_sender mx (AcctNonce (Get s b)) ?ts out) = out @ took" "set took \<subseteq> set ?ts"
    "run_of (AcctNonce (Get s b)) took"
    "snd (reap_sender mx (AcctNonce (Get s b)) ?ts out) \<longleftrightarrow> took \<noteq> [] \<and> mx \<le> int (length (out @ took))"
    "int (length (out @ took)) \<le> mx"
    using reap_sender_out [of mx "AcctNonce (Get s b)" ?ts out] Cons.prems(2) by blast
  have fr: "\<forall>t\<in>set took. From t = b" and sub: "set took \<subseteq> set txs" using took(2) by auto
  have nob: "from_txs b out = []" using Cons.prems(3) by (auto simp: from_txs_def filter_empty_conv)
  have runs: "run_of (AcctNonce (Get s a)) (from_txs a (out @ took))" for a
    using Cons.prems(4) [of a] took(3) nob by (auto simp: from_txs_all [OF fr])
  show ?case
  proof (cases "snd (reap_sender mx (AcctNonce (Get s b)) ?ts out)")
    case True
    then have "reap_all mx s txs (b # order) out = out @ took" using took(1) by (auto split: prod.split bool.split)
    then show ?thesis using took(5) sub runs by auto
  next
    case False
    then have r: "reap_all mx s txs (b # order) out = reap_all mx s txs order (out @ took)"
      using took(1) by (auto split: prod.split bool.split)
    have "int (length (out @ took)) < mx" using False took(4) Cons.prems(2) by auto
    moreover have "\<forall>t\<in>set (out @ took). From t \<notin> set order" using Cons.prems(1,3) fr by auto
    ultimately have "set (reap_all mx s txs order (out @ took)) \<subseteq> set (out @ took) \<union> set txs \<and>
        int (length (reap_all mx s txs order (out @ took))) \<le> mx \<and>
        (\<forall>a. run_of (AcctNonce (Get s a)) (from_txs a (reap_all mx s txs order (out @ took))))"
      using Cons.IH [of "out @ took"] Cons.prems(1) runs by auto
    with r sub show ?thesis by auto
  qed
qed auto

section \<open>Properties\<close>

text \<open>
  C28. A reaped batch fits a block: for any order of the senders and a positive bound, the batch
  holds pooled transactions only, at most the bound, and for every sender its transactions
  carry consecutive nonces from the account's nonce on, which is what block application asks.
\<close>

theorem Reap_consecutive:
  assumes "distinct order" "0 < mx"
  shows "set (Reap order mx s p) \<subseteq> snd ` set (byID p) \<and> int (length (Reap order mx s p)) \<le> mx \<and>
    (\<forall>a. map Nonce (filter (\<lambda>t. From t = a) (Reap order mx s p)) =
       map (\<lambda>k. AcctNonce (Get s a) + of_nat k) [0..<length (filter (\<lambda>t. From t = a) (Reap order mx s p))])"
  using reap_all_out [of order "[]" mx s "map snd (byID p)"] assms
  by (auto simp: Reap_def run_of_def from_txs_def)

definition demo_pool :: Pool where
  "demo_pool = \<lparr>byID = [([1], pay KindTransfer 5 1 []), ([2], pay KindTransfer 4 0 [])], limit = 10\<rparr>"

theorem Reap_consecutive_witness:
  "distinct [alice] \<and> (0 :: int) < 5 \<and>
   map Nonce (filter (\<lambda>t. From t = alice) (Reap [alice] 5 ledger0 demo_pool)) =
     map (\<lambda>k. AcctNonce (Get ledger0 alice) + of_nat k)
       [0..<length (filter (\<lambda>t. From t = alice) (Reap [alice] 5 ledger0 demo_pool))]"
proof -
  have h: "distinct [alice]" "(0 :: int) < 5" by simp_all
  show ?thesis using h Reap_consecutive [OF h, of ledger0 demo_pool] by blast
qed

text \<open>
  What the pool admits: submission succeeds exactly for a transaction that passes
  \<^verbatim>\<open>CheckTx\<close> while there is room; it is then in the pool under its hash, the pool holds at most
  its limit, and removing a batch leaves none of it behind.
\<close>

theorem Submit_spec:
  "((\<exists>q. Submit H V s t p = Ok q) \<longleftrightarrow> CheckTx H V s t = None \<and> Len p < limit p) \<and>
   (case Submit H V s t p of
      Ok q \<Rightarrow> map_of (byID q) (TxHash H t) = Some t \<and> Len q \<le> limit q \<and> limit q = limit p \<and>
        map_of (byID (RemoveTxs H (ts @ [t]) q)) (TxHash H t) = None
    | _ \<Rightarrow> True)"
proof -
  have len: "length (AList.update k v m) \<le> Suc (length m)" for k :: hash and v and m :: "(hash, Transaction) gomap"
    by (induction m) auto
  show ?thesis using len [of "TxHash H t" t "byID p"]
    by (auto simp: Submit_def Len_def RemoveTxs_def split: option.splits)
qed

end
