(* ===== verification/SL_Peers.thy ===== *)
theory SL_Peers
  imports SL_Prelude
begin

text \<open>
  Local peer hygiene: \<^verbatim>\<open>internal/p2p/banlist.go\<close> (strikes and bans with backoff) and the counters of
  \<^verbatim>\<open>internal/pos/pos.go\<close> (the storage-challenge scoreboard).

  Time is the clock reading passed in, in nanoseconds; \<^verbatim>\<open>time.Duration\<close> is an \<open>int64\<close>, so the
  shifted ban duration wraps like one.  The pass ratio is a floating-point quotient and is not
  modelled.
\<close>

section \<open>Ban list\<close>

record Banlist =
  strikes :: "(bytes, int) gomap"
  until :: "(bytes, int) gomap"
  threshold :: int
  base :: "64 word"

definition NewBanlist :: "int \<Rightarrow> 64 word \<Rightarrow> Banlist" where
  "NewBanlist thr b =
     \<lparr>strikes = [], until = [], threshold = (if thr < 1 then 3 else thr),
      base = (if sint b \<le> 0 then 600000000000 else b)\<rparr>"

definition count_of :: "Banlist \<Rightarrow> bytes \<Rightarrow> int" where
  "count_of b key = (case map_of (strikes b) key of Some n \<Rightarrow> n | None \<Rightarrow> 0)"

definition backoff :: "Banlist \<Rightarrow> int \<Rightarrow> int" where
  "backoff b n = (let e = n - threshold b; e = (if 6 < e then 6 else e) in sint (push_bit (nat e) (base b)))"

definition Strike :: "int \<Rightarrow> bytes \<Rightarrow> Banlist \<Rightarrow> Banlist \<times> bool" where
  "Strike now key b =
     (if key = [] then (b, False)
      else let n = count_of b key + 1; b1 = b\<lparr>strikes := AList.update key n (strikes b)\<rparr> in
        if n < threshold b then (b1, False)
        else (b1\<lparr>until := AList.update key (now + backoff b n) (until b)\<rparr>, True))"

definition Banned :: "int \<Rightarrow> bytes \<Rightarrow> Banlist \<Rightarrow> Banlist \<times> bool" where
  "Banned now key b =
     (if key = [] then (b, False)
      else case map_of (until b) key of
        None \<Rightarrow> (b, False)
      | Some u \<Rightarrow>
          if now < u then (b, True)
          else (b\<lparr>until := AList.delete key (until b), strikes := AList.delete key (strikes b)\<rparr>, False))"

definition BanSnapshot :: "(int \<Rightarrow> bytes) \<Rightarrow> int \<Rightarrow> Banlist \<Rightarrow> (bytes, bytes) gomap" where
  "BanSnapshot rfc3339 now b = map (\<lambda>(k, u). (k, rfc3339 u)) (filter (\<lambda>(k, u). now < u) (until b))"

section \<open>Scoreboard\<close>

definition Challenge :: "(bytes \<Rightarrow> hash) \<Rightarrow> hash \<Rightarrow> bytes \<Rightarrow> hash" where
  "Challenge H nonce shard = H (nonce @ shard)"

record Score =
  SPass :: u64
  SMiss :: u64
  LastSeen :: int

type_synonym Scoreboard = "(bytes, Score) gomap"

definition entry_of :: "bytes \<Rightarrow> Scoreboard \<Rightarrow> Score" where
  "entry_of i b = (case map_of b i of Some s \<Rightarrow> s | None \<Rightarrow> \<lparr>SPass = 0, SMiss = 0, LastSeen = 0\<rparr>)"

definition Pass :: "int \<Rightarrow> bytes \<Rightarrow> Scoreboard \<Rightarrow> Scoreboard" where
  "Pass now i b = AList.update i ((entry_of i b)\<lparr>SPass := SPass (entry_of i b) + 1, LastSeen := now\<rparr>) b"

definition Miss :: "bytes \<Rightarrow> Scoreboard \<Rightarrow> Scoreboard" where
  "Miss i b = AList.update i ((entry_of i b)\<lparr>SMiss := SMiss (entry_of i b) + 1\<rparr>) b"

section \<open>Runs of strikes\<close>

fun strike_run :: "int list \<Rightarrow> bytes \<Rightarrow> Banlist \<Rightarrow> Banlist" where
  "strike_run [] key b = b"
| "strike_run (now # ts) key b = strike_run ts key (fst (Strike now key b))"

lemma count_Strike: "key \<noteq> [] \<Longrightarrow> count_of (fst (Strike now key b)) key = count_of b key + 1"
  by (simp add: Strike_def Let_def count_of_def)

lemma threshold_Strike: "threshold (fst (Strike now key b)) = threshold b" "base (fst (Strike now key b)) = base b"
  by (simp_all add: Strike_def Let_def)

lemma until_Strike:
  "key \<noteq> [] \<Longrightarrow> map_of (until (fst (Strike now key b))) key =
     (if count_of b key + 1 < threshold b then map_of (until b) key else Some (now + backoff b (count_of b key + 1)))"
  by (simp add: Strike_def Let_def)

lemma strike_run_spec:
  assumes "key \<noteq> []"
  shows "count_of (strike_run ts key b) key = count_of b key + int (length ts)"
    and "threshold (strike_run ts key b) = threshold b" and "base (strike_run ts key b) = base b"
  using assms by (induction ts arbitrary: b) (simp_all add: count_Strike threshold_Strike)

lemma strike_run_append: "strike_run (ts @ us) key b = strike_run us key (strike_run ts key b)"
  by (induction ts arbitrary: b) auto

lemma backoff_cong: "threshold b = threshold c \<Longrightarrow> base b = base c \<Longrightarrow> backoff b n = backoff c n"
  by (simp add: backoff_def)

lemma sint_push_small:
  assumes "0 \<le> sint (w :: 64 word)" "sint w * 2 ^ e < 2 ^ 63"
  shows "sint (push_bit e w) = sint w * 2 ^ e"
proof -
  have "push_bit e w = word_of_int (sint w * 2 ^ e)"
    by (simp add: push_bit_eq_mult)
  moreover from assms(1) have "0 \<le> sint w * 2 ^ e" by simp
  then have "sint (word_of_int (sint w * 2 ^ e) :: 64 word) = sint w * 2 ^ e"
    by (intro sint_of_int_small) (use assms(2) in linarith)+
  ultimately show ?thesis by (simp only:)
qed

lemma backoff_exact:
  assumes "0 \<le> sint (base b)" "sint (base b) * 64 < 2 ^ 63"
  shows "backoff b n = sint (base b) * 2 ^ nat (min 6 (n - threshold b))"
proof -
  define e where "e = nat (min 6 (n - threshold b))"
  have "e \<le> 6" by (simp add: e_def)
  then have "(2 :: int) ^ e \<le> 2 ^ 6" by (rule power_increasing) simp
  then have "sint (base b) * 2 ^ e \<le> sint (base b) * 2 ^ 6" using assms(1) by (rule mult_left_mono)
  with assms(2) have lt: "sint (base b) * 2 ^ e < 2 ^ 63" by simp
  have "backoff b n = sint (push_bit e (base b))"
    by (simp add: backoff_def Let_def e_def min_def not_le)
  with sint_push_small [OF assms(1) lt] show ?thesis by (simp add: e_def)
qed

lemma until_strike_run:
  assumes "key \<noteq> []" "map_of (strikes b) key = None" "map_of (until b) key = None"
  shows "map_of (until (strike_run (ts @ [t]) key b)) key =
      (if int (length ts) + 1 < threshold b then None else Some (t + backoff b (int (length ts) + 1)))"
proof (induction ts arbitrary: t rule: rev_induct)
  case Nil
  then show ?case using until_Strike [OF assms(1), of t b] assms(2,3) by (simp add: count_of_def)
next
  case (snoc u us)
  let ?c = "strike_run (us @ [u]) key b"
  have c: "count_of ?c key = int (length us) + 1" "threshold ?c = threshold b" "base ?c = base b"
    using strike_run_spec [OF assms(1), of "us @ [u]" b] assms(2) by (simp_all add: count_of_def)
  show ?case
    using until_Strike [OF assms(1), of t ?c] c backoff_cong [of ?c b] snoc
    by (simp add: strike_run_append)
qed

section \<open>Properties\<close>

text \<open>
  C29. Bans: a key with no strikes is banned by its \<open>n\<close>-th strike exactly when \<open>n\<close> reaches the threshold;
  a ban set at time \<open>t\<close> lasts \<open>base * 2^min(6, n - threshold)\<close>, and when it is over the key starts
  from zero again.
\<close>

theorem ban_schedule:
  assumes "key \<noteq> []" "map_of (strikes b) key = None" "map_of (until b) key = None" "1 \<le> threshold b"
    and "0 \<le> sint (base b)" "sint (base b) * 64 < 2 ^ 63"
  shows "(snd (Banned now key (strike_run (ts @ [t]) key b)) \<longleftrightarrow>
      threshold b \<le> int (length ts) + 1 \<and>
      now < t + sint (base b) * 2 ^ nat (min 6 (int (length ts) + 1 - threshold b))) \<and>
    (threshold b \<le> int (length ts) + 1 \<and> \<not> snd (Banned now key (strike_run (ts @ [t]) key b)) \<longrightarrow>
      count_of (fst (Banned now key (strike_run (ts @ [t]) key b))) key = 0)"
proof -
  let ?n = "int (length ts) + 1"
  have un: "map_of (until (strike_run (ts @ [t]) key b)) key =
      (if ?n < threshold b then None else Some (t + backoff b ?n))"
    using until_strike_run [OF assms(1-3)] .
  have bk: "backoff b ?n = sint (base b) * 2 ^ nat (min 6 (?n - threshold b))"
    using backoff_exact [OF assms(5,6)] .
  show ?thesis using un bk assms(1) by (auto simp: Banned_def count_of_def split: if_splits)
qed

text \<open>Witness: three strikes at threshold 3 ban for ten minutes; a fourth doubles the ban.\<close>

theorem ban_schedule_witness:
  "snd (Banned 1000 [112] (strike_run [0, 1, 2] [112] (NewBanlist 0 0))) \<and>
   \<not> snd (Banned (600000000002) [112] (strike_run [0, 1, 2] [112] (NewBanlist 0 0))) \<and>
   snd (Banned (600000000002) [112] (strike_run [0, 1, 2, 3] [112] (NewBanlist 0 0))) \<and>
   \<not> snd (Banned 1 [112] (strike_run [0, 1] [112] (NewBanlist 0 0)))"
proof -
  have h: "[112] \<noteq> []" "map_of (strikes (NewBanlist 0 0)) [112] = None"
    "map_of (until (NewBanlist 0 0)) [112] = None" "1 \<le> threshold (NewBanlist 0 0)"
    "0 \<le> sint (base (NewBanlist 0 0))" "sint (base (NewBanlist 0 0)) * 64 < 2 ^ 63"
    "sint (base (NewBanlist 0 0)) = 600000000000" "threshold (NewBanlist 0 0) = 3"
    by (simp_all add: NewBanlist_def)
  note B = ban_schedule [OF h(1-6), THEN conjunct1]
  show ?thesis
    using B [of 1000 "[0, 1]" 2] B [of 600000000002 "[0, 1]" 2] B [of 600000000002 "[0, 1, 2]" 3] B [of 1 "[0]" 1]
    by (simp add: h)
qed

end
