(* ===== verification/SL_Store.thy ===== *)
theory SL_Store
  imports SL_State SL_Sharding
begin

text \<open>
  \<^verbatim>\<open>internal/store/store.go\<close>: the files of a node.  One map per directory: headers and log sets by
  height, bodies by block id, shards by block id and index, and the one named snapshot the
  chain writes, the replay base.

  A file holds the value that decoding its JSON gives back; of a \<open>State\<close> only the fields with
  a JSON name survive (\<open>json_state\<close>).  A directory that cannot be written is
  \<open>writable = False\<close>: every write then fails and leaves the files as they are.
\<close>

section \<open>Model\<close>

record Store =
  hdrs :: "(u64, Header \<times> ShardSet) gomap"
  logsets :: "(u64, ShardSet) gomap"
  bodies :: "(hash, Block) gomap"
  shardfiles :: "(hash \<times> int, bytes) gomap"
  basefile :: "(hash \<times> u64 \<times> State) option"
  writable :: bool

definition OpenStore :: Store where
  "OpenStore = \<lparr>hdrs = [], logsets = [], bodies = [], shardfiles = [], basefile = None, writable = True\<rparr>"

definition json_state :: "State \<Rightarrow> State" where
  "json_state s =
     New\<lparr>Accounts := Accounts s, Validators := Validators s, StHeight := StHeight s, Minted := Minted s,
         StChainID := StChainID s, FaucetClaims := FaucetClaims s\<rparr>"

text \<open>The boolean is whether the write succeeded.\<close>

definition PutLogsSet :: "u64 \<Rightarrow> ShardSet \<Rightarrow> Store \<Rightarrow> Store \<times> bool" where
  "PutLogsSet h ss s = (if writable s then (s\<lparr>logsets := AList.update h ss (logsets s)\<rparr>, True) else (s, False))"

definition GetLogsSet :: "Store \<Rightarrow> u64 \<Rightarrow> ShardSet option" where
  "GetLogsSet s h = map_of (logsets s) h"

definition PutBlock :: "hash \<Rightarrow> Block \<Rightarrow> Store \<Rightarrow> Store \<times> bool" where
  "PutBlock i b s = (if writable s then (s\<lparr>bodies := AList.update i b (bodies s)\<rparr>, True) else (s, False))"

definition GetBlock :: "Store \<Rightarrow> hash \<Rightarrow> Block option" where
  "GetBlock s i = map_of (bodies s) i"

definition PutState :: "hash \<times> u64 \<times> State \<Rightarrow> Store \<Rightarrow> Store \<times> bool" where
  "PutState r s =
     (case r of (i, h, base) \<Rightarrow>
        if writable s then (s\<lparr>basefile := Some (i, h, json_state base)\<rparr>, True) else (s, False))"

definition GetState :: "Store \<Rightarrow> (hash \<times> u64 \<times> State) option" where
  "GetState s = basefile s"

definition PutHeader :: "Header \<Rightarrow> ShardSet \<Rightarrow> Store \<Rightarrow> Store \<times> bool" where
  "PutHeader h ss s =
     (if writable s then (s\<lparr>hdrs := AList.update (Height h) (h, ss) (hdrs s)\<rparr>, True) else (s, False))"

definition GetHeader :: "Store \<Rightarrow> u64 \<Rightarrow> (Header \<times> ShardSet) option" where
  "GetHeader s h = map_of (hdrs s) h"

text \<open>The greatest height with a header, 0 without one.\<close>

definition StoreHeight :: "Store \<Rightarrow> u64" where
  "StoreHeight s = fold (\<lambda>(h, _) m. if m < h then h else m) (hdrs s) 0"

definition HasHeaders :: "Store \<Rightarrow> bool" where
  "HasHeaders s \<longleftrightarrow> 0 < length (hdrs s)"

text \<open>The loop counts an \<open>int64\<close> down from the height, so a height of \<open>2^63\<close> or more finds nothing.\<close>

fun scan_headers :: "(bytes \<Rightarrow> hash) \<Rightarrow> Store \<Rightarrow> hash \<Rightarrow> nat \<Rightarrow> (Header \<times> ShardSet) option" where
  "scan_headers H s i 0 = None"
| "scan_headers H s i (Suc n) =
     (case GetHeader s (of_nat n) of
        None \<Rightarrow> scan_headers H s i n
      | Some (h, ss) \<Rightarrow> if ID H h = i then Some (h, ss) else scan_headers H s i n)"

definition HeaderByID :: "(bytes \<Rightarrow> hash) \<Rightarrow> Store \<Rightarrow> hash \<Rightarrow> (Header \<times> ShardSet) option" where
  "HeaderByID H s i = scan_headers H s i (nat (sint (StoreHeight s) + 1))"

definition PutShard :: "hash \<Rightarrow> int \<Rightarrow> bytes \<Rightarrow> Store \<Rightarrow> Store \<times> bool" where
  "PutShard i n d s = (if writable s then (s\<lparr>shardfiles := AList.update (i, n) d (shardfiles s)\<rparr>, True) else (s, False))"

definition GetShard :: "Store \<Rightarrow> hash \<Rightarrow> int \<Rightarrow> bytes option" where
  "GetShard s i n = map_of (shardfiles s) (i, n)"

definition HeldShards :: "Store \<Rightarrow> hash \<Rightarrow> int list" where
  "HeldShards s i = map (snd \<circ> fst) (filter (\<lambda>(k, _). fst k = i) (shardfiles s))"

section \<open>Facts\<close>

lemmas put_defs = PutLogsSet_def PutBlock_def PutState_def PutHeader_def PutShard_def
lemmas get_defs = GetLogsSet_def GetBlock_def GetState_def GetHeader_def GetShard_def

lemma writable_put [simp]:
  "writable (fst (PutLogsSet h ss s)) = writable s" "writable (fst (PutBlock i b s)) = writable s"
  "writable (fst (PutState r s)) = writable s" "writable (fst (PutHeader hdr ss s)) = writable s"
  "writable (fst (PutShard i n d s)) = writable s"
  by (simp_all add: put_defs split: prod.split)

lemma hdrs_put [simp]:
  "hdrs (fst (PutLogsSet h ss s)) = hdrs s" "hdrs (fst (PutBlock i b s)) = hdrs s"
  "hdrs (fst (PutState r s)) = hdrs s" "hdrs (fst (PutShard i n d s)) = hdrs s"
  by (simp_all add: put_defs split: prod.split)

lemma bodies_put [simp]:
  "bodies (fst (PutLogsSet h ss s)) = bodies s" "bodies (fst (PutHeader hdr ss s)) = bodies s"
  "bodies (fst (PutState r s)) = bodies s" "bodies (fst (PutShard i n d s)) = bodies s"
  by (simp_all add: put_defs split: prod.split)

lemma GetHeader_PutHeader:
  "writable s \<Longrightarrow> GetHeader (fst (PutHeader h ss s)) k = (if k = Height h then Some (h, ss) else GetHeader s k)"
  by (simp add: put_defs get_defs)

lemma set_HeldShards: "set (HeldShards s i) = {n. GetShard s i n \<noteq> None}"
  by (force simp: HeldShards_def GetShard_def map_of_eq_None_iff)

lemma distinct_HeldShards: "gomap (shardfiles s) \<Longrightarrow> distinct (HeldShards s i)"
  by (force simp: HeldShards_def gomap_def distinct_map inj_on_def)

lemma StoreHeight_max:
  "(\<forall>h\<in>fst ` set (hdrs s). h \<le> StoreHeight s) \<and> (hdrs s \<noteq> [] \<longrightarrow> StoreHeight s \<in> fst ` set (hdrs s))"
proof -
  have "(\<forall>h\<in>fst ` set m. h \<le> fold (\<lambda>(h, _) m. if m < h then h else m) m a) \<and>
      a \<le> fold (\<lambda>(h, _) m. if m < h then h else m) m a \<and>
      fold (\<lambda>(h, _) m. if m < h then h else m) m a \<in> insert a (fst ` set m)" for m :: "(u64, Header \<times> ShardSet) gomap" and a
  proof (induction m arbitrary: a)
    case (Cons p m)
    obtain h x where p: "p = (h, x)" by (cases p)
    let ?a = "if a < h then h else a"
    have "a \<le> ?a" "h \<le> ?a" by auto
    with Cons [of ?a] show ?case by (auto simp: p intro: order_trans intro!: image_eqI [where f = fst])
  qed simp
  from this [of "hdrs s" 0] show ?thesis
    unfolding StoreHeight_def by (cases "hdrs s") (auto simp: word_le_0_iff)
qed

end
