(* ===== verification/SL_Chain.thy ===== *)
theory SL_Chain
  imports SL_Store SL_Ledger SL_Forkchoice SL_Consensus SL_Bloom
begin

text \<open>
  \<^verbatim>\<open>internal/chain/chain.go\<close> and \<^verbatim>\<open>internal/chain/reorg.go\<close>: the local view of the ledger.

  The code outside the repository is bundled in \<open>ext\<close>: the hash, ed25519, the JSON decoder of
  evidence and the Reed-Solomon coder.  An operation returns the chain next to its result, also
  when it fails, since the source mutates in place; \<open>None\<close> is a walk over parent links that never
  returns.  Wall-clock readings are arguments.

  The engine and the resolvers of the ledger are closures: the engine reads the ledger, the
  resolvers read the stored headers.  \<open>rebind\<close> evaluates the installed resolvers over the
  current files whenever a block is applied.
\<close>

section \<open>Data\<close>

record ext =
  eH :: "bytes \<Rightarrow> hash"
  eV :: "bytes \<Rightarrow> bytes \<Rightarrow> bytes \<Rightarrow> bool"
  eSign :: "bytes \<Rightarrow> bytes \<Rightarrow> bytes"
  eJ :: "bytes \<Rightarrow> EquivocationEvidence option"
  eRS :: "nat \<Rightarrow> nat \<Rightarrow> bytes \<Rightarrow> bytes list option"
  eRebuild :: "nat \<Rightarrow> nat \<Rightarrow> bytes option list \<Rightarrow> bytes list option"
  eCheck :: "nat \<Rightarrow> nat \<Rightarrow> bytes list \<Rightarrow> bool"

datatype chain_error =
    ErrNoGenesis | ErrHasGenesis | ErrBadHeight | ErrBadPrev | ErrBadMerkle | ErrBadBodyHash
  | ErrBadLogsRoot | ErrBadRound | ErrReconstruct | ErrUnknownParent | ErrReorgReplay
  | EConsensus consensus_error | EState state_error | EErasure erasure_error | ETypes types_error | EStore

datatype Engine = AuthorityEngine Authority | PoStorageEngine "State \<Rightarrow> PoStorage"

definition EngineAuthorize :: "ext \<Rightarrow> Engine \<Rightarrow> State \<Rightarrow> Header \<Rightarrow> consensus_error option" where
  "EngineAuthorize E eng s h =
     (case eng of
        AuthorityEngine a \<Rightarrow> AuthAuthorizeHeader (eH E) (eV E) a h
      | PoStorageEngine p \<Rightarrow> AuthorizeHeader (eH E) (eV E) (p s) h)"

record Chain =
  cstore :: Store
  cstate :: State
  engine :: Engine
  cbloom :: "Filter option"
  selfID :: bytes
  members :: "bytes list"
  blockTime :: "64 word"
  genesisTS :: "64 word"
  chead :: Header
  hasGen :: bool
  source :: "(hash \<Rightarrow> int \<Rightarrow> ShardSet \<Rightarrow> bytes option) option"
  tree :: Tree
  blockByID :: "(hash, Block) gomap"
  replayBase :: "State option"
  replayBaseID :: hash
  replayBaseHeight :: u64
  finalityDepth :: u64

type_synonym 'a run = "(Chain \<times> (chain_error, 'a) result) option"

definition sbind :: "'a run \<Rightarrow> ('a \<Rightarrow> Chain \<Rightarrow> 'b run) \<Rightarrow> 'b run" where
  "sbind r f =
     (case r of
        None \<Rightarrow> None
      | Some (c, Ok v) \<Rightarrow> f v c
      | Some (c, Err e) \<Rightarrow> Some (c, Err e)
      | Some (c, Panic) \<Rightarrow> Some (c, Panic))"

abbreviation yield :: "'a \<Rightarrow> Chain \<Rightarrow> 'a run" where
  "yield v c \<equiv> Some (c, Ok v)"

abbreviation throw :: "chain_error \<Rightarrow> Chain \<Rightarrow> 'a run" where
  "throw e c \<equiv> Some (c, Err e)"

section \<open>Reading\<close>

definition zero_header :: Header where
  "zero_header =
     \<lparr>Height = 0, PrevHash = Zero, MerkleRoot = Zero, Timestamp = 0, Validator = [], TxCount = 0, Round = 0,
      Spec = \<lparr>K = 0, M = 0\<rparr>, BodyHash = Zero, LogsRoot = Zero, HdrSig = [], ValPubKey = []\<rparr>"

definition Head :: "Chain \<Rightarrow> Header \<times> bool" where
  "Head c = (chead c, hasGen c)"

definition ChainHeight :: "Chain \<Rightarrow> u64" where
  "ChainHeight c = Height (chead c)"

definition HeadID :: "ext \<Rightarrow> Chain \<Rightarrow> hash" where
  "HeadID E c = (if \<not> hasGen c then Zero else ID (eH E) (chead c))"

definition Finalized :: "Chain \<Rightarrow> u64" where
  "Finalized c = replayBaseHeight c"

definition replFor :: "Chain \<Rightarrow> int" where
  "replFor c = Replication (int (length (members c)))"

definition specFor :: "Chain \<Rightarrow> ShardSpec" where
  "specFor c = SpecFor (int (length (members c)))"

definition BodyHashAt :: "Store \<Rightarrow> u64 \<Rightarrow> hash option" where
  "BodyHashAt s h = map_option (\<lambda>(hdr, _). BodyHash hdr) (GetHeader s h)"

definition ChainShardAt :: "(bytes \<Rightarrow> hash) \<Rightarrow> Store \<Rightarrow> u64 \<Rightarrow> (hash \<times> int) option" where
  "ChainShardAt H s h = map_option (\<lambda>(hdr, ss). (ID H hdr, Total (SetSpec ss))) (GetHeader s h)"

definition ChainShardProofOK :: "(bytes \<Rightarrow> hash) \<Rightarrow> Store \<Rightarrow> u64 \<Rightarrow> int \<Rightarrow> bytes \<Rightarrow> bool" where
  "ChainShardProofOK H s h i d =
     (case GetHeader s h of None \<Rightarrow> False | Some (_, ss) \<Rightarrow> VerifyShard H ss i d)"

definition rebind :: "ext \<Rightarrow> Store \<Rightarrow> State \<Rightarrow> State" where
  "rebind E files s =
     s\<lparr>AnchorBodyHash := map_option (\<lambda>_. BodyHashAt files) (AnchorBodyHash s),
       ShardAt := map_option (\<lambda>_. ChainShardAt (eH E) files) (ShardAt s),
       ShardProofOK := map_option (\<lambda>_. ChainShardProofOK (eH E) files) (ShardProofOK s)\<rparr>"

definition apply_on :: "ext \<Rightarrow> Store \<Rightarrow> Block \<Rightarrow> State \<Rightarrow> State \<times> outcome" where
  "apply_on E files b s = ApplyBlock (eH E) (eV E) (eJ E) b (rebind E files s)"

definition loadBlock :: "Chain \<Rightarrow> hash \<Rightarrow> Block option" where
  "loadBlock c i = GetBlock (cstore c) i"

text \<open>\<open>c.block(id)\<close> keeps a body it had to load.\<close>

definition block_at :: "hash \<Rightarrow> Chain \<Rightarrow> Chain \<times> Block option" where
  "block_at i c =
     (case map_of (blockByID c) i of
        Some b \<Rightarrow> (c, Some b)
      | None \<Rightarrow>
          (case loadBlock c i of
             Some b \<Rightarrow> (c\<lparr>blockByID := AList.update i b (blockByID c)\<rparr>, Some b)
           | None \<Rightarrow> (c, None)))"

section \<open>Persistence\<close>

definition saveReplayBase :: "Chain \<Rightarrow> Chain" where
  "saveReplayBase c =
     (case replayBase c of
        None \<Rightarrow> c
      | Some s \<Rightarrow> c\<lparr>cstore := fst (PutState (replayBaseID c, replayBaseHeight c, s) (cstore c))\<rparr>)"

definition loadReplayBase :: "Chain \<Rightarrow> Chain" where
  "loadReplayBase c =
     (case GetState (cstore c) of
        None \<Rightarrow> c
      | Some (i, h, s) \<Rightarrow> c\<lparr>replayBase := Some s, replayBaseID := i, replayBaseHeight := h\<rparr>)"

definition recordBlock :: "ext \<Rightarrow> Block \<Rightarrow> Chain \<Rightarrow> Chain" where
  "recordBlock E b c =
     (let i = ID (eH E) (Hdr b) in
      c\<lparr>tree := Add i (PrevHash (Hdr b)) (Height (Hdr b)) 1 (tree c),
        blockByID := AList.update i b (blockByID c),
        cstore := fst (PutBlock i b (cstore c))\<rparr>)"

text \<open>One turn of the loop of \<open>storeAssignedShards\<close>; a malformed Bloom filter panics.\<close>

fun store_shards :: "ext \<Rightarrow> hash \<Rightarrow> ShardSet \<Rightarrow> (nat \<times> bytes) list \<Rightarrow> Chain \<Rightarrow> unit run" where
  "store_shards E blockID ss [] c = yield () c"
| "store_shards E blockID ss ((i, d) # rest) c =
     (if IsHolder (eH E) (selfID c) (members c) blockID (int i) (Replication (int (length (members c))))
      then let c1 = c\<lparr>cstore := fst (PutShard blockID (int i) d (cstore c))\<rparr> in
        (case cbloom c of
           None \<Rightarrow> store_shards E blockID ss rest c1
         | Some f \<Rightarrow>
             if length (SetShardHash ss) \<le> i then Some (c1, Panic)
             else (case AddTo (SetShardHash ss ! i) f of
                     Ok f' \<Rightarrow> store_shards E blockID ss rest (c1\<lparr>cbloom := Some f'\<rparr>)
                   | _ \<Rightarrow> Some (c1, Panic)))
      else store_shards E blockID ss rest c)"

definition storeAssignedShards :: "ext \<Rightarrow> hash \<Rightarrow> bytes list \<Rightarrow> ShardSet \<Rightarrow> Chain \<Rightarrow> unit run" where
  "storeAssignedShards E blockID shards ss c = store_shards E blockID ss (enumerate 0 shards) c"

definition persistBlockSet :: "ext \<Rightarrow> Header \<Rightarrow> bytes \<Rightarrow> Chain \<Rightarrow> ShardSet run" where
  "persistBlockSet E hdr body c =
     (case BuildShardSet (eH E) (eRS E) (ID (eH E) hdr) body (Spec hdr) of
        Panic \<Rightarrow> Some (c, Panic)
      | Err e \<Rightarrow> throw (EErasure e) c
      | Ok (shards, ss) \<Rightarrow>
          (case PutHeader hdr ss (cstore c) of
             (files, False) \<Rightarrow> throw EStore (c\<lparr>cstore := files\<rparr>)
           | (files, True) \<Rightarrow>
               sbind (storeAssignedShards E (ID (eH E) hdr) shards ss (c\<lparr>cstore := files\<rparr>)) (\<lambda>_ c. yield ss c)))"

definition persistBlock :: "ext \<Rightarrow> Header \<Rightarrow> bytes \<Rightarrow> Chain \<Rightarrow> unit run" where
  "persistBlock E hdr body c = sbind (persistBlockSet E hdr body c) (\<lambda>_ c. yield () c)"

definition logs_tag :: bytes where
  "logs_tag = [0x73, 0x6C, 0x2D, 0x6C, 0x6F, 0x67, 0x73, 0x3A]"

definition logsID :: "(bytes \<Rightarrow> hash) \<Rightarrow> hash \<Rightarrow> hash" where
  "logsID H blockID = H (logs_tag @ blockID)"

definition persistLogs :: "ext \<Rightarrow> Header \<Rightarrow> Chain \<Rightarrow> unit run" where
  "persistLogs E hdr c =
     (let ls = LastLogs (cstate c) in
      if length ls = 0 then yield () c
      else let lid = logsID (eH E) (ID (eH E) hdr) in
        (case BuildShardSet (eH E) (eRS E) lid (EncodeLogs ls) (Spec hdr) of
           Panic \<Rightarrow> Some (c, Panic)
         | Err e \<Rightarrow> yield () c
         | Ok (shards, ss) \<Rightarrow>
             storeAssignedShards E lid shards ss (c\<lparr>cstore := fst (PutLogsSet (Height hdr) ss (cstore c))\<rparr>)))"

section \<open>Finality\<close>

text \<open>The walk from the head to the base; the blocks up to \<open>target\<close>, oldest first.\<close>

partial_function (option) fin_walk :: "hash \<Rightarrow> hash \<Rightarrow> u64 \<Rightarrow> Block list \<Rightarrow> Chain \<Rightarrow> (Chain \<times> Block list option) option" where
  "fin_walk i base target acc c =
     (if i = base then Some (c, Some acc)
      else case block_at i c of
        (c', None) \<Rightarrow> Some (c', None)
      | (c', Some b) \<Rightarrow>
          let acc' = (if Height (Hdr b) \<le> target then b # acc else acc) in
          if PrevHash (Hdr b) = Zero then Some (c', None)
          else fin_walk (PrevHash (Hdr b)) base target acc' c')"

primrec replay :: "ext \<Rightarrow> Store \<Rightarrow> Block list \<Rightarrow> State \<Rightarrow> State \<times> outcome" where
  "replay E files [] s = (s, Ok ())"
| "replay E files (b # bs) s =
     (case apply_on E files b s of
        (s', Ok _) \<Rightarrow> replay E files bs s'
      | (s', Err e) \<Rightarrow> (s', Err e)
      | (s', Panic) \<Rightarrow> (s', Panic))"

definition advanceFinality :: "ext \<Rightarrow> Chain \<Rightarrow> unit run" where
  "advanceFinality E c =
     (case replayBase c of
        None \<Rightarrow> yield () c
      | Some base \<Rightarrow>
          if finalityDepth c = 0 \<or> Height (chead c) < finalityDepth c then yield () c
          else let target = Height (chead c) - finalityDepth c in
            if target \<le> replayBaseHeight c then yield () c
            else (case fin_walk (ID (eH E) (chead c)) (replayBaseID c) target [] c of
                    None \<Rightarrow> None
                  | Some (c1, None) \<Rightarrow> yield () c1
                  | Some (c1, Some bs) \<Rightarrow>
                      (case replay E (cstore c1) bs (InheritConfig (cstate c1) (Clone base)) of
                         (_, Err e) \<Rightarrow> yield () c1
                       | (_, Panic) \<Rightarrow> Some (c1, Panic)
                       | (ns, Ok _) \<Rightarrow>
                           let c2 = c1\<lparr>replayBase := Some ns\<rparr>;
                               c3 = (if bs = [] then c2
                                     else c2\<lparr>replayBaseID := ID (eH E) (Hdr (last bs)),
                                             replayBaseHeight := Height (Hdr (last bs))\<rparr>)
                           in yield () (saveReplayBase c3))))"

definition SetCheckpoint :: "hash \<Rightarrow> State \<Rightarrow> Chain \<Rightarrow> Chain" where
  "SetCheckpoint blockID s c =
     saveReplayBase (c\<lparr>replayBase := Some (Clone s), replayBaseID := blockID, replayBaseHeight := StHeight s\<rparr>)"

section \<open>Construction and genesis\<close>

definition NewChain ::
    "ext \<Rightarrow> Store \<Rightarrow> State \<Rightarrow> Engine \<Rightarrow> Filter option \<Rightarrow> bytes \<Rightarrow> bytes list \<Rightarrow> 64 word \<Rightarrow> 64 word \<Rightarrow> 64 word \<Rightarrow> Chain" where
  "NewChain E files s eng bf self mem blockTimeSec genesisTime finality =
     (let c = \<lparr>cstore = files, cstate = s, engine = eng, cbloom = bf, selfID = self, members = mem,
               blockTime = (if sint blockTimeSec < 1 then 1 else blockTimeSec), genesisTS = genesisTime,
               chead = zero_header, hasGen = False, source = None, tree = NewTree, blockByID = [],
               replayBase = None, replayBaseID = Zero, replayBaseHeight = 0, finalityDepth = finality\<rparr>;
          c1 = (if HasHeaders files then
                  (case GetHeader files (StoreHeight files) of
                     None \<Rightarrow> c
                   | Some (hdr, _) \<Rightarrow>
                       let i = ID (eH E) hdr;
                           c2 = c\<lparr>chead := hdr, hasGen := True, tree := Add i (PrevHash hdr) (Height hdr) 1 (tree c)\<rparr>
                       in (case loadBlock c2 i of
                             None \<Rightarrow> c2
                           | Some b \<Rightarrow> c2\<lparr>blockByID := AList.update i b (blockByID c2)\<rparr>))
                else c)
      in loadReplayBase c1)"

definition bare_tx :: "address \<Rightarrow> u64 \<Rightarrow> Transaction" where
  "bare_tx a v =
     \<lparr>From = [], To = a, Amount = v, Fee = 0, Nonce = 0, ChainID = 0, Kind = 0, Gas = 0, Data = [], PubKey = [], Sig = []\<rparr>"

definition genesis_txs :: "(address, u64) gomap \<Rightarrow> Transaction list" where
  "genesis_txs funding =
     map (\<lambda>a. bare_tx a (case map_of funding a of Some v \<Rightarrow> v | None \<Rightarrow> 0)) (str_sort (map fst funding))"

definition genesis_header :: "ext \<Rightarrow> 64 word \<Rightarrow> (address, u64) gomap \<Rightarrow> address \<Rightarrow> KeyPair option \<Rightarrow> Header" where
  "genesis_header E ts funding val kp =
     (let txs = genesis_txs funding;
          hdr = zero_header\<lparr>MerkleRoot := MerkleRootOf (eH E) txs, Timestamp := ts, Validator := val,
                  TxCount := of_nat (length txs), Spec := GenesisSpec, BodyHash := BodyHashOf (eH E) (EncodeTxs txs)\<rparr>
      in case kp of
           None \<Rightarrow> hdr
         | Some k \<Rightarrow> if Address (eH E) k = val then SignHdr (eH E) (eSign E) k hdr else hdr)"

definition Genesis ::
    "ext \<Rightarrow> (address, u64) gomap \<Rightarrow> address \<Rightarrow> KeyPair option \<Rightarrow> Chain \<Rightarrow> Block run" where
  "Genesis E funding val kp c =
     (if hasGen c then throw ErrHasGenesis c
      else let txs = genesis_txs funding;
               hdr = genesis_header E (genesisTS c) funding val kp;
               blk = \<lparr>Hdr = hdr, Txs = txs\<rparr>;
               s1 = fold (\<lambda>(a, v). Credit a v) funding (cstate c);
               premine = fold (\<lambda>(_, v) n. n + v) funding 0;
               s2 = (RegisterGenesisValidator val (SetMinted premine s1))\<lparr>StHeight := 0\<rparr>
           in sbind (persistBlock E hdr (Body blk) (c\<lparr>cstate := s2\<rparr>)) (\<lambda>_ c.
                let i = ID (eH E) hdr in
                yield blk (saveReplayBase (c\<lparr>chead := hdr, hasGen := True, replayBase := Some (Clone (cstate c)),
                  replayBaseID := i, replayBaseHeight := 0, tree := Add i Zero 0 1 (tree c),
                  blockByID := AList.update i blk (blockByID c),
                  cstore := fst (PutBlock i blk (cstore c))\<rparr>))))"

section \<open>Producing and applying blocks\<close>

definition ProduceBlock ::
    "ext \<Rightarrow> 64 word \<Rightarrow> Transaction list \<Rightarrow> KeyPair \<Rightarrow> u32 \<Rightarrow> Chain \<Rightarrow> (Block \<times> ShardSet) run" where
  "ProduceBlock E now txs kp round c =
     (if \<not> hasGen c then throw ErrNoGenesis c
      else let height = Height (chead c) + 1;
               fs = fold (\<lambda>t n. n + Fee t) txs 0;
               reward = NextReward (cstate c) height;
               full = (if 0 < reward + fs then bare_tx (Address (eH E) kp) (reward + fs) # txs else txs);
               hdr = \<lparr>Height = height, PrevHash = ID (eH E) (chead c), MerkleRoot = MerkleRootOf (eH E) full,
                      Timestamp = now, Validator = Address (eH E) kp, TxCount = of_nat (length full), Round = round,
                      Spec = specFor c, BodyHash = BodyHashOf (eH E) (EncodeTxs full), LogsRoot = Zero,
                      HdrSig = [], ValPubKey = []\<rparr>
           in (case apply_on E (cstore c) \<lparr>Hdr = hdr, Txs = full\<rparr> (cstate c) of
                 (s, Err e) \<Rightarrow> throw (EState e) (c\<lparr>cstate := s\<rparr>)
               | (s, Panic) \<Rightarrow> Some (c\<lparr>cstate := s\<rparr>, Panic)
               | (s, Ok _) \<Rightarrow>
                   let hdr = SignHdr (eH E) (eSign E) kp (hdr\<lparr>LogsRoot := LogsRootOf (eH E) (LastLogs s)\<rparr>);
                       blk = \<lparr>Hdr = hdr, Txs = full\<rparr>
                   in sbind (persistBlockSet E hdr (Body blk) (c\<lparr>cstate := s\<rparr>)) (\<lambda>ss c.
                      sbind (persistLogs E hdr c) (\<lambda>_ c.
                      sbind (advanceFinality E (recordBlock E blk (c\<lparr>chead := hdr\<rparr>))) (\<lambda>_ c.
                      yield (blk, ss) c)))))"

definition ApplyExternalBlock :: "ext \<Rightarrow> 64 word \<Rightarrow> Block \<Rightarrow> Chain \<Rightarrow> unit run" where
  "ApplyExternalBlock E now blk c =
     (let hdr = Hdr blk in
      if \<not> hasGen c then throw ErrNoGenesis c
      else case EngineAuthorize E (engine c) (cstate c) hdr of
        Some e \<Rightarrow> throw (EConsensus e) c
      | None \<Rightarrow>
          if Height hdr \<noteq> Height (chead c) + 1 then throw ErrBadHeight c
          else if PrevHash hdr \<noteq> ID (eH E) (chead c) then throw ErrBadPrev c
          else if sint (Timestamp hdr) < sint (Timestamp (chead c) + ucast (Round hdr) * blockTime c) then throw ErrBadRound c
          else if sint (now + 2 * blockTime c) < sint (Timestamp hdr) then throw ErrBadRound c
          else if MerkleRootOf (eH E) (Txs blk) \<noteq> MerkleRoot hdr then throw ErrBadMerkle c
          else if BodyHashOf (eH E) (Body blk) \<noteq> BodyHash hdr then throw ErrBadBodyHash c
          else (case apply_on E (cstore c) blk (cstate c) of
                  (s, Err e) \<Rightarrow> throw (EState e) (c\<lparr>cstate := s\<rparr>)
                | (s, Panic) \<Rightarrow> Some (c\<lparr>cstate := s\<rparr>, Panic)
                | (s, Ok _) \<Rightarrow>
                    let c = c\<lparr>cstate := s\<rparr> in
                    if LogsRootOf (eH E) (LastLogs s) \<noteq> LogsRoot hdr then throw ErrBadLogsRoot c
                    else sbind (persistBlockSet E hdr (Body blk) c) (\<lambda>_ c.
                         sbind (persistLogs E hdr c) (\<lambda>_ c.
                         advanceFinality E (recordBlock E blk (c\<lparr>chead := hdr\<rparr>))))))"

section \<open>Reorganisation\<close>

partial_function (option) walk_loop :: "hash \<Rightarrow> hash \<Rightarrow> Block list \<Rightarrow> Chain \<Rightarrow> (Chain \<times> Block list option) option" where
  "walk_loop i stop acc c =
     (if i = stop then Some (c, Some acc)
      else case block_at i c of
        (c', None) \<Rightarrow> Some (c', None)
      | (c', Some b) \<Rightarrow>
          if PrevHash (Hdr b) = Zero then Some (c', None)
          else walk_loop (PrevHash (Hdr b)) stop (b # acc) c')"

definition walkDown :: "hash \<Rightarrow> hash \<Rightarrow> Chain \<Rightarrow> (Chain \<times> Block list option) option" where
  "walkDown tip stop c = walk_loop tip stop [] c"

text \<open>The error of \<open>persistBlockSet\<close> is ignored, a panic is not.\<close>

definition commitCanonical :: "ext \<Rightarrow> Block \<Rightarrow> Chain \<Rightarrow> unit run" where
  "commitCanonical E b c =
     (case persistBlockSet E (Hdr b) (Body b) c of
        None \<Rightarrow> None
      | Some (c1, Panic) \<Rightarrow> Some (c1, Panic)
      | Some (c1, _) \<Rightarrow> persistLogs E (Hdr b) c1)"

fun forward :: "ext \<Rightarrow> Block list \<Rightarrow> Chain \<Rightarrow> unit run" where
  "forward E [] c = yield () c"
| "forward E (b # bs) c =
     (case apply_on E (cstore c) b (cstate c) of
        (s, Err e) \<Rightarrow> throw ErrReorgReplay (c\<lparr>cstate := s\<rparr>)
      | (s, Panic) \<Rightarrow> Some (c\<lparr>cstate := s\<rparr>, Panic)
      | (s, Ok _) \<Rightarrow> sbind (commitCanonical E b (c\<lparr>cstate := s\<rparr>)) (\<lambda>_. forward E bs))"

fun commit_all :: "ext \<Rightarrow> Block list \<Rightarrow> Chain \<Rightarrow> unit run" where
  "commit_all E [] c = yield () c"
| "commit_all E (b # bs) c = sbind (commitCanonical E b c) (\<lambda>_. commit_all E bs)"

definition move_head :: "ext \<Rightarrow> Block list \<Rightarrow> Chain \<Rightarrow> unit run" where
  "move_head E bs c = (if bs = [] then yield () c else advanceFinality E (c\<lparr>chead := Hdr (last bs)\<rparr>))"

definition reorgToBest :: "ext \<Rightarrow> Chain \<Rightarrow> unit run" where
  "reorgToBest E c =
     (let best = fst (Best (tree c)) in
      if best = ID (eH E) (chead c) then yield () c
      else case walkDown best (ID (eH E) (chead c)) c of
        None \<Rightarrow> None
      | Some (c1, Some suffix) \<Rightarrow> sbind (forward E suffix c1) (\<lambda>_. move_head E suffix)
      | Some (c1, None) \<Rightarrow>
          (case replayBase c1 of
             None \<Rightarrow> yield () c1
           | Some base \<Rightarrow>
               (case walkDown best (replayBaseID c1) c1 of
                  None \<Rightarrow> None
                | Some (c2, None) \<Rightarrow> yield () c2
                | Some (c2, Some branch) \<Rightarrow>
                    (case replay E (cstore c2) branch (InheritConfig (cstate c2) (Clone base)) of
                       (_, Err e) \<Rightarrow> throw ErrReorgReplay c2
                     | (_, Panic) \<Rightarrow> Some (c2, Panic)
                     | (ns, Ok _) \<Rightarrow>
                         sbind (commit_all E branch (c2\<lparr>cstate := ReplaceWith ns (cstate c2)\<rparr>)) (\<lambda>_. move_head E branch)))))"

definition AcceptBlock :: "ext \<Rightarrow> Block \<Rightarrow> Chain \<Rightarrow> unit run" where
  "AcceptBlock E blk c =
     (let hdr = Hdr blk in
      if \<not> hasGen c then throw ErrNoGenesis c
      else if HeightOf (tree c) (ID (eH E) hdr) \<noteq> None then yield () c
      else case EngineAuthorize E (engine c) (cstate c) hdr of
        Some e \<Rightarrow> throw (EConsensus e) c
      | None \<Rightarrow>
          if MerkleRootOf (eH E) (Txs blk) \<noteq> MerkleRoot hdr then throw ErrBadMerkle c
          else if BodyHashOf (eH E) (Body blk) \<noteq> BodyHash hdr then throw ErrBadBodyHash c
          else (case block_at (PrevHash hdr) c of
                  (c1, None) \<Rightarrow> throw ErrUnknownParent c1
                | (c1, Some p) \<Rightarrow>
                    if Height hdr \<noteq> Height (Hdr p) + 1 then throw ErrBadHeight c1
                    else if sint (Timestamp hdr) < sint (Timestamp (Hdr p) + ucast (Round hdr) * blockTime c1)
                    then throw ErrBadRound c1
                    else reorgToBest E (recordBlock E blk c1)))"

section \<open>Reconstruction\<close>

text \<open>The local shards that verify, then the fetched ones until \<open>K\<close> are there.\<close>

definition local_step :: "ext \<Rightarrow> Store \<Rightarrow> hash \<Rightarrow> ShardSet \<Rightarrow> int \<Rightarrow> bytes option list \<times> nat \<Rightarrow> bytes option list \<times> nat" where
  "local_step E files i ss n acc =
     (case acc of (shards, have) \<Rightarrow>
        if 0 \<le> n \<and> n < Total (SetSpec ss) then
          (case GetShard files i n of
             Some d \<Rightarrow> if VerifyShard (eH E) ss n d then (shards[nat n := Some d], have + 1) else acc
           | None \<Rightarrow> acc)
        else acc)"

definition fetch_step ::
    "ext \<Rightarrow> (hash \<Rightarrow> int \<Rightarrow> ShardSet \<Rightarrow> bytes option) \<Rightarrow> hash \<Rightarrow> ShardSet \<Rightarrow> nat \<Rightarrow> bytes option list \<times> nat \<Rightarrow> bytes option list \<times> nat" where
  "fetch_step E src i ss n acc =
     (case acc of (shards, have) \<Rightarrow>
        if \<not> have < unat (K (SetSpec ss)) then acc
        else if shards ! n \<noteq> None then acc
        else (case src i (int n) ss of
                None \<Rightarrow> acc
              | Some d \<Rightarrow> if VerifyShard (eH E) ss (int n) d then (shards[n := Some d], have + 1) else acc))"

definition reconstructShards :: "ext \<Rightarrow> Chain \<Rightarrow> hash \<Rightarrow> ShardSet \<Rightarrow> (chain_error, bytes) result" where
  "reconstructShards E c i ss =
     (let total = nat (Total (SetSpec ss));
          acc1 = fold (local_step E (cstore c) i ss) (HeldShards (cstore c) i) (replicate total None, 0);
          acc2 = (case source c of
                    None \<Rightarrow> acc1
                  | Some src \<Rightarrow> if snd acc1 < unat (K (SetSpec ss)) then fold (fetch_step E src i ss) [0..<total] acc1 else acc1)
      in if snd acc2 < unat (K (SetSpec ss)) then Err ErrReconstruct
         else (case Reconstruct (eRebuild E) (eCheck E) (fst acc2) (SetSpec ss) (OrigLen ss) of
                 Ok d \<Rightarrow> Ok d | Err e \<Rightarrow> Err (EErasure e) | Panic \<Rightarrow> Panic))"

definition decode_body :: "bytes \<Rightarrow> (chain_error, Transaction list) result" where
  "decode_body d = (case DecodeTxs d of Ok txs \<Rightarrow> Ok txs | Err e \<Rightarrow> Err (ETypes e) | Panic \<Rightarrow> Panic)"

definition ReconstructBody :: "ext \<Rightarrow> Chain \<Rightarrow> u64 \<Rightarrow> (chain_error, Transaction list) result" where
  "ReconstructBody E c h =
     (case GetHeader (cstore c) h of
        None \<Rightarrow> Err EStore
      | Some (hdr, ss) \<Rightarrow> rbind (reconstructShards E c (ID (eH E) hdr) ss) decode_body)"

text \<open>The body rebuilt from \<open>K\<close> shards and encoded again.\<close>

definition rebuilt_shard :: "ext \<Rightarrow> Chain \<Rightarrow> hash \<Rightarrow> ShardSet \<Rightarrow> int \<Rightarrow> (chain_error, bytes option) result" where
  "rebuilt_shard E c i ss n =
     (case reconstructShards E c i ss of
        Panic \<Rightarrow> Panic
      | Err e \<Rightarrow> Ok None
      | Ok body \<Rightarrow>
          (case EncodeShards (eRS E) body (SetSpec ss) of
             Panic \<Rightarrow> Panic
           | Err e \<Rightarrow> Ok None
           | Ok (shards, _, _) \<Rightarrow> if int (length shards) \<le> n then Ok None else Ok (Some (shards ! nat n))))"

definition ShardBytes :: "ext \<Rightarrow> Chain \<Rightarrow> u64 \<Rightarrow> int \<Rightarrow> (chain_error, bytes option) result" where
  "ShardBytes E c h n =
     (case GetHeader (cstore c) h of
        None \<Rightarrow> Ok None
      | Some (hdr, ss) \<Rightarrow>
          if n < 0 \<or> Total (SetSpec ss) \<le> n then Ok None
          else let i = ID (eH E) hdr in
            (case GetShard (cstore c) i n of
               Some d \<Rightarrow> if VerifyShard (eH E) ss n d then Ok (Some d) else rebuilt_shard E c i ss n
             | None \<Rightarrow> rebuilt_shard E c i ss n))"

text \<open>\<^verbatim>\<open>Logs\<close> answers with the JSON of the list; every failure answers with the empty one.\<close>

definition ChainLogs :: "ext \<Rightarrow> Chain \<Rightarrow> u64 \<Rightarrow> (chain_error, Log list) result" where
  "ChainLogs E c h =
     (case (GetLogsSet (cstore c) h, GetHeader (cstore c) h) of
        (Some ss, Some (hdr, _)) \<Rightarrow>
          (case reconstructShards E c (logsID (eH E) (ID (eH E) hdr)) ss of
             Panic \<Rightarrow> Panic
           | Err e \<Rightarrow> Ok []
           | Ok raw \<Rightarrow>
               (case DecodeLogs raw of
                  Panic \<Rightarrow> Panic
                | Err e \<Rightarrow> Ok []
                | Ok ls \<Rightarrow> if LogsRootOf (eH E) ls \<noteq> LogsRoot hdr then Ok [] else Ok ls))
      | _ \<Rightarrow> Ok [])"

definition IsForgery :: "chain_error \<Rightarrow> bool" where
  "IsForgery e =
     (case e of
        ErrBadMerkle \<Rightarrow> True | ErrBadBodyHash \<Rightarrow> True | ErrBadLogsRoot \<Rightarrow> True | ErrBadRound \<Rightarrow> True
      | EConsensus (ErrHdrSig ErrBadSignature) \<Rightarrow> True
      | EConsensus (ErrHdrSig ErrPubAddrMismatch) \<Rightarrow> True
      | EState (ErrSig ErrBadSignature) \<Rightarrow> True
      | EState (ErrSig ErrPubAddrMismatch) \<Rightarrow> True
      | ETypes ErrBadSignature \<Rightarrow> True | ETypes ErrPubAddrMismatch \<Rightarrow> True
      | EConsensus ErrUnauthorizedValidator \<Rightarrow> True | EConsensus ErrNotLeader \<Rightarrow> True
      | _ \<Rightarrow> False)"

definition VerifyAvailable :: "ext \<Rightarrow> Chain \<Rightarrow> u64 \<Rightarrow> (chain_error, bool) result" where
  "VerifyAvailable E c h =
     (case GetHeader (cstore c) h of
        None \<Rightarrow> Err EStore
      | Some (hdr, ss) \<Rightarrow>
          (case reconstructShards E c (ID (eH E) hdr) ss of
             Panic \<Rightarrow> Panic
           | Err e \<Rightarrow> Ok False
           | Ok body \<Rightarrow>
               if BodyHashOf (eH E) body \<noteq> BodyHash hdr then Ok False
               else (case DecodeTxs body of
                       Panic \<Rightarrow> Panic
                     | Err e \<Rightarrow> Ok False
                     | Ok txs \<Rightarrow> Ok (MerkleRootOf (eH E) txs = MerkleRoot hdr))))"

section \<open>Fast sync\<close>

fun install_headers :: "ext \<Rightarrow> (Header \<times> ShardSet) list \<Rightarrow> nat \<Rightarrow> hash \<Rightarrow> Chain \<Rightarrow> unit run" where
  "install_headers E [] i prevID c = yield () c"
| "install_headers E ((h, ss) # recs) i prevID c =
     (if Height h \<noteq> of_nat i then throw ErrBadHeight c
      else if PrevHash h \<noteq> (if i = 0 then Zero else prevID) then throw ErrBadPrev c
      else case EngineAuthorize E (engine c) (cstate c) h of
        Some e \<Rightarrow> throw (EConsensus e) c
      | None \<Rightarrow>
          (case PutHeader h ss (cstore c) of
             (files, False) \<Rightarrow> throw EStore (c\<lparr>cstore := files\<rparr>)
           | (files, True) \<Rightarrow> install_headers E recs (Suc i) (ID (eH E) h) (c\<lparr>cstore := files\<rparr>)))"

definition SyncInstall :: "ext \<Rightarrow> (Header \<times> ShardSet) list \<Rightarrow> State \<Rightarrow> Chain \<Rightarrow> unit run" where
  "SyncInstall E recs snapshot c =
     (if recs = [] then throw ErrReconstruct c
      else sbind (install_headers E recs 0 Zero c) (\<lambda>_ c.
        let h = fst (last recs); i = ID (eH E) h in
        yield () (saveReplayBase (c\<lparr>cstate := ReplaceWith snapshot (cstate c), chead := h, hasGen := True,
          replayBase := Some (Clone snapshot), replayBaseID := i, replayBaseHeight := Height h,
          tree := Add i (PrevHash h) (Height h) 1 (tree c),
          blockByID := AList.update i \<lparr>Hdr = h, Txs = []\<rparr> (blockByID c)\<rparr>))))"

end
