(* ===== verification/SL_Persist.thy ===== *)
theory SL_Persist
  imports SL_Chain
begin

text \<open>
  What the chain writes: the frame of every persistence step, the blocks a node accepts from a
  peer, and the recovery of a body from scattered shards.
\<close>

section \<open>Sequencing\<close>

lemma sbind_simps [simp]:
  "sbind None f = None" "sbind (Some (c, Ok v)) f = f v c" "sbind (Some (c, Err e)) f = Some (c, Err e)"
  "sbind (Some (c, Panic)) f = Some (c, Panic)"
  by (simp_all add: sbind_def)

lemma sbind_Ok_iff:
  "sbind r f = Some (c', Ok v) \<longleftrightarrow> (\<exists>c w. r = Some (c, Ok w) \<and> f w c = Some (c', Ok v))"
  by (auto simp: sbind_def split: option.split result.split)

lemma sbind_cases:
  assumes "sbind r f = Some (c', x)"
  obtains c w where "r = Some (c, Ok w)" "f w c = Some (c', x)"
    | e where "r = Some (c', Err e)" "x = Err e"
    | "r = Some (c', Panic)" "x = Panic"
  using assms by (auto simp: sbind_def split: option.splits result.splits)

section \<open>Frames\<close>

text \<open>
  \<open>fr\<close>: a step that writes shards, log sets and the Bloom filter only.  Headers, bodies and the
  replay base on disk stay, and so does everything in memory.
\<close>

definition fr :: "Chain \<Rightarrow> Chain \<Rightarrow> bool" where
  "fr c c' \<longleftrightarrow>
     cstate c' = cstate c \<and> chead c' = chead c \<and> tree c' = tree c \<and> blockByID c' = blockByID c \<and>
     hasGen c' = hasGen c \<and> engine c' = engine c \<and> replayBase c' = replayBase c \<and> replayBaseID c' = replayBaseID c \<and>
     replayBaseHeight c' = replayBaseHeight c \<and> finalityDepth c' = finalityDepth c \<and> selfID c' = selfID c \<and> members c' = members c \<and>
     blockTime c' = blockTime c \<and> source c' = source c \<and> genesisTS c' = genesisTS c \<and> hdrs (cstore c') = hdrs (cstore c) \<and>
     bodies (cstore c') = bodies (cstore c) \<and> writable (cstore c') = writable (cstore c) \<and> basefile (cstore c') = basefile (cstore c)"

lemma fr_refl [simp]: "fr c c"
  by (simp add: fr_def)

lemma fr_trans: "fr c d \<Longrightarrow> fr d e \<Longrightarrow> fr c e"
  by (simp add: fr_def)

lemma fr_sel:
  assumes "fr c c'"
  shows "cstate c' = cstate c" "chead c' = chead c" "tree c' = tree c" "blockByID c' = blockByID c"
    "hasGen c' = hasGen c" "engine c' = engine c" "replayBase c' = replayBase c" "replayBaseID c' = replayBaseID c"
    "replayBaseHeight c' = replayBaseHeight c" "finalityDepth c' = finalityDepth c" "selfID c' = selfID c" "members c' = members c"
    "blockTime c' = blockTime c" "source c' = source c" "genesisTS c' = genesisTS c" "hdrs (cstore c') = hdrs (cstore c)"
    "bodies (cstore c') = bodies (cstore c)" "writable (cstore c') = writable (cstore c)" "basefile (cstore c') = basefile (cstore c)"
  using assms by (simp_all add: fr_def)

lemma fr_shard: "fr c (c\<lparr>cstore := fst (PutShard i n d (cstore c))\<rparr>)"
  by (simp add: fr_def PutShard_def)

lemma fr_logset: "fr c (c\<lparr>cstore := fst (PutLogsSet h ss (cstore c))\<rparr>)"
  by (simp add: fr_def PutLogsSet_def)

lemma fr_bloom: "fr c (c\<lparr>cbloom := f\<rparr>)"
  by (simp add: fr_def)

definition bloom_ok :: "Chain \<Rightarrow> bool" where
  "bloom_ok c \<longleftrightarrow> (case cbloom c of None \<Rightarrow> True | Some f \<Rightarrow> filter_ok f)"

lemma bloom_ok_frame [simp]:
  "bloom_ok (c\<lparr>cstore := f\<rparr>) = bloom_ok c" "bloom_ok (c\<lparr>cstate := s\<rparr>) = bloom_ok c"
  "bloom_ok (c\<lparr>chead := h\<rparr>) = bloom_ok c"
  by (simp_all add: bloom_ok_def)

lemma store_shards_run:
  "\<exists>c' r. store_shards E i ss l c = Some (c', r) \<and> fr c c' \<and> (r = Ok () \<or> r = Panic) \<and>
     (bloom_ok c \<and> (\<forall>(n, d)\<in>set l. n < length (SetShardHash ss)) \<longrightarrow> r = Ok () \<and> bloom_ok c')"
proof (induction l arbitrary: c)
  case (Cons p l)
  obtain n d where p: "p = (n, d)" by (cases p)
  let ?c1 = "c\<lparr>cstore := fst (PutShard i (int n) d (cstore c))\<rparr>"
  show ?case
  proof (cases "IsHolder (eH E) (selfID c) (members c) i (int n) (Replication (int (length (members c))))")
    case False
    then show ?thesis using Cons [of c] by (auto simp: p)
  next
    case True
    show ?thesis
    proof (cases "cbloom c")
      case None
      with True Cons [of ?c1] show ?thesis by (auto simp: p Let_def intro: fr_trans [OF fr_shard])
    next
      case (Some f)
      show ?thesis
      proof (cases "length (SetShardHash ss) \<le> n")
        case True': True
        with True Some show ?thesis by (auto simp: p Let_def fr_shard)
      next
        case False
        obtain g where g: "filter_ok f \<Longrightarrow> AddTo (SetShardHash ss ! n) f = Ok g \<and> filter_ok g"
          using AddLoop_Ok [of f "SetShardHash ss ! n" "[0..<unat (FK f)]"] by (auto simp: AddTo_def)
        show ?thesis
        proof (cases "AddTo (SetShardHash ss ! n) f")
          case (Ok f')
          have "fr c (?c1\<lparr>cbloom := Some f'\<rparr>)" by (rule fr_trans [OF fr_shard fr_bloom])
          moreover have "bloom_ok (?c1\<lparr>cbloom := Some f'\<rparr>)" if "bloom_ok c"
            using g Ok Some that by (auto simp: bloom_ok_def)
          ultimately show ?thesis
            using True Some False Ok Cons [of "?c1\<lparr>cbloom := Some f'\<rparr>"]
            by (auto simp: p Let_def intro: fr_trans)
        qed (use True Some False g in \<open>auto simp: p Let_def fr_shard bloom_ok_def\<close>)
      qed
    qed
  qed
qed simp

lemma enumerate_fst: "(n, d) \<in> set (enumerate 0 xs) \<Longrightarrow> n < length xs"
  by (simp add: in_set_enumerate_eq)

lemma BuildShardSet_Ok:
  "BuildShardSet H rs i body spec = Ok (shards, ss) \<Longrightarrow>
     SetBlockID ss = i \<and> SetSpec ss = spec \<and> OrigLen ss = int (length body) \<and>
     SetShardHash ss = map (\<lambda>(n, s). ShardHash H i (int n) s) (enumerate 0 shards) \<and>
     EncodeShards rs body spec = Ok (shards, nat (PaddedLen ss), length body)"
  by (auto simp: BuildShardSet_def EncodeShards_def Let_def split: if_splits option.splits)

lemma BuildShardSet_no_Panic: "BuildShardSet H rs i body spec \<noteq> Panic"
  by (auto simp: BuildShardSet_def EncodeShards_def Let_def split: option.splits)

lemma storeAssigned_run:
  assumes "BuildShardSet H rs i body spec = Ok (shards, ss)"
  shows "\<exists>c' r. storeAssignedShards E j shards ss c = Some (c', r) \<and> fr c c' \<and> (r = Ok () \<or> r = Panic) \<and>
     (bloom_ok c \<longrightarrow> r = Ok () \<and> bloom_ok c')"
proof -
  have "\<forall>(n, d)\<in>set (enumerate 0 shards). n < length (SetShardHash ss)"
    using BuildShardSet_Ok [OF assms] by (auto dest: enumerate_fst)
  with store_shards_run [of E j ss "enumerate 0 shards" c] show ?thesis
    by (auto simp: storeAssignedShards_def)
qed

lemma persistLogs_run:
  "\<exists>c' r. persistLogs E h c = Some (c', r) \<and> fr c c' \<and> (r = Ok () \<or> r = Panic) \<and> (bloom_ok c \<longrightarrow> r = Ok () \<and> bloom_ok c')"
proof (cases "LastLogs (cstate c) = []")
  case False
  let ?lid = "logsID (eH E) (ID (eH E) h)"
  show ?thesis
  proof (cases "BuildShardSet (eH E) (eRS E) ?lid (EncodeLogs (LastLogs (cstate c))) (Spec h)")
    case (Ok p)
    obtain shards ss where p: "p = (shards, ss)" by (cases p)
    let ?c1 = "c\<lparr>cstore := fst (PutLogsSet (Height h) ss (cstore c))\<rparr>"
    from storeAssigned_run [OF Ok [unfolded p], of E ?lid ?c1] show ?thesis
      using False Ok by (auto simp: persistLogs_def Let_def p intro: fr_trans [OF fr_logset])
  qed (use False in \<open>auto simp: persistLogs_def Let_def BuildShardSet_no_Panic\<close>)
qed (simp add: persistLogs_def)

lemma persistBlockSet_Ok:
  assumes "persistBlockSet E h body c = Some (c', Ok ss)"
  shows "\<exists>shards. BuildShardSet (eH E) (eRS E) (ID (eH E) h) body (Spec h) = Ok (shards, ss)"
    and "writable (cstore c)" and "fr (c\<lparr>cstore := fst (PutHeader h ss (cstore c))\<rparr>) c'"
proof -
  from assms obtain shards where b: "BuildShardSet (eH E) (eRS E) (ID (eH E) h) body (Spec h) = Ok (shards, ss)"
    and w: "writable (cstore c)"
    and s: "storeAssignedShards E (ID (eH E) h) shards ss (c\<lparr>cstore := fst (PutHeader h ss (cstore c))\<rparr>) = Some (c', Ok ())"
    by (auto simp: persistBlockSet_def sbind_Ok_iff PutHeader_def split: result.splits if_splits)
  show "\<exists>shards. BuildShardSet (eH E) (eRS E) (ID (eH E) h) body (Spec h) = Ok (shards, ss)" "writable (cstore c)"
    using b w by blast+
  show "fr (c\<lparr>cstore := fst (PutHeader h ss (cstore c))\<rparr>) c'"
    using storeAssigned_run [OF b, of E "ID (eH E) h" "c\<lparr>cstore := fst (PutHeader h ss (cstore c))\<rparr>"] s by auto
qed

section \<open>A small network for the witnesses\<close>

text \<open>
  A hash that keeps the front of its input, a parity code with two data shards, and a node
  before its genesis block.
\<close>

definition toyH :: "bytes \<Rightarrow> hash" where
  "toyH x = take 32 (1 # x @ replicate 31 0)"

definition xor_bytes :: "bytes \<Rightarrow> bytes \<Rightarrow> bytes" where
  "xor_bytes a b = map2 xor a b"

definition raid :: "nat \<Rightarrow> nat \<Rightarrow> bytes \<Rightarrow> bytes list option" where
  "raid k m p =
     (if k = 2 \<and> m = 1 then let h = length p div 2; a = take h p; b = drop h p in Some [a, b, xor_bytes a b] else None)"

definition raid_rebuild :: "nat \<Rightarrow> nat \<Rightarrow> bytes option list \<Rightarrow> bytes list option" where
  "raid_rebuild k m got =
     (case got of
        [Some a, Some b, _] \<Rightarrow> Some [a, b, xor_bytes a b]
      | [Some a, None, Some c] \<Rightarrow> Some [a, xor_bytes a c, c]
      | [None, Some b, Some c] \<Rightarrow> Some [xor_bytes b c, b, c]
      | _ \<Rightarrow> None)"

definition raid_check :: "nat \<Rightarrow> nat \<Rightarrow> bytes list \<Rightarrow> bool" where
  "raid_check k m s = (length s = 3 \<and> s ! 2 = xor_bytes (s ! 0) (s ! 1))"

definition toyE :: ext where
  "toyE = \<lparr>eH = toyH, eV = \<lambda>_ _ _. True, eSign = \<lambda>_ _. [], eJ = \<lambda>_. None, eRS = raid, eRebuild = raid_rebuild, eCheck = raid_check\<rparr>"

definition kp0 :: KeyPair where
  "kp0 = \<lparr>Priv = [], Pub = replicate 32 7\<rparr>"

definition val0 :: address where
  "val0 = Address toyH kp0"

definition node0 :: Chain where
  "node0 = NewChain toyE OpenStore New (AuthorityEngine (NewAuthority [val0] val0)) None [1] [[1]] 5 100 16"
end
