(* ===== verification/SL_Reorg.thy ===== *)
theory SL_Reorg
  imports SL_Persist
begin

text \<open>
  Walking the block tree, moving the head and finality.
\<close>

declare walk_loop.simps [code] fin_walk.simps [code]

lemma less_inc: "(a :: 'a::len word) + 1 \<noteq> 0 \<Longrightarrow> a < a + 1"
  using unatSuc [of a] by (simp add: word_less_nat_alt add.commute)

section \<open>Known blocks and branches\<close>

definition known :: "Chain \<Rightarrow> hash \<Rightarrow> Block option" where
  "known c i = (case map_of (blockByID c) i of Some b \<Rightarrow> Some b | None \<Rightarrow> GetBlock (cstore c) i)"

text \<open>\<open>path k stop bs i\<close>: \<open>bs\<close> is the branch from below \<open>stop\<close> to \<open>i\<close>, oldest first.\<close>

inductive path :: "(hash \<Rightarrow> Block option) \<Rightarrow> hash \<Rightarrow> Block list \<Rightarrow> hash \<Rightarrow> bool" for k stop where
  path_nil: "path k stop [] stop"
| path_snoc: "i \<noteq> stop \<Longrightarrow> k i = Some b \<Longrightarrow> PrevHash (Hdr b) \<noteq> Zero \<Longrightarrow> path k stop bs (PrevHash (Hdr b))
    \<Longrightarrow> path k stop (bs @ [b]) i"

inductive_cases path_cases: "path k stop bs i"

lemma path_stop [simp]: "path k stop bs stop \<longleftrightarrow> bs = []"
  by (auto elim: path_cases intro: path_nil)

lemma path_step:
  "i \<noteq> stop \<Longrightarrow> path k stop bs i \<longleftrightarrow>
     (\<exists>b cs. k i = Some b \<and> PrevHash (Hdr b) \<noteq> Zero \<and> bs = cs @ [b] \<and> path k stop cs (PrevHash (Hdr b)))"
  by (auto elim: path_cases intro: path_snoc)

lemma path_det: "path k stop bs i \<Longrightarrow> path k stop cs i \<Longrightarrow> bs = cs"
proof (induction arbitrary: cs rule: path.induct)
  case (path_snoc i b bs)
  from path_snoc.prems [unfolded path_step [OF path_snoc.hyps(1)]] path_snoc.hyps(2) path_snoc.IH
  show ?case by auto
qed simp

text \<open>A step that only fills the cache of bodies.\<close>

definition fc :: "Chain \<Rightarrow> Chain \<Rightarrow> bool" where
  "fc c c' \<longleftrightarrow> (\<exists>m. c' = c\<lparr>blockByID := m\<rparr>) \<and> known c' = known c"

lemma fc_refl [simp]: "fc c c"
  by (auto simp: fc_def intro: exI [of _ "blockByID c"])

lemma fc_trans: "fc c d \<Longrightarrow> fc d e \<Longrightarrow> fc c e"
  by (auto simp: fc_def)

lemma block_at_known: "block_at i c = (c', r) \<Longrightarrow> fc c c' \<and> r = known c i"
  by (auto simp: block_at_def fc_def known_def loadBlock_def fun_eq_iff GetBlock_def split: option.splits if_splits
      intro: exI [of _ "blockByID c"])

lemma walk_loop_Some:
  "walk_loop i stop acc c = Some r \<Longrightarrow>
     fc c (fst r) \<and> (\<forall>bs'. snd r = Some bs' \<longrightarrow> (\<exists>bs. bs' = bs @ acc \<and> path (known c) stop bs i))"
proof (erule walk_loop.raw_induct [rotated])
  fix walk i stop acc c r
  assume 2: "\<And>i stop acc c r. walk i stop acc c = Some r \<Longrightarrow> 
     fc c (fst r) \<and> (\<forall>bs'. snd r = Some bs' \<longrightarrow> (\<exists>bs. bs' = bs @ acc \<and> path (known c) stop bs i))"
    "(if i = stop then Some (c, Some acc)
      else case block_at i c of
        (c', None) \<Rightarrow> Some (c', None)
      | (c', Some b) \<Rightarrow>
          if PrevHash (Hdr b) = Zero then Some (c', None) else walk (PrevHash (Hdr b)) stop (b # acc) c') = Some r"
  show "fc c (fst r) \<and> (\<forall>bs'. snd r = Some bs' \<longrightarrow> (\<exists>bs. bs' = bs @ acc \<and> path (known c) stop bs i))"
  proof (cases "i = stop")
    case True
    with 2(2) show ?thesis by auto
  next
    case False
    obtain c1 ob where b: "block_at i c = (c1, ob)" by (cases "block_at i c")
    note kn = block_at_known [OF b]
    show ?thesis
    proof (cases ob)
      case None
      with 2(2) False b kn show ?thesis by auto
    next
      case (Some x)
      show ?thesis
      proof (cases "PrevHash (Hdr x) = Zero")
        case True
        then have "r = (c1, None)" using 2(2) False b Some by simp
        then show ?thesis using kn by simp
      next
        case F: False
        with 2(2) False b Some have w: "walk (PrevHash (Hdr x)) stop (x # acc) c1 = Some r" by simp
        have k1: "known c1 = known c" using kn by (simp add: fc_def)
        have kx: "known c i = Some x" and f1: "fc c c1" using kn Some by simp_all
        have p: "path (known c) stop (bs @ [x]) i" if "path (known c) stop bs (PrevHash (Hdr x))" for bs
          by (rule path_snoc) (use False kx F that in auto)
        show ?thesis
        proof (intro conjI allI impI)
          show "fc c (fst r)" using 2(1) [OF w] f1 by (blast intro: fc_trans)
          fix bs' assume "snd r = Some bs'"
          with 2(1) [OF w] k1 obtain bs where "bs' = bs @ x # acc" "path (known c) stop bs (PrevHash (Hdr x))" by auto
          with p [of bs] show "\<exists>bs. bs' = bs @ acc \<and> path (known c) stop bs i"
            by (intro exI [of _ "bs @ [x]"]) simp
        qed
      qed
    qed
  qed
qed

lemma fin_walk_Some:
  "fin_walk i base target acc c = Some r \<Longrightarrow>
     fc c (fst r) \<and>
     (\<forall>bs'. snd r = Some bs' \<longrightarrow> (\<exists>bs. bs' = filter (\<lambda>b. Height (Hdr b) \<le> target) bs @ acc \<and> path (known c) base bs i))"
proof (erule fin_walk.raw_induct [rotated])
  fix walk i base target acc c r
  assume 2: "\<And>i base target acc c r. walk i base target acc c = Some r \<Longrightarrow> 
     fc c (fst r) \<and>
     (\<forall>bs'. snd r = Some bs' \<longrightarrow> (\<exists>bs. bs' = filter (\<lambda>b. Height (Hdr b) \<le> target) bs @ acc \<and> path (known c) base bs i))"
    "(if i = base then Some (c, Some acc)
      else case block_at i c of
        (c', None) \<Rightarrow> Some (c', None)
      | (c', Some b) \<Rightarrow>
          let acc' = (if Height (Hdr b) \<le> target then b # acc else acc) in
          if PrevHash (Hdr b) = Zero then Some (c', None) else walk (PrevHash (Hdr b)) base target acc' c') = Some r"
  show "fc c (fst r) \<and>
     (\<forall>bs'. snd r = Some bs' \<longrightarrow> (\<exists>bs. bs' = filter (\<lambda>b. Height (Hdr b) \<le> target) bs @ acc \<and> path (known c) base bs i))"
  proof (cases "i = base")
    case True
    with 2(2) show ?thesis by (auto intro!: exI [of _ "[]"])
  next
    case False
    obtain c1 ob where b: "block_at i c = (c1, ob)" by (cases "block_at i c")
    note kn = block_at_known [OF b]
    show ?thesis
    proof (cases ob)
      case None
      with 2(2) False b kn show ?thesis by auto
    next
      case (Some x)
      show ?thesis
      proof (cases "PrevHash (Hdr x) = Zero")
        case True
        then have "r = (c1, None)" using 2(2) False b Some by (simp add: Let_def)
        then show ?thesis using kn by simp
      next
        case F: False
        let ?acc = "if Height (Hdr x) \<le> target then x # acc else acc"
        have w: "walk (PrevHash (Hdr x)) base target ?acc c1 = Some r"
          using 2(2) False b Some F by (simp add: Let_def)
        have k1: "known c1 = known c" using kn by (simp add: fc_def)
        have acc: "filter (\<lambda>b. Height (Hdr b) \<le> target) bs @ ?acc = filter (\<lambda>b. Height (Hdr b) \<le> target) (bs @ [x]) @ acc" for bs
          by simp
        show ?thesis
        proof (intro conjI allI impI)
          show "fc c (fst r)" using 2(1) [OF w] kn by (blast intro: fc_trans)
          fix bs' assume "snd r = Some bs'"
          with 2(1) [OF w] k1 obtain bs where "bs' = filter (\<lambda>b. Height (Hdr b) \<le> target) bs @ ?acc"
            and "path (known c) base bs (PrevHash (Hdr x))" by auto
          with False F Some kn show "\<exists>bs. bs' = filter (\<lambda>b. Height (Hdr b) \<le> target) bs @ acc \<and> path (known c) base bs i"
            by (auto simp only: acc intro!: exI [of _ "bs @ [x]"] path_snoc)
        qed
      qed
    qed
  qed
qed

section \<open>The walks return\<close>

text \<open>Every known block hangs below a known block of smaller height, or is a genesis block.\<close>

definition rooted :: "(hash \<Rightarrow> Block option) \<Rightarrow> bool" where
  "rooted k \<longleftrightarrow> (\<forall>i b. k i = Some b \<longrightarrow>
     PrevHash (Hdr b) = Zero \<or> (\<exists>p. k (PrevHash (Hdr b)) = Some p \<and> Height (Hdr p) < Height (Hdr b)))"

definition depth :: "(hash \<Rightarrow> Block option) \<Rightarrow> hash \<Rightarrow> nat" where
  "depth k i = (case k i of None \<Rightarrow> 0 | Some b \<Rightarrow> Suc (unat (Height (Hdr b))))"

lemma depth_prev: "rooted k \<Longrightarrow> k i = Some b \<Longrightarrow> PrevHash (Hdr b) \<noteq> Zero \<Longrightarrow> depth k (PrevHash (Hdr b)) < depth k i"
  by (force simp: rooted_def depth_def word_less_nat_alt)

lemma walk_loop_total: "rooted (known c) \<Longrightarrow> walk_loop i stop acc c \<noteq> None"
proof (induction "depth (known c) i" arbitrary: i acc c rule: less_induct)
  case less
  obtain c1 ob where b: "block_at i c = (c1, ob)" by (cases "block_at i c")
  with block_at_known have k: "known c1 = known c" "ob = known c i" by (auto simp: fc_def)
  show ?case
  proof (cases ob)
    case (Some x)
    then have x: "known c i = Some x" using k by simp
    show ?thesis
      using less.hyps [of c1 "PrevHash (Hdr x)" "x # acc"] depth_prev [OF less.prems x] less.prems b Some k(1)
      by (subst walk_loop.simps) auto
  qed (use b in \<open>subst walk_loop.simps, auto\<close>)
qed

lemma fin_walk_total: "rooted (known c) \<Longrightarrow> fin_walk i base target acc c \<noteq> None"
proof (induction "depth (known c) i" arbitrary: i acc c rule: less_induct)
  case less
  obtain c1 ob where b: "block_at i c = (c1, ob)" by (cases "block_at i c")
  with block_at_known have k: "known c1 = known c" "ob = known c i" by (auto simp: fc_def)
  show ?case
  proof (cases ob)
    case (Some x)
    then have x: "known c i = Some x" using k by simp
    show ?thesis
      using less.hyps [of c1 "PrevHash (Hdr x)"] depth_prev [OF less.prems x] less.prems b Some k(1)
      by (subst fin_walk.simps) (auto simp: Let_def)
  qed (use b in \<open>subst fin_walk.simps, auto\<close>)
qed

text \<open>A walk that ends without a result has no branch to its goal.\<close>

lemma walk_loop_path:
  "path k stop bs i \<Longrightarrow> known c = k \<Longrightarrow> \<exists>c'. walk_loop i stop acc c = Some (c', Some (bs @ acc))"
proof (induction arbitrary: acc c rule: path.induct)
  case path_nil
  then show ?case by (simp add: walk_loop.simps)
next
  case (path_snoc i b bs)
  obtain c1 ob where b: "block_at i c = (c1, ob)" by (cases "block_at i c")
  with block_at_known have k: "known c1 = known c" "ob = known c i" by (auto simp: fc_def)
  then have o: "ob = Some b" using path_snoc by simp
  have "\<exists>c'. walk_loop (PrevHash (Hdr b)) stop (b # acc) c1 = Some (c', Some (bs @ b # acc))"
    by (rule path_snoc.IH) (simp add: k(1) path_snoc.prems)
  then show ?case
    using path_snoc.hyps(1,3) b o by (subst walk_loop.simps) auto
qed

lemma walkDown_cases:
  assumes "walkDown tip stop c = Some (c', r)"
  shows "fc c c'" and "r = Some bs \<longleftrightarrow> path (known c) stop bs tip"
proof -
  note w = walk_loop_Some [OF assms [unfolded walkDown_def]]
  show "fc c c'" using w by simp
  show "r = Some bs \<longleftrightarrow> path (known c) stop bs tip"
  proof
    assume "r = Some bs"
    with w show "path (known c) stop bs tip" by auto
  next
    assume "path (known c) stop bs tip"
    from walk_loop_path [OF this refl, of "[]"] assms show "r = Some bs" by (auto simp: walkDown_def)
  qed
qed

section \<open>Ancestors\<close>

definition ancestor :: "(hash \<Rightarrow> Block option) \<Rightarrow> hash \<Rightarrow> hash \<Rightarrow> bool" where
  "ancestor k a i \<longleftrightarrow> (\<exists>bs. path k a bs i)"

lemma ancestor_refl [simp]: "ancestor k a a"
  by (simp add: ancestor_def)

lemma ancestor_step:
  assumes "k i = Some b" "PrevHash (Hdr b) \<noteq> Zero" "ancestor k a (PrevHash (Hdr b))"
  shows "ancestor k a i"
proof (cases "i = a")
  case False
  from assms(3) obtain bs where "path k a bs (PrevHash (Hdr b))" by (auto simp: ancestor_def)
  from path_snoc [of i a k b, OF False assms(1,2) this] show ?thesis by (auto simp: ancestor_def)
qed simp

lemma path_anc_trans: "path k m bs i \<Longrightarrow> ancestor k a m \<Longrightarrow> ancestor k a i"
  by (induction rule: path.induct) (auto intro: ancestor_step)

lemma ancestor_trans: "ancestor k a m \<Longrightarrow> ancestor k m i \<Longrightarrow> ancestor k a i"
  using path_anc_trans by (auto simp: ancestor_def [of k m i])

text \<open>Keys are the ids of the blocks, whose headers are among \<open>HS\<close>.\<close>

definition keyed :: "ext \<Rightarrow> Header set \<Rightarrow> (hash \<Rightarrow> Block option) \<Rightarrow> bool" where
  "keyed E HS k \<longleftrightarrow> (\<forall>i b. k i = Some b \<longrightarrow> ID (eH E) (Hdr b) = i \<and> Hdr b \<in> HS)"

lemma path_mem:
  assumes "keyed E HS k" "path k stop bs i" "b \<in> set bs"
  shows "ancestor k stop (ID (eH E) (Hdr b)) \<and> ancestor k (ID (eH E) (Hdr b)) i \<and> k (ID (eH E) (Hdr b)) = Some b"
  using assms(2,3)
proof (induction rule: path.induct)
  case (path_snoc i x bs)
  have i: "i = ID (eH E) (Hdr x)" using assms(1) path_snoc.hyps(2) by (auto simp: keyed_def)
  have x: "ancestor k stop i" using path_snoc.hyps by (auto simp: ancestor_def intro: path.path_snoc)
  show ?case
  proof (cases "b \<in> set bs")
    case True
    with path_snoc.IH path_snoc.hyps show ?thesis by (auto intro: ancestor_step)
  next
    case False
    with path_snoc.prems have "b = x" by simp
    with x i path_snoc.hyps(2) show ?thesis by auto
  qed
qed simp

lemma path_last: "keyed E HS k \<Longrightarrow> path k stop bs i \<Longrightarrow> i \<noteq> stop \<Longrightarrow> bs \<noteq> [] \<and> k i = Some (last bs) \<and> ID (eH E) (Hdr (last bs)) = i"
  by (auto simp: keyed_def elim: path_cases)

section \<open>Growing block trees\<close>

text \<open>
  \<open>good E HS\<close>: the headers in play have well-formed fields, no two of them collide under the
  hash function and none hashes to the zero id.
\<close>

definition good :: "ext \<Rightarrow> Header set \<Rightarrow> bool" where
  "good E HS \<longleftrightarrow> (\<forall>h\<in>HS. hdr_fits h) \<and> inj_on (eH E) (HdrSigningBytes ` HS) \<and> Zero \<notin> eH E ` HdrSigningBytes ` HS"

lemma ID_inject:
  assumes "good E HS" "h \<in> HS" "g \<in> HS" "ID (eH E) h = ID (eH E) g"
  shows "PrevHash h = PrevHash g \<and> Height h = Height g"
proof -
  have "HdrSigningBytes h = HdrSigningBytes g" using assms by (auto simp: good_def ID_def dest: inj_onD)
  moreover have "hdr_fits h" "hdr_fits g" using assms by (auto simp: good_def)
  ultimately have "h\<lparr>HdrSig := [], ValPubKey := []\<rparr> = g\<lparr>HdrSig := [], ValPubKey := []\<rparr>"
    by (intro HdrSigningBytes_inject)
  then show ?thesis by (metis Header.select_convs(1,2) Header.update_convs(11,12) Header.surjective)
qed

lemma ID_nonzero: "good E HS \<Longrightarrow> h \<in> HS \<Longrightarrow> ID (eH E) h \<noteq> Zero"
  unfolding good_def ID_def by (metis imageI)

definition grows :: "(hash \<Rightarrow> Block option) \<Rightarrow> (hash \<Rightarrow> Block option) \<Rightarrow> bool" where
  "grows k k' \<longleftrightarrow> (\<forall>i b. k i = Some b \<longrightarrow> (\<exists>b'. k' i = Some b' \<and> PrevHash (Hdr b') = PrevHash (Hdr b) \<and> Height (Hdr b') = Height (Hdr b)))"

lemma grows_refl [simp]: "grows k k"
  by (simp add: grows_def)

lemma grows_trans: "grows k l \<Longrightarrow> grows l m \<Longrightarrow> grows k m"
  unfolding grows_def by metis

lemma grows_anc: "grows k k' \<Longrightarrow> ancestor k a i \<Longrightarrow> ancestor k' a i"
proof -
  assume g: "grows k k'" and "ancestor k a i"
  then obtain bs where "path k a bs i" by (auto simp: ancestor_def)
  then show ?thesis
  proof (induction rule: path.induct)
    case (path_snoc i b bs)
    then obtain b' where "k' i = Some b'" "PrevHash (Hdr b') = PrevHash (Hdr b)" using g by (auto simp: grows_def)
    with path_snoc show ?case by (auto intro: ancestor_step)
  qed simp
qed

lemma upd_grows:
  assumes "good E HS" "keyed E HS k" "Hdr b \<in> HS" "i = ID (eH E) (Hdr b)"
  shows "grows k (k(i \<mapsto> b))" "keyed E HS (k(i \<mapsto> b))"
proof -
  have "PrevHash (Hdr b) = PrevHash (Hdr b0) \<and> Height (Hdr b) = Height (Hdr b0)" if "k i = Some b0" for b0
    using ID_inject [OF assms(1,3)] assms(2,4) that by (auto simp: keyed_def)
  then show "grows k (k(i \<mapsto> b))" by (auto simp: grows_def)
  show "keyed E HS (k(i \<mapsto> b))" using assms(2-4) by (auto simp: keyed_def)
qed

lemma upd_rooted:
  assumes "grows k (k(i \<mapsto> b))" "rooted k" "k (PrevHash (Hdr b)) = Some p" "Height (Hdr p) < Height (Hdr b)"
  shows "rooted (k(i \<mapsto> b))"
proof -
  let ?k = "k(i \<mapsto> b)"
  have par: "\<exists>q. ?k j = Some q \<and> Height (Hdr q) = Height (Hdr q0)" if "k j = Some q0" for j q0
    using assms(1) that unfolding grows_def by blast
  show ?thesis
    unfolding rooted_def
  proof (intro allI impI)
    fix j x assume "?k j = Some x"
    then consider "j = i" "x = b" | "j \<noteq> i" "k j = Some x" by (auto split: if_splits)
    then show "PrevHash (Hdr x) = Zero \<or> (\<exists>q. ?k (PrevHash (Hdr x)) = Some q \<and> Height (Hdr q) < Height (Hdr x))"
    proof cases
      case 1
      with par [OF assms(3)] assms(4) show ?thesis by auto
    next
      case 2
      with assms(2) consider "PrevHash (Hdr x) = Zero" | q0 where "k (PrevHash (Hdr x)) = Some q0" "Height (Hdr q0) < Height (Hdr x)"
        by (auto simp: rooted_def)
      then show ?thesis by cases (use par in \<open>force+\<close>)
    qed
  qed
qed

section \<open>The invariant of a chain that started at a genesis block\<close>

text \<open>Exactly the known blocks are in the fork-choice tree, each weighed by its height.\<close>

definition weighed :: "(hash \<Rightarrow> Block option) \<Rightarrow> Tree \<Rightarrow> bool" where
  "weighed k t \<longleftrightarrow> gomap t \<and> (\<forall>i. map_option cum (map_of t i) = map_option (\<lambda>b. Height (Hdr b) + 1) (k i))"

definition chain_inv :: "ext \<Rightarrow> Header set \<Rightarrow> Chain \<Rightarrow> bool" where
  "chain_inv E HS c \<longleftrightarrow>
     hasGen c \<and> chead c \<in> HS \<and> keyed E HS (known c) \<and> rooted (known c) \<and> known c (ID (eH E) (chead c)) \<noteq> None \<and>
     replayBase c \<noteq> None \<and> ancestor (known c) (replayBaseID c) (ID (eH E) (chead c)) \<and> weighed (known c) (tree c) \<and>
     (\<exists>b. known c (replayBaseID c) = Some b \<and> Height (Hdr b) = replayBaseHeight c)"

text \<open>What an operation may do to the tree and to the finalized block.\<close>

definition evolves :: "Chain \<Rightarrow> Chain \<Rightarrow> bool" where
  "evolves c c' \<longleftrightarrow> grows (known c) (known c') \<and> ancestor (known c') (replayBaseID c) (replayBaseID c') \<and>
     replayBaseHeight c \<le> replayBaseHeight c'"

lemma evolves_refl [simp]: "evolves c c"
  by (simp add: evolves_def)

lemma evolves_trans: "evolves c d \<Longrightarrow> evolves d e \<Longrightarrow> evolves c e"
  unfolding evolves_def by (meson grows_trans grows_anc ancestor_trans order_trans)

definition core_same :: "Chain \<Rightarrow> Chain \<Rightarrow> bool" where
  "core_same c c' \<longleftrightarrow> known c' = known c \<and> chead c' = chead c \<and> hasGen c' = hasGen c \<and> tree c' = tree c \<and>
     replayBaseID c' = replayBaseID c \<and> replayBaseHeight c' = replayBaseHeight c \<and> replayBase c' = replayBase c"

lemma core_refl [simp]: "core_same c c"
  by (simp add: core_same_def)

lemma core_trans: "core_same c d \<Longrightarrow> core_same d e \<Longrightarrow> core_same c e"
  by (simp add: core_same_def)

lemma core_inv: "core_same c c' \<Longrightarrow> chain_inv E HS c' = chain_inv E HS c \<and> evolves c c'"
  by (simp add: core_same_def chain_inv_def evolves_def)

lemma known_cong:
  "blockByID c' = blockByID c \<Longrightarrow> bodies (cstore c') = bodies (cstore c) \<Longrightarrow> known c' = known c"
  by (simp add: known_def GetBlock_def fun_eq_iff split: option.split)

lemma known_frame [simp]:
  "known (c\<lparr>cstate := s\<rparr>) = known c" "known (c\<lparr>chead := h\<rparr>) = known c"
  by (rule known_cong; simp)+

lemma core_state [simp]: "core_same c (c\<lparr>cstate := s\<rparr>)"
  by (simp add: core_same_def)

lemma core_files: "bodies f = bodies (cstore c) \<Longrightarrow> core_same c (c\<lparr>cstore := f\<rparr>)"
  using known_cong [of "c\<lparr>cstore := f\<rparr>" c] by (simp add: core_same_def)

lemma core_fr: "fr c c' \<Longrightarrow> core_same c c'"
  using fr_sel [of c c'] known_cong [of c' c] by (simp add: core_same_def)

lemma core_fc: "fc c c' \<Longrightarrow> core_same c c'"
  by (auto simp: fc_def core_same_def)

lemma core_persistLogs: "persistLogs E h c = Some (c', r) \<Longrightarrow> core_same c c'"
  using persistLogs_run [of E h c] by (auto intro: core_fr)

lemma core_persistBlockSet:
  assumes "persistBlockSet E h body c = Some (c', r)"
  shows "core_same c c'"
proof (cases "BuildShardSet (eH E) (eRS E) (ID (eH E) h) body (Spec h)")
  case (Ok p)
  obtain shards ss where p: "p = (shards, ss)" by (cases p)
  let ?c1 = "c\<lparr>cstore := fst (PutHeader h ss (cstore c))\<rparr>"
  have c1: "core_same c ?c1" by (rule core_files) simp
  from storeAssigned_run [OF Ok [unfolded p], of E "ID (eH E) h" ?c1] obtain d q
    where d: "storeAssignedShards E (ID (eH E) h) shards ss ?c1 = Some (d, q)" "fr ?c1 d" "q = Ok () \<or> q = Panic" by blast
  from assms Ok p d have "c' = ?c1 \<or> c' = d"
    by (auto simp: persistBlockSet_def PutHeader_def split: if_splits)
  with c1 core_fr [OF d(2)] show ?thesis by (auto intro: core_trans)
qed (use assms in \<open>auto simp: persistBlockSet_def\<close>)

lemma core_commitCanonical:
  assumes "commitCanonical E b c = Some (c', r)"
  shows "core_same c c'"
proof -
  obtain c1 q where c1: "persistBlockSet E (Hdr b) (Body b) c = Some (c1, q)"
    using assms by (cases "persistBlockSet E (Hdr b) (Body b) c") (auto simp: commitCanonical_def)
  with assms show ?thesis
    by (cases q) (auto simp: commitCanonical_def intro: core_trans [OF core_persistBlockSet core_persistLogs] core_persistBlockSet)
qed

lemma core_forward: "forward E bs c = Some (c', r) \<Longrightarrow> core_same c c'"
proof (induction bs arbitrary: c)
  case (Cons b bs)
  obtain s o' where a: "apply_on E (cstore c) b (cstate c) = (s, o')" by (cases "apply_on E (cstore c) b (cstate c)")
  show ?case
  proof (cases o')
    case (Ok u)
    with Cons.prems a have "sbind (commitCanonical E b (c\<lparr>cstate := s\<rparr>)) (\<lambda>_. forward E bs) = Some (c', r)" by simp
    then show ?thesis
      by (rule sbind_cases) (blast intro: core_trans [OF core_state] core_trans core_commitCanonical Cons.IH)+
  qed (use Cons.prems a in auto)
qed simp

lemma core_commit_all: "commit_all E bs c = Some (c', r) \<Longrightarrow> core_same c c'"
proof (induction bs arbitrary: c)
  case (Cons b bs)
  from Cons.prems have "sbind (commitCanonical E b c) (\<lambda>_. commit_all E bs) = Some (c', r)" by simp
  then show ?case by (rule sbind_cases) (blast intro: core_trans core_commitCanonical Cons.IH)+
qed simp

section \<open>Advancing finality\<close>

lemma saveReplayBase_sel [simp]:
  "chead (saveReplayBase c) = chead c" "hasGen (saveReplayBase c) = hasGen c" "tree (saveReplayBase c) = tree c"
  "replayBase (saveReplayBase c) = replayBase c" "replayBaseID (saveReplayBase c) = replayBaseID c"
  "replayBaseHeight (saveReplayBase c) = replayBaseHeight c" "cstate (saveReplayBase c) = cstate c"
  "known (saveReplayBase c) = known c" "engine (saveReplayBase c) = engine c"
  "hdrs (cstore (saveReplayBase c)) = hdrs (cstore c)"
  by (auto simp: saveReplayBase_def intro!: known_cong split: option.split)

text \<open>Finality never fails; it leaves the head alone and moves the base along the branch to the head.\<close>

lemma advanceFinality_run:
  assumes "advanceFinality E c = Some (c', r)"
  shows "(r = Ok () \<or> r = Panic) \<and> known c' = known c \<and> chead c' = chead c \<and> hasGen c' = hasGen c \<and> tree c' = tree c \<and>
    cstate c' = cstate c \<and> hdrs (cstore c') = hdrs (cstore c) \<and> (replayBase c' = None \<longleftrightarrow> replayBase c = None) \<and>
    (replayBaseID c' = replayBaseID c \<and> replayBaseHeight c' = replayBaseHeight c \<or>
     (\<exists>bs b. path (known c) (replayBaseID c) bs (ID (eH E) (chead c)) \<and> b \<in> set bs \<and>
        replayBaseID c' = ID (eH E) (Hdr b) \<and> replayBaseHeight c' = Height (Hdr b)))"
proof (cases "replayBase c")
  case (Some base)
  let ?target = "Height (chead c) - finalityDepth c"
  let ?walk = "fin_walk (ID (eH E) (chead c)) (replayBaseID c) ?target [] c"
  show ?thesis
  proof (cases "finalityDepth c = 0 \<or> Height (chead c) < finalityDepth c \<or> ?target \<le> replayBaseHeight c")
    case True
    with assms Some have "c' = c" "r = Ok ()" by (auto simp: advanceFinality_def Let_def split: if_splits)
    then show ?thesis by simp
  next
    case False
    with assms Some obtain c1 obs where w: "?walk = Some (c1, obs)"
      by (auto simp: advanceFinality_def Let_def split: option.splits)
    note f = fin_walk_Some [OF w, simplified]
    then obtain m where m: "c1 = c\<lparr>blockByID := m\<rparr>" "known c1 = known c" by (auto simp: fc_def)
    show ?thesis
    proof (cases obs)
      case None
      with assms Some False w have "c' = c1" "r = Ok ()" by (auto simp: advanceFinality_def Let_def)
      with m show ?thesis by simp
    next
      case bs: (Some bs)
      obtain ns q where q: "replay E (cstore c1) bs (InheritConfig (cstate c1) (Clone base)) = (ns, q)"
        by (cases "replay E (cstore c1) bs (InheritConfig (cstate c1) (Clone base))")
      show ?thesis
      proof (cases q)
        case (Ok u)
        let ?c2 = "c1\<lparr>replayBase := Some ns\<rparr>"
        let ?c3 = "if bs = [] then ?c2
          else ?c2\<lparr>replayBaseID := ID (eH E) (Hdr (last bs)), replayBaseHeight := Height (Hdr (last bs))\<rparr>"
        have r: "c' = saveReplayBase ?c3" "r = Ok ()"
          using assms Some False w bs q Ok by (auto simp: advanceFinality_def Let_def)
        have k3: "known ?c3 = known c" using m(2) known_cong [of ?c3 c1] by simp
        from f bs obtain ds where ds: "bs = filter (\<lambda>b. Height (Hdr b) \<le> ?target) ds"
          "path (known c) (replayBaseID c) ds (ID (eH E) (chead c))" by auto
        have "last bs \<in> set ds" if "bs \<noteq> []" using last_in_set [OF that] ds(1) by auto
        with r k3 m(1) ds(2) Some show ?thesis by auto
      qed (use assms Some False w bs q m in \<open>auto simp: advanceFinality_def Let_def\<close>)
    qed
  qed
qed (use assms in \<open>auto simp: advanceFinality_def\<close>)

lemma path_height:
  assumes "keyed E HS k" "rooted k" "path k stop bs i" "b \<in> set bs" "k stop = Some s"
  shows "Height (Hdr s) < Height (Hdr b)"
  using assms(3,4)
proof (induction arbitrary: b rule: path.induct)
  case (path_snoc i x bs)
  have lt: "Height (Hdr p) < Height (Hdr x)" if "k (PrevHash (Hdr x)) = Some p" for p
    using assms(2) path_snoc.hyps(2,3) that unfolding rooted_def by fastforce
  have x: "Height (Hdr s) < Height (Hdr x)"
  proof (cases "PrevHash (Hdr x) = stop")
    case True
    with lt assms(5) show ?thesis by simp
  next
    case False
    from path_last [OF assms(1) path_snoc.hyps(4) False] have "bs \<noteq> []" "k (PrevHash (Hdr x)) = Some (last bs)" by auto
    with path_snoc.IH [of "last bs"] lt show ?thesis by (auto intro: order.strict_trans)
  qed
  with path_snoc show ?case by auto
qed simp

lemma advanceFinality_inv:
  assumes inv: "chain_inv E HS c" and a: "advanceFinality E c = Some (c', r)"
  shows "chain_inv E HS c' \<and> evolves c c'"
proof -
  note run = advanceFinality_run [OF a]
  show ?thesis
  proof (cases "replayBaseID c' = replayBaseID c \<and> replayBaseHeight c' = replayBaseHeight c")
    case True
    with run inv show ?thesis by (simp add: chain_inv_def evolves_def)
  next
    case False
    with run obtain bs b where p: "path (known c) (replayBaseID c) bs (ID (eH E) (chead c))" "b \<in> set bs"
      and e: "replayBaseID c' = ID (eH E) (Hdr b)" "replayBaseHeight c' = Height (Hdr b)" by auto
    from inv have k: "keyed E HS (known c)" "rooted (known c)" by (simp_all add: chain_inv_def)
    from inv obtain s where s: "known c (replayBaseID c) = Some s" "Height (Hdr s) = replayBaseHeight c"
      by (auto simp: chain_inv_def)
    note mem = path_mem [OF k(1) p]
    have "replayBaseHeight c < Height (Hdr b)" using path_height [OF k p s(1)] s(2) by simp
    with run inv e mem show ?thesis by (simp add: chain_inv_def evolves_def)
  qed
qed

section \<open>Recording blocks and moving the head\<close>

lemma recordBlock_sel [simp]:
  "chead (recordBlock E b c) = chead c" "hasGen (recordBlock E b c) = hasGen c" "cstate (recordBlock E b c) = cstate c"
  "replayBase (recordBlock E b c) = replayBase c" "replayBaseID (recordBlock E b c) = replayBaseID c"
  "replayBaseHeight (recordBlock E b c) = replayBaseHeight c" "hdrs (cstore (recordBlock E b c)) = hdrs (cstore c)"
  "tree (recordBlock E b c) = Add (ID (eH E) (Hdr b)) (PrevHash (Hdr b)) (Height (Hdr b)) 1 (tree c)"
  by (simp_all add: recordBlock_def Let_def)

lemma known_record: "known (recordBlock E b c) = (known c)(ID (eH E) (Hdr b) \<mapsto> b)"
  by (auto simp: fun_eq_iff known_def recordBlock_def Let_def GetBlock_def PutBlock_def split: option.split)

lemma upd_weighed:
  assumes "weighed k t" "grows k (k(i \<mapsto> b))" "k (PrevHash (Hdr b)) = Some p" "Height (Hdr b) = Height (Hdr p) + 1"
  shows "weighed (k(i \<mapsto> b)) (Add i (PrevHash (Hdr b)) (Height (Hdr b)) 1 t)"
proof -
  have k: "map_option cum (map_of t j) = map_option (\<lambda>b. Height (Hdr b) + 1) (k j)" for j
    using assms(1) by (simp add: weighed_def)
  from k [of "PrevHash (Hdr b)"] assms(3) obtain e where e: "map_of t (PrevHash (Hdr b)) = Some e" "cum e = Height (Hdr p) + 1"
    by auto
  show ?thesis
  proof (cases "k i")
    case None
    with k [of i] have "map_of t i = None" by simp
    with e assms(1,4) k show ?thesis by (simp add: weighed_def Add_def add.commute)
  next
    case (Some b0)
    with k [of i] obtain e0 where e0: "map_of t i = Some e0" "cum e0 = Height (Hdr b0) + 1" by auto
    have "Height (Hdr b) = Height (Hdr b0)" using assms(2) Some unfolding grows_def by fastforce
    with e0 assms(1) k [symmetric] show ?thesis by (simp add: weighed_def Add_def)
  qed
qed

lemma record_inv:
  assumes inv: "chain_inv E HS c" "good E HS" and b: "Hdr b \<in> HS" "Height (Hdr b) \<noteq> 0"
    and p: "known c (PrevHash (Hdr b)) = Some p" "Height (Hdr b) = Height (Hdr p) + 1"
  shows "chain_inv E HS (recordBlock E b c) \<and> evolves c (recordBlock E b c)"
proof -
  let ?i = "ID (eH E) (Hdr b)"
  from inv have k: "keyed E HS (known c)" "rooted (known c)" by (simp_all add: chain_inv_def)
  note g = upd_grows [OF inv(2) k(1) b(1) refl]
  have "Height (Hdr p) < Height (Hdr b)" using p(2) b(2) by (simp add: less_inc)
  then have r: "rooted ((known c)(?i \<mapsto> b))" by (rule upd_rooted [OF g(1) k(2) p(1)])
  have w: "weighed ((known c)(?i \<mapsto> b)) (tree (recordBlock E b c))"
    using upd_weighed [OF _ g(1) p] inv(1) by (simp add: chain_inv_def)
  have base: "\<exists>x. ((known c)(?i \<mapsto> b)) (replayBaseID c) = Some x \<and> Height (Hdr x) = replayBaseHeight c"
    using inv(1) g(1) unfolding chain_inv_def grows_def by metis
  from inv(1) g r w base grows_anc [OF g(1)] show ?thesis
    by (simp add: chain_inv_def evolves_def known_record)
qed

lemma head_inv:
  assumes inv: "chain_inv E HS c" and x: "known c i = Some x" "ancestor (known c) (replayBaseID c) i"
  shows "chain_inv E HS (c\<lparr>chead := Hdr x\<rparr>) \<and> evolves c (c\<lparr>chead := Hdr x\<rparr>)"
proof -
  have "ID (eH E) (Hdr x) = i" "Hdr x \<in> HS" using inv x(1) by (auto simp: chain_inv_def keyed_def)
  with assms show ?thesis by (simp add: chain_inv_def evolves_def)
qed

text \<open>A block on top of the head, recorded as the new head.\<close>

lemma extend_inv:
  assumes inv: "chain_inv E HS c" "good E HS" and b: "Hdr b \<in> HS" "Height (Hdr b) \<noteq> 0"
    and p: "PrevHash (Hdr b) = ID (eH E) (chead c)" "Height (Hdr b) = Height (chead c) + 1"
  shows "chain_inv E HS (recordBlock E b (c\<lparr>chead := Hdr b\<rparr>)) \<and> evolves c (recordBlock E b (c\<lparr>chead := Hdr b\<rparr>))"
proof -
  from inv obtain hb where hb: "known c (ID (eH E) (chead c)) = Some hb" by (auto simp: chain_inv_def)
  have "Height (Hdr hb) = Height (chead c)"
    using ID_inject [OF inv(2), of "Hdr hb" "chead c"] inv(1) hb by (auto simp: chain_inv_def keyed_def)
  then have eq: "Height (Hdr b) = Height (Hdr hb) + 1" using p(2) by simp
  have "known c (PrevHash (Hdr b)) = Some hb" unfolding p(1) by (rule hb)
  note r = record_inv [OF inv b this eq]
  let ?c = "recordBlock E b c"
  have kb: "known ?c (ID (eH E) (Hdr b)) = Some b" by (simp add: known_record)
  have "ancestor (known ?c) (replayBaseID ?c) (PrevHash (Hdr b))" 
    unfolding p(1) using r by (simp add: chain_inv_def)
  moreover have "PrevHash (Hdr b) \<noteq> Zero" unfolding p(1) using inv ID_nonzero [of E HS "chead c"] by (simp add: chain_inv_def)
  ultimately have "ancestor (known ?c) (replayBaseID ?c) (ID (eH E) (Hdr b))" by (intro ancestor_step [of "known ?c", OF kb])
  from head_inv [OF conjunct1 [OF r] kb this] r
  have "chain_inv E HS (?c\<lparr>chead := Hdr b\<rparr>) \<and> evolves c (?c\<lparr>chead := Hdr b\<rparr>)" by (blast intro: evolves_trans)
  moreover have "?c\<lparr>chead := Hdr b\<rparr> = recordBlock E b (c\<lparr>chead := Hdr b\<rparr>)" by (simp add: recordBlock_def Let_def)
  ultimately show ?thesis by simp
qed

section \<open>Reorganisation keeps the invariant\<close>

lemma move_head_inv:
  assumes inv: "chain_inv E HS c" and p: "path (known c) stop bs i" "ancestor (known c) (replayBaseID c) stop"
    and m: "move_head E bs c = Some (c', r)"
  shows "chain_inv E HS c' \<and> evolves c c'"
proof (cases "bs = []")
  case False
  have k: "keyed E HS (known c)" using inv by (simp add: chain_inv_def)
  have i: "i \<noteq> stop" using False p(1) by auto
  note l = path_last [OF k p(1) i]
  have "ancestor (known c) (replayBaseID c) i" by (rule path_anc_trans [OF p])
  note h = head_inv [OF inv _ this, of "last bs"]
  have "advanceFinality E (c\<lparr>chead := Hdr (last bs)\<rparr>) = Some (c', r)" using m False by (simp add: move_head_def)
  from advanceFinality_inv [OF _ this] h l show ?thesis by (blast intro: evolves_trans)
qed (use m inv in \<open>simp add: move_head_def\<close>)

lemma reorg_inv:
  assumes inv: "chain_inv E HS c" and r: "reorgToBest E c = Some (c', r)"
  shows "chain_inv E HS c' \<and> evolves c c'"
proof (cases "fst (Best (tree c)) = ID (eH E) (chead c)")
  case True
  with r inv show ?thesis by (simp add: reorgToBest_def Let_def)
next
  case False
  let ?best = "fst (Best (tree c))"
  from r False obtain c1 o1 where w: "walkDown ?best (ID (eH E) (chead c)) c = Some (c1, o1)"
    by (auto simp: reorgToBest_def Let_def split: option.splits)
  note w1 = walkDown_cases [OF w]
  have c1: "core_same c c1" by (rule core_fc [OF w1(1)])
  have inv1: "chain_inv E HS c1" "evolves c c1" using core_inv [OF c1, of E HS] inv by simp_all
  have k1: "known c1 = known c" "chead c1 = chead c" "replayBaseID c1 = replayBaseID c" using c1 by (simp_all add: core_same_def)
  show ?thesis
  proof (cases o1)
    case (Some suffix)
    have p: "path (known c) (ID (eH E) (chead c)) suffix ?best" using w1(2) [of suffix] Some by simp
    from r False w Some have "sbind (forward E suffix c1) (\<lambda>_. move_head E suffix) = Some (c', r)"
      by (simp add: reorgToBest_def Let_def)
    then show ?thesis
    proof (rule sbind_cases)
      fix d v assume f: "forward E suffix c1 = Some (d, Ok v)" and m: "move_head E suffix d = Some (c', r)"
      have d: "core_same c1 d" by (rule core_forward [OF f])
      with inv1 core_inv [OF d, of E HS] have di: "chain_inv E HS d" "evolves c d" by (auto intro: evolves_trans)
      have kd: "known d = known c" "chead d = chead c" "replayBaseID d = replayBaseID c"
        using d k1 by (simp_all add: core_same_def)
      have "ancestor (known d) (replayBaseID d) (ID (eH E) (chead c))" using di(1) kd by (simp add: chain_inv_def)
      with move_head_inv [OF di(1) _ _ m, of "ID (eH E) (chead c)" ?best] p kd(1) di(2) show ?thesis
        by (auto intro: evolves_trans)
    qed (use inv1 core_forward core_inv in \<open>blast intro: evolves_trans\<close>)+
  next
    case None
    obtain base where base: "replayBase c1 = Some base" using inv1(1) by (auto simp: chain_inv_def)
    from r False w None base obtain c2 o2 where w': "walkDown ?best (replayBaseID c1) c1 = Some (c2, o2)"
      by (auto simp: reorgToBest_def Let_def split: option.splits)
    note w2 = walkDown_cases [OF w']
    have c2: "core_same c1 c2" by (rule core_fc [OF w2(1)])
    have inv2: "chain_inv E HS c2" "evolves c c2" using core_inv [OF c2, of E HS] inv1 by (auto intro: evolves_trans)
    show ?thesis
    proof (cases o2)
      case None': None
      with r False w None base w' inv2 show ?thesis by (simp add: reorgToBest_def Let_def)
    next
      case (Some branch)
      have p: "path (known c1) (replayBaseID c1) branch ?best" using w2(2) [of branch] Some by simp
      obtain ns q where q: "replay E (cstore c2) branch (InheritConfig (cstate c2) (Clone base)) = (ns, q)"
        by (cases "replay E (cstore c2) branch (InheritConfig (cstate c2) (Clone base))")
      let ?d = "c2\<lparr>cstate := ReplaceWith ns (cstate c2)\<rparr>"
      show ?thesis
      proof (cases q)
        case (Ok u)
        with r False w None base w' Some q
        have "sbind (commit_all E branch ?d) (\<lambda>_. move_head E branch) = Some (c', r)"
          by (simp add: reorgToBest_def Let_def)
        then show ?thesis
        proof (rule sbind_cases)
          fix d v assume f: "commit_all E branch ?d = Some (d, Ok v)" and m: "move_head E branch d = Some (c', r)"
          have d: "core_same c2 d" by (rule core_trans [OF core_state core_commit_all [OF f]])
          with inv2 core_inv [OF d, of E HS] have di: "chain_inv E HS d" "evolves c d" by (auto intro: evolves_trans)
          have kd: "known d = known c1" "replayBaseID d = replayBaseID c1"
            using d c2 by (simp_all add: core_same_def)
          with move_head_inv [OF di(1) _ _ m, of "replayBaseID c1" ?best] p di(2) show ?thesis
            by (auto intro: evolves_trans)
        qed (use inv2 core_trans [OF core_state core_commit_all] core_inv in \<open>blast intro: evolves_trans\<close>)+
      qed (use r False w None base w' Some q inv2 in \<open>auto simp: reorgToBest_def Let_def\<close>)
    qed
  qed
qed

section \<open>The operations\<close>

lemma persist_both_cases:
  assumes "sbind (persistBlockSet E h body c) (\<lambda>ss c. sbind (persistLogs E h c) (\<lambda>_ c. f ss c)) = Some (c', r)"
  obtains "core_same c c'" "r \<noteq> Panic \<longrightarrow> (\<exists>e. r = Err e)"
    | c1 ss where "core_same c c1" "f ss c1 = Some (c', r)"
  using assms
proof (rule sbind_cases)
  fix d ss assume d: "persistBlockSet E h body c = Some (d, Ok ss)"
    and l: "sbind (persistLogs E h d) (\<lambda>_ c. f ss c) = Some (c', r)"
  note cd = core_persistBlockSet [OF d]
  from l show thesis
  proof (rule sbind_cases)
    fix c1 v assume "persistLogs E h d = Some (c1, Ok v)" "f ss c1 = Some (c', r)"
    then show thesis using cd core_persistLogs core_trans that(2) by blast
  qed (use cd core_persistLogs core_trans that(1) in blast)+
qed (use core_persistBlockSet that(1) in blast)+

lemma ApplyExternalBlock_cases:
  assumes "ApplyExternalBlock E now b c = Some (c', r)"
  obtains "core_same c c'"
    | c1 where "core_same c c1" "PrevHash (Hdr b) = ID (eH E) (chead c)" "Height (Hdr b) = Height (chead c) + 1"
        "advanceFinality E (recordBlock E b (c1\<lparr>chead := Hdr b\<rparr>)) = Some (c', r)"
proof -
  obtain s q where a: "apply_on E (cstore c) b (cstate c) = (s, q)" by (cases "apply_on E (cstore c) b (cstate c)")
  let ?c = "c\<lparr>cstate := s\<rparr>"
  let ?rest = "sbind (persistBlockSet E (Hdr b) (Body b) ?c) (\<lambda>ss c. sbind (persistLogs E (Hdr b) c) (\<lambda>_ c.
    advanceFinality E (recordBlock E b (c\<lparr>chead := Hdr b\<rparr>))))"
  from assms a consider "core_same c c'"
    | "?rest = Some (c', r)" "PrevHash (Hdr b) = ID (eH E) (chead c)" "Height (Hdr b) = Height (chead c) + 1"
    by (auto simp: ApplyExternalBlock_def Let_def split: if_splits option.splits result.splits)
  then show thesis
  proof cases
    case 2
    from 2(1) show thesis
    proof (rule persist_both_cases)
      fix c1 assume "core_same ?c c1" "advanceFinality E (recordBlock E b (c1\<lparr>chead := Hdr b\<rparr>)) = Some (c', r)"
      with 2(2,3) show thesis using core_trans [OF core_state] that(2) by blast
    qed (use core_trans [OF core_state] that(1) in blast)
  qed (rule that(1))
qed

lemma ProduceBlock_cases:
  assumes "ProduceBlock E now txs kp round c = Some (c', r)" "r \<noteq> Panic"
  obtains "core_same c c'"
    | c1 b ss q where "core_same c c1" "PrevHash (Hdr b) = ID (eH E) (chead c)" "Height (Hdr b) = Height (chead c) + 1"
        "advanceFinality E (recordBlock E b (c1\<lparr>chead := Hdr b\<rparr>)) = Some (c', q)" "r = Ok (b, ss)"
proof (cases "hasGen c")
  case True
  define full where "full = (let fs = fold (\<lambda>t n. n + Fee t) txs 0; reward = NextReward (cstate c) (Height (chead c) + 1)
    in if 0 < reward + fs then bare_tx (Address (eH E) kp) (reward + fs) # txs else txs)"
  define h0 where "h0 = \<lparr>Height = Height (chead c) + 1, PrevHash = ID (eH E) (chead c), MerkleRoot = MerkleRootOf (eH E) full,
    Timestamp = now, Validator = Address (eH E) kp, TxCount = of_nat (length full), Round = round,
    Spec = specFor c, BodyHash = BodyHashOf (eH E) (EncodeTxs full), LogsRoot = Zero, HdrSig = [], ValPubKey = []\<rparr>"
  obtain s q where a: "apply_on E (cstore c) \<lparr>Hdr = h0, Txs = full\<rparr> (cstate c) = (s, q)"
    by (cases "apply_on E (cstore c) \<lparr>Hdr = h0, Txs = full\<rparr> (cstate c)")
  define h1 where "h1 = SignHdr (eH E) (eSign E) kp (h0\<lparr>LogsRoot := LogsRootOf (eH E) (LastLogs s)\<rparr>)"
  let ?b = "\<lparr>Hdr = h1, Txs = full\<rparr>"
  have P: "ProduceBlock E now txs kp round c =
    (case (s, q) of
       (s, Err e) \<Rightarrow> throw (EState e) (c\<lparr>cstate := s\<rparr>)
     | (s, Panic) \<Rightarrow> Some (c\<lparr>cstate := s\<rparr>, Panic)
     | (s, Ok _) \<Rightarrow> sbind (persistBlockSet E h1 (Body ?b) (c\<lparr>cstate := s\<rparr>)) (\<lambda>ss c. sbind (persistLogs E h1 c) (\<lambda>_ c.
         sbind (advanceFinality E (recordBlock E ?b (c\<lparr>chead := h1\<rparr>))) (\<lambda>_ c. yield (?b, ss) c))))"
    unfolding ProduceBlock_def Let_def using True a by (simp add: h1_def h0_def full_def Let_def)
  show thesis
  proof (cases q)
    case (Ok u)
    have "PrevHash h1 = ID (eH E) (chead c)" "Height h1 = Height (chead c) + 1"
      by (simp_all add: h1_def h0_def SignHdr_def Let_def)
    note h = this
    from assms(1) P Ok have "sbind (persistBlockSet E h1 (Body ?b) (c\<lparr>cstate := s\<rparr>)) (\<lambda>ss c. sbind (persistLogs E h1 c) (\<lambda>_ c.
         sbind (advanceFinality E (recordBlock E ?b (c\<lparr>chead := h1\<rparr>))) (\<lambda>_ c. yield (?b, ss) c))) = Some (c', r)" by simp
    then show thesis
    proof (rule persist_both_cases)
      fix c1 ss assume c1: "core_same (c\<lparr>cstate := s\<rparr>) c1"
        and f: "sbind (advanceFinality E (recordBlock E ?b (c1\<lparr>chead := h1\<rparr>))) (\<lambda>_ c. yield (?b, ss) c) = Some (c', r)"
      from f show thesis
      proof (rule sbind_cases)
        fix d v assume "advanceFinality E (recordBlock E ?b (c1\<lparr>chead := h1\<rparr>)) = Some (d, Ok v)" "yield (?b, ss) d = Some (c', r)"
        then show thesis using that(2) [of c1 ?b "Ok v" ss] c1 h core_trans [OF core_state c1] by simp
      next
        fix e assume "advanceFinality E (recordBlock E ?b (c1\<lparr>chead := h1\<rparr>)) = Some (c', Err e)"
        from advanceFinality_run [OF this] show thesis by simp
      qed (use assms(2) in simp)
    qed (use core_trans [OF core_state] that(1) in blast)
  qed (use assms P that(1) in auto)
qed (use assms that(1) in \<open>simp add: ProduceBlock_def\<close>)

lemma AcceptBlock_cases:
  assumes "AcceptBlock E b c = Some (c', r)"
  obtains "core_same c c'"
    | c1 p where "core_same c c1" "known c (PrevHash (Hdr b)) = Some p" "Height (Hdr b) = Height (Hdr p) + 1"
        "reorgToBest E (recordBlock E b c1) = Some (c', r)"
proof -
  obtain c1 op where p: "block_at (PrevHash (Hdr b)) c = (c1, op)" by (cases "block_at (PrevHash (Hdr b)) c")
  note k = block_at_known [OF p]
  from k have c1: "core_same c c1" by (blast intro: core_fc)
  have "core_same c c' \<or> (\<exists>p. op = Some p \<and> Height (Hdr b) = Height (Hdr p) + 1 \<and> reorgToBest E (recordBlock E b c1) = Some (c', r))"
    using assms p c1 by (auto simp: AcceptBlock_def Let_def split: if_splits option.splits)
  with c1 k that show thesis by metis
qed

text \<open>
  A step of the chain: an operation that returns, be it with a value, an error or a panic.  A panic in a request is caught by the HTTP server,
  which lets the node run on with what the operation left; a panic while producing ends the process and is no step.  A block of height 0 is
  in play only where no parent of height \<open>2^64 - 1\<close> is, so that the height of a child never wraps.
\<close>

definition no_wrap :: "Header set \<Rightarrow> Header \<Rightarrow> bool" where
  "no_wrap HS h \<longleftrightarrow> Height h \<noteq> 0 \<or> (\<forall>p\<in>HS. Height p + 1 \<noteq> 0)"

lemma no_wrap_child: "no_wrap HS h \<Longrightarrow> p \<in> HS \<Longrightarrow> Height h = Height p + 1 \<Longrightarrow> Height h \<noteq> 0"
  by (auto simp: no_wrap_def)

inductive cstep :: "ext \<Rightarrow> Header set \<Rightarrow> Chain \<Rightarrow> Chain \<Rightarrow> bool" for E HS where
  external: "ApplyExternalBlock E now b c = Some (c', r) \<Longrightarrow> Hdr b \<in> HS \<Longrightarrow> no_wrap HS (Hdr b) \<Longrightarrow> cstep E HS c c'"
| accept: "AcceptBlock E b c = Some (c', r) \<Longrightarrow> Hdr b \<in> HS \<Longrightarrow> no_wrap HS (Hdr b) \<Longrightarrow> cstep E HS c c'"
| produce: "ProduceBlock E now txs kp round c = Some (c', r) \<Longrightarrow> r \<noteq> Panic
    \<Longrightarrow> (\<And>b ss. r = Ok (b, ss) \<Longrightarrow> Hdr b \<in> HS \<and> no_wrap HS (Hdr b)) \<Longrightarrow> cstep E HS c c'"

lemma extend_run_inv:
  assumes inv: "chain_inv E HS c" "good E HS" and c1: "core_same c c1"
    and b: "Hdr b \<in> HS" "no_wrap HS (Hdr b)" "PrevHash (Hdr b) = ID (eH E) (chead c)" "Height (Hdr b) = Height (chead c) + 1"
    and a: "advanceFinality E (recordBlock E b (c1\<lparr>chead := Hdr b\<rparr>)) = Some (c', r)"
  shows "chain_inv E HS c' \<and> evolves c c'"
proof -
  have i1: "chain_inv E HS c1" "evolves c c1" using core_inv [OF c1, of E HS] inv by simp_all
  have h: "chead c1 = chead c" using c1 by (simp add: core_same_def)
  have "chead c \<in> HS" using inv by (simp add: chain_inv_def)
  from no_wrap_child [OF b(2) this b(4)] have nz: "Height (Hdr b) \<noteq> 0" .
  note e = extend_inv [OF i1(1) inv(2) b(1) nz b(3,4) [folded h]]
  from advanceFinality_inv [OF conjunct1 [OF e] a] e i1(2) show ?thesis by (blast intro: evolves_trans)
qed

lemma cstep_inv:
  assumes "cstep E HS c c'" "good E HS" "chain_inv E HS c"
  shows "chain_inv E HS c' \<and> evolves c c'"
  using assms
proof (induction rule: cstep.induct)
  case (external now b c c' r)
  from external.hyps(1) show ?case
    by (rule ApplyExternalBlock_cases) (use core_inv external extend_run_inv in blast)+
next
  case (accept b c c' r)
  from accept.hyps(1) show ?case
  proof (rule AcceptBlock_cases)
    fix c1 p assume c1: "core_same c c1" and p: "known c (PrevHash (Hdr b)) = Some p" "Height (Hdr b) = Height (Hdr p) + 1"
      and r: "reorgToBest E (recordBlock E b c1) = Some (c', r)"
    have i1: "chain_inv E HS c1" "evolves c c1" using core_inv [OF c1, of E HS] accept by simp_all
    have k: "known c1 (PrevHash (Hdr b)) = Some p" using c1 p by (simp add: core_same_def)
    have "Hdr p \<in> HS" using i1(1) k by (auto simp: chain_inv_def keyed_def)
    from no_wrap_child [OF accept.hyps(3) this p(2)] have nz: "Height (Hdr b) \<noteq> 0" .
    note rec = record_inv [OF i1(1) accept.prems(1) accept.hyps(2) nz k p(2)]
    from reorg_inv [OF conjunct1 [OF rec] r] rec i1(2) show ?case by (blast intro: evolves_trans)
  qed (use core_inv accept in blast)
next
  case (produce now txs kp round c c' r)
  from produce.hyps(1,2) show ?case
  proof (rule ProduceBlock_cases)
    fix c1 b ss q assume "core_same c c1" "PrevHash (Hdr b) = ID (eH E) (chead c)" "Height (Hdr b) = Height (chead c) + 1"
        "advanceFinality E (recordBlock E b (c1\<lparr>chead := Hdr b\<rparr>)) = Some (c', q)" "r = Ok (b, ss)"
    with produce.hyps(3) [of b ss] extend_run_inv [OF produce.prems(2,1), of c1 b c' q] show ?case by simp
  qed (use core_inv produce in blast)
qed

lemma csteps_inv:
  assumes "(cstep E HS)\<^sup>*\<^sup>* c c'" "good E HS" "chain_inv E HS c"
  shows "chain_inv E HS c' \<and> evolves c c'"
  using assms(1)
proof (induction rule: rtranclp_induct)
  case (step d e)
  with cstep_inv [OF step.hyps(2) assms(2)] show ?case by (blast intro: evolves_trans)
qed (simp add: assms(3))

section \<open>Genesis\<close>

lemma Genesis_inv:
  assumes g: "Genesis E funding val kp c = Some (c', Ok b)" and f: "known c = Map.empty" "tree c = NewTree" and b: "Hdr b \<in> HS"
  shows "chain_inv E HS c'"
proof -
  let ?h = "genesis_header E (genesisTS c) funding val kp"
  let ?i = "ID (eH E) ?h"
  from g obtain s d where p: "persistBlock E ?h (Body b) (c\<lparr>cstate := s\<rparr>) = Some (d, Ok ())"
    and c': "c' = saveReplayBase (d\<lparr>chead := ?h, hasGen := True, replayBase := Some (Clone (cstate d)),
                  replayBaseID := ?i, replayBaseHeight := 0, tree := Add ?i Zero 0 1 (tree d),
                  blockByID := AList.update ?i b (blockByID d), cstore := fst (PutBlock ?i b (cstore d))\<rparr>)"
    and hb: "Hdr b = ?h"
    by (auto simp: Genesis_def Let_def sbind_Ok_iff split: if_splits)
  from p obtain ss where "persistBlockSet E ?h (Body b) (c\<lparr>cstate := s\<rparr>) = Some (d, Ok ss)"
    by (auto simp: persistBlock_def sbind_Ok_iff)
  then have "core_same c d" by (rule core_trans [OF core_state core_persistBlockSet])
  then have kd: "known d = Map.empty" "tree d = NewTree" using f by (simp_all add: core_same_def)
  have k: "known c' = [?i \<mapsto> b]"
  proof
    fix j
    show "known c' j = [?i \<mapsto> b] j"
      using fun_cong [OF kd(1), of j] by (auto simp: c' known_def GetBlock_def PutBlock_def split: option.splits)
  qed
  have z: "PrevHash ?h = Zero" "Height ?h = 0"
    by (simp_all add: genesis_header_def Let_def zero_header_def SignHdr_def split: option.split)
  show ?thesis
    using b hb z by (simp add: chain_inv_def k keyed_def rooted_def weighed_def) (simp add: c' kd(2) NewTree_def Add_def gomap_def)
qed

section \<open>The operations return\<close>

definition returns :: "'a option \<Rightarrow> bool" where
  "returns r \<longleftrightarrow> r \<noteq> None"

lemma returns_Some [simp]: "returns (Some x)" "\<not> returns None"
  by (simp_all add: returns_def)

lemma store_total: "returns (storeAssignedShards E i shards ss c)" "returns (persistLogs E h c)"
  using store_shards_run [of E i ss "enumerate 0 shards" c] persistLogs_run [of E h c]
  by (auto simp: storeAssignedShards_def)

lemma sbind_total: "returns r \<Longrightarrow> (\<And>c v. r = Some (c, Ok v) \<Longrightarrow> returns (f v c)) \<Longrightarrow> returns (sbind r f)"
  by (cases r) (auto simp: sbind_def split: result.split prod.split)

lemma persistBlockSet_total: "returns (persistBlockSet E h body c)"
  by (auto simp: persistBlockSet_def PutHeader_def intro!: sbind_total store_total split: result.splits)

lemma commit_total: "returns (commitCanonical E b c)"
  using persistBlockSet_total [of E "Hdr b" "Body b" c] store_total(2)
  by (cases "persistBlockSet E (Hdr b) (Body b) c") (auto simp: commitCanonical_def split: result.split)

lemma forward_total: "returns (forward E bs c)"
  by (induction bs arbitrary: c) (auto intro!: sbind_total commit_total split: prod.splits result.splits)

lemma commit_all_total: "returns (commit_all E bs c)"
  by (induction bs arbitrary: c) (auto intro!: sbind_total commit_total)

lemma advanceFinality_total:
  assumes "rooted (known c)"
  shows "returns (advanceFinality E c)"
proof -
  obtain c1 obs where w: "fin_walk (ID (eH E) (chead c)) (replayBaseID c) (Height (chead c) - finalityDepth c) [] c = Some (c1, obs)"
    using fin_walk_total [OF assms, of "ID (eH E) (chead c)" "replayBaseID c"] by (metis not_None_eq surj_pair)
  show ?thesis
    by (cases obs; cases "replayBase c") (simp_all add: advanceFinality_def Let_def w split: prod.split result.split)
qed

lemma reorg_total:
  assumes "rooted (known c)"
  shows "returns (reorgToBest E c)"
proof -
  have mv: "returns (move_head E bs d)" if "known d = known c" for bs d
    using advanceFinality_total [of "d\<lparr>chead := Hdr (last bs)\<rparr>" E] that assms by (auto simp: move_head_def)
  have w: "returns (walkDown a b d)" if "known d = known c" for a b d
    using walk_loop_total [of d] that assms by (simp add: walkDown_def returns_def)
  have fw: "returns (sbind (forward E bs d) (\<lambda>_. move_head E bs))" if "known d = known c" for bs d
    using that by (intro sbind_total forward_total mv) (auto dest: core_forward simp: core_same_def)
  have cm: "returns (sbind (commit_all E bs (d\<lparr>cstate := s\<rparr>)) (\<lambda>_. move_head E bs))" if "known d = known c" for bs d s
    using that by (intro sbind_total commit_all_total mv) (auto dest: core_commit_all simp: core_same_def)
  have kw: "known d' = known d" if "walkDown a b d = Some (d', r)" for a b d d' r
    using walkDown_cases(1) [OF that] by (auto simp: fc_def)
  show ?thesis
  proof (cases "fst (Best (tree c)) = ID (eH E) (chead c)")
    case False
    obtain c1 o1 where w1: "walkDown (fst (Best (tree c))) (ID (eH E) (chead c)) c = Some (c1, o1)"
      using w [OF refl, of "fst (Best (tree c))" "ID (eH E) (chead c)"] by (auto simp: returns_def)
    note k1 = kw [OF w1]
    obtain c2 o2 where w2: "walkDown (fst (Best (tree c))) (replayBaseID c1) c1 = Some (c2, o2)"
      using w [OF k1, of "fst (Best (tree c))" "replayBaseID c1"] by (auto simp: returns_def)
    note k2 = kw [OF w2, unfolded k1]
    show ?thesis
      using False w1 w2 fw [OF k1] cm [OF k2]
      by (auto simp: reorgToBest_def Let_def split: option.split prod.split result.split)
  qed (simp add: reorgToBest_def)
qed

lemma extend_total:
  assumes "chain_inv E HS c" "good E HS" "core_same c c1" "Hdr b \<in> HS" "Height (Hdr b) \<noteq> 0"
    "PrevHash (Hdr b) = ID (eH E) (chead c)" "Height (Hdr b) = Height (chead c) + 1"
  shows "returns (advanceFinality E (recordBlock E b (c1\<lparr>chead := Hdr b\<rparr>)))"
proof -
  have i1: "chain_inv E HS c1" and h: "chead c1 = chead c"
    using core_inv [OF assms(3), of E HS] assms(1,3) by (simp_all add: core_same_def)
  from extend_inv [OF i1 assms(2,4,5) assms(6,7) [folded h]] show ?thesis
    by (intro advanceFinality_total) (simp add: chain_inv_def)
qed

lemma AcceptBlock_returns:
  assumes "good E HS" "chain_inv E HS c" "Hdr b \<in> HS" "Height (Hdr b) \<noteq> 0"
  shows "returns (AcceptBlock E b c)"
proof -
  obtain c1 op where p: "block_at (PrevHash (Hdr b)) c = (c1, op)" by (cases "block_at (PrevHash (Hdr b)) c")
  note k = block_at_known [OF p]
  then have kc: "known c1 = known c" and i1: "chain_inv E HS c1"
    using core_inv [OF core_fc, of c c1 E HS] assms(2) by (auto simp: fc_def)
  have "returns (reorgToBest E (recordBlock E b c1))" if "op = Some q" "Height (Hdr b) = Height (Hdr q) + 1" for q
  proof -
    have "known c1 (PrevHash (Hdr b)) = Some q" using that k kc by simp
    from record_inv [OF i1 assms(1,3,4) this that(2)] show ?thesis by (intro reorg_total) (simp add: chain_inv_def)
  qed
  then show ?thesis by (auto simp: AcceptBlock_def Let_def p split: option.split)
qed

lemma ApplyExternalBlock_returns:
  assumes "good E HS" "chain_inv E HS c" "Hdr b \<in> HS" "Height (Hdr b) \<noteq> 0"
  shows "returns (ApplyExternalBlock E now b c)"
proof -
  obtain s q where a: "apply_on E (cstore c) b (cstate c) = (s, q)" by (cases "apply_on E (cstore c) b (cstate c)")
  have fin: "returns (sbind (persistBlockSet E (Hdr b) (Body b) (c\<lparr>cstate := s\<rparr>)) (\<lambda>_ c.
      sbind (persistLogs E (Hdr b) c) (\<lambda>_ c. advanceFinality E (recordBlock E b (c\<lparr>chead := Hdr b\<rparr>)))))"
    if "PrevHash (Hdr b) = ID (eH E) (chead c)" "Height (Hdr b) = Height (chead c) + 1"
    by (intro sbind_total persistBlockSet_total store_total)
      (rule extend_total [OF assms(2,1) _ assms(3,4) that],
       blast intro: core_trans [OF core_state] core_trans core_persistBlockSet core_persistLogs)
  show ?thesis
  proof (cases "PrevHash (Hdr b) = ID (eH E) (chead c) \<and> Height (Hdr b) = Height (chead c) + 1")
    case True
    with fin show ?thesis by (simp add: ApplyExternalBlock_def Let_def a split: option.split result.split)
  qed (auto simp: ApplyExternalBlock_def Let_def split: option.split)
qed

section \<open>The head follows the heaviest branch\<close>




lemma move_head_run:
  assumes "move_head E bs c = Some (c', r)"
  shows "cstate c' = cstate c \<and> tree c' = tree c \<and> known c' = known c \<and> chead c' = (if bs = [] then chead c else Hdr (last bs)) \<and> (\<forall>e. r \<noteq> Err e)"
  using assms advanceFinality_run [of E "c\<lparr>chead := Hdr (last bs)\<rparr>" c' r] by (auto simp: move_head_def split: if_splits)


lemma commitCanonical_no_Err: "commitCanonical E b c \<noteq> Some (c', Err e)"
proof
  assume a: "commitCanonical E b c = Some (c', Err e)"
  then obtain c1 where "persistLogs E (Hdr b) c1 = Some (c', Err e)"
    by (auto simp: commitCanonical_def split: option.splits result.splits)
  with persistLogs_run [of E "Hdr b" c1] show False by auto
qed

lemma commit_all_no_Err: "commit_all E bs c \<noteq> Some (c', Err e)"
proof (induction bs arbitrary: c)
  case (Cons b bs)
  then show ?case using commitCanonical_no_Err by (auto elim: sbind_cases)
qed simp

text \<open>A branch that does not extend the head and fails to replay changes nothing but the cache.\<close>

lemma reorg_Err:
  assumes r: "reorgToBest E c = Some (c', Err e)" and n: "\<not> ancestor (known c) (ID (eH E) (chead c)) (fst (Best (tree c)))"
  shows "core_same c c' \<and> cstate c' = cstate c \<and> cstore c' = cstore c"
proof -
  let ?best = "fst (Best (tree c))"
  have False': "?best \<noteq> ID (eH E) (chead c)" using n by auto
  from r False' obtain c1 o1 where w: "walkDown ?best (ID (eH E) (chead c)) c = Some (c1, o1)"
    by (auto simp: reorgToBest_def Let_def split: option.splits)
  note w1 = walkDown_cases [OF w]
  have c1: "core_same c c1" "cstate c1 = cstate c" "cstore c1 = cstore c" using w1(1) core_fc by (auto simp: fc_def)
  have o1: "o1 = None" using w1(2) n by (cases o1) (auto simp: ancestor_def)
  show ?thesis
  proof (cases "replayBase c1")
    case None
    with r False' w o1 show ?thesis by (simp add: reorgToBest_def Let_def)
  next
    case base: (Some base)
    with r False' w o1 obtain c2 o2 where w': "walkDown ?best (replayBaseID c1) c1 = Some (c2, o2)"
      by (auto simp: reorgToBest_def Let_def split: option.splits)
    have c2: "core_same c c2" "cstate c2 = cstate c" "cstore c2 = cstore c"
      using walkDown_cases(1) [OF w'] core_trans [OF c1(1) core_fc] c1 by (auto simp: fc_def)
    show ?thesis
    proof (cases o2)
      case None
      with r False' w o1 base w' show ?thesis by (simp add: reorgToBest_def Let_def)
    next
      case (Some branch)
      obtain ns q where q: "replay E (cstore c2) branch (InheritConfig (cstate c2) (Clone base)) = (ns, q)"
        by (cases "replay E (cstore c2) branch (InheritConfig (cstate c2) (Clone base))")
      have ca: "commit_all E bs d \<noteq> Some (d', Err e')" for bs d d' e'
        by (rule commit_all_no_Err)
      show ?thesis
      proof (cases q)
        case (Ok u)
        with r False' w o1 base w' Some q
        have "sbind (commit_all E branch (c2\<lparr>cstate := ReplaceWith ns (cstate c2)\<rparr>)) (\<lambda>_. move_head E branch) = Some (c', Err e)"
          by (simp add: reorgToBest_def Let_def)
        then show ?thesis
        proof (rule sbind_cases)
          fix d v assume "move_head E branch d = Some (c', Err e)"
          from move_head_run [OF this] show ?thesis by simp
        qed (use ca in auto)
      qed (use r False' w o1 base w' Some q c2 in \<open>auto simp: reorgToBest_def Let_def\<close>)
    qed
  qed
qed

section \<open>Properties\<close>

text \<open>
  Finality: a node that starts with a genesis block and then produces blocks, applies blocks of
  peers and accepts blocks of competing branches in any order, with any mixture of rejections,
  never abandons a finalized block.  The block that was final at any moment stays an ancestor
  of every later head, and the finalized height never decreases.  The hash function must not
  collide on the headers in play, and heights must not reach \<open>2^64\<close>.
\<close>

theorem finality_irreversible:
  assumes "good E HS" "known c0 = Map.empty" "tree c0 = NewTree"
    and "Genesis E funding val kp c0 = Some (c1, Ok g)" "Hdr g \<in> HS"
    and "(cstep E HS)\<^sup>*\<^sup>* c1 c" "(cstep E HS)\<^sup>*\<^sup>* c c'"
  shows "ancestor (known c') (replayBaseID c) (ID (eH E) (chead c')) \<and> Finalized c \<le> Finalized c' \<and> chain_inv E HS c'"
proof -
  have "chain_inv E HS c1" by (rule Genesis_inv [OF assms(4,2,3,5)])
  then have c: "chain_inv E HS c" using csteps_inv [OF assms(6,1)] by blast
  note c' = csteps_inv [OF assms(7,1) c]
  then have "ancestor (known c') (replayBaseID c) (replayBaseID c')" by (simp add: evolves_def)
  moreover have "ancestor (known c') (replayBaseID c') (ID (eH E) (chead c'))" using c' by (simp add: chain_inv_def)
  ultimately have "ancestor (known c') (replayBaseID c) (ID (eH E) (chead c'))" by (rule ancestor_trans)
  with c' show ?thesis by (simp add: evolves_def Finalized_def)
qed

definition fits :: "Header \<Rightarrow> bool" where
  "fits h \<longleftrightarrow> length (PrevHash h) = 32 \<and> length (MerkleRoot h) = 32 \<and> length (BodyHash h) = 32 \<and> length (LogsRoot h) = 32 \<and>
     length (Validator h) = 42 \<and> ID toyH h \<noteq> Zero"

lemma fits_hdr: "fits h \<Longrightarrow> hdr_fits h"
  by (simp add: fits_def hdr_fits_def short_field_def maxAlloc_def)

lemma good_pair: "fits h \<Longrightarrow> fits g \<Longrightarrow> ID toyH h \<noteq> ID toyH g \<Longrightarrow> good toyE {h, g}"
  by (auto simp: good_def fits_hdr toyE_def) (auto simp: fits_def ID_def)

lemma toy_run:
  "case Genesis toyE [([9], 1000)] val0 None node0 of
     Some (c, Ok g) \<Rightarrow>
       (case ProduceBlock toyE 105 [] kp0 1 c of
          Some (d, Ok (b, _)) \<Rightarrow> fits (Hdr g) \<and> fits (Hdr b) \<and> ID toyH (Hdr g) \<noteq> ID toyH (Hdr b) \<and> Height (Hdr b) = 1 \<and>
            EngineAuthorize toyE (engine c) (cstate c) (Hdr b) = None \<and> Timestamp (chead c) = 100 \<and> blockTime c = 5 \<and>
            hasGen c \<and> writable (cstore c) \<and> cbloom c = None \<and>
            Height (chead c) = 0 \<and> HeightOf (tree c) (ID toyH (Hdr b)) = None \<and>
            (case AcceptBlock toyE b c of Some (_, Ok _) \<Rightarrow> True | _ \<Rightarrow> False)
        | _ \<Rightarrow> False)
   | _ \<Rightarrow> False"
  by code_simp

lemma toy_blocks:
  obtains c1 g d b ss where "Genesis toyE [([9], 1000)] val0 None node0 = Some (c1, Ok g)"
    "ProduceBlock toyE 105 [] kp0 1 c1 = Some (d, Ok (b, ss))"
    "fits (Hdr g)" "fits (Hdr b)" "ID toyH (Hdr g) \<noteq> ID toyH (Hdr b)" "Height (Hdr b) = 1"
    "Height (chead c1) = 0" "HeightOf (tree c1) (ID toyH (Hdr b)) = None" "\<exists>c'. AcceptBlock toyE b c1 = Some (c', Ok ())"
    "EngineAuthorize toyE (engine c1) (cstate c1) (Hdr b) = None" "Timestamp (chead c1) = 100" "blockTime c1 = 5"
    "hasGen c1" "writable (cstore c1)" "cbloom c1 = None"
proof -
  obtain c1 x where g: "Genesis toyE [([9], 1000)] val0 None node0 = Some (c1, x)"
    using toy_run by (cases "Genesis toyE [([9], 1000)] val0 None node0") auto
  obtain g where x: "x = Ok g" using toy_run g by (cases x) auto
  obtain d y where p: "ProduceBlock toyE 105 [] kp0 1 c1 = Some (d, y)"
    using toy_run g x by (cases "ProduceBlock toyE 105 [] kp0 1 c1") auto
  obtain b ss where y: "y = Ok (b, ss)" using toy_run g x p by (cases y) auto
  have "\<exists>c'. AcceptBlock toyE b c1 = Some (c', Ok ())"
    using toy_run g x p y by (auto split: option.splits prod.splits result.splits)
  with that toy_run g x p y show thesis by auto
qed

lemma node0_fresh: "known node0 = Map.empty" "tree node0 = NewTree"
  by (simp_all add: node0_def NewChain_def OpenStore_def HasHeaders_def loadReplayBase_def GetState_def known_def GetBlock_def fun_eq_iff)

theorem finality_irreversible_witness:
  "\<exists>c1 g d b ss HS. good toyE HS \<and> Genesis toyE [([9], 1000)] val0 None node0 = Some (c1, Ok g) \<and>
     ProduceBlock toyE 105 [] kp0 1 c1 = Some (d, Ok (b, ss)) \<and> (cstep toyE HS)\<^sup>*\<^sup>* c1 d \<and>
     ancestor (known d) (replayBaseID c1) (ID (eH toyE) (chead d)) \<and> Finalized c1 \<le> Finalized d"
proof -
  obtain c1 g d b ss where g: "Genesis toyE [([9], 1000)] val0 None node0 = Some (c1, Ok g)"
    and p: "ProduceBlock toyE 105 [] kp0 1 c1 = Some (d, Ok (b, ss))"
    and f: "fits (Hdr g)" "fits (Hdr b)" "ID toyH (Hdr g) \<noteq> ID toyH (Hdr b)" "Height (Hdr b) = 1"
    by (rule toy_blocks)
  let ?HS = "{Hdr g, Hdr b}"
  have good: "good toyE ?HS" by (rule good_pair [OF f(1-3)])
  have s: "cstep toyE ?HS c1 d" by (rule cstep.produce [OF p]) (use f(4) in \<open>auto simp: no_wrap_def\<close>)
  have mem: "Hdr g \<in> ?HS" by simp
  from finality_irreversible [OF good node0_fresh g mem rtranclp.rtrancl_refl r_into_rtranclp [of "cstep toyE ?HS", OF s]]
  show ?thesis using good g p s by blast
qed



text \<open>
  C18. The walks over the block tree end: from a chain that started at a genesis block, accepting or applying any
  block returns.
\<close>

theorem chain_ops_return:
  assumes "good E HS" "chain_inv E HS c" "Hdr b \<in> HS" "Height (Hdr b) \<noteq> 0"
  shows "(\<exists>r. AcceptBlock E b c = Some r) \<and> (\<exists>r. ApplyExternalBlock E now b c = Some r)"
  using AcceptBlock_returns [OF assms] ApplyExternalBlock_returns [OF assms, of now] by (auto simp: returns_def)

text \<open>Witness: the genesis node accepts the block it would produce.\<close>

theorem chain_ops_return_witness:
  "\<exists>c1 b HS. good toyE HS \<and> chain_inv toyE HS c1 \<and> Hdr b \<in> HS \<and> (\<exists>r. AcceptBlock toyE b c1 = Some r)"
proof (rule toy_blocks)
  fix c1 g d ss and b :: Block assume g: "Genesis toyE [([9], 1000)] val0 None node0 = Some (c1, Ok g)"
    and f: "fits (Hdr g)" "fits (Hdr b)" "ID toyH (Hdr g) \<noteq> ID toyH (Hdr b)" "Height (Hdr b) = 1"
  let ?HS = "{Hdr g, Hdr b}"
  have good: "good toyE ?HS" by (rule good_pair [OF f(1-3)])
  have inv: "chain_inv toyE ?HS c1" by (rule Genesis_inv [OF g node0_fresh]) simp
  have b: "Hdr b \<in> ?HS" "Height (Hdr b) \<noteq> 0" using f(4) by simp_all
  from chain_ops_return [OF good inv b] good inv b(1) show ?thesis by blast
qed

end
