(* ===== verification/SL_Network.thy ===== *)
theory SL_Network
  imports SL_Reorg
begin

text \<open>
  Nodes together: a block one node produces is taken by every node that agrees with it, and a
  body is recovered from the shards the network still serves.
\<close>

section \<open>What the application of a block depends on\<close>

lemma ApplyBlock_cong:
  assumes "Txs b = Txs b'" "Height (Hdr b) = Height (Hdr b')" "Validator (Hdr b) = Validator (Hdr b')"
  shows "ApplyBlock H V J b s = ApplyBlock H V J b' s"
proof -
  have cb: "coinbase_of b = coinbase_of b'" using assms(1) by (simp add: coinbase_of_def)
  then have "payload_of b = payload_of b'" using assms(1) by (simp add: payload_of_def split: option.split)
  moreover have "settle b = settle b'" using assms cb by (simp add: settle_def fun_eq_iff)
  ultimately show ?thesis unfolding ApplyBlock_def assms(2) by (simp only:)
qed

lemma apply_on_cong:
  assumes "hdrs f = hdrs f'" "Txs b = Txs b'" "Height (Hdr b) = Height (Hdr b')" "Validator (Hdr b) = Validator (Hdr b')"
  shows "apply_on E f b s = apply_on E f' b' s"
proof -
  have "GetHeader f = GetHeader f'" using assms(1) by (simp add: GetHeader_def fun_eq_iff)
  then have "BodyHashAt f = BodyHashAt f'" "ChainShardAt (eH E) f = ChainShardAt (eH E) f'"
    "ChainShardProofOK (eH E) f = ChainShardProofOK (eH E) f'"
    by (simp_all add: fun_eq_iff BodyHashAt_def ChainShardAt_def ChainShardProofOK_def)
  then have "rebind E f s = rebind E f' s" by (simp add: rebind_def)
  with ApplyBlock_cong [OF assms(2-4)] show ?thesis by (simp add: apply_on_def)
qed

section \<open>Producing and applying\<close>

text \<open>What a successful production did, step by step.\<close>

lemma ProduceBlock_Ok:
  assumes "ProduceBlock E now txs kp round c = Some (c', Ok (b, ss))"
  obtains s c1 c2 where
    "apply_on E (cstore c) b (cstate c) = (s, Ok ())" "LogsRoot (Hdr b) = LogsRootOf (eH E) (LastLogs s)"
    "Height (Hdr b) = Height (chead c) + 1" "PrevHash (Hdr b) = ID (eH E) (chead c)" "Round (Hdr b) = round" "Timestamp (Hdr b) = now"
    "MerkleRoot (Hdr b) = MerkleRootOf (eH E) (Txs b)" "BodyHash (Hdr b) = BodyHashOf (eH E) (Body b)"
    "persistBlockSet E (Hdr b) (Body b) (c\<lparr>cstate := s\<rparr>) = Some (c1, Ok ss)"
    "persistLogs E (Hdr b) c1 = Some (c2, Ok ())"
    "advanceFinality E (recordBlock E b (c2\<lparr>chead := Hdr b\<rparr>)) = Some (c', Ok ())"
proof -
  define full where "full = (let fs = fold (\<lambda>t n. n + Fee t) txs 0; reward = NextReward (cstate c) (Height (chead c) + 1)
    in if 0 < reward + fs then bare_tx (Address (eH E) kp) (reward + fs) # txs else txs)"
  define h0 where "h0 = \<lparr>Height = Height (chead c) + 1, PrevHash = ID (eH E) (chead c), MerkleRoot = MerkleRootOf (eH E) full,
    Timestamp = now, Validator = Address (eH E) kp, TxCount = of_nat (length full), Round = round,
    Spec = specFor c, BodyHash = BodyHashOf (eH E) (EncodeTxs full), LogsRoot = Zero, HdrSig = [], ValPubKey = []\<rparr>"
  obtain s q where a: "apply_on E (cstore c) \<lparr>Hdr = h0, Txs = full\<rparr> (cstate c) = (s, q)"
    by (cases "apply_on E (cstore c) \<lparr>Hdr = h0, Txs = full\<rparr> (cstate c)")
  define h1 where "h1 = SignHdr (eH E) (eSign E) kp (h0\<lparr>LogsRoot := LogsRootOf (eH E) (LastLogs s)\<rparr>)"
  let ?b = "\<lparr>Hdr = h1, Txs = full\<rparr>"
  have P: "ProduceBlock E now txs kp round c =
    (if \<not> hasGen c then throw ErrNoGenesis c else case (s, q) of
       (s, Err e) \<Rightarrow> throw (EState e) (c\<lparr>cstate := s\<rparr>)
     | (s, Panic) \<Rightarrow> Some (c\<lparr>cstate := s\<rparr>, Panic)
     | (s, Ok _) \<Rightarrow> sbind (persistBlockSet E h1 (Body ?b) (c\<lparr>cstate := s\<rparr>)) (\<lambda>ss c. sbind (persistLogs E h1 c) (\<lambda>_ c.
         sbind (advanceFinality E (recordBlock E ?b (c\<lparr>chead := h1\<rparr>))) (\<lambda>_ c. yield (?b, ss) c))))"
    unfolding ProduceBlock_def Let_def using a by (simp add: h1_def h0_def full_def Let_def)
  from assms P obtain c1 c2 where q: "q = Ok ()" and b: "b = ?b"
    and r: "persistBlockSet E h1 (Body ?b) (c\<lparr>cstate := s\<rparr>) = Some (c1, Ok ss)" "persistLogs E h1 c1 = Some (c2, Ok ())"
      "advanceFinality E (recordBlock E ?b (c2\<lparr>chead := h1\<rparr>)) = Some (c', Ok ())"
    by (cases q) (auto simp: sbind_Ok_iff split: if_splits)
  have h: "Height h1 = Height (chead c) + 1" "PrevHash h1 = ID (eH E) (chead c)" "Round h1 = round" "Timestamp h1 = now"
    "MerkleRoot h1 = MerkleRootOf (eH E) full" "BodyHash h1 = BodyHashOf (eH E) (EncodeTxs full)"
    "LogsRoot h1 = LogsRootOf (eH E) (LastLogs s)" "Validator h1 = Validator h0" "Height h1 = Height h0"
    by (simp_all add: h1_def h0_def SignHdr_def Let_def)
  have "apply_on E (cstore c) ?b (cstate c) = (s, Ok ())"
    using a q h(8,9) apply_on_cong [of "cstore c" "cstore c" ?b "\<lparr>Hdr = h0, Txs = full\<rparr>" E "cstate c"] by simp
  with that h r show thesis by (simp add: b Body_def)
qed

lemma ApplyExternalBlock_eq:
  assumes "hasGen d" "EngineAuthorize E (engine d) (cstate d) (Hdr b) = None"
    and "Height (Hdr b) = Height (chead d) + 1" "PrevHash (Hdr b) = ID (eH E) (chead d)"
    and "sint (Timestamp (chead d) + ucast (Round (Hdr b)) * blockTime d) \<le> sint (Timestamp (Hdr b))"
    and "sint (Timestamp (Hdr b)) \<le> sint (now + 2 * blockTime d)"
    and "MerkleRootOf (eH E) (Txs b) = MerkleRoot (Hdr b)" "BodyHashOf (eH E) (Body b) = BodyHash (Hdr b)"
    and "apply_on E (cstore d) b (cstate d) = (s, Ok ())" "LogsRootOf (eH E) (LastLogs s) = LogsRoot (Hdr b)"
    and "persistBlockSet E (Hdr b) (Body b) (d\<lparr>cstate := s\<rparr>) = Some (d1, Ok ss)" "persistLogs E (Hdr b) d1 = Some (d2, Ok ())"
  shows "ApplyExternalBlock E now b d = advanceFinality E (recordBlock E b (d2\<lparr>chead := Hdr b\<rparr>))"
  using assms by (simp add: ApplyExternalBlock_def Let_def)

lemma persistBlockSet_ok:
  assumes "BuildShardSet (eH E) (eRS E) (ID (eH E) h) body (Spec h) = Ok (shards, ss)" "writable (cstore d)" "bloom_ok d"
  shows "\<exists>d1. persistBlockSet E h body d = Some (d1, Ok ss) \<and> fr (d\<lparr>cstore := fst (PutHeader h ss (cstore d))\<rparr>) d1 \<and> bloom_ok d1"
proof -
  let ?d = "d\<lparr>cstore := fst (PutHeader h ss (cstore d))\<rparr>"
  obtain d1 where "storeAssignedShards E (ID (eH E) h) shards ss ?d = Some (d1, Ok ())" "fr ?d d1" "bloom_ok d1"
    using storeAssigned_run [OF assms(1), of E "ID (eH E) h" ?d] assms(3) by auto
  with assms(1,2) show ?thesis by (auto simp: persistBlockSet_def PutHeader_def)
qed

section \<open>Properties\<close>

text \<open>
  A produced block is accepted: a block made by \<^verbatim>\<open>ProduceBlock\<close> passes every check of \<^verbatim>\<open>ApplyExternalBlock\<close> on a
  node that has the same head, ledger and headers, if that node's engine authorizes the producer,
  its clock is within the allowed window and its files can be written.  Both nodes then have
  the same head and the same ledger; what remains on the receiver is the finality step, which
  reports no error.
\<close>

lemma produced_block_accepted:
  assumes "ProduceBlock E now txs kp round c = Some (c', Ok (b, ss))"
    and "hasGen d" "chead d = chead c" "cstate d = cstate c" "hdrs (cstore d) = hdrs (cstore c)"
    and "EngineAuthorize E (engine d) (cstate d) (Hdr b) = None"
    and "sint (Timestamp (chead d) + ucast round * blockTime d) \<le> sint now" "sint now \<le> sint (now' + 2 * blockTime d)"
    and "writable (cstore d)" "bloom_ok d"
  shows "\<exists>d1. ApplyExternalBlock E now' b d = advanceFinality E d1 \<and> chead d1 = chead c' \<and> cstate d1 = cstate c' \<and>
    GetHeader (cstore d1) (Height (Hdr b)) = Some (Hdr b, ss) \<and> HeightOf (tree d1) (ID (eH E) (Hdr b)) \<noteq> None \<and>
    (\<forall>d' e. ApplyExternalBlock E now' b d \<noteq> Some (d', Err e))"
proof -
  obtain s c1 c2 where a: "apply_on E (cstore c) b (cstate c) = (s, Ok ())" "LogsRoot (Hdr b) = LogsRootOf (eH E) (LastLogs s)"
    and h: "Height (Hdr b) = Height (chead c) + 1" "PrevHash (Hdr b) = ID (eH E) (chead c)" "Round (Hdr b) = round" "Timestamp (Hdr b) = now"
      "MerkleRoot (Hdr b) = MerkleRootOf (eH E) (Txs b)" "BodyHash (Hdr b) = BodyHashOf (eH E) (Body b)"
    and p: "persistBlockSet E (Hdr b) (Body b) (c\<lparr>cstate := s\<rparr>) = Some (c1, Ok ss)" "persistLogs E (Hdr b) c1 = Some (c2, Ok ())"
      "advanceFinality E (recordBlock E b (c2\<lparr>chead := Hdr b\<rparr>)) = Some (c', Ok ())"
    by (rule ProduceBlock_Ok [OF assms(1)])
  note pc = persistBlockSet_Ok [OF p(1)]
  have s2: "cstate c2 = s"
    using persistLogs_run [of E "Hdr b" c1] p(2) fr_sel(1) [OF pc(3)] fr_sel(1) [of c1 c2] by auto
  have c': "chead c' = Hdr b" "cstate c' = s" using advanceFinality_run [OF p(3)] s2 by simp_all
  have ad: "apply_on E (cstore d) b (cstate d) = (s, Ok ())"
    using a(1) assms(4) apply_on_cong [OF assms(5), of b b E "cstate c"] by simp
  obtain shards where "BuildShardSet (eH E) (eRS E) (ID (eH E) (Hdr b)) (Body b) (Spec (Hdr b)) = Ok (shards, ss)" using pc(1) by blast
  from persistBlockSet_ok [OF this, of "d\<lparr>cstate := s\<rparr>"] assms(9,10)
  obtain d1 where d1: "persistBlockSet E (Hdr b) (Body b) (d\<lparr>cstate := s\<rparr>) = Some (d1, Ok ss)"
    "fr (d\<lparr>cstate := s, cstore := fst (PutHeader (Hdr b) ss (cstore d))\<rparr>) d1" "bloom_ok d1" by auto
  obtain d2 where d2: "persistLogs E (Hdr b) d1 = Some (d2, Ok ())" "fr d1 d2"
    using persistLogs_run [of E "Hdr b" d1] d1(3) by auto
  let ?d = "recordBlock E b (d2\<lparr>chead := Hdr b\<rparr>)"
  have e: "ApplyExternalBlock E now' b d = advanceFinality E ?d"
    by (rule ApplyExternalBlock_eq [OF assms(2,6) _ _ _ _ _ _ ad _ d1(1) d2(1)]) (use h a(2) assms(3,7,8) in simp_all)
  have "cstate ?d = s" "chead ?d = Hdr b" using fr_sel(1) [OF d1(2)] fr_sel(1) [OF d2(2)] by simp_all
  moreover have "GetHeader (cstore ?d) (Height (Hdr b)) = Some (Hdr b, ss)"
    using fr_sel(16) [OF d1(2)] fr_sel(16) [OF d2(2)] assms(9) by (simp add: GetHeader_def PutHeader_def)
  moreover have "HeightOf (tree ?d) (ID (eH E) (Hdr b)) \<noteq> None"
    by (auto simp: HeightOf_def Add_def Let_def split: option.splits)
  moreover have "ApplyExternalBlock E now' b d \<noteq> Some (d', Err x)" for d' x
    using advanceFinality_run [of E ?d d' "Err x"] by (auto simp: e)
  ultimately show ?thesis using e c' by auto
qed

text \<open>Witness: a second node with the same genesis takes the first block.\<close>

theorem produced_block_accepted_witness:
  "\<exists>c1 c' b ss d1. ProduceBlock toyE 105 [] kp0 1 c1 = Some (c', Ok (b, ss)) \<and>
     ApplyExternalBlock toyE 106 b c1 = advanceFinality toyE d1 \<and> chead d1 = chead c'"
proof (rule toy_blocks)
  fix c1 g d b ss assume p: "ProduceBlock toyE 105 [] kp0 1 c1 = Some (d, Ok (b, ss))"
    and h: "EngineAuthorize toyE (engine c1) (cstate c1) (Hdr b) = None" "Timestamp (chead c1) = 100" "blockTime c1 = 5"
      "hasGen c1" "writable (cstore c1)" "cbloom c1 = None"
  have t: "sint (Timestamp (chead c1) + ucast (1 :: u32) * blockTime c1) \<le> sint (105 :: 64 word)"
    "sint (105 :: 64 word) \<le> sint (106 + 2 * blockTime c1)" by (simp_all add: h(2,3))
  have b: "bloom_ok c1" by (simp add: bloom_ok_def h(6))
  from produced_block_accepted [OF p h(4) refl refl refl h(1) t h(5) b] p show ?thesis by blast
qed

section \<open>Recovering a body\<close>

text \<open>The shards collected so far: genuine ones only, and \<open>have\<close> counts them.\<close>

definition genuine :: "bytes list \<Rightarrow> bytes option list \<times> nat \<Rightarrow> bool" where
  "genuine shards acc \<longleftrightarrow>
     list_all2 (\<lambda>g s. g = None \<or> g = Some s) (fst acc) shards \<and> snd acc = length (filter (\<lambda>g. g \<noteq> None) (fst acc))"

lemma genuine_empty: "genuine shards (replicate (length shards) None, 0)"
  by (simp add: genuine_def list_all2_conv_all_nth)

lemma count_update:
  "n < length xs \<Longrightarrow> xs ! n = None \<Longrightarrow> length (filter (\<lambda>g. g \<noteq> None) (xs[n := Some d])) = Suc (length (filter (\<lambda>g. g \<noteq> None) xs))"
proof (induction xs arbitrary: n)
  case (Cons x xs)
  then show ?case by (cases n) auto
qed simp

lemma genuine_add:
  assumes "genuine shards (got, cnt)" "n < length shards" "got ! n = None" "d = shards ! n"
  shows "genuine shards (got[n := Some d], cnt + 1)"
proof -
  have l: "length got = length shards" using assms(1) by (auto simp: genuine_def dest: list_all2_lengthD)
  show ?thesis
    using assms l by (auto simp: genuine_def count_update list_all2_conv_all_nth nth_list_update simp del: not_None_eq)
qed

text \<open>Indices whose shard the node holds, or can fetch.\<close>

definition held :: "Chain \<Rightarrow> hash \<Rightarrow> bytes list \<Rightarrow> nat \<Rightarrow> bool" where
  "held d i shards n \<longleftrightarrow> n < length shards \<and> GetShard (cstore d) i (int n) = Some (shards ! n)"

definition served :: "Chain \<Rightarrow> hash \<Rightarrow> ShardSet \<Rightarrow> bytes list \<Rightarrow> nat \<Rightarrow> bool" where
  "served d i ss shards n \<longleftrightarrow> n < length shards \<and> (\<exists>src. source d = Some src \<and> src i (int n) ss = Some (shards ! n))"

lemma local_fold:
  assumes len: "Total (SetSpec ss) = int (length shards)"
    and ok: "\<And>n x. n < length shards \<Longrightarrow> GetShard files i (int n) = Some x \<Longrightarrow> VerifyShard (eH E) ss (int n) x \<longleftrightarrow> x = shards ! n"
    and "distinct ns" "genuine shards (got, cnt)" "\<forall>n\<in>set ns. 0 \<le> n \<longrightarrow> n < int (length shards) \<longrightarrow> got ! nat n = None"
  shows "genuine shards (fold (local_step E files i ss) ns (got, cnt)) \<and>
    (\<forall>n<length shards. got ! n \<noteq> None \<or> (int n \<in> set ns \<and> GetShard files i (int n) = Some (shards ! n)) \<longrightarrow>
       fst (fold (local_step E files i ss) ns (got, cnt)) ! n \<noteq> None)"
  using assms(3-5)
proof (induction ns arbitrary: got cnt)
  case (Cons m ns)
  have l: "length got = length shards" using Cons.prems(2) by (auto simp: genuine_def dest: list_all2_lengthD)
  show ?case
  proof (cases "0 \<le> m \<and> m < int (length shards) \<and> GetShard files i m = Some (shards ! nat m)")
    case True
    then have m: "nat m < length shards" "int (nat m) = m" by auto
    have v: "VerifyShard (eH E) ss m (shards ! nat m)" using ok [OF m(1)] True m(2) by simp
    let ?got = "got[nat m := Some (shards ! nat m)]"
    have step: "local_step E files i ss m (got, cnt) = (?got, cnt + 1)"
      using True v len by (simp add: local_step_def)
    have g: "genuine shards (?got, cnt + 1)"
      using Cons.prems True m by (intro genuine_add) auto
    have "\<forall>n\<in>set ns. 0 \<le> n \<longrightarrow> n < int (length shards) \<longrightarrow> ?got ! nat n = None"
    proof (intro ballI impI)
      fix n assume "n \<in> set ns" "0 \<le> n" "n < int (length shards)"
      moreover from this Cons.prems(1) True have "nat m \<noteq> nat n" by (auto simp: eq_nat_nat_iff)
      ultimately show "?got ! nat n = None" using Cons.prems(3) by simp
    qed
    from Cons.IH [OF _ g this] Cons.prems(1) have ih: "genuine shards (fold (local_step E files i ss) ns (?got, cnt + 1))"
      "\<forall>n<length shards. ?got ! n \<noteq> None \<or> (int n \<in> set ns \<and> GetShard files i (int n) = Some (shards ! n)) \<longrightarrow>
         fst (fold (local_step E files i ss) ns (?got, cnt + 1)) ! n \<noteq> None" by auto
    have "?got ! n \<noteq> None" if "n < length shards" "got ! n \<noteq> None \<or> int n = m" for n
      using that m l by (auto simp: nth_list_update)
    with ih show ?thesis by (simp add: step) (metis (no_types))
  next
    case False
    have step: "local_step E files i ss m (got, cnt) = (got, cnt)"
      using False ok [of "nat m"] len by (auto simp: local_step_def split: option.splits)
    from Cons.IH [OF _ Cons.prems(2)] Cons.prems(1,3) False show ?thesis by (auto simp: step)
  qed
qed simp

lemma fetch_fold:
  assumes ok: "\<And>n x. n < length shards \<Longrightarrow> src i (int n) ss = Some x \<Longrightarrow> VerifyShard (eH E) ss (int n) x \<longleftrightarrow> x = shards ! n"
    and "genuine shards (got, cnt)" "\<forall>n\<in>set ns. n < length shards"
  shows "genuine shards (fold (fetch_step E src i ss) ns (got, cnt)) \<and>
    (\<forall>n<length shards. got ! n \<noteq> None \<longrightarrow> fst (fold (fetch_step E src i ss) ns (got, cnt)) ! n \<noteq> None) \<and>
    (unat (K (SetSpec ss)) \<le> snd (fold (fetch_step E src i ss) ns (got, cnt)) \<or>
      (\<forall>n\<in>set ns. src i (int n) ss = Some (shards ! n) \<longrightarrow> fst (fold (fetch_step E src i ss) ns (got, cnt)) ! n \<noteq> None))"
  using assms(2,3)
proof (induction ns arbitrary: got cnt)
  case (Cons m ns)
  let ?r = "fold (fetch_step E src i ss) ns"
  have l: "length got = length shards" using Cons.prems(1) by (auto simp: genuine_def dest: list_all2_lengthD)
  have m: "m < length shards" "\<forall>n\<in>set ns. n < length shards" using Cons.prems(2) by auto
  show ?case
  proof (cases "cnt < unat (K (SetSpec ss)) \<and> got ! m = None \<and> src i (int m) ss = Some (shards ! m)")
    case True
    let ?got = "got[m := Some (shards ! m)]"
    have step: "fetch_step E src i ss m (got, cnt) = (?got, cnt + 1)"
      using True ok [OF m(1), of "shards ! m"] by (simp add: fetch_step_def)
    have g: "genuine shards (?got, cnt + 1)" using Cons.prems(1) True m by (intro genuine_add) auto
    have "?got ! n \<noteq> None" if "n < length shards" "got ! n \<noteq> None \<or> n = m" for n
      using that m l by (auto simp: nth_list_update)
    with Cons.IH [OF g m(2)] m(1) show ?thesis unfolding fold_simps step by (metis set_ConsD)
  next
    case False
    have step: "fetch_step E src i ss m (got, cnt) = (got, cnt)"
      using False ok [OF m(1)] by (auto simp: fetch_step_def split: option.splits)
    have stay: "unat (K (SetSpec ss)) \<le> cnt \<Longrightarrow> fold (fetch_step E src i ss) ns (got, cnt) = (got, cnt)"
      by (induction ns) (simp_all add: fetch_step_def)
    from Cons.IH [OF Cons.prems(1) m(2)] m(1) False stay show ?thesis
      unfolding fold_simps step by (metis set_ConsD snd_conv not_less)
  qed
qed simp

text \<open>
  What the Reed-Solomon library documents: the data shards are the payload, the shards of a payload
  pass the parity check, and any \<open>k\<close> of them give back all of them.
\<close>

definition rs_code :: "ext \<Rightarrow> nat \<Rightarrow> nat \<Rightarrow> bytes \<Rightarrow> bool" where
  "rs_code E k m p \<longleftrightarrow>
     (\<forall>shards. eRS E k m p = Some shards \<longrightarrow>
        length shards = k + m \<and> concat (take k shards) = p \<and> eCheck E k m shards \<and>
        (\<forall>got. list_all2 (\<lambda>g s. g = None \<or> g = Some s) got shards \<longrightarrow> k \<le> length (filter (\<lambda>g. g \<noteq> None) got) \<longrightarrow>
           eRebuild E k m got = Some shards))"

text \<open>The shards a node can lay its hands on are genuine or are caught by their hash.\<close>

definition no_forged :: "ext \<Rightarrow> Chain \<Rightarrow> hash \<Rightarrow> ShardSet \<Rightarrow> bytes list \<Rightarrow> bool" where
  "no_forged E c i ss shards \<longleftrightarrow>
     (\<forall>n<length shards. \<forall>x. VerifyShard (eH E) ss (int n) x \<longrightarrow>
        GetShard (cstore c) i (int n) = Some x \<or> (\<exists>src. source c = Some src \<and> src i (int n) ss = Some x) \<longrightarrow> x = shards ! n)"

lemma genuine_count:
  assumes "genuine shards acc" "\<forall>n\<in>S. n < length shards \<and> fst acc ! n \<noteq> None"
  shows "card S \<le> snd acc"
proof -
  have l: "length (fst acc) = length shards" using assms(1) by (auto simp: genuine_def dest: list_all2_lengthD)
  have "card S \<le> card {n. n < length (fst acc) \<and> fst acc ! n \<noteq> None}"
    by (rule card_mono) (use assms(2) l in auto)
  then show ?thesis using assms(1) by (simp add: genuine_def length_filter_conv_card)
qed

text \<open>What the two loops of reconstruction collect.\<close>

lemma gathered:
  assumes b: "BuildShardSet (eH E) (eRS E) i body spec = Ok (shards, ss)" and len: "length shards = nat (Total spec)"
    and m: "gomap (shardfiles (cstore c))" and nf: "no_forged E c i ss shards"
  obtains acc where "genuine shards acc"
    "unat (K spec) \<le> card {n. held c i shards n \<or> served c i ss shards n} \<longrightarrow> unat (K spec) \<le> snd acc"
    "reconstructShards E c i ss = (if snd acc < unat (K spec) then Err ErrReconstruct
       else case Reconstruct (eRebuild E) (eCheck E) (fst acc) spec (OrigLen ss) of
         Ok d \<Rightarrow> Ok d | Err e \<Rightarrow> Err (EErasure e) | Panic \<Rightarrow> Panic)"
proof -
  have spec: "SetSpec ss = spec" using b by (auto simp: BuildShardSet_def)
  have tot: "Total (SetSpec ss) = int (length shards)" using len by (simp add: spec Total_def)
  have ok: "VerifyShard (eH E) ss (int n) x \<longleftrightarrow> x = shards ! n"
    if "n < length shards" "GetShard (cstore c) i (int n) = Some x \<or> (\<exists>src. source c = Some src \<and> src i (int n) ss = Some x)" for n x
    using that nf VerifyShard_own [OF b that(1)] unfolding no_forged_def by blast
  have dist: "distinct (HeldShards (cstore c) i)" by (rule distinct_HeldShards [OF m])
  let ?acc1 = "fold (local_step E (cstore c) i ss) (HeldShards (cstore c) i) (replicate (length shards) None, 0)"
  have "genuine shards ?acc1 \<and> (\<forall>n<length shards. replicate (length shards) (None :: bytes option) ! n \<noteq> None \<or>
      (int n \<in> set (HeldShards (cstore c) i) \<and> GetShard (cstore c) i (int n) = Some (shards ! n)) \<longrightarrow> fst ?acc1 ! n \<noteq> None)"
    by (rule local_fold [OF tot _ dist genuine_empty]) (use ok in auto)
  then have g1: "genuine shards ?acc1" and h1: "\<forall>n. held c i shards n \<longrightarrow> fst ?acc1 ! n \<noteq> None"
    by (auto simp: held_def set_HeldShards)
  let ?acc2 = "case source c of None \<Rightarrow> ?acc1
    | Some src \<Rightarrow> if snd ?acc1 < unat (K spec) then fold (fetch_step E src i ss) [0..<length shards] ?acc1 else ?acc1"
  have "genuine shards ?acc2 \<and> (unat (K spec) \<le> card {n. held c i shards n \<or> served c i ss shards n} \<longrightarrow> unat (K spec) \<le> snd ?acc2)"
  proof (cases "source c")
    case None
    then have "held c i shards n \<or> served c i ss shards n \<longleftrightarrow> held c i shards n" for n by (simp add: served_def)
    with g1 h1 None genuine_count [OF g1, of "{n. held c i shards n}"] show ?thesis by (auto simp: held_def)
  next
    case (Some src)
    have f: "genuine shards (fold (fetch_step E src i ss) [0..<length shards] ?acc1) \<and>
      (\<forall>n<length shards. fst ?acc1 ! n \<noteq> None \<longrightarrow> fst (fold (fetch_step E src i ss) [0..<length shards] ?acc1) ! n \<noteq> None) \<and>
      (unat (K (SetSpec ss)) \<le> snd (fold (fetch_step E src i ss) [0..<length shards] ?acc1) \<or>
       (\<forall>n\<in>set [0..<length shards]. src i (int n) ss = Some (shards ! n) \<longrightarrow>
          fst (fold (fetch_step E src i ss) [0..<length shards] ?acc1) ! n \<noteq> None))"
      using fetch_fold [of shards src i ss E "fst ?acc1" "snd ?acc1" "[0..<length shards]"] ok Some g1 by simp
    have "unat (K spec) \<le> snd (fold (fetch_step E src i ss) [0..<length shards] ?acc1)"
      if k: "unat (K spec) \<le> card {n. held c i shards n \<or> served c i ss shards n}"
    proof (rule ccontr)
      assume n: "\<not> ?thesis"
      with f h1 have "\<forall>n\<in>{n. held c i shards n \<or> served c i ss shards n}. n < length shards \<and>
          fst (fold (fetch_step E src i ss) [0..<length shards] ?acc1) ! n \<noteq> None"
        by (auto simp: served_def held_def Some spec)
      from genuine_count [OF conjunct1 [OF f] this] k n show False by simp
    qed
    with f g1 Some show ?thesis by simp
  qed
  then show thesis using that [of ?acc2] by (simp add: reconstructShards_def Let_def spec tot [unfolded spec] cong: option.case_cong)
qed

text \<open>Reconstruction returns the committed body or fails, and returns it when \<open>K\<close> shards are at hand.\<close>

lemma reconstruct_body:
  assumes "BuildShardSet (eH E) (eRS E) i body spec = Ok (shards, ss)"
    and "rs_code E (unat (K spec)) (unat (M spec)) (padded_payload (unat (K spec)) body)" "length body < 2 ^ 32"
    and "gomap (shardfiles (cstore c))" "no_forged E c i ss shards"
  shows "reconstructShards E c i ss \<in> {Ok body, Err ErrReconstruct} \<and>
    (unat (K spec) \<le> card {n. held c i shards n \<or> served c i ss shards n} \<longrightarrow> reconstructShards E c i ss = Ok body)"
proof -
  from assms(1) obtain pl ol where e: "EncodeShards (eRS E) body spec = Ok (shards, pl, ol)" and ss: "OrigLen ss = int ol"
    by (auto simp: BuildShardSet_def)
  have rs: "length shards = unat (K spec) + unat (M spec)" "concat (take (unat (K spec)) shards) = padded_payload (unat (K spec)) body"
    "eCheck E (unat (K spec)) (unat (M spec)) shards"
    "\<And>got. list_all2 (\<lambda>g s. g = None \<or> g = Some s) got shards \<Longrightarrow>
       unat (K spec) \<le> length (filter (\<lambda>g. g \<noteq> None) got) \<Longrightarrow> eRebuild E (unat (K spec)) (unat (M spec)) got = Some shards"
    using assms(2) Encode_Ok(3) [OF e] unfolding rs_code_def by blast+
  have len: "length shards = nat (Total spec)" by (simp add: rs(1) Total_def nat_add_distrib flip: unat_eq_nat_uint)
  obtain acc where acc: "genuine shards acc"
      "unat (K spec) \<le> card {n. held c i shards n \<or> served c i ss shards n} \<longrightarrow> unat (K spec) \<le> snd acc"
    and r: "reconstructShards E c i ss = (if snd acc < unat (K spec) then Err ErrReconstruct
       else case Reconstruct (eRebuild E) (eCheck E) (fst acc) spec (OrigLen ss) of
         Ok d \<Rightarrow> Ok d | Err e \<Rightarrow> Err (EErasure e) | Panic \<Rightarrow> Panic)"
    by (rule gathered [OF assms(1) len assms(4,5)])
  have "reconstructShards E c i ss = Ok body" if k: "unat (K spec) \<le> snd acc"
  proof -
    from acc(1) k have "list_all2 (\<lambda>g s. g = None \<or> g = Some s) (fst acc) shards" "unat (K spec) \<le> length (filter (\<lambda>g. g \<noteq> None) (fst acc))"
      by (simp_all add: genuine_def)
    from Reconstruct_Encode [where rebuild = "eRebuild E" and check = "eCheck E", OF e assms(3) rs(1,2,4,3) this] k
    show ?thesis by (simp add: r ss)
  qed
  then show ?thesis using acc(2) r by (cases "snd acc < unat (K spec)") auto
qed

text \<open>
  Bodies are recoverable: when the shards of a block this node holds and those its peers serve
  are \<open>K\<close> distinct ones at least, and no forged shard among them matches a committed hash,
  reconstruction returns the transactions of the block and the availability check passes.
\<close>

lemma body_recoverable:
  assumes "GetHeader (cstore c) h = Some (Hdr b, ss)"
    and "BuildShardSet (eH E) (eRS E) (ID (eH E) (Hdr b)) (Body b) (Spec (Hdr b)) = Ok (shards, ss)"
    and "rs_code E (unat (K (Spec (Hdr b)))) (unat (M (Spec (Hdr b)))) (padded_payload (unat (K (Spec (Hdr b)))) (Body b))"
    and "length (Body b) < 2 ^ 32" "list_all tx_fits (Txs b)" "length (Txs b) < 2 ^ 32"
    and "BodyHash (Hdr b) = BodyHashOf (eH E) (Body b)" "MerkleRoot (Hdr b) = MerkleRootOf (eH E) (Txs b)"
    and "gomap (shardfiles (cstore c))" "no_forged E c (ID (eH E) (Hdr b)) ss shards"
    and "unat (K (Spec (Hdr b))) \<le>
      card {n. held c (ID (eH E) (Hdr b)) shards n \<or> served c (ID (eH E) (Hdr b)) ss shards n}"
  shows "ReconstructBody E c h = Ok (Txs b) \<and> VerifyAvailable E c h = Ok True"
proof -
  have "reconstructShards E c (ID (eH E) (Hdr b)) ss = Ok (Body b)"
    using reconstruct_body [OF assms(2,3,4,9,10)] assms(11) by blast
  moreover have "DecodeTxs (Body b) = Ok (Txs b)" using DecodeTxs_written [OF assms(5,6)] by (simp add: Body_def)
  ultimately show ?thesis
    using assms(1,7,8) by (simp add: ReconstructBody_def VerifyAvailable_def decode_body_def)
qed

text \<open>Witness: a node that lost one of three shards rebuilds an empty block.\<close>

lemma xor_bytes_back: "length a = length b \<Longrightarrow> xor_bytes a (xor_bytes a b) = b \<and> xor_bytes b (xor_bytes a b) = a"
  by (induction a b rule: list_induct2) (auto simp: xor_bytes_def ac_simps)

lemma raid_code:
  assumes "even (length p)" shows "rs_code toyE 2 1 p"
proof -
  let ?a = "take (length p div 2) p" and ?b = "drop (length p div 2) p"
  have l: "length ?a = length ?b" using assms by auto
  have "raid_rebuild 2 1 got = Some [?a, ?b, xor_bytes ?a ?b]"
    if "list_all2 (\<lambda>g s. g = None \<or> g = Some s) got [?a, ?b, xor_bytes ?a ?b]" "2 \<le> length (filter (\<lambda>g. g \<noteq> None) got)" for got
    using that xor_bytes_back [OF l] unfolding list_all2_Cons2 by (auto simp: raid_rebuild_def)
  then show ?thesis by (auto simp: rs_code_def toyE_def raid_def raid_check_def Let_def)
qed

definition empty_block :: Block where
  "empty_block = \<lparr>Hdr = zero_header\<lparr>Spec := \<lparr>K = 2, M = 1\<rparr>, BodyHash := BodyHashOf toyH (EncodeTxs []), MerkleRoot := MerkleRootOf toyH []\<rparr>, Txs = []\<rparr>"

definition degraded :: "bytes list \<Rightarrow> ShardSet \<Rightarrow> Chain" where
  "degraded shards ss = node0\<lparr>cstore := OpenStore\<lparr>hdrs := [(0, (Hdr empty_block, ss))],
     shardfiles := [((ID toyH (Hdr empty_block), 0), shards ! 0), ((ID toyH (Hdr empty_block), 2), shards ! 2)]\<rparr>\<rparr>"

theorem body_recoverable_witness:
  "\<exists>shards ss. BuildShardSet toyH raid (ID toyH (Hdr empty_block)) (Body empty_block) (Spec (Hdr empty_block)) = Ok (shards, ss) \<and>
     ReconstructBody toyE (degraded shards ss) 0 = Ok []"
proof -
  let ?i = "ID toyH (Hdr empty_block)" and ?spec = "\<lparr>K = 2, M = 1\<rparr>"
  have spec: "Spec (Hdr empty_block) = ?spec" and txs: "Txs empty_block = []" by (simp_all add: empty_block_def)
  have body: "Body empty_block = [0, 0, 0, 0]" unfolding Body_def txs by code_simp
  have pl: "padded_payload 2 [0, 0, 0, 0] = [0, 0, 0, 4, 0, 0, 0, 0]" by code_simp
  have "EncodeShards raid [0, 0, 0, 0] ?spec = Ok ([[0, 0, 0, 4], [0, 0, 0, 0], [0, 0, 0, 4]], 4, 4)" by code_simp
  then obtain ss where b: "BuildShardSet toyH raid ?i (Body empty_block) (Spec (Hdr empty_block)) = Ok ([[0, 0, 0, 4], [0, 0, 0, 0], [0, 0, 0, 4]], ss)"
    by (simp add: BuildShardSet_def body spec)
  let ?s = "[[0, 0, 0, 4], [0, 0, 0, 0], [0, 0, 0, 4]] :: bytes list"
  let ?c = "degraded ?s ss"
  have E: "eH toyE = toyH" "eRS toyE = raid" by (simp_all add: toyE_def)
  have src: "source ?c = None" by (simp add: degraded_def node0_def NewChain_def OpenStore_def HasHeaders_def loadReplayBase_def GetState_def)
  have files: "shardfiles (cstore ?c) = [((?i, 0), ?s ! 0), ((?i, 2), ?s ! 2)]" by (simp add: degraded_def)
  have "{0, 2} \<subseteq> {n. held ?c ?i ?s n}" by (simp add: held_def GetShard_def files)
  then have "card {0, 2 :: nat} \<le> card {n. held ?c ?i ?s n}"
    by (rule card_mono [rotated]) (rule finite_subset [of _ "{..<3}"], auto simp: held_def)
  then have k: "unat (K (Spec (Hdr empty_block))) \<le> card {n. held ?c ?i ?s n \<or> served ?c ?i ss ?s n}"
    by (simp add: spec served_def src)
  have nf: "no_forged toyE ?c ?i ss ?s"
    by (auto simp: no_forged_def src GetShard_def files less_Suc_eq split: if_splits)
  have rs: "rs_code toyE (unat (K (Spec (Hdr empty_block)))) (unat (M (Spec (Hdr empty_block))))
      (padded_payload (unat (K (Spec (Hdr empty_block)))) (Body empty_block))"
    using raid_code [of "padded_payload 2 [0, 0, 0, 0]"] by (simp add: spec body pl)
  have g: "GetHeader (cstore ?c) 0 = Some (Hdr empty_block, ss)" by (simp add: degraded_def GetHeader_def)
  have h: "BodyHash (Hdr empty_block) = BodyHashOf toyH (Body empty_block)" "MerkleRoot (Hdr empty_block) = MerkleRootOf toyH (Txs empty_block)"
    by (simp_all add: empty_block_def Body_def)
  have m: "gomap (shardfiles (cstore ?c))" by (simp add: files gomap_def)
  have l: "length (Body empty_block) < 2 ^ 32" "list_all tx_fits (Txs empty_block)" "length (Txs empty_block) < 2 ^ 32"
    by (simp_all add: body txs)
  note bs = body_recoverable [of ?c 0 empty_block ss toyE ?s, unfolded E, OF g b rs l h m nf k]
  with b txs show ?thesis by metis
qed

section \<open>Fast sync\<close>

lemma install_headers_run:
  assumes "install_headers E recs i prev c = Some (c', r)" "i + length recs \<le> 2 ^ 64"
  shows "c' = c\<lparr>cstore := cstore c'\<rparr> \<and> (\<forall>j<i. GetHeader (cstore c') (of_nat j) = GetHeader (cstore c) (of_nat j)) \<and>
    (r = Ok () \<longrightarrow> (\<forall>j<length recs. GetHeader (cstore c') (of_nat (i + j)) = Some (recs ! j) \<and>
       Height (fst (recs ! j)) = of_nat (i + j) \<and> EngineAuthorize E (engine c) (cstate c) (fst (recs ! j)) = None \<and>
       PrevHash (fst (recs ! j)) = (if i + j = 0 then Zero else if j = 0 then prev else ID (eH E) (fst (recs ! (j - 1))))))"
  using assms
proof (induction recs arbitrary: i prev c)
  case (Cons p recs)
  obtain h ss where p: "p = (h, ss)" by (cases p)
  show ?case
  proof (cases "Height h = of_nat i \<and> PrevHash h = (if i = 0 then Zero else prev) \<and>
      EngineAuthorize E (engine c) (cstate c) h = None \<and> snd (PutHeader h ss (cstore c))")
    case False
    with Cons.prems(1) have "c' = c\<lparr>cstore := cstore c'\<rparr>" "r \<noteq> Ok ()" "GetHeader (cstore c') = GetHeader (cstore c)"
      by (auto simp: p PutHeader_def GetHeader_def split: if_splits option.splits prod.splits bool.splits)
    then show ?thesis by simp
  next
    case True
    let ?c = "c\<lparr>cstore := fst (PutHeader h ss (cstore c))\<rparr>"
    have run: "install_headers E recs (Suc i) (ID (eH E) h) ?c = Some (c', r)"
      using Cons.prems(1) True by (cases "PutHeader h ss (cstore c)") (auto simp: p split: if_splits)
    from Cons.IH [OF this] Cons.prems(2)
    have ih: "c' = ?c\<lparr>cstore := cstore c'\<rparr>" "\<forall>j<Suc i. GetHeader (cstore c') (of_nat j) = GetHeader (cstore ?c) (of_nat j)"
      "r = Ok () \<longrightarrow> (\<forall>j<length recs. GetHeader (cstore c') (of_nat (Suc i + j)) = Some (recs ! j) \<and>
       Height (fst (recs ! j)) = of_nat (Suc i + j) \<and> EngineAuthorize E (engine c) (cstate c) (fst (recs ! j)) = None \<and>
       PrevHash (fst (recs ! j)) = (if j = 0 then ID (eH E) h else ID (eH E) (fst (recs ! (j - 1)))))" by simp_all
    have ne: "of_nat j \<noteq> (of_nat i :: u64)" if "j < i" for j
      using that Cons.prems(2) by (simp add: word_unat_eq_iff unat_of_nat_small del: of_nat_eq_iff)
    have put: "GetHeader (cstore ?c) (of_nat i) = Some (h, ss)" "\<forall>j<i. GetHeader (cstore ?c) (of_nat j) = GetHeader (cstore c) (of_nat j)"
      using True ne by (auto simp: PutHeader_def GetHeader_def update_conv' split: if_splits)
    have z: "GetHeader (cstore c') (of_nat i) = Some (h, ss)" using ih(2) put(1) by simp
    have s: "r = Ok () \<longrightarrow> (\<forall>j<length recs. GetHeader (cstore c') (of_nat (i + Suc j)) = Some (recs ! j) \<and>
       Height (fst (recs ! j)) = of_nat (i + Suc j) \<and> EngineAuthorize E (engine c) (cstate c) (fst (recs ! j)) = None \<and>
       PrevHash (fst (recs ! j)) = ID (eH E) (fst (((h, ss) # recs) ! j)))"
      using ih(3) by (auto simp: nth_Cons split: nat.splits)
    show ?thesis
    proof (intro conjI impI allI)
      show "c' = c\<lparr>cstore := cstore c'\<rparr>" using ih(1) by simp
      show "GetHeader (cstore c') (of_nat j) = GetHeader (cstore c) (of_nat j)" if "j < i" for j
        using that ih(2) put(2) less_SucI by metis
      fix j assume r: "r = Ok ()" and j: "j < length (p # recs)"
      show "GetHeader (cstore c') (of_nat (i + j)) = Some ((p # recs) ! j)"
        "Height (fst ((p # recs) ! j)) = of_nat (i + j)" "EngineAuthorize E (engine c) (cstate c) (fst ((p # recs) ! j)) = None"
        "PrevHash (fst ((p # recs) ! j)) = (if i + j = 0 then Zero else if j = 0 then prev else ID (eH E) (fst ((p # recs) ! (j - 1))))"
        using z s True r j by (cases j; simp add: p del: of_nat_Suc of_nat_add)+
    qed
  qed
qed simp

text \<open>
  Fast sync: when it succeeds, the received headers are stored at heights 0, 1, 2 and so on,
  each naming its predecessor and authorized by the engine, the last is the head, and the
  ledger is the received one.  When it fails, head, ledger and block tree are as before.
\<close>

theorem SyncInstall_spec:
  assumes "SyncInstall E recs s0 c = Some (c', r)" "length recs \<le> 2 ^ 64"
  shows "case r of
      Ok _ \<Rightarrow> chead c' = fst (last recs) \<and> cstate c' = ReplaceWith s0 (cstate c) \<and>
        (\<forall>j<length recs. GetHeader (cstore c') (of_nat j) = Some (recs ! j) \<and> Height (fst (recs ! j)) = of_nat j \<and>
           EngineAuthorize E (engine c) (cstate c) (fst (recs ! j)) = None \<and>
           PrevHash (fst (recs ! j)) = (if j = 0 then Zero else ID (eH E) (fst (recs ! (j - 1)))))
    | _ \<Rightarrow> chead c' = chead c \<and> cstate c' = cstate c \<and> tree c' = tree c \<and> replayBase c' = replayBase c"
proof (cases "recs = []")
  case False
  show ?thesis
  proof (cases "install_headers E recs 0 Zero c")
    case None
    then show ?thesis using assms(1) False by (simp add: SyncInstall_def)
  next
    case (Some p)
    obtain c1 r1 where p: "p = (c1, r1)" by (cases p)
    from install_headers_run [of E recs 0 Zero c c1 r1] Some p assms(2)
    have i: "c1 = c\<lparr>cstore := cstore c1\<rparr>"
      "r1 = Ok () \<longrightarrow> (\<forall>j<length recs. GetHeader (cstore c1) (of_nat j) = Some (recs ! j) \<and>
       Height (fst (recs ! j)) = of_nat j \<and> EngineAuthorize E (engine c) (cstate c) (fst (recs ! j)) = None \<and>
       PrevHash (fst (recs ! j)) = (if j = 0 then Zero else if j = 0 then Zero else ID (eH E) (fst (recs ! (j - 1)))))" by simp_all
    have sel: "chead c1 = chead c" "cstate c1 = cstate c" "tree c1 = tree c" "replayBase c1 = replayBase c"
      by (subst i(1), simp)+
    show ?thesis
    proof (cases r1)
      case (Ok u)
      with assms(1) False Some p have "r = Ok ()" "chead c' = fst (last recs)" "cstate c' = ReplaceWith s0 (cstate c)"
        "GetHeader (cstore c') = GetHeader (cstore c1)"
        using sel by (auto simp: SyncInstall_def Let_def saveReplayBase_def PutState_def GetHeader_def split: if_splits option.splits prod.splits)
      with i Ok show ?thesis by simp
    qed (use assms(1) False Some p sel in \<open>auto simp: SyncInstall_def\<close>)
  qed
qed (use assms(1) in \<open>auto simp: SyncInstall_def\<close>)

text \<open>Witness: a node syncs the genesis header it was sent.\<close>

definition sync_header :: Header where
  "sync_header = zero_header\<lparr>Validator := val0, ValPubKey := Pub kp0\<rparr>"

lemma sync_run:
  "case SyncInstall toyE [(sync_header, \<lparr>SetBlockID = Zero, SetSpec = \<lparr>K = 2, M = 1\<rparr>, PaddedLen = 0, OrigLen = 0, SetShardHash = []\<rparr>)] New node0 of
     Some (_, Ok _) \<Rightarrow> True | _ \<Rightarrow> False"
  by code_simp

theorem SyncInstall_spec_witness:
  "\<exists>ss c'. SyncInstall toyE [(sync_header, ss)] New node0 = Some (c', Ok ()) \<and> chead c' = sync_header"
proof -
  let ?ss = "\<lparr>SetBlockID = Zero, SetSpec = \<lparr>K = 2, M = 1\<rparr>, PaddedLen = 0, OrigLen = 0, SetShardHash = []\<rparr>"
  obtain c' where r: "SyncInstall toyE [(sync_header, ?ss)] New node0 = Some (c', Ok ())"
    using sync_run by (auto split: option.splits prod.splits result.splits)
  from SyncInstall_spec [OF r] have "chead c' = sync_header" by simp
  with r show ?thesis by blast
qed

section \<open>A bad events root\<close>

lemma Get_rebind [simp]: "Get (rebind E f s) = Get s"
  by (simp add: Get_def rebind_def fun_eq_iff)

lemma ApplyExternalBlock_applies:
  "ApplyExternalBlock E now b c = Some (c', Ok ()) \<Longrightarrow> \<exists>s. apply_on E (cstore c) b (cstate c) = (s, Ok ())"
  by (auto simp: ApplyExternalBlock_def Let_def split: if_splits option.splits prod.splits result.splits)

text \<open>
  C30. A block that is valid but for its events root is refused only after it was applied: the node
  keeps its head but its ledger has moved on, and from then on it refuses every
  next block that carries one of the transactions of the refused one, the honest version of it
  among them.
\<close>

theorem bad_logs_root_wedges:
  assumes "hasGen c" "EngineAuthorize E (engine c) (cstate c) (Hdr b) = None"
    and "Height (Hdr b) = Height (chead c) + 1" "PrevHash (Hdr b) = ID (eH E) (chead c)"
    and "sint (Timestamp (chead c) + ucast (Round (Hdr b)) * blockTime c) \<le> sint (Timestamp (Hdr b))"
    and "sint (Timestamp (Hdr b)) \<le> sint (now + 2 * blockTime c)"
    and "MerkleRoot (Hdr b) = MerkleRootOf (eH E) (Txs b)" "BodyHash (Hdr b) = BodyHashOf (eH E) (Body b)"
    and "apply_on E (cstore c) b (cstate c) = (s, Ok ())" "LogsRoot (Hdr b) \<noteq> LogsRootOf (eH E) (LastLogs s)"
    and "t \<in> set (payload_of b)" "t \<in> set (payload_of b')"
    and "unat (AcctNonce (Get (cstate c) (From t))) + txs_from (From t) [b, b'] < 2 ^ 64"
  shows "ApplyExternalBlock E now b c = Some (c\<lparr>cstate := s\<rparr>, Err ErrBadLogsRoot) \<and>
    ApplyExternalBlock E now' b' (c\<lparr>cstate := s\<rparr>) \<noteq> Some (c', Ok ())"
proof
  show "ApplyExternalBlock E now b c = Some (c\<lparr>cstate := s\<rparr>, Err ErrBadLogsRoot)"
    using assms by (simp add: ApplyExternalBlock_def Let_def)
  have sum: "txs_from (From t) [b, b'] = length (from_txs (From t) (payload_of b)) + length (from_txs (From t) (payload_of b'))"
    by (simp add: txs_from_def from_txs_def)
  note a = assms(9) [unfolded apply_on_def]
  have n: "unat (Nonce t) < unat (AcctNonce (Get s (From t)))"
    using accepted_nonce_range(2) [OF a assms(11)] assms(13) sum by simp
  have l: "unat (AcctNonce (Get s (From t))) + length (from_txs (From t) (payload_of b')) < 2 ^ 64"
    using ApplyBlock_nonces(1) [OF a, of "From t"] assms(13) sum by (simp add: unat_add_no_wrap unat_of_nat_small)
  show "ApplyExternalBlock E now' b' (c\<lparr>cstate := s\<rparr>) \<noteq> Some (c', Ok ())"
  proof
    assume "ApplyExternalBlock E now' b' (c\<lparr>cstate := s\<rparr>) = Some (c', Ok ())"
    then obtain s2 where "ApplyBlock (eH E) (eV E) (eJ E) b' (rebind E (cstore c) s) = (s2, Ok ())"
      using ApplyExternalBlock_applies [of E now' b' "c\<lparr>cstate := s\<rparr>" c'] by (auto simp: apply_on_def)
    from accepted_nonce_range(1) [OF this assms(12)] l n show False by simp
  qed
qed

text \<open>Witness: a payment in a block whose events root was altered.\<close>

definition pay0 :: Transaction where
  "pay0 = (bare_tx [9] 5)\<lparr>From := val0, PubKey := Pub kp0\<rparr>"

definition paid_chain :: Chain where
  "paid_chain = node0\<lparr>cstate := Credit val0 1000 New, hasGen := True\<rparr>"

definition pay_block :: "hash \<Rightarrow> Block" where
  "pay_block r = \<lparr>Hdr = zero_header\<lparr>Height := 1, PrevHash := ID toyH zero_header, Timestamp := 5, Round := 1, Validator := val0, ValPubKey := Pub kp0,
     MerkleRoot := MerkleRootOf toyH [pay0], BodyHash := BodyHashOf toyH (EncodeTxs [pay0]), LogsRoot := r\<rparr>, Txs = [pay0]\<rparr>"

lemma paid_run:
  "case apply_on toyE (cstore paid_chain) (pay_block [1]) (cstate paid_chain) of
     (s, Ok _) \<Rightarrow> LogsRootOf toyH (LastLogs s) \<noteq> [1]
   | _ \<Rightarrow> False"
  by code_simp

lemma paid_authorized:
  "EngineAuthorize toyE (engine paid_chain) (cstate paid_chain) (Hdr (pay_block [1])) = None"
  by code_simp

theorem bad_logs_root_wedges_witness:
  "\<exists>s. ApplyExternalBlock toyE 5 (pay_block [1]) paid_chain = Some (paid_chain\<lparr>cstate := s\<rparr>, Err ErrBadLogsRoot) \<and>
     ApplyExternalBlock toyE 5 (pay_block (LogsRootOf toyH [])) (paid_chain\<lparr>cstate := s\<rparr>) \<noteq> Some (paid_chain, Ok ())"
proof -
  obtain s z where a: "apply_on toyE (cstore paid_chain) (pay_block [1]) (cstate paid_chain) = (s, z)" by fastforce
  with paid_run have z: "z = Ok ()" and l: "LogsRootOf toyH (LastLogs s) \<noteq> [1]" by (auto split: result.splits)
  have c: "hasGen paid_chain" "chead paid_chain = zero_header" "blockTime paid_chain = 5"
    by (simp_all add: paid_chain_def node0_def NewChain_def OpenStore_def HasHeaders_def loadReplayBase_def GetState_def)
  have t: "payload_of (pay_block r) = [pay0]" for r
    by (simp add: payload_of_def coinbase_of_def pay_block_def IsCoinbase_def pay0_def val0_def Address_def AddressFromPub_def AddressPrefix_def)
  have n: "AcctNonce (Get (cstate paid_chain) (From pay0)) = 0" by code_simp
  have E: "eH toyE = toyH" by (simp add: toyE_def)
  have "ApplyExternalBlock toyE 5 (pay_block [1]) paid_chain = Some (paid_chain\<lparr>cstate := s\<rparr>, Err ErrBadLogsRoot) \<and>
     ApplyExternalBlock toyE 5 (pay_block (LogsRootOf toyH [])) (paid_chain\<lparr>cstate := s\<rparr>) \<noteq> Some (paid_chain, Ok ())"
    by (rule bad_logs_root_wedges [where t = pay0 and b' = "pay_block (LogsRootOf toyH [])"])
      (use paid_authorized a z l c n in \<open>simp_all add: t E txs_from_def from_txs_def\<close>, simp_all add: pay_block_def zero_header_def Body_def)
  then show ?thesis by blast
qed

end
