(* ===== verification/SL_P2p.thy ===== *)
theory SL_P2p
  imports SL_Network SL_Mempool SL_Peers
begin

text \<open>
  \<^verbatim>\<open>internal/p2p\<close>: the peer table (\<^verbatim>\<open>peer.go\<close>), the handlers of the two channels that change the node
  (\<^verbatim>\<open>server.go\<close>) and the client side: shard fetches, discovery, storage audits, fast sync
  (\<^verbatim>\<open>client.go\<close>).

  What the other nodes answer is the argument \<open>net\<close>: the decoded reply of each request, or \<open>None\<close> when the
  request fails.  The clock is read once per operation.  The order in which \<^verbatim>\<open>Discover\<close> ranges over its map of
  targets is an argument, and so are the random nonces of an audit.
\<close>

section \<open>Peer table\<close>

record Peer =
  PeerID :: bytes
  Control :: bytes
  ShardURL :: bytes

record Peerstore =
  selfPeer :: Peer
  table :: "(bytes, Peer) gomap"

definition NewPeerstore :: "Peer \<Rightarrow> Peerstore" where
  "NewPeerstore p = \<lparr>selfPeer = p, table = []\<rparr>"

definition AddPeer :: "Peer \<Rightarrow> Peerstore \<Rightarrow> Peerstore \<times> bool" where
  "AddPeer p ps =
     (if PeerID p = [] \<or> PeerID p = PeerID (selfPeer ps) \<or> Control p = [] then (ps, False)
      else (ps\<lparr>table := AList.update (PeerID p) p (table ps)\<rparr>, map_of (table ps) (PeerID p) = None))"

fun Merge :: "Peer list \<Rightarrow> Peerstore \<Rightarrow> Peerstore \<times> int" where
  "Merge [] ps = (ps, 0)"
| "Merge (p # qs) ps =
     (case AddPeer p ps of (ps1, isnew) \<Rightarrow> case Merge qs ps1 of (ps2, n) \<Rightarrow> (ps2, (if isnew then 1 else 0) + n))"

definition Peers :: "Peerstore \<Rightarrow> Peer list" where
  "Peers ps = sort_by (\<lambda>a b. str_less (PeerID a) (PeerID b)) (map snd (table ps))"

definition MemberIDs :: "Peerstore \<Rightarrow> bytes list" where
  "MemberIDs ps = str_sort (PeerID (selfPeer ps) # map fst (table ps))"

definition Count :: "Peerstore \<Rightarrow> int" where
  "Count ps = int (length (table ps)) + 1"

definition shardURLFor :: "bytes \<Rightarrow> Peerstore \<Rightarrow> bytes" where
  "shardURLFor i ps =
     (if i = PeerID (selfPeer ps) then []
      else case map_of (table ps) i of Some p \<Rightarrow> ShardURL p | None \<Rightarrow> [])"

section \<open>Server\<close>

record Server =
  peers :: Peerstore
  seeds :: "bytes list"
  schain :: Chain
  spool :: Pool
  scores :: Scoreboard
  bans :: Banlist
  reorg :: bool

record net =
  nHead :: "bytes \<Rightarrow> Header option"
  nHeaders :: "bytes \<Rightarrow> u64 \<Rightarrow> (Header \<times> ShardSet) list option"
  nSnapshot :: "bytes \<Rightarrow> State option"
  nHello :: "bytes \<Rightarrow> Peer \<Rightarrow> (Peer \<times> Peer list) option"
  nShard :: "bytes \<Rightarrow> hash \<Rightarrow> int \<Rightarrow> bytes option"
  nProve :: "bytes \<Rightarrow> hash \<Rightarrow> int \<Rightarrow> hash \<Rightarrow> hash option"
  nSeeds :: "bytes list"

definition NewServer :: "Peerstore \<Rightarrow> bytes list \<Rightarrow> Chain \<Rightarrow> Pool \<Rightarrow> bool \<Rightarrow> Server" where
  "NewServer ps sds c p r =
     \<lparr>peers = ps, seeds = sds, schain = c, spool = p, scores = [], bans = NewBanlist 3 600000000000, reorg = r\<rparr>"

text \<open>\<open>s.bans.Banned(key)\<close> may forget an expired ban.\<close>

definition banned :: "int \<Rightarrow> bytes \<Rightarrow> Server \<Rightarrow> Server \<times> bool" where
  "banned now key sv = (case Banned now key (bans sv) of (b, r) \<Rightarrow> (sv\<lparr>bans := b\<rparr>, r))"

text \<open>The chain of a running node: \<open>Members\<close> is the live peer table.\<close>

definition live :: "Server \<Rightarrow> Chain" where
  "live sv = (schain sv)\<lparr>members := MemberIDs (peers sv)\<rparr>"

definition strike :: "int \<Rightarrow> bytes \<Rightarrow> Server \<Rightarrow> Server \<times> bool" where
  "strike now key sv = (case Strike now key (bans sv) of (b, r) \<Rightarrow> (sv\<lparr>bans := b\<rparr>, r))"

section \<open>Fetching shards\<close>

fun fetch_holders :: "(bytes \<Rightarrow> hash) \<Rightarrow> net \<Rightarrow> int \<Rightarrow> hash \<Rightarrow> int \<Rightarrow> ShardSet \<Rightarrow> bytes list \<Rightarrow> Server \<Rightarrow> Server \<times> bytes option" where
  "fetch_holders H N now i n ss [] sv = (sv, None)"
| "fetch_holders H N now i n ss (h # hs) sv =
     (case banned now h sv of
        (sv1, True) \<Rightarrow> fetch_holders H N now i n ss hs sv1
      | (sv1, False) \<Rightarrow>
          let url = shardURLFor h (peers sv1) in
          if url = [] then fetch_holders H N now i n ss hs sv1
          else (case nShard N url i n of
                  None \<Rightarrow> fetch_holders H N now i n ss hs sv1
                | Some d \<Rightarrow>
                    if \<not> VerifyShard H ss n d then fetch_holders H N now i n ss hs (fst (strike now h sv1))
                    else (sv1, Some d)))"

definition FetchShard :: "(bytes \<Rightarrow> hash) \<Rightarrow> net \<Rightarrow> int \<Rightarrow> hash \<Rightarrow> int \<Rightarrow> ShardSet \<Rightarrow> Server \<Rightarrow> Server \<times> bytes option" where
  "FetchShard H N now i n ss sv =
     (let mem = MemberIDs (peers sv); repl = Replication (int (length mem)) in
      fetch_holders H N now i n ss (Holders H mem i n repl) sv)"

text \<open>
  \<^verbatim>\<open>reconstructShards\<close> of a running node, whose shard source is the server: every fetch may strike a holder, so the
  server is threaded through the loop.
\<close>

definition net_fetch_step ::
    "ext \<Rightarrow> net \<Rightarrow> int \<Rightarrow> hash \<Rightarrow> ShardSet \<Rightarrow> nat \<Rightarrow> Server \<times> bytes option list \<times> nat \<Rightarrow> Server \<times> bytes option list \<times> nat" where
  "net_fetch_step E N now i ss n acc =
     (case acc of (sv, shards, cnt) \<Rightarrow>
        if \<not> cnt < unat (K (SetSpec ss)) then acc
        else if shards ! n \<noteq> None then acc
        else (case FetchShard (eH E) N now i (int n) ss sv of
                (sv1, None) \<Rightarrow> (sv1, shards, cnt)
              | (sv1, Some d) \<Rightarrow>
                  if VerifyShard (eH E) ss (int n) d then (sv1, shards[n := Some d], cnt + 1) else (sv1, shards, cnt)))"

definition reconstruct_net :: "ext \<Rightarrow> net \<Rightarrow> int \<Rightarrow> hash \<Rightarrow> ShardSet \<Rightarrow> Server \<Rightarrow> Server \<times> (chain_error, bytes) result" where
  "reconstruct_net E N now i ss sv =
     (let total = nat (Total (SetSpec ss)); files = cstore (schain sv);
          acc1 = fold (local_step E files i ss) (HeldShards files i) (replicate total None, 0);
          out = (if snd acc1 < unat (K (SetSpec ss)) then fold (net_fetch_step E N now i ss) [0..<total] (sv, acc1) else (sv, acc1));
          acc2 = snd out
      in (fst out,
          if snd acc2 < unat (K (SetSpec ss)) then Err ErrReconstruct
          else (case Reconstruct (eRebuild E) (eCheck E) (fst acc2) (SetSpec ss) (OrigLen ss) of
                  Ok d \<Rightarrow> Ok d | Err e \<Rightarrow> Err (EErasure e) | Panic \<Rightarrow> Panic)))"

definition rebuilt_net :: "ext \<Rightarrow> net \<Rightarrow> int \<Rightarrow> hash \<Rightarrow> ShardSet \<Rightarrow> int \<Rightarrow> Server \<Rightarrow> Server \<times> (chain_error, bytes option) result" where
  "rebuilt_net E N now i ss n sv =
     (case reconstruct_net E N now i ss sv of (sv1, r) \<Rightarrow>
        (sv1,
         case r of
           Panic \<Rightarrow> Panic
         | Err e \<Rightarrow> Ok None
         | Ok body \<Rightarrow>
             (case EncodeShards (eRS E) body (SetSpec ss) of
                Panic \<Rightarrow> Panic
              | Err e \<Rightarrow> Ok None
              | Ok (shards, _, _) \<Rightarrow> if int (length shards) \<le> n then Ok None else Ok (Some (shards ! nat n)))))"

definition ShardBytes_net :: "ext \<Rightarrow> net \<Rightarrow> int \<Rightarrow> u64 \<Rightarrow> int \<Rightarrow> Server \<Rightarrow> Server \<times> (chain_error, bytes option) result" where
  "ShardBytes_net E N now h n sv =
     (case GetHeader (cstore (schain sv)) h of
        None \<Rightarrow> (sv, Ok None)
      | Some (hdr, ss) \<Rightarrow>
          if n < 0 \<or> Total (SetSpec ss) \<le> n then (sv, Ok None)
          else let i = ID (eH E) hdr in
            (case GetShard (cstore (schain sv)) i n of
               Some d \<Rightarrow> if VerifyShard (eH E) ss n d then (sv, Ok (Some d)) else rebuilt_net E N now i ss n sv
             | None \<Rightarrow> rebuilt_net E N now i ss n sv))"

section \<open>Gossip out\<close>

text \<open>The control addresses a block or a transaction is sent to.\<close>

fun send_all :: "int \<Rightarrow> Peer list \<Rightarrow> Server \<Rightarrow> Server \<times> bytes list" where
  "send_all now [] sv = (sv, [])"
| "send_all now (p # ps) sv =
     (case banned now (PeerID p) sv of (sv1, b) \<Rightarrow> case send_all now ps sv1 of (sv2, out) \<Rightarrow>
        (sv2, if b then out else Control p # out))"

definition Broadcast :: "int \<Rightarrow> Server \<Rightarrow> Server \<times> bytes list" where
  "Broadcast now sv = send_all now (Peers (peers sv)) sv"

section \<open>Discovery\<close>

definition sayHello :: "net \<Rightarrow> bytes \<Rightarrow> Server \<Rightarrow> Server \<times> int option" where
  "sayHello N url sv =
     (case nHello N url (selfPeer (peers sv)) of
        None \<Rightarrow> (sv, None)
      | Some (who, others) \<Rightarrow>
          (case AddPeer who (peers sv) of (ps1, isnew) \<Rightarrow> case Merge others ps1 of (ps2, n) \<Rightarrow>
             (sv\<lparr>peers := ps2\<rparr>, Some ((if isnew then 1 else 0) + n))))"

fun unbanned :: "int \<Rightarrow> Peer list \<Rightarrow> Server \<Rightarrow> Server \<times> bytes list" where
  "unbanned now [] sv = (sv, [])"
| "unbanned now (p # ps) sv =
     (case banned now (PeerID p) sv of (sv1, b) \<Rightarrow> case unbanned now ps sv1 of (sv2, out) \<Rightarrow>
        (sv2, if b then out else Control p # out))"

text \<open>The targets as a set without repetitions, visited in the order the map gives them.\<close>

definition discover_targets :: "net \<Rightarrow> int \<Rightarrow> Server \<Rightarrow> Server \<times> bytes list" where
  "discover_targets N now sv =
     (case unbanned now (Peers (peers sv)) sv of (sv1, urls) \<Rightarrow> (sv1, remdups (seeds sv @ nSeeds N @ urls)))"

fun hello_all :: "net \<Rightarrow> bytes list \<Rightarrow> Server \<Rightarrow> Server \<times> int" where
  "hello_all N [] sv = (sv, 0)"
| "hello_all N (u # us) sv =
     (case sayHello N u sv of (sv1, r) \<Rightarrow> case hello_all N us sv1 of (sv2, t) \<Rightarrow>
        (sv2, (case r of Some n \<Rightarrow> n | None \<Rightarrow> 0) + t))"

definition Discover :: "net \<Rightarrow> int \<Rightarrow> (bytes list \<Rightarrow> bytes list) \<Rightarrow> Server \<Rightarrow> Server \<times> int" where
  "Discover N now order sv = (case discover_targets N now sv of (sv1, urls) \<Rightarrow> hello_all N (order urls) sv1)"

section \<open>Following the best peer\<close>

definition BestPeerHeight :: "net \<Rightarrow> Server \<Rightarrow> u64" where
  "BestPeerHeight N sv =
     fold (\<lambda>p best. case nHead N (Control p) of Some h \<Rightarrow> if best < Height h then Height h else best | None \<Rightarrow> best)
       (Peers (peers sv)) 0"

definition sync_step :: "net \<Rightarrow> Peer \<Rightarrow> bytes \<times> u64 \<Rightarrow> bytes \<times> u64" where
  "sync_step N p acc =
     (case nHead N (Control p) of
        None \<Rightarrow> acc
      | Some h \<Rightarrow> if snd acc \<le> Height h then (Control p, Height h) else acc)"

definition SyncFrom :: "ext \<Rightarrow> net \<Rightarrow> u64 \<Rightarrow> bool \<Rightarrow> Server \<Rightarrow> (Server \<times> u64 option) option" where
  "SyncFrom E N localHeight hasGenesis sv =
     (case fold (sync_step N) (Peers (peers sv)) ([], 0) of (best, bestHeight) \<Rightarrow>
        if best = [] then Some (sv, Some 0)
        else if hasGenesis \<and> bestHeight \<le> localHeight then Some (sv, Some 0)
        else case nHeaders N best bestHeight of
          None \<Rightarrow> Some (sv, None)
        | Some recs \<Rightarrow>
            (case nSnapshot N best of
               None \<Rightarrow> Some (sv, None)
             | Some snapshot \<Rightarrow>
                 (case SyncInstall E recs snapshot (live sv) of
                    Some (c, Ok _) \<Rightarrow> Some (sv\<lparr>schain := c\<rparr>, Some bestHeight)
                  | Some (c, Err e) \<Rightarrow> Some (sv\<lparr>schain := c\<rparr>, None)
                  | _ \<Rightarrow> None)))"

section \<open>Storage audits\<close>

definition audit_holder ::
    "(bytes \<Rightarrow> hash) \<Rightarrow> net \<Rightarrow> int \<Rightarrow> (int \<Rightarrow> bytes \<Rightarrow> hash) \<Rightarrow> hash \<Rightarrow> int \<Rightarrow> bytes \<Rightarrow> bytes \<Rightarrow> Server \<times> int \<times> int \<Rightarrow> Server \<times> int \<times> int" where
  "audit_holder H N now rnd i n d holder acc =
     (case acc of (sv, passes, misses) \<Rightarrow>
        if holder = PeerID (selfPeer (peers sv)) then acc
        else let url = shardURLFor holder (peers sv) in
          if url = [] then acc
          else let nonce = rnd n holder in
            if nProve N url i n nonce = Some (Challenge H nonce d)
            then (sv\<lparr>scores := Pass now holder (scores sv)\<rparr>, passes + 1, misses)
            else (sv\<lparr>scores := Miss holder (scores sv)\<rparr>, passes, misses + 1))"

definition audit_shard ::
    "(bytes \<Rightarrow> hash) \<Rightarrow> net \<Rightarrow> int \<Rightarrow> (int \<Rightarrow> bytes \<Rightarrow> hash) \<Rightarrow> hash \<Rightarrow> int \<Rightarrow> Server \<times> int \<times> int \<Rightarrow> Server \<times> int \<times> int" where
  "audit_shard H N now rnd i n acc =
     (let sv = fst acc; mem = MemberIDs (peers sv) in
      case GetShard (cstore (schain sv)) i n of
        None \<Rightarrow> acc
      | Some d \<Rightarrow> fold (audit_holder H N now rnd i n d) (Holders H mem i n (Replication (int (length mem)))) acc)"

definition AuditRound :: "ext \<Rightarrow> net \<Rightarrow> int \<Rightarrow> (int \<Rightarrow> bytes \<Rightarrow> hash) \<Rightarrow> Server \<Rightarrow> Server \<times> int \<times> int" where
  "AuditRound E N now rnd sv =
     (if \<not> hasGen (schain sv) then (sv, 0, 0)
      else let i = ID (eH E) (chead (schain sv)) in
        fold (audit_shard (eH E) N now rnd i) (HeldShards (cstore (schain sv)) i) (sv, 0, 0))"

section \<open>Handlers\<close>

datatype reply = OK | Accepted | BadRequest pool_error | Conflict chain_error | Forbidden | NotFound | Aborted

definition handle_hello :: "Peer \<Rightarrow> Server \<Rightarrow> Server \<times> Peer \<times> Peer list" where
  "handle_hello p sv =
     (let sv1 = sv\<lparr>peers := fst (AddPeer p (peers sv))\<rparr> in (sv1, selfPeer (peers sv1), Peers (peers sv1)))"

text \<open>\<open>POST /tx\<close>: pool, then gossip; the second component is where it is sent.\<close>

definition handle_tx :: "ext \<Rightarrow> int \<Rightarrow> Transaction \<Rightarrow> Server \<Rightarrow> Server \<times> bytes list \<times> reply" where
  "handle_tx E now t sv =
     (case Submit (eH E) (eV E) (cstate (schain sv)) t (spool sv) of
        Err e \<Rightarrow> (sv, [], BadRequest e)
      | Panic \<Rightarrow> (sv, [], Aborted)
      | Ok p \<Rightarrow> (case Broadcast now (sv\<lparr>spool := p\<rparr>) of (sv1, out) \<Rightarrow> (sv1, out, OK)))"

definition handle_gossip_tx :: "ext \<Rightarrow> Transaction \<Rightarrow> Server \<Rightarrow> Server \<times> reply" where
  "handle_gossip_tx E t sv =
     (case Submit (eH E) (eV E) (cstate (schain sv)) t (spool sv) of
        Ok p \<Rightarrow> (sv\<lparr>spool := p\<rparr>, Accepted)
      | _ \<Rightarrow> (sv, Accepted))"

text \<open>\<open>POST /gossip/block\<close>; a panic ends the request only.\<close>

definition handle_gossip_block :: "ext \<Rightarrow> 64 word \<Rightarrow> int \<Rightarrow> bytes \<Rightarrow> Block \<Rightarrow> Server \<Rightarrow> (Server \<times> reply) option" where
  "handle_gossip_block E unix now ip blk sv =
     (case (if reorg sv then AcceptBlock E blk (live sv) else ApplyExternalBlock E unix blk (live sv)) of
        None \<Rightarrow> None
      | Some (c, Panic) \<Rightarrow> Some (sv\<lparr>schain := c\<rparr>, Aborted)
      | Some (c, Err e) \<Rightarrow>
          (let sv1 = sv\<lparr>schain := c\<rparr> in
           if IsForgery e then
             (case strike now ip sv1 of (sv2, b) \<Rightarrow> Some (sv2, if b then Forbidden else Conflict e))
           else Some (sv1, Conflict e))
      | Some (c, Ok _) \<Rightarrow> Some (sv\<lparr>schain := c, spool := RemoveTxs (eH E) (Txs blk) (spool sv)\<rparr>, Accepted))"

text \<open>The gate before every handler.\<close>

definition banGate :: "int \<Rightarrow> bytes \<Rightarrow> (Server \<Rightarrow> (Server \<times> reply) option) \<Rightarrow> Server \<Rightarrow> (Server \<times> reply) option" where
  "banGate now ip handler sv = (case banned now ip sv of (sv1, True) \<Rightarrow> Some (sv1, Forbidden) | (sv1, False) \<Rightarrow> handler sv1)"

text \<open>
  The reading handlers.  \<open>serve_headers\<close> is the loop of \<open>GET /headers\<close>; it stops at the first height it has no header
  for.
\<close>

definition serve_head :: "Server \<Rightarrow> Header option" where
  "serve_head sv = (case Head (schain sv) of (h, ok) \<Rightarrow> if ok then Some h else None)"

definition serve_account :: "address \<Rightarrow> Server \<Rightarrow> u64 \<times> u64" where
  "serve_account a sv = (let ac = Get (cstate (schain sv)) a in (Balance ac, AcctNonce ac))"

definition serve_supply :: "Server \<Rightarrow> u64 \<times> u64" where
  "serve_supply sv =
     (let st = cstate (schain sv) in (Supply st, NextReward st (ChainHeight (schain sv) + 1)))"

definition serve_validators :: "Server \<Rightarrow> (address \<times> ValidatorRec option) list" where
  "serve_validators sv = (let st = cstate (schain sv) in map (\<lambda>a. (a, ValidatorInfo st a)) (ActiveValidators st))"

definition serve_peers :: "Server \<Rightarrow> Peer \<times> Peer list \<times> int" where
  "serve_peers sv = (selfPeer (peers sv), Peers (peers sv), Count (peers sv))"

definition serve_block :: "u64 \<Rightarrow> Server \<Rightarrow> (Header \<times> ShardSet) option" where
  "serve_block h sv = GetHeader (cstore (schain sv)) h"

partial_function (option) serve_headers :: "u64 \<Rightarrow> u64 \<Rightarrow> Server \<Rightarrow> (Header \<times> ShardSet) list option" where
  "serve_headers h to sv =
     (if h \<le> to then
        (case GetHeader (cstore (schain sv)) h of
           None \<Rightarrow> Some []
         | Some r \<Rightarrow> Option.bind (serve_headers (h + 1) to sv) (\<lambda>rs. Some (r # rs)))
      else Some [])"

text \<open>The snapshot is the ledger itself: of what it holds beyond the fields of the JSON answer, \<open>ReplaceWith\<close> copies nothing.\<close>

definition serve_snapshot :: "Server \<Rightarrow> State" where
  "serve_snapshot sv = cstate (schain sv)"

definition serve_call :: "ext \<Rightarrow> address \<Rightarrow> bytes \<Rightarrow> bytes \<Rightarrow> u64 \<Rightarrow> Server \<Rightarrow> (u64 \<times> bytes \<times> bool) option" where
  "serve_call E to data caller gas sv =
     QueryContractRaw (eH E) (cstate (schain sv)) to (if caller \<noteq> [] then AddrDigest (eH E) caller else 0) data gas"

definition serve_reconstruct :: "ext \<Rightarrow> net \<Rightarrow> int \<Rightarrow> u64 \<Rightarrow> Server \<Rightarrow> Server \<times> (chain_error, Transaction list) result" where
  "serve_reconstruct E N now h sv =
     (case GetHeader (cstore (schain sv)) h of
        None \<Rightarrow> (sv, Err EStore)
      | Some (hdr, ss) \<Rightarrow>
          (case reconstruct_net E N now (ID (eH E) hdr) ss sv of (sv1, r) \<Rightarrow> (sv1, rbind r decode_body)))"

definition serve_verify :: "ext \<Rightarrow> net \<Rightarrow> int \<Rightarrow> u64 \<Rightarrow> Server \<Rightarrow> Server \<times> (chain_error, bool) result" where
  "serve_verify E N now h sv =
     (case GetHeader (cstore (schain sv)) h of
        None \<Rightarrow> (sv, Err EStore)
      | Some (hdr, ss) \<Rightarrow>
          (case reconstruct_net E N now (ID (eH E) hdr) ss sv of (sv1, r) \<Rightarrow>
             (sv1,
              case r of
                Panic \<Rightarrow> Panic
              | Err e \<Rightarrow> Ok False
              | Ok body \<Rightarrow>
                  if BodyHashOf (eH E) body \<noteq> BodyHash hdr then Ok False
                  else (case DecodeTxs body of
                          Panic \<Rightarrow> Panic
                        | Err e \<Rightarrow> Ok False
                        | Ok txs \<Rightarrow> Ok (MerkleRootOf (eH E) txs = MerkleRoot hdr)))))"

definition serve_logs :: "ext \<Rightarrow> net \<Rightarrow> int \<Rightarrow> u64 \<Rightarrow> Server \<Rightarrow> Server \<times> (chain_error, Log list) result" where
  "serve_logs E N now h sv =
     (case (GetLogsSet (cstore (schain sv)) h, GetHeader (cstore (schain sv)) h) of
        (Some ss, Some (hdr, _)) \<Rightarrow>
          (case reconstruct_net E N now (logsID (eH E) (ID (eH E) hdr)) ss sv of (sv1, r) \<Rightarrow>
             (sv1,
              case r of
                Panic \<Rightarrow> Panic
              | Err e \<Rightarrow> Ok []
              | Ok raw \<Rightarrow>
                  (case DecodeLogs raw of
                     Panic \<Rightarrow> Panic
                   | Err e \<Rightarrow> Ok []
                   | Ok ls \<Rightarrow> if LogsRootOf (eH E) ls \<noteq> LogsRoot hdr then Ok [] else Ok ls)))
      | _ \<Rightarrow> (sv, Ok []))"

text \<open>The shard channel: a shard, and the answer to a challenge.\<close>

definition serve_shard :: "hash \<Rightarrow> int \<Rightarrow> Server \<Rightarrow> bytes option" where
  "serve_shard i n sv = GetShard (cstore (schain sv)) i n"

definition serve_proof :: "(bytes \<Rightarrow> hash) \<Rightarrow> hash \<Rightarrow> int \<Rightarrow> hash \<Rightarrow> Server \<Rightarrow> hash option" where
  "serve_proof H i n nonce sv = map_option (Challenge H nonce) (GetShard (cstore (schain sv)) i n)"

definition serve_have :: "hash \<Rightarrow> Server \<Rightarrow> int list" where
  "serve_have i sv = HeldShards (cstore (schain sv)) i"


section \<open>The peer table\<close>

text \<open>Keys are the ids of their peers, and neither empty nor the node's own.\<close>

definition table_ok :: "Peerstore \<Rightarrow> bool" where
  "table_ok ps \<longleftrightarrow> distinct (map fst (table ps)) \<and>
     (\<forall>(k, p)\<in>set (table ps). k = PeerID p \<and> k \<noteq> [] \<and> k \<noteq> PeerID (selfPeer ps) \<and> Control p \<noteq> [])"

lemma table_ok_New [simp]: "table_ok (NewPeerstore p)"
  by (simp add: table_ok_def NewPeerstore_def)

lemma set_update_subset: "set (AList.update k v al) \<subseteq> insert (k, v) (set al)"
  by (induction al) (auto split: if_splits)

lemma AddPeer_ok: assumes "table_ok ps" shows "table_ok (fst (AddPeer p ps))" "selfPeer (fst (AddPeer p ps)) = selfPeer ps"
proof -
  have "(k, q) \<in> set (table ps) \<or> (k, q) = (PeerID p, p)" if "(k, q) \<in> set (AList.update (PeerID p) p (table ps))" for k q
    using set_update_subset that by fastforce
  then show "table_ok (fst (AddPeer p ps))"
    using assms by (fastforce simp: AddPeer_def table_ok_def distinct_update)
  show "selfPeer (fst (AddPeer p ps)) = selfPeer ps" by (simp add: AddPeer_def)
qed

lemma banned_frame [simp]: "peers (fst (banned now k sv)) = peers sv" "schain (fst (banned now k sv)) = schain sv"
  "spool (fst (banned now k sv)) = spool sv" "scores (fst (banned now k sv)) = scores sv"
  by (simp_all add: banned_def split: prod.split)

lemma strike_frame [simp]: "peers (fst (strike now k sv)) = peers sv" "schain (fst (strike now k sv)) = schain sv"
  "spool (fst (strike now k sv)) = spool sv" "scores (fst (strike now k sv)) = scores sv"
  by (simp_all add: strike_def split: prod.split)

lemma unbanned_frame: "peers (fst (unbanned now ps sv)) = peers sv"
  by (induction now ps sv rule: unbanned.induct) (auto split: prod.split, metis banned_frame(1) fst_conv)

text \<open>The table stays well formed and only learns.\<close>

definition grown :: "Peerstore \<Rightarrow> Peerstore \<Rightarrow> bool" where
  "grown ps qs \<longleftrightarrow> table_ok qs \<and> selfPeer qs = selfPeer ps \<and> set (MemberIDs ps) \<subseteq> set (MemberIDs qs)"

lemma set_MemberIDs: "set (MemberIDs ps) = insert (PeerID (selfPeer ps)) (fst ` set (table ps))"
  by (simp add: MemberIDs_def del: sort_by_simps)

lemma grown_refl: "table_ok ps \<Longrightarrow> grown ps ps"
  by (simp add: grown_def)

lemma grown_trans: "grown a b \<Longrightarrow> grown b c \<Longrightarrow> grown a c"
  by (auto simp: grown_def)

lemma grown_ok: "grown a b \<Longrightarrow> table_ok b"
  by (simp add: grown_def)

lemma grown_AddPeer: "table_ok ps \<Longrightarrow> grown ps (fst (AddPeer p ps))"
proof -
  assume t: "table_ok ps"
  have "fst ` set (table ps) \<subseteq> fst ` set (AList.update (PeerID p) p (table ps))"
    by (auto simp: dom_update dom_map_of_conv_image_fst [symmetric])
  then have "fst ` set (table ps) \<subseteq> fst ` set (table (fst (AddPeer p ps)))" by (simp add: AddPeer_def)
  with AddPeer_ok [OF t, of p] show ?thesis by (auto simp: grown_def set_MemberIDs)
qed

lemma grown_Merge: "table_ok ps \<Longrightarrow> grown ps (fst (Merge qs ps))"
proof (induction qs arbitrary: ps)
  case (Cons p qs)
  obtain ps1 w where a: "AddPeer p ps = (ps1, w)" by fastforce
  then have g: "grown ps ps1" using grown_AddPeer [OF Cons.prems, of p] by simp
  have "fst (Merge (p # qs) ps) = fst (Merge qs ps1)" by (simp add: a split: prod.split)
  with grown_trans [OF g Cons.IH [OF grown_ok [OF g]]] show ?case by simp
qed (simp add: grown_refl)

lemma grown_sayHello: "table_ok (peers sv) \<Longrightarrow> grown (peers sv) (peers (fst (sayHello N u sv)))"
proof -
  assume t: "table_ok (peers sv)"
  show ?thesis
  proof (cases "nHello N u (selfPeer (peers sv))")
    case (Some r)
    obtain who others where r: "r = (who, others)" by fastforce
    note g = grown_AddPeer [OF t, of who]
    have "peers (fst (sayHello N u sv)) = fst (Merge others (fst (AddPeer who (peers sv))))"
      by (simp add: sayHello_def Some r split: prod.split)
    with grown_trans [OF g grown_Merge [OF grown_ok [OF g], of others]] show ?thesis by simp
  qed (use t in \<open>simp add: sayHello_def grown_refl\<close>)
qed

lemma sayHello_chain: "schain (fst (sayHello N u sv)) = schain sv"
  by (simp add: sayHello_def split: option.split prod.split)

lemma grown_hello_all: "table_ok (peers sv) \<Longrightarrow> grown (peers sv) (peers (fst (hello_all N us sv))) \<and> schain (fst (hello_all N us sv)) = schain sv"
proof (induction us arbitrary: sv)
  case (Cons u us)
  obtain sv1 r where s: "sayHello N u sv = (sv1, r)" by fastforce
  then have g: "grown (peers sv) (peers sv1)" "schain sv1 = schain sv"
    using grown_sayHello [OF Cons.prems, of N u] sayHello_chain [of N u sv] by simp_all
  have "fst (hello_all N (u # us) sv) = fst (hello_all N us sv1)" by (simp add: s split: prod.split)
  with Cons.IH [OF grown_ok [OF g(1)]] g grown_trans show ?case by metis
qed (simp add: grown_refl)

lemma unbanned_chain: "schain (fst (unbanned now ps sv)) = schain sv"
  by (induction now ps sv rule: unbanned.induct) (auto split: prod.split, metis banned_frame(2) fst_conv)

lemma grown_Discover:
  "table_ok (peers sv) \<Longrightarrow> grown (peers sv) (peers (fst (Discover N now order sv))) \<and> schain (fst (Discover N now order sv)) = schain sv"
proof -
  assume t: "table_ok (peers sv)"
  obtain sv1 urls where u: "unbanned now (Peers (peers sv)) sv = (sv1, urls)" by fastforce
  then have "peers sv1 = peers sv" "schain sv1 = schain sv"
    using unbanned_frame [of now "Peers (peers sv)" sv] unbanned_chain [of now "Peers (peers sv)" sv] by simp_all
  with grown_hello_all [of sv1 N] t show ?thesis by (simp add: Discover_def discover_targets_def u)
qed

lemma MemberIDs_distinct: "table_ok ps \<Longrightarrow> distinct (MemberIDs ps) \<and> length (MemberIDs ps) = nat (Count ps)"
  by (auto simp: MemberIDs_def table_ok_def Count_def simp del: sort_by_simps)

text \<open>Two tables that know the same peers give the same member list and the same peer list.\<close>

lemma table_mset:
  assumes "table_ok ps" "table_ok qs" "map_of (table ps) = map_of (table qs)"
  shows "mset (table ps) = mset (table qs)"
proof -
  have d: "distinct (map fst (table ps))" "distinct (map fst (table qs))" using assms(1,2) by (simp_all add: table_ok_def)
  then have "set (table ps) = set (table qs)" using assms(3) by (simp add: map_of_inject_set)
  moreover have "distinct (table ps)" "distinct (table qs)" using d by (simp_all add: distinct_map)
  ultimately show ?thesis by (simp add: set_eq_iff_mset_eq_distinct)
qed

lemma Holders_distinct: "distinct nodes \<Longrightarrow> distinct (Holders H nodes i n r)"
  using mset_ranking mset_eq_imp_distinct_iff [of "ranking H nodes i n" nodes] by (simp add: Holders_ranking)

end
