(* ===== verification/SL_Fetch.thy ===== *)
theory SL_Fetch
  imports SL_P2p
begin

text \<open>
  Fetching shards from holders that may lie: what a fetch returns, whom it strikes, and that a body is recovered
  over the network from the holders that can be relied on.
\<close>

section \<open>Strikes and bans of other peers\<close>

lemma banned_other: "k \<noteq> h \<Longrightarrow> snd (banned now k (fst (banned now h sv))) = snd (banned now k sv)"
  by (auto simp: banned_def Banned_def delete_conv' split: prod.split option.split)

lemma strike_other: "k \<noteq> h \<Longrightarrow> snd (banned now k (fst (strike now h sv))) = snd (banned now k sv)"
  by (auto simp: banned_def strike_def Banned_def Strike_def Let_def split: prod.split option.split)

lemma count_banned: "count_of (bans (fst (banned now h sv))) k \<le> max 0 (count_of (bans sv) k)"
  by (auto simp: banned_def Banned_def count_of_def delete_conv' split: prod.split option.split)

lemma count_strike: "k \<noteq> h \<Longrightarrow> count_of (bans (fst (strike now h sv))) k = count_of (bans sv) k"
  by (auto simp: strike_def Strike_def Let_def count_of_def split: prod.split option.split)

section \<open>Fetching is sound, fair and complete\<close>

text \<open>The three ways on from a holder.\<close>

lemma fetch_cases:
  obtains (hit) d where "\<not> snd (banned now h sv)" "shardURLFor h (peers sv) \<noteq> []" "nShard N (shardURLFor h (peers sv)) i n = Some d" "VerifyShard H ss n d"
      "fetch_holders H N now i n ss (h # hs) sv = (fst (banned now h sv), Some d)"
    | (struck) d where "nShard N (shardURLFor h (peers sv)) i n = Some d" "\<not> VerifyShard H ss n d"
      "fetch_holders H N now i n ss (h # hs) sv = fetch_holders H N now i n ss hs (fst (strike now h (fst (banned now h sv))))"
    | (skip) "snd (banned now h sv) \<or> shardURLFor h (peers sv) = [] \<or> nShard N (shardURLFor h (peers sv)) i n = None"
      "fetch_holders H N now i n ss (h # hs) sv = fetch_holders H N now i n ss hs (fst (banned now h sv))"
proof -
  obtain sv1 b where s1: "banned now h sv = (sv1, b)" by fastforce
  have p: "peers sv1 = peers sv" using banned_frame(1) [of now h sv] s1 by simp
  show thesis
  proof (cases "b \<or> shardURLFor h (peers sv) = [] \<or> nShard N (shardURLFor h (peers sv)) i n = None")
    case True
    then show thesis using skip s1 p by (cases b) (auto simp: Let_def)
  next
    case False
    then obtain d where "nShard N (shardURLFor h (peers sv)) i n = Some d" by blast
    with False s1 p show thesis using hit [of d] struck [of d] by (cases "VerifyShard H ss n d") (auto simp: Let_def)
  qed
qed

lemma fetch_frame: "peers (fst (fetch_holders H N now i n ss hs sv)) = peers sv \<and> schain (fst (fetch_holders H N now i n ss hs sv)) = schain sv"
proof (induction hs arbitrary: sv)
  case (Cons h hs)
  show ?case by (rule fetch_cases [of now h sv N i n H ss hs]) (use Cons in \<open>simp_all del: fetch_holders.simps\<close>)
qed simp

lemma fetch_sound: "snd (fetch_holders H N now i n ss hs sv) = Some d \<Longrightarrow> VerifyShard H ss n d"
proof (induction hs arbitrary: sv)
  case (Cons h hs)
  show ?case by (rule fetch_cases [of now h sv N i n H ss hs]) (use Cons in \<open>auto simp del: fetch_holders.simps\<close>)
qed simp

definition honest :: "(bytes \<Rightarrow> hash) \<Rightarrow> net \<Rightarrow> hash \<Rightarrow> int \<Rightarrow> ShardSet \<Rightarrow> Peerstore \<Rightarrow> bytes \<Rightarrow> bool" where
  "honest H N i n ss ps k \<longleftrightarrow> (\<forall>d. nShard N (shardURLFor k ps) i n = Some d \<longrightarrow> VerifyShard H ss n d)"

lemma fetch_fair:
  "honest H N i n ss (peers sv) k \<Longrightarrow> count_of (bans (fst (fetch_holders H N now i n ss hs sv))) k \<le> max 0 (count_of (bans sv) k)"
proof (induction hs arbitrary: sv)
  case (Cons h hs)
  let ?sv1 = "fst (banned now h sv)"
  have c1: "count_of (bans ?sv1) k \<le> max 0 (count_of (bans sv) k)" by (rule count_banned)
  show ?case
  proof (rule fetch_cases [of now h sv N i n H ss hs])
    fix d assume d: "nShard N (shardURLFor h (peers sv)) i n = Some d" "\<not> VerifyShard H ss n d"
      and e: "fetch_holders H N now i n ss (h # hs) sv = fetch_holders H N now i n ss hs (fst (strike now h ?sv1))"
    have "k \<noteq> h" using Cons.prems d by (auto simp: honest_def)
    then have "count_of (bans (fst (strike now h ?sv1))) k = count_of (bans ?sv1) k" by (rule count_strike)
    then show ?thesis using Cons.IH [of "fst (strike now h ?sv1)"] Cons.prems c1 unfolding e by simp
  next
    assume e: "fetch_holders H N now i n ss (h # hs) sv = fetch_holders H N now i n ss hs ?sv1"
    show ?thesis using Cons.IH [of ?sv1] Cons.prems c1 unfolding e by simp
  qed (use c1 in \<open>simp del: fetch_holders.simps\<close>)
qed simp

lemma fetch_complete:
  assumes "shardURLFor h ps \<noteq> []" "nShard N (shardURLFor h ps) i n = Some d" "VerifyShard H ss n d"
  shows "distinct hs \<Longrightarrow> h \<in> set hs \<Longrightarrow> \<not> snd (banned now h sv) \<Longrightarrow> peers sv = ps \<Longrightarrow> snd (fetch_holders H N now i n ss hs sv) \<noteq> None"
proof (induction hs arbitrary: sv)
  case (Cons k hs)
  let ?sv1 = "fst (banned now k sv)"
  have next_step: "snd (fetch_holders H N now i n ss hs sv') \<noteq> None" if "sv' = ?sv1 \<or> sv' = fst (strike now k ?sv1)" "k \<noteq> h" for sv'
  proof (rule Cons.IH)
    show "\<not> snd (banned now h sv')" using that Cons.prems(3) banned_other [of h k now sv] strike_other [of h k now ?sv1] by auto
  qed (use that Cons.prems in auto)
  show ?case
  proof (rule fetch_cases [of now k sv N i n H ss hs])
    fix x assume x: "nShard N (shardURLFor k (peers sv)) i n = Some x" "\<not> VerifyShard H ss n x"
      and e: "fetch_holders H N now i n ss (k # hs) sv = fetch_holders H N now i n ss hs (fst (strike now k ?sv1))"
    have "k \<noteq> h" using x assms Cons.prems(4) by auto
    then show ?thesis unfolding e by (intro next_step) simp_all
  next
    assume x: "snd (banned now k sv) \<or> shardURLFor k (peers sv) = [] \<or> nShard N (shardURLFor k (peers sv)) i n = None"
      and e: "fetch_holders H N now i n ss (k # hs) sv = fetch_holders H N now i n ss hs ?sv1"
    have "k \<noteq> h" using x assms Cons.prems(3,4) by auto
    then show ?thesis unfolding e by (intro next_step) simp_all
  qed (simp del: fetch_holders.simps)
qed simp

text \<open>
  A peer that serves no bad shard of a block is not banned while the block is fetched.
\<close>

definition steady :: "(bytes \<Rightarrow> hash) \<Rightarrow> net \<Rightarrow> hash \<Rightarrow> ShardSet \<Rightarrow> Peerstore \<Rightarrow> bytes \<Rightarrow> bool" where
  "steady H N i ss ps k \<longleftrightarrow> (\<forall>n. honest H N i n ss ps k)"

lemma banned_again: "snd (banned now k (fst (banned now h sv))) \<longrightarrow> snd (banned now k sv)"
  by (auto simp: banned_def Banned_def delete_conv' split: prod.split option.split if_splits)

lemma fetch_keeps_unbanned:
  "honest H N i n ss (peers sv) k \<Longrightarrow> \<not> snd (banned now k sv) \<Longrightarrow> \<not> snd (banned now k (fst (fetch_holders H N now i n ss hs sv)))"
proof (induction hs arbitrary: sv)
  case (Cons h hs)
  let ?sv1 = "fst (banned now h sv)"
  have u: "\<not> snd (banned now k ?sv1)" using Cons.prems(2) banned_again [of now k h sv] by blast
  show ?case
  proof (rule fetch_cases [of now h sv N i n H ss hs])
    fix d assume d: "nShard N (shardURLFor h (peers sv)) i n = Some d" "\<not> VerifyShard H ss n d"
      and e: "fetch_holders H N now i n ss (h # hs) sv = fetch_holders H N now i n ss hs (fst (strike now h ?sv1))"
    have "k \<noteq> h" using Cons.prems(1) d by (auto simp: honest_def)
    then have "\<not> snd (banned now k (fst (strike now h ?sv1)))" using u by (simp add: strike_other)
    then show ?thesis using Cons.IH [of "fst (strike now h ?sv1)"] Cons.prems(1) unfolding e by simp
  next
    assume e: "fetch_holders H N now i n ss (h # hs) sv = fetch_holders H N now i n ss hs ?sv1"
    show ?thesis using Cons.IH [of ?sv1] Cons.prems(1) u unfolding e by simp
  qed (use u in \<open>simp del: fetch_holders.simps\<close>)
qed simp

text \<open>
  Fetching a shard is sound, fair and complete: what it returns verifies against the committed hash; a peer whose address
  never serves bytes that fail the check gets no strike from it; and when some holder is not banned, has a known
  shard address and serves the shard, a shard is returned.  The chain and the peer table are not changed.
\<close>

theorem FetchShard_spec:
  assumes "table_ok (peers sv)" "FetchShard H N now i n ss sv = (sv', r)"
  shows "(\<forall>d. r = Some d \<longrightarrow> VerifyShard H ss n d) \<and>
    (\<forall>k. honest H N i n ss (peers sv) k \<longrightarrow> count_of (bans sv') k \<le> max 0 (count_of (bans sv) k)) \<and>
    (\<forall>h\<in>set (Holders H (MemberIDs (peers sv)) i n (Replication (Count (peers sv)))). \<forall>d.
       \<not> snd (banned now h sv) \<and> shardURLFor h (peers sv) \<noteq> [] \<and> nShard N (shardURLFor h (peers sv)) i n = Some d \<and> VerifyShard H ss n d \<longrightarrow>
       r \<noteq> None) \<and>
    peers sv' = peers sv \<and> schain sv' = schain sv"
proof -
  let ?hs = "Holders H (MemberIDs (peers sv)) i n (Replication (Count (peers sv)))"
  have l: "int (length (MemberIDs (peers sv))) = Count (peers sv)" using MemberIDs_distinct [OF assms(1)] by (simp add: Count_def)
  have f: "fetch_holders H N now i n ss ?hs sv = (sv', r)" using assms(2) l by (simp add: FetchShard_def Let_def)
  have d: "distinct ?hs" using MemberIDs_distinct [OF assms(1)] by (simp add: Holders_distinct)
  show ?thesis
    using fetch_sound [of H N now i n ss ?hs sv] fetch_fair [of H N i n ss sv _ now ?hs] fetch_frame [of H N now i n ss ?hs sv]
      fetch_complete [OF _ _ _ d, of _ "peers sv" N i n _ H ss now sv] unfolding f by auto
qed

section \<open>Recovering a body over the network\<close>

text \<open>What fetching for a block may do to the server.\<close>

definition calm :: "(bytes \<Rightarrow> hash) \<Rightarrow> net \<Rightarrow> int \<Rightarrow> hash \<Rightarrow> ShardSet \<Rightarrow> Server \<Rightarrow> Server \<Rightarrow> bool" where
  "calm H N now i ss sv sv' \<longleftrightarrow> peers sv' = peers sv \<and> schain sv' = schain sv \<and>
     (\<forall>k. steady H N i ss (peers sv) k \<longrightarrow>
        count_of (bans sv') k \<le> max 0 (count_of (bans sv) k) \<and> (\<not> snd (banned now k sv) \<longrightarrow> \<not> snd (banned now k sv')))"

lemma calm_refl [simp]: "calm H N now i ss sv sv"
  by (simp add: calm_def)

lemma calm_trans: "calm H N now i ss a b \<Longrightarrow> calm H N now i ss b c \<Longrightarrow> calm H N now i ss a c"
  unfolding calm_def by (smt (verit) max_def)

lemma FetchShard_calm: "calm H N now i ss sv (fst (FetchShard H N now i n ss sv))"
  unfolding calm_def FetchShard_def Let_def
  using fetch_frame fetch_fair fetch_keeps_unbanned by (simp add: steady_def)

lemma net_step_calm: "calm (eH E) N now i ss (fst acc) (fst (net_fetch_step E N now i ss n acc))"
  using FetchShard_calm [of "eH E" N now i ss "fst acc" "int n"]
  by (auto simp: net_fetch_step_def split: prod.splits option.splits)

lemma net_fold_calm: "calm (eH E) N now i ss (fst acc) (fst (fold (net_fetch_step E N now i ss) ns acc))"
proof (induction ns arbitrary: acc)
  case (Cons n ns)
  show ?case using calm_trans [OF net_step_calm Cons [of "net_fetch_step E N now i ss n acc"]] by simp
qed simp

text \<open>
  The threaded loop gives what the loop of the chain gives for a source that answers as the server would at the
  moment it is asked; every shard is asked for at most once.
\<close>

definition asked :: "ext \<Rightarrow> net \<Rightarrow> int \<Rightarrow> (nat \<Rightarrow> Server) \<Rightarrow> hash \<Rightarrow> int \<Rightarrow> ShardSet \<Rightarrow> bytes option" where
  "asked E N now svs i n ss = snd (FetchShard (eH E) N now i n ss (svs (nat n)))"

lemma net_fold_pure:
  "distinct ns \<Longrightarrow> \<exists>svs. (\<forall>n. calm (eH E) N now i ss sv (svs n)) \<and>
     snd (fold (net_fetch_step E N now i ss) ns (sv, acc)) = fold (fetch_step E (asked E N now svs) i ss) ns acc"
proof (induction ns arbitrary: sv acc)
  case (Cons n ns)
  obtain sv1 acc1 where s: "net_fetch_step E N now i ss n (sv, acc) = (sv1, acc1)"
    by (cases "net_fetch_step E N now i ss n (sv, acc)")
  from Cons.IH [of sv1 acc1] Cons.prems obtain svs where svs: "\<forall>n. calm (eH E) N now i ss sv1 (svs n)"
    "snd (fold (net_fetch_step E N now i ss) ns (sv1, acc1)) = fold (fetch_step E (asked E N now svs) i ss) ns acc1" by auto
  have c: "calm (eH E) N now i ss sv sv1" using net_step_calm [of E N now i ss "(sv, acc)" n] s by simp
  let ?svs = "svs(n := sv)"
  have "fold (fetch_step E (asked E N now svs) i ss) ns acc1 = fold (fetch_step E (asked E N now ?svs) i ss) ns acc1"
    by (rule fold_cong) (use Cons.prems in \<open>auto simp: fetch_step_def asked_def fun_eq_iff\<close>)
  moreover have "fetch_step E (asked E N now ?svs) i ss n acc = acc1"
    using s by (auto simp: fetch_step_def net_fetch_step_def asked_def split: prod.splits option.splits if_splits)
  ultimately have "snd (fold (net_fetch_step E N now i ss) (n # ns) (sv, acc)) = fold (fetch_step E (asked E N now ?svs) i ss) (n # ns) acc"
    using svs(2) s by simp
  moreover have "\<forall>m. calm (eH E) N now i ss sv (?svs m)" using svs(1) c by (auto intro: calm_trans)
  ultimately show ?case by blast
next
  case Nil
  show ?case by (rule exI [of _ "\<lambda>_. sv"]) simp
qed

lemma reconstruct_pure:
  "\<exists>svs. (\<forall>n. calm (eH E) N now i ss sv (svs n)) \<and> calm (eH E) N now i ss sv (fst (reconstruct_net E N now i ss sv)) \<and>
     snd (reconstruct_net E N now i ss sv) = reconstructShards E ((schain sv)\<lparr>source := Some (asked E N now svs)\<rparr>) i ss"
proof -
  let ?files = "cstore (schain sv)" and ?total = "nat (Total (SetSpec ss))"
  let ?acc = "fold (local_step E ?files i ss) (HeldShards ?files i) (replicate ?total None, 0)"
  obtain svs where svs: "\<forall>n. calm (eH E) N now i ss sv (svs n)"
    "snd (fold (net_fetch_step E N now i ss) [0..<?total] (sv, ?acc)) = fold (fetch_step E (asked E N now svs) i ss) [0..<?total] ?acc"
    using net_fold_pure [of "[0..<?total]" E N now i ss sv ?acc] by auto
  have "calm (eH E) N now i ss sv (fst (reconstruct_net E N now i ss sv))"
    using net_fold_calm [of E N now i ss "(sv, ?acc)" "[0..<?total]"] by (simp add: reconstruct_net_def Let_def)
  moreover have "snd (reconstruct_net E N now i ss sv) = reconstructShards E ((schain sv)\<lparr>source := Some (asked E N now svs)\<rparr>) i ss"
    using svs(2) by (simp add: reconstruct_net_def reconstructShards_def Let_def)
  ultimately show ?thesis using svs(1) by blast
qed

text \<open>Shards some holder can be relied on for: it is not banned, its address is known, and it serves no bad shard of the block.\<close>

definition reachable :: "(bytes \<Rightarrow> hash) \<Rightarrow> net \<Rightarrow> int \<Rightarrow> hash \<Rightarrow> ShardSet \<Rightarrow> bytes list \<Rightarrow> Server \<Rightarrow> nat \<Rightarrow> bool" where
  "reachable H N now i ss shards sv n \<longleftrightarrow> n < length shards \<and>
     (\<exists>h\<in>set (Holders H (MemberIDs (peers sv)) i (int n) (Replication (Count (peers sv)))).
        \<not> snd (banned now h sv) \<and> shardURLFor h (peers sv) \<noteq> [] \<and> steady H N i ss (peers sv) h \<and>
        nShard N (shardURLFor h (peers sv)) i (int n) = Some (shards ! n))"

definition committed :: "(bytes \<Rightarrow> hash) \<Rightarrow> net \<Rightarrow> hash \<Rightarrow> ShardSet \<Rightarrow> bytes list \<Rightarrow> Server \<Rightarrow> bool" where
  "committed H N i ss shards sv \<longleftrightarrow>
     (\<forall>n<length shards. \<forall>x. VerifyShard H ss (int n) x \<longrightarrow>
        GetShard (cstore (schain sv)) i (int n) = Some x \<or> (\<exists>url. nShard N url i (int n) = Some x) \<longrightarrow> x = shards ! n)"

lemma fetched_from: "snd (fetch_holders H N now i n ss hs sv) = Some d \<Longrightarrow> \<exists>url. nShard N url i n = Some d"
proof (induction hs arbitrary: sv)
  case (Cons h hs)
  show ?case by (rule fetch_cases [of now h sv N i n H ss hs]) (use Cons in \<open>auto simp del: fetch_holders.simps\<close>)
qed simp

lemma asked_reachable:
  assumes "table_ok (peers sv)" "reachable (eH E) N now i ss shards sv n" "committed (eH E) N i ss shards sv"
    and "VerifyShard (eH E) ss (int n) (shards ! n)" "\<forall>n. calm (eH E) N now i ss sv (svs n)"
  shows "asked E N now svs i (int n) ss = Some (shards ! n)"
proof -
  from assms(5) have c: "calm (eH E) N now i ss sv (svs n)" by blast
  then have p: "peers (svs n) = peers sv" by (simp add: calm_def)
  let ?hs = "Holders (eH E) (MemberIDs (peers sv)) i (int n) (Replication (Count (peers sv)))"
  from assms(2) obtain h where h: "h \<in> set ?hs" "\<not> snd (banned now h sv)" "shardURLFor h (peers sv) \<noteq> []" "steady (eH E) N i ss (peers sv) h"
    "nShard N (shardURLFor h (peers sv)) i (int n) = Some (shards ! n)" and n: "n < length shards" by (auto simp: reachable_def)
  have u: "\<not> snd (banned now h (svs n))" using c h(2,4) by (simp add: calm_def)
  have d: "distinct ?hs" using MemberIDs_distinct [OF assms(1)] by (simp add: Holders_distinct)
  have l: "int (length (MemberIDs (peers sv))) = Count (peers sv)" using MemberIDs_distinct [OF assms(1)] by (simp add: Count_def)
  then have e: "asked E N now svs i (int n) ss = snd (fetch_holders (eH E) N now i (int n) ss ?hs (svs n))"
    by (simp add: asked_def FetchShard_def Let_def p)
  then obtain d where f: "asked E N now svs i (int n) ss = Some d"
    using fetch_complete [OF h(3,5) assms(4) d h(1) u p] by auto
  have "VerifyShard (eH E) ss (int n) d" "\<exists>url. nShard N url i (int n) = Some d"
    using e f fetch_sound fetched_from by (metis)+
  then have "d = shards ! n" using assms(3) n unfolding committed_def by blast
  with f show ?thesis by simp
qed

text \<open>
  C6. Bodies are recovered over the network: when \<open>K\<close> distinct shards of a block are held locally or served by holders that are known, not
  banned and serve no bad shard of it, \<open>GET /reconstruct\<close> returns the transactions and \<open>GET /verify\<close> says the block is available, whatever the
  other holders answer; and no holder that serves only good shards gets a strike.
\<close>

theorem network_recovers:
  assumes "table_ok (peers sv)" "GetHeader (cstore (schain sv)) h = Some (Hdr b, ss)"
    and "BuildShardSet (eH E) (eRS E) (ID (eH E) (Hdr b)) (Body b) (Spec (Hdr b)) = Ok (shards, ss)"
    and "rs_code E (unat (K (Spec (Hdr b)))) (unat (M (Spec (Hdr b)))) (padded_payload (unat (K (Spec (Hdr b)))) (Body b))"
    and "length (Body b) < 2 ^ 32" "list_all tx_fits (Txs b)" "length (Txs b) < 2 ^ 32"
    and "BodyHash (Hdr b) = BodyHashOf (eH E) (Body b)" "MerkleRoot (Hdr b) = MerkleRootOf (eH E) (Txs b)"
    and "gomap (shardfiles (cstore (schain sv)))" "committed (eH E) N (ID (eH E) (Hdr b)) ss shards sv"
    and "unat (K (Spec (Hdr b))) \<le> card {n. held (schain sv) (ID (eH E) (Hdr b)) shards n \<or> reachable (eH E) N now (ID (eH E) (Hdr b)) ss shards sv n}"
  shows "snd (serve_reconstruct E N now h sv) = Ok (Txs b) \<and> snd (serve_verify E N now h sv) = Ok True \<and>
    (\<forall>k. steady (eH E) N (ID (eH E) (Hdr b)) ss (peers sv) k \<longrightarrow>
       count_of (bans (fst (serve_reconstruct E N now h sv))) k \<le> max 0 (count_of (bans sv) k))"
proof -
  let ?i = "ID (eH E) (Hdr b)"
  obtain svs where svs: "\<forall>n. calm (eH E) N now ?i ss sv (svs n)" "calm (eH E) N now ?i ss sv (fst (reconstruct_net E N now ?i ss sv))"
    "snd (reconstruct_net E N now ?i ss sv) = reconstructShards E ((schain sv)\<lparr>source := Some (asked E N now svs)\<rparr>) ?i ss"
    using reconstruct_pure by blast
  let ?c = "(schain sv)\<lparr>source := Some (asked E N now svs)\<rparr>"
  have own: "VerifyShard (eH E) ss (int n) (shards ! n)" if "n < length shards" for n using VerifyShard_own [OF assms(3) that] .
  have from_net: "\<exists>url. nShard N url ?i (int n) = Some x" if "asked E N now svs ?i (int n) ss = Some x" for n x
    using that fetched_from by (auto simp: asked_def FetchShard_def Let_def)
  have nf: "no_forged E ?c ?i ss shards"
    using assms(11) from_net by (auto simp: no_forged_def committed_def)
  have "held ?c ?i shards n \<or> served ?c ?i ss shards n" if "held (schain sv) ?i shards n \<or> reachable (eH E) N now ?i ss shards sv n" for n
    using that asked_reachable [OF assms(1) _ assms(11) own svs(1)] by (auto simp: held_def served_def reachable_def)
  then have "card {n. held (schain sv) ?i shards n \<or> reachable (eH E) N now ?i ss shards sv n} \<le> card {n. held ?c ?i shards n \<or> served ?c ?i ss shards n}"
    by (intro card_mono) (auto intro: finite_subset [of _ "{..<length shards}"] simp: held_def served_def)
  with assms(12) have k: "unat (K (Spec (Hdr b))) \<le> card {n. held ?c ?i shards n \<or> served ?c ?i ss shards n}" by simp
  have r: "ReconstructBody E ?c h = Ok (Txs b) \<and> VerifyAvailable E ?c h = Ok True"
    by (rule body_recoverable [OF _ assms(3-9) _ nf k]) (use assms(2,10) in simp_all)
  have "snd (serve_reconstruct E N now h sv) = ReconstructBody E ?c h" "snd (serve_verify E N now h sv) = VerifyAvailable E ?c h"
    using svs(3) assms(2) by (cases "reconstruct_net E N now ?i ss sv";
      simp add: serve_reconstruct_def serve_verify_def ReconstructBody_def VerifyAvailable_def)+
  moreover have "fst (serve_reconstruct E N now h sv) = fst (reconstruct_net E N now ?i ss sv)"
    using assms(2) by (simp add: serve_reconstruct_def split: prod.split)
  ultimately show ?thesis using r svs(2) by (simp add: calm_def)
qed

text \<open>Witness: a node that kept one of three shards fetches the second one it needs from its only peer.\<close>

definition peer1 :: Peer where
  "peer1 = \<lparr>PeerID = [114], Control = [99], ShardURL = [115]\<rparr>"

definition self1 :: Peer where
  "self1 = \<lparr>PeerID = [113], Control = [100], ShardURL = [116]\<rparr>"

definition poor_node :: "bytes list \<Rightarrow> ShardSet \<Rightarrow> Server" where
  "poor_node shards ss =
     NewServer (fst (AddPeer peer1 (NewPeerstore self1))) []
       (node0\<lparr>cstore := OpenStore\<lparr>hdrs := [(0, (Hdr empty_block, ss))],
          shardfiles := [((ID toyH (Hdr empty_block), 0), shards ! 0)]\<rparr>\<rparr>) (NewPool 10) True"

definition one_server :: "bytes list \<Rightarrow> net" where
  "one_server shards =
     \<lparr>nHead = \<lambda>_. None, nHeaders = \<lambda>_ _. None, nSnapshot = \<lambda>_. None, nHello = \<lambda>_ _. None,
      nShard = \<lambda>url i n. if url = [115] \<and> n = 2 then Some (shards ! 2) else None, nProve = \<lambda>_ _ _ _. None, nSeeds = []\<rparr>"

theorem network_recovers_witness:
  "\<exists>shards ss. snd (serve_reconstruct toyE (one_server shards) 0 0 (poor_node shards ss)) = Ok []"
proof -
  let ?i = "ID toyH (Hdr empty_block)" and ?spec = "\<lparr>K = 2, M = 1\<rparr>"
  have spec: "Spec (Hdr empty_block) = ?spec" and txs: "Txs empty_block = []" by (simp_all add: empty_block_def)
  have body: "Body empty_block = [0, 0, 0, 0]" unfolding Body_def txs by code_simp
  have pl: "padded_payload 2 [0, 0, 0, 0] = [0, 0, 0, 4, 0, 0, 0, 0]" by code_simp
  let ?s = "[[0, 0, 0, 4], [0, 0, 0, 0], [0, 0, 0, 4]] :: bytes list"
  have "EncodeShards raid [0, 0, 0, 0] ?spec = Ok (?s, 4, 4)" by code_simp
  then obtain ss where b: "BuildShardSet toyH raid ?i (Body empty_block) (Spec (Hdr empty_block)) = Ok (?s, ss)"
    by (simp add: BuildShardSet_def body spec)
  let ?sv = "poor_node ?s ss" and ?N = "one_server ?s"
  have E: "eH toyE = toyH" "eRS toyE = raid" by (simp_all add: toyE_def)
  have ps: "peers ?sv = \<lparr>selfPeer = self1, table = [([114], peer1)]\<rparr>" "bans ?sv = NewBanlist 3 600000000000"
    by (simp_all add: poor_node_def NewServer_def AddPeer_def NewPeerstore_def peer1_def self1_def)
  have files: "shardfiles (cstore (schain ?sv)) = [((?i, 0), ?s ! 0)]" "GetHeader (cstore (schain ?sv)) 0 = Some (Hdr empty_block, ss)"
    by (simp_all add: poor_node_def NewServer_def GetHeader_def)
  have t: "table_ok (peers ?sv)" by (simp add: ps table_ok_def self1_def peer1_def)
  have url: "shardURLFor [114] (peers ?sv) = [115]" by (simp add: ps shardURLFor_def self1_def peer1_def)
  have mem: "MemberIDs (peers ?sv) = [[113], [114]]" "Count (peers ?sv) = 2"
    unfolding ps by (code_simp, simp add: Count_def)
  have hold: "[114] \<in> set (Holders toyH (MemberIDs (peers ?sv)) ?i 2 (Replication (Count (peers ?sv))))"
    unfolding mem by code_simp
  have own: "VerifyShard toyH ss 2 (?s ! 2)" using VerifyShard_own [OF b, of 2] by simp
  have reach: "reachable toyH ?N 0 ?i ss ?s ?sv 2"
    using hold url own unfolding reachable_def
    by (intro conjI bexI [of _ "[114]"]) (auto simp: steady_def honest_def one_server_def banned_def ps Banned_def NewBanlist_def)
  have here: "held (schain ?sv) ?i ?s 0" by (simp add: held_def GetShard_def files)
  have "card {0, 2 :: nat} \<le> card {n. held (schain ?sv) ?i ?s n \<or> reachable toyH ?N 0 ?i ss ?s ?sv n}"
    by (rule card_mono) (use here reach in \<open>auto intro: finite_subset [of _ "{..<3}"] simp: held_def reachable_def\<close>)
  then have k: "unat (K (Spec (Hdr empty_block))) \<le> card {n. held (schain ?sv) ?i ?s n \<or> reachable toyH ?N 0 ?i ss ?s ?sv n}"
    by (simp add: spec)
  have c: "committed toyH ?N ?i ss ?s ?sv"
    by (auto simp: committed_def GetShard_def files one_server_def less_Suc_eq split: if_splits)
  have rs: "rs_code toyE (unat (K (Spec (Hdr empty_block)))) (unat (M (Spec (Hdr empty_block))))
      (padded_payload (unat (K (Spec (Hdr empty_block)))) (Body empty_block))"
    using raid_code [of "padded_payload 2 [0, 0, 0, 0]"] by (simp add: spec body pl)
  have h: "BodyHash (Hdr empty_block) = BodyHashOf toyH (Body empty_block)" "MerkleRoot (Hdr empty_block) = MerkleRootOf toyH (Txs empty_block)"
    by (simp_all add: empty_block_def Body_def)
  have m: "gomap (shardfiles (cstore (schain ?sv)))" by (simp add: files gomap_def)
  have l: "length (Body empty_block) < 2 ^ 32" "list_all tx_fits (Txs empty_block)" "length (Txs empty_block) < 2 ^ 32"
    by (simp_all add: body txs)
  from network_recovers [of ?sv 0 empty_block ss toyE ?s ?N 0, unfolded E, OF t files(2) b rs l h m c k] txs
  show ?thesis by (intro exI [of _ ?s] exI [of _ ss]) simp
qed

end
