(* ===== verification/SL_Follow.thy ===== *)
theory SL_Follow
  imports SL_Fetch
begin

text \<open>
  Rounds a node runs against its peers: the storage audit of \<^verbatim>\<open>AuditRound\<close> and the fast sync of \<^verbatim>\<open>SyncFrom\<close>.
\<close>

section \<open>Audits\<close>

text \<open>The shards a peer is asked about in a round, and whether it answers for the bytes the auditor holds.\<close>

definition challenged :: "(bytes \<Rightarrow> hash) \<Rightarrow> hash \<Rightarrow> Server \<Rightarrow> bytes \<Rightarrow> int \<Rightarrow> bool" where
  "challenged H i sv k n \<longleftrightarrow> GetShard (cstore (schain sv)) i n \<noteq> None \<and> shardURLFor k (peers sv) \<noteq> [] \<and>
     k \<in> set (Holders H (MemberIDs (peers sv)) i n (Replication (Count (peers sv))))"

definition answers :: "(bytes \<Rightarrow> hash) \<Rightarrow> net \<Rightarrow> (int \<Rightarrow> bytes \<Rightarrow> hash) \<Rightarrow> hash \<Rightarrow> Server \<Rightarrow> bytes \<Rightarrow> int \<Rightarrow> bool" where
  "answers H N rnd i sv k n \<longleftrightarrow>
     nProve N (shardURLFor k (peers sv)) i n (rnd n k) = map_option (Challenge H (rnd n k)) (GetShard (cstore (schain sv)) i n)"

text \<open>\<open>tallies k P M sv sv'\<close>: the round adds \<open>P\<close> passes and \<open>M\<close> misses to \<open>k\<close> and changes nothing but scores.\<close>

definition tallies :: "bytes \<Rightarrow> nat \<Rightarrow> nat \<Rightarrow> Server \<Rightarrow> Server \<Rightarrow> bool" where
  "tallies k p m sv sv' \<longleftrightarrow> sv' = sv\<lparr>scores := scores sv'\<rparr> \<and>
     SPass (entry_of k (scores sv')) = SPass (entry_of k (scores sv)) + of_nat p \<and>
     SMiss (entry_of k (scores sv')) = SMiss (entry_of k (scores sv)) + of_nat m"

lemma tallies_refl [simp]: "tallies k 0 0 sv sv"
  by (simp add: tallies_def)

lemma tallies_trans:
  assumes "tallies k p m a b" "tallies k p' m' b c" shows "tallies k (p + p') (m + m') a c"
proof -
  have "c = a\<lparr>scores := scores c\<rparr>"
    using assms unfolding tallies_def by (metis Server.surjective Server.update_convs(5))
  with assms show ?thesis by (simp add: tallies_def)
qed

lemma entry_Pass: "entry_of k (Pass now h b) = (if h = k then (entry_of k b)\<lparr>SPass := SPass (entry_of k b) + 1, LastSeen := now\<rparr> else entry_of k b)"
  by (auto simp: Pass_def entry_of_def)

lemma entry_Miss: "entry_of k (Miss h b) = (if h = k then (entry_of k b)\<lparr>SMiss := SMiss (entry_of k b) + 1\<rparr> else entry_of k b)"
  by (auto simp: Miss_def entry_of_def)

lemma audit_holder_tally:
  assumes "GetShard (cstore (schain (fst acc))) i n = Some d"
  shows "tallies k (if h = k \<and> shardURLFor k (peers (fst acc)) \<noteq> [] \<and> answers H N rnd i (fst acc) k n then 1 else 0)
     (if h = k \<and> shardURLFor k (peers (fst acc)) \<noteq> [] \<and> \<not> answers H N rnd i (fst acc) k n then 1 else 0)
     (fst acc) (fst (audit_holder H N now rnd i n d h acc))"
proof -
  have "shardURLFor (PeerID (selfPeer ps)) ps = []" for ps by (simp add: shardURLFor_def)
  with assms show ?thesis
    by (cases acc) (auto simp: audit_holder_def Let_def tallies_def entry_Pass entry_Miss answers_def)
qed

lemma tallies_frame: "tallies k p m sv sv' \<Longrightarrow> peers sv' = peers sv \<and> schain sv' = schain sv"
  unfolding tallies_def by (metis Server.select_convs(1,3) Server.surjective Server.update_convs(5))

lemma audit_fold_tally:
  assumes "distinct hs" "GetShard (cstore (schain (fst acc))) i n = Some d"
  shows "tallies k (if k \<in> set hs \<and> shardURLFor k (peers (fst acc)) \<noteq> [] \<and> answers H N rnd i (fst acc) k n then 1 else 0)
     (if k \<in> set hs \<and> shardURLFor k (peers (fst acc)) \<noteq> [] \<and> \<not> answers H N rnd i (fst acc) k n then 1 else 0)
     (fst acc) (fst (fold (audit_holder H N now rnd i n d) hs acc))"
  using assms
proof (induction hs arbitrary: acc)
  case (Cons h hs)
  let ?acc = "audit_holder H N now rnd i n d h acc"
  note t = audit_holder_tally [OF Cons.prems(2), of k h H N rnd now]
  note fr = tallies_frame [OF t]
  have "answers H N rnd i (fst ?acc) k n = answers H N rnd i (fst acc) k n" using fr by (simp add: answers_def)
  then have ih: "tallies k (if k \<in> set hs \<and> shardURLFor k (peers (fst acc)) \<noteq> [] \<and> answers H N rnd i (fst acc) k n then 1 else 0)
     (if k \<in> set hs \<and> shardURLFor k (peers (fst acc)) \<noteq> [] \<and> \<not> answers H N rnd i (fst acc) k n then 1 else 0)
     (fst ?acc) (fst (fold (audit_holder H N now rnd i n d) (h # hs) acc))"
    using Cons.IH [of ?acc] Cons.prems fr by simp
  have "k \<notin> set hs" if "h = k" using that Cons.prems(1) by simp
  then have "(if h = k \<and> Q then 1 else 0) + (if k \<in> set hs \<and> Q then 1 else 0) = (if k \<in> set (h # hs) \<and> Q then 1 else (0 :: nat))" for Q
    by auto
  with tallies_trans [OF t ih] show ?case by (simp only:)
qed simp

lemma audit_shard_tally:
  assumes "table_ok (peers (fst acc))"
  shows "tallies k (if challenged H i (fst acc) k n \<and> answers H N rnd i (fst acc) k n then 1 else 0)
     (if challenged H i (fst acc) k n \<and> \<not> answers H N rnd i (fst acc) k n then 1 else 0) (fst acc) (fst (audit_shard H N now rnd i n acc))"
proof (cases "GetShard (cstore (schain (fst acc))) i n")
  case (Some d)
  let ?mem = "MemberIDs (peers (fst acc))"
  have "int (length ?mem) = Count (peers (fst acc))" using MemberIDs_distinct [OF assms] by (simp add: Count_def)
  moreover have "distinct (Holders H ?mem i n (Replication (Count (peers (fst acc)))))"
    using MemberIDs_distinct [OF assms] by (simp add: Holders_distinct)
  ultimately show ?thesis
    using audit_fold_tally [of "Holders H ?mem i n (Replication (Count (peers (fst acc))))" acc i n d k H N rnd now] Some
    by (simp only: audit_shard_def Let_def option.case challenged_def conj_commute [of "_ \<in> _"] conj_assoc simp_thms option.distinct)
qed (simp add: audit_shard_def challenged_def Let_def)

lemma audit_round_tally:
  "table_ok (peers (fst acc)) \<Longrightarrow> tallies k (length (filter (\<lambda>n. challenged H i (fst acc) k n \<and> answers H N rnd i (fst acc) k n) ns))
     (length (filter (\<lambda>n. challenged H i (fst acc) k n \<and> \<not> answers H N rnd i (fst acc) k n) ns)) (fst acc)
     (fst (fold (audit_shard H N now rnd i) ns acc))"
proof (induction ns arbitrary: acc)
  case (Cons n ns)
  let ?acc = "audit_shard H N now rnd i n acc"
  note t = audit_shard_tally [OF Cons.prems, of k H i n N rnd now]
  note fr = tallies_frame [OF t]
  then have "challenged H i (fst ?acc) k = challenged H i (fst acc) k" "answers H N rnd i (fst ?acc) k = answers H N rnd i (fst acc) k"
    by (simp_all add: challenged_def answers_def fun_eq_iff)
  with Cons.IH [of ?acc] Cons.prems fr tallies_trans [OF t] show ?case by fastforce
qed simp

text \<open>
  C34. A storage audit scores every peer exactly: a pass for each shard of the head that both the auditor and the peer are to hold and that
  the peer answers for with the right digest, a miss for each other one it is asked about, and nothing else changes.  A co-holder that
  runs this program and has the same bytes gets no miss.
\<close>

theorem AuditRound_scores:
  assumes "table_ok (peers sv)" "hasGen (schain sv)" "AuditRound E N now rnd sv = (sv', passes, misses)"
    and "i = ID (eH E) (chead (schain sv))" "ns = HeldShards (cstore (schain sv)) i"
  shows "sv' = sv\<lparr>scores := scores sv'\<rparr> \<and>
    SPass (entry_of k (scores sv')) = SPass (entry_of k (scores sv)) +
      of_nat (length (filter (\<lambda>n. challenged (eH E) i sv k n \<and> answers (eH E) N rnd i sv k n) ns)) \<and>
    SMiss (entry_of k (scores sv')) = SMiss (entry_of k (scores sv)) +
      of_nat (length (filter (\<lambda>n. challenged (eH E) i sv k n \<and> \<not> answers (eH E) N rnd i sv k n) ns)) \<and>
    (\<forall>pv. (\<forall>n nonce. nProve N (shardURLFor k (peers sv)) i n nonce = serve_proof (eH E) i n nonce pv) \<and>
       (\<forall>n. challenged (eH E) i sv k n \<longrightarrow> serve_shard i n pv = serve_shard i n sv) \<longrightarrow>
       SMiss (entry_of k (scores sv')) = SMiss (entry_of k (scores sv)))"
proof -
  have t: "tallies k (length (filter (\<lambda>n. challenged (eH E) i sv k n \<and> answers (eH E) N rnd i sv k n) ns))
     (length (filter (\<lambda>n. challenged (eH E) i sv k n \<and> \<not> answers (eH E) N rnd i sv k n) ns)) sv sv'"
    using audit_round_tally [of "(sv, 0, 0)" k "eH E" i N rnd ns now] assms by (simp add: AuditRound_def Let_def)
  have z: "filter (\<lambda>n. challenged (eH E) i sv k n \<and> \<not> answers (eH E) N rnd i sv k n) ns = []"
    if "\<forall>n nonce. nProve N (shardURLFor k (peers sv)) i n nonce = serve_proof (eH E) i n nonce pv"
      "\<forall>n. challenged (eH E) i sv k n \<longrightarrow> serve_shard i n pv = serve_shard i n sv" for pv
    using that by (auto simp: answers_def serve_proof_def serve_shard_def filter_empty_conv)
  have "SMiss (entry_of k (scores sv')) = SMiss (entry_of k (scores sv))"
    if "\<forall>n nonce. nProve N (shardURLFor k (peers sv)) i n nonce = serve_proof (eH E) i n nonce pv"
      "\<forall>n. challenged (eH E) i sv k n \<longrightarrow> serve_shard i n pv = serve_shard i n sv" for pv
    using t unfolding tallies_def z [OF that] by simp
  with t show ?thesis unfolding tallies_def by blast
qed

text \<open>Witness: an auditor that holds a shard of the head asks its co-holder, which has it too.\<close>

definition auditor :: Server where
  "auditor = NewServer (fst (AddPeer peer1 (NewPeerstore self1))) []
     (node0\<lparr>hasGen := True, chead := zero_header, cstore := OpenStore\<lparr>shardfiles := [((ID toyH zero_header, 0), [7])]\<rparr>\<rparr>) (NewPool 10) True"

definition prover :: "Server \<Rightarrow> net" where
  "prover pv =
     \<lparr>nHead = \<lambda>_. None, nHeaders = \<lambda>_ _. None, nSnapshot = \<lambda>_. None, nHello = \<lambda>_ _. None, nShard = \<lambda>_ _ _. None,
      nProve = \<lambda>url i n nonce. serve_proof toyH i n nonce pv, nSeeds = []\<rparr>"

lemma auditor_round: "challenged toyH (ID toyH zero_header) auditor [114] 0"
  by code_simp

theorem AuditRound_scores_witness:
  "\<exists>sv' p m. AuditRound toyE (prover auditor) 5 (\<lambda>_ _. Zero) auditor = (sv', p, m) \<and>
     SPass (entry_of [114] (scores sv')) = 1 \<and> SMiss (entry_of [114] (scores sv')) = 0"
proof -
  let ?N = "prover auditor" and ?i = "ID (eH toyE) (chead (schain auditor))" and ?rnd = "\<lambda>_ _. Zero"
  obtain sv' p m where r: "AuditRound toyE ?N 5 ?rnd auditor = (sv', p, m)" by (cases "AuditRound toyE ?N 5 ?rnd auditor") auto
  have E: "eH toyE = toyH" by (simp add: toyE_def)
  have ps: "peers auditor = \<lparr>selfPeer = self1, table = [([114], peer1)]\<rparr>" "scores auditor = []" "chead (schain auditor) = zero_header"
    "shardfiles (cstore (schain auditor)) = [((ID toyH zero_header, 0), [7])]"
    by (simp_all add: auditor_def NewServer_def AddPeer_def NewPeerstore_def peer1_def self1_def)
  have t: "table_ok (peers auditor)" by (simp add: ps table_ok_def self1_def peer1_def)
  have g: "hasGen (schain auditor)" by (simp add: auditor_def NewServer_def)
  have held: "HeldShards (cstore (schain auditor)) ?i = [0]" unfolding ps(3) E by code_simp
  have a: "answers (eH toyE) ?N ?rnd ?i auditor [114] 0"
    by (simp add: answers_def prover_def serve_proof_def E)
  note s = AuditRound_scores [OF t g r refl refl, of "[114]", unfolded held]
  have "SPass (entry_of [114] (scores sv')) = 1" "SMiss (entry_of [114] (scores sv')) = 0"
    using s a auditor_round by (simp_all add: ps entry_of_def E)
  with r show ?thesis by blast
qed

section \<open>Following the best peer\<close>

text \<open>The stored headers of a node, from height 0 to its head, each naming its predecessor.\<close>

definition linked :: "(bytes \<Rightarrow> hash) \<Rightarrow> Server \<Rightarrow> bool" where
  "linked H pv \<longleftrightarrow> hasGen (schain pv) \<and> Height (chead (schain pv)) + 1 \<noteq> 0 \<and>
     (\<exists>recs. length recs = Suc (unat (Height (chead (schain pv)))) \<and> fst (last recs) = chead (schain pv) \<and>
        (\<forall>j<length recs. GetHeader (cstore (schain pv)) (of_nat j) = Some (recs ! j) \<and> Height (fst (recs ! j)) = of_nat j \<and>
           PrevHash (fst (recs ! j)) = (if j = 0 then Zero else ID H (fst (recs ! (j - 1))))))"

definition answers_as :: "net \<Rightarrow> bytes \<Rightarrow> Server \<Rightarrow> bool" where
  "answers_as N url pv \<longleftrightarrow> nHead N url = serve_head pv \<and> (\<forall>to. nHeaders N url to = serve_headers 0 to pv) \<and>
     nSnapshot N url = Some (serve_snapshot pv)"

lemma serve_headers_run:
  assumes "\<forall>j<length recs. GetHeader (cstore (schain pv)) (of_nat j) = Some (recs ! j)" "length recs = Suc (unat to)" "to + 1 \<noteq> 0"
    and "i \<le> length recs"
  shows "serve_headers (of_nat i) to pv = Some (drop i recs)"
  using assms(4)
proof (induction "length recs - i" arbitrary: i)
  case 0
  then have i: "i = Suc (unat to)" using assms(2) by simp
  have "(of_nat i :: u64) = to + 1" by (simp add: i)
  then have "\<not> (of_nat i :: u64) \<le> to" using less_inc [OF assms(3)] by simp
  with i assms(2) show ?case by (subst serve_headers.simps) simp
next
  case (Suc k)
  then have i: "i \<le> unat to" "i < length recs" using assms(2) by simp_all
  have "unat (of_nat i :: u64) = i" using i(1) unsigned_less [of to, where ?'a = nat] by (intro unat_of_nat_small) simp
  then have le: "(of_nat i :: u64) \<le> to" using i(1) by (simp add: word_le_nat_alt)
  have "serve_headers (of_nat (Suc i)) to pv = Some (drop (Suc i) recs)"
    by (rule Suc.hyps) (use Suc.hyps(2) i(2) in simp_all)
  then have "serve_headers (of_nat i + 1) to pv = Some (drop (Suc i) recs)" by (simp add: add.commute)
  moreover have "GetHeader (cstore (schain pv)) (of_nat i) = Some (recs ! i)" using assms(1) i(2) by blast
  ultimately show ?case using le Cons_nth_drop_Suc [OF i(2)] by (subst serve_headers.simps) simp
qed

lemma install_headers_ok:
  assumes "writable (cstore c)"
    and "\<forall>j<length recs. Height (fst (recs ! j)) = of_nat (i + j) \<and> EngineAuthorize E (engine c) (cstate c) (fst (recs ! j)) = None \<and>
      PrevHash (fst (recs ! j)) = (if i + j = 0 then Zero else if j = 0 then prev else ID (eH E) (fst (recs ! (j - 1))))"
  shows "\<exists>c'. install_headers E recs i prev c = Some (c', Ok ()) \<and> c' = c\<lparr>cstore := cstore c'\<rparr>"
  using assms
proof (induction recs arbitrary: i prev c)
  case (Cons p recs)
  obtain h ss where p: "p = (h, ss)" by (cases p)
  let ?c = "c\<lparr>cstore := fst (PutHeader h ss (cstore c))\<rparr>"
  have h: "Height h = of_nat i" "EngineAuthorize E (engine c) (cstate c) h = None" "PrevHash h = (if i = 0 then Zero else prev)"
    using Cons.prems(2) [rule_format, of 0] by (simp_all add: p)
  have w: "snd (PutHeader h ss (cstore c))" "writable (cstore ?c)" using Cons.prems(1) by (simp_all add: PutHeader_def)
  have "\<forall>j<length recs. Height (fst (recs ! j)) = of_nat (Suc i + j) \<and> EngineAuthorize E (engine ?c) (cstate ?c) (fst (recs ! j)) = None \<and>
      PrevHash (fst (recs ! j)) = (if Suc i + j = 0 then Zero else if j = 0 then ID (eH E) h else ID (eH E) (fst (recs ! (j - 1))))"
  proof (intro allI impI)
    fix j assume "j < length recs"
    with Cons.prems(2) [rule_format, of "Suc j"]
    show "Height (fst (recs ! j)) = of_nat (Suc i + j) \<and> EngineAuthorize E (engine ?c) (cstate ?c) (fst (recs ! j)) = None \<and>
      PrevHash (fst (recs ! j)) = (if Suc i + j = 0 then Zero else if j = 0 then ID (eH E) h else ID (eH E) (fst (recs ! (j - 1))))"
      by (cases j) (simp_all add: p)
  qed
  from Cons.IH [OF w(2) this] obtain c' where "install_headers E recs (Suc i) (ID (eH E) h) ?c = Some (c', Ok ())" "c' = c\<lparr>cstore := cstore c'\<rparr>"
    by auto
  with h w(1) show ?case by (cases "PutHeader h ss (cstore c)") (auto simp: p)
qed auto

lemma SyncInstall_ok:
  assumes "writable (cstore c)" "recs \<noteq> []"
    and "\<forall>j<length recs. Height (fst (recs ! j)) = of_nat j \<and> EngineAuthorize E (engine c) (cstate c) (fst (recs ! j)) = None \<and>
      PrevHash (fst (recs ! j)) = (if j = 0 then Zero else ID (eH E) (fst (recs ! (j - 1))))"
  shows "\<exists>c'. SyncInstall E recs s0 c = Some (c', Ok ()) \<and> chead c' = fst (last recs) \<and> cstate c' = ReplaceWith s0 (cstate c) \<and>
    replayBaseID c' = ID (eH E) (fst (last recs)) \<and> Finalized c' = Height (fst (last recs))"
proof -
  obtain c1 where r: "install_headers E recs 0 Zero c = Some (c1, Ok ())" and c1: "c1 = c\<lparr>cstore := cstore c1\<rparr>"
    using install_headers_ok [OF assms(1), of recs 0 E Zero] assms(3) by (auto cong: if_cong)
  have "cstate c1 = cstate c" by (subst c1) simp
  with r assms(2) show ?thesis by (auto simp: SyncInstall_def Let_def saveReplayBase_def Finalized_def)
qed

text \<open>The peer \<open>SyncFrom\<close> picks: one of the reachable ones, and none is higher.\<close>

lemma sync_pick:
  assumes "fold (sync_step N) ps (b0, h0) = (b, h)"
  shows "h0 \<le> h \<and> (\<forall>p\<in>set ps. \<forall>x. nHead N (Control p) = Some x \<longrightarrow> Height x \<le> h) \<and>
    ((b, h) = (b0, h0) \<and> (\<forall>p\<in>set ps. \<forall>x. nHead N (Control p) = Some x \<longrightarrow> Height x < h0) \<or>
     (\<exists>p\<in>set ps. \<exists>x. nHead N (Control p) = Some x \<and> b = Control p \<and> h = Height x))"
  using assms
proof (induction ps arbitrary: b0 h0)
  case (Cons p ps)
  show ?case
  proof (cases "nHead N (Control p)")
    case None
    then have "sync_step N p (b0, h0) = (b0, h0)" by (simp add: sync_step_def)
    with Cons.IH [of b0 h0] Cons.prems None show ?thesis by auto
  next
    case (Some x)
    show ?thesis
    proof (cases "h0 \<le> Height x")
      case True
      with Some have "sync_step N p (b0, h0) = (Control p, Height x)" by (simp add: sync_step_def)
      with Cons.prems have "fold (sync_step N) ps (Control p, Height x) = (b, h)" by simp
      from Cons.IH [OF this] Some True show ?thesis by auto
    next
      case False
      with Some have "sync_step N p (b0, h0) = (b0, h0)" by (simp add: sync_step_def)
      with Cons.prems have "fold (sync_step N) ps (b0, h0) = (b, h)" by simp
      from Cons.IH [OF this] Some False show ?thesis by auto
    qed
  qed
qed auto

lemma set_Peers [simp]: "set (Peers ps) = snd ` set (table ps)"
  by (simp add: Peers_def)

text \<open>
  C33. Following the best peer: when every reachable peer runs this program on a linked chain of headers that the node's engine authorizes, and one of
  them is ahead, fast sync succeeds; the node then has the head of a highest reachable peer and its ledger, and that head counts as
  final, whatever was final before.
\<close>

theorem SyncFrom_adopts:
  assumes "table_ok (peers sv)" "writable (cstore (schain sv))"
    and "\<forall>p\<in>set (Peers (peers sv)). nHead N (Control p) = None \<or>
      (\<exists>pv. answers_as N (Control p) pv \<and> linked (eH E) pv \<and>
        (\<forall>j r. GetHeader (cstore (schain pv)) j = Some r \<longrightarrow> EngineAuthorize E (engine (schain sv)) (cstate (schain sv)) (fst r) = None))"
    and "\<exists>p\<in>set (Peers (peers sv)). \<exists>x. nHead N (Control p) = Some x \<and> (hasGenesis \<longrightarrow> localHeight < Height x)"
  shows "\<exists>sv' p pv. SyncFrom E N localHeight hasGenesis sv = Some (sv', Some (Height (chead (schain pv)))) \<and>
    p \<in> set (Peers (peers sv)) \<and> answers_as N (Control p) pv \<and> chead (schain sv') = chead (schain pv) \<and>
    cstate (schain sv') = ReplaceWith (cstate (schain pv)) (cstate (schain sv)) \<and>
    replayBaseID (schain sv') = ID (eH E) (chead (schain pv)) \<and> Finalized (schain sv') = Height (chead (schain pv)) \<and>
    (\<forall>q\<in>set (Peers (peers sv)). \<forall>x. nHead N (Control q) = Some x \<longrightarrow> Height x \<le> Height (chead (schain pv)))"
proof -
  let ?ps = "Peers (peers sv)"
  obtain b h where f: "fold (sync_step N) ?ps ([], 0) = (b, h)" by fastforce
  note pick = sync_pick [OF f]
  from pick assms(4) obtain p x where p: "p \<in> set ?ps" "nHead N (Control p) = Some x" "b = Control p" "h = Height x"
    by (auto simp: word_less_nat_alt)
  from assms(3) p(1,2) obtain pv where pv: "answers_as N b pv" "linked (eH E) pv"
    "\<And>j r. GetHeader (cstore (schain pv)) j = Some r \<Longrightarrow> EngineAuthorize E (engine (schain sv)) (cstate (schain sv)) (fst r) = None"
    unfolding p(3) by fastforce
  have x: "x = chead (schain pv)" using pv(1) p(2,3) by (auto simp: answers_as_def serve_head_def Head_def split: if_splits)
  have ne: "b \<noteq> []" using p(1,3) assms(1) by (auto simp: table_ok_def)
  have ahead: "\<not> (hasGenesis \<and> h \<le> localHeight)" using pick assms(4) by (auto simp: not_le intro: less_le_trans)
  from pv(2) obtain recs where recs: "length recs = Suc (unat h)" "fst (last recs) = chead (schain pv)" "h + 1 \<noteq> 0"
    "\<forall>j<length recs. GetHeader (cstore (schain pv)) (of_nat j) = Some (recs ! j) \<and> Height (fst (recs ! j)) = of_nat j \<and>
       PrevHash (fst (recs ! j)) = (if j = 0 then Zero else ID (eH E) (fst (recs ! (j - 1))))"
    unfolding linked_def x [symmetric] p(4) by blast
  have hs: "nHeaders N b h = Some recs"
    using pv(1) serve_headers_run [of recs pv h 0] recs by (simp add: answers_as_def)
  have au: "EngineAuthorize E (engine (live sv)) (cstate (live sv)) (fst (recs ! j)) = None" if "j < length recs" for j
    using that recs(4) pv(3) [of "of_nat j" "recs ! j"] by (simp add: live_def)
  have "recs \<noteq> []" using recs(1) by auto
  then obtain c where c: "SyncInstall E recs (cstate (schain pv)) (live sv) = Some (c, Ok ())" "chead c = chead (schain pv)"
    "cstate c = ReplaceWith (cstate (schain pv)) (cstate (schain sv))" "replayBaseID c = ID (eH E) (chead (schain pv))"
    "Finalized c = Height (chead (schain pv))"
    using SyncInstall_ok [of "live sv" recs E "cstate (schain pv)"] assms(2) recs au by (auto simp: live_def)
  have sn: "nSnapshot N b = Some (cstate (schain pv))" using pv(1) by (simp add: answers_as_def serve_snapshot_def)
  have "SyncFrom E N localHeight hasGenesis sv = Some (sv\<lparr>schain := c\<rparr>, Some h)"
    using ne ahead c(1) by (auto simp: SyncFrom_def f hs sn)
  with c p(1,3,4) pv(1) pick x show ?thesis by (intro exI [of _ "sv\<lparr>schain := c\<rparr>"] exI [of _ p] exI [of _ pv]) auto
qed

text \<open>Witness: a node without a genesis adopts the one of its only peer.\<close>

definition old_node :: Server where
  "old_node = NewServer (NewPeerstore peer1) []
     (node0\<lparr>hasGen := True, chead := sync_header,
        cstore := OpenStore\<lparr>hdrs := [(0, (sync_header, \<lparr>SetBlockID = Zero, SetSpec = \<lparr>K = 2, M = 1\<rparr>, PaddedLen = 0, OrigLen = 0, SetShardHash = []\<rparr>))]\<rparr>\<rparr>)
     (NewPool 10) True"

definition new_node :: Server where
  "new_node = NewServer (fst (AddPeer peer1 (NewPeerstore self1))) [] node0 (NewPool 10) True"

definition net_of :: "Server \<Rightarrow> net" where
  "net_of pv =
     \<lparr>nHead = \<lambda>_. serve_head pv, nHeaders = \<lambda>_ to. serve_headers 0 to pv, nSnapshot = \<lambda>_. Some (serve_snapshot pv),
      nHello = \<lambda>_ _. None, nShard = \<lambda>_ i n. serve_shard i n pv, nProve = \<lambda>_ _ _ _. None, nSeeds = []\<rparr>"

lemma sync_header_authorized: "EngineAuthorize toyE (engine node0) (cstate node0) sync_header = None"
  by code_simp

theorem SyncFrom_adopts_witness:
  "\<exists>sv'. SyncFrom toyE (net_of old_node) 0 False new_node = Some (sv', Some 0) \<and> chead (schain sv') = sync_header"
proof -
  let ?ss = "\<lparr>SetBlockID = Zero, SetSpec = \<lparr>K = 2, M = 1\<rparr>, PaddedLen = 0, OrigLen = 0, SetShardHash = []\<rparr>"
  have o: "hasGen (schain old_node)" "chead (schain old_node) = sync_header" "Height sync_header = 0" "PrevHash sync_header = Zero"
    "GetHeader (cstore (schain old_node)) j = (if j = 0 then Some (sync_header, ?ss) else None)" for j
    by (simp_all add: old_node_def NewServer_def GetHeader_def sync_header_def zero_header_def)
  have n: "peers new_node = \<lparr>selfPeer = self1, table = [([114], peer1)]\<rparr>" "schain new_node = node0"
    by (simp_all add: new_node_def NewServer_def AddPeer_def NewPeerstore_def peer1_def self1_def)
  have t: "table_ok (peers new_node)" by (simp add: n table_ok_def self1_def peer1_def)
  have w: "writable (cstore (schain new_node))" unfolding n by code_simp
  have l: "linked (eH toyE) old_node"
    unfolding linked_def by (intro conjI exI [of _ "[(sync_header, ?ss)]"]) (simp_all add: o)
  have au: "\<forall>j r. GetHeader (cstore (schain old_node)) j = Some r \<longrightarrow>
      EngineAuthorize toyE (engine (schain new_node)) (cstate (schain new_node)) (fst r) = None"
    using sync_header_authorized by (simp add: o n)
  have as: "answers_as (net_of old_node) u pv \<longleftrightarrow> serve_head old_node = serve_head pv \<and>
      (\<forall>to. serve_headers 0 to old_node = serve_headers 0 to pv) \<and> serve_snapshot old_node = serve_snapshot pv" for u pv
    by (simp add: answers_as_def net_of_def)
  have a: "\<forall>p\<in>set (Peers (peers new_node)). nHead (net_of old_node) (Control p) = None \<or>
      (\<exists>pv. answers_as (net_of old_node) (Control p) pv \<and> linked (eH toyE) pv \<and>
        (\<forall>j r. GetHeader (cstore (schain pv)) j = Some r \<longrightarrow> EngineAuthorize toyE (engine (schain new_node)) (cstate (schain new_node)) (fst r) = None))"
    using l au by (intro ballI disjI2 exI [of _ old_node] conjI) (simp_all add: as)
  have e: "\<exists>p\<in>set (Peers (peers new_node)). \<exists>x. nHead (net_of old_node) (Control p) = Some x \<and> (False \<longrightarrow> 0 < Height x)"
    by (simp add: n net_of_def serve_head_def Head_def o)
  from SyncFrom_adopts [OF t w a e] obtain sv' pv and p :: Peer where
    r: "SyncFrom toyE (net_of old_node) 0 False new_node = Some (sv', Some (Height (chead (schain pv))))"
      "chead (schain sv') = chead (schain pv)" and pv: "answers_as (net_of old_node) (Control p) pv"
    by blast
  from pv have "chead (schain pv) = sync_header" by (auto simp: as serve_head_def Head_def o split: if_splits)
  with r o(3) show ?thesis by auto
qed

end
