(* ===== verification/SL_Node.thy ===== *)
theory SL_Node
  imports SL_Follow
begin

text \<open>
  \<^verbatim>\<open>internal/chainparams\<close> and \<^verbatim>\<open>internal/node\<close>: the constants of the network, the configuration, how a node is put together, and the
  rounds its loop runs: production, storage proofs, discovery and sync, audits, saving.

  The key pair, the opened store, the loaded ledger and the filter are arguments of \<open>NewNode\<close>, as is the directory
  \<^verbatim>\<open>defaultDataDir\<close> finds.  Readings of the clock are arguments in the order the code takes them: \<^verbatim>\<open>time.Now().Unix()\<close> where seconds
  are used, nanoseconds for the ban list.  \<^verbatim>\<open>state.json\<close> and \<^verbatim>\<open>bloom.dat\<close> are fields of the node; errors of writing them are ignored by the code.
\<close>

section \<open>Network constants\<close>

record Params =
  pNetwork :: bytes
  pChainID :: u64
  pGenesisTime :: "64 word"
  pRegPoWBits :: int
  pConsensus :: bytes
  pFinalityDepth :: "64 word"
  pFaucetAmount :: u64
  pFaucetBits :: int
  pFaucetCooldown :: u64
  pFaucetDepth :: u64
  pStorageWindow :: u64
  pStorageMinDepth :: u64
  pStorageCap :: u64
  pGenesis :: "(address, u64) gomap"
  pValidators :: "address list"
  pSeeds :: "bytes list"
  pDNSSeeds :: "bytes list"
  pControlAddr :: bytes
  pShardAddr :: bytes
  pBlockTimeMS :: int

definition founder :: address where
  "founder = ascii ''sl0fa7cc3eacafa2ab32381ac11b4836d31229ddf2''"

definition Mainnet :: Params where
  "Mainnet =
     \<lparr>pNetwork = ascii ''shadowledger-mainnet'', pChainID = 1, pGenesisTime = 1780000000, pRegPoWBits = 20,
      pConsensus = ascii ''postorage'', pFinalityDepth = 16, pFaucetAmount = 200000000, pFaucetBits = 18,
      pFaucetCooldown = 50, pFaucetDepth = 4, pStorageWindow = 256, pStorageMinDepth = 4, pStorageCap = 64,
      pGenesis = [(founder, 100000000000000)], pValidators = [founder],
      pSeeds = [ascii ''http://136.248.77.107:4004''], pDNSSeeds = [], pControlAddr = ascii '':4004'',
      pShardAddr = ascii '':4005'', pBlockTimeMS = 5000\<rparr>"

section \<open>Configuration\<close>

record Config =
  DataDir :: bytes
  ControlAddr :: bytes
  ShardAddr :: bytes
  Advertise :: bytes
  NodeKey :: bytes
  CfgValidators :: "address list"
  CfgSeeds :: "bytes list"
  CfgDNSSeeds :: "bytes list"
  CfgConsensus :: bytes
  BlockTimeMS :: int
  CfgGenesis :: "(bytes, u64) gomap"

definition empty_config :: Config where
  "empty_config =
     \<lparr>DataDir = [], ControlAddr = [], ShardAddr = [], Advertise = [], NodeKey = [], CfgValidators = [], CfgSeeds = [],
      CfgDNSSeeds = [], CfgConsensus = [], BlockTimeMS = 0, CfgGenesis = []\<rparr>"

definition applyDefaults :: "bytes \<Rightarrow> Config \<Rightarrow> Config" where
  "applyDefaults home c =
     (let c = (if DataDir c = [] then c\<lparr>DataDir := home\<rparr> else c);
          c = (if ControlAddr c = [] then c\<lparr>ControlAddr := ascii '':4004''\<rparr> else c);
          c = (if ShardAddr c = [] then c\<lparr>ShardAddr := ascii '':4005''\<rparr> else c);
          c = (if NodeKey c = [] then c\<lparr>NodeKey := DataDir c @ ascii ''/keys/node.json''\<rparr> else c);
          c = (if Advertise c = [] then c\<lparr>Advertise := ascii ''localhost''\<rparr> else c)
      in if BlockTimeMS c = 0 then c\<lparr>BlockTimeMS := 5000\<rparr> else c)"

definition mergeMainnet :: "bytes \<Rightarrow> Config \<Rightarrow> Config" where
  "mergeMainnet home c =
     (let p = Mainnet;
          c = (if CfgValidators c = [] then c\<lparr>CfgValidators := pValidators p\<rparr> else c);
          c = (if CfgSeeds c = [] then c\<lparr>CfgSeeds := pSeeds p\<rparr> else c);
          c = (if CfgDNSSeeds c = [] then c\<lparr>CfgDNSSeeds := pDNSSeeds p\<rparr> else c);
          c = (if CfgGenesis c = [] then c\<lparr>CfgGenesis := pGenesis p\<rparr> else c);
          c = (if ControlAddr c = [] then c\<lparr>ControlAddr := pControlAddr p\<rparr> else c);
          c = (if ShardAddr c = [] then c\<lparr>ShardAddr := pShardAddr p\<rparr> else c);
          c = (if BlockTimeMS c = 0 then c\<lparr>BlockTimeMS := pBlockTimeMS p\<rparr> else c);
          c = (if CfgConsensus c = [] then c\<lparr>CfgConsensus := pConsensus p\<rparr> else c)
      in applyDefaults home c)"

definition MainnetConfig :: "bytes \<Rightarrow> Config" where
  "MainnetConfig home = applyDefaults home (mergeMainnet home empty_config)"

text \<open>The file, when there is one, as the YAML decoder returns it; \<open>Some None\<close> is a file it refuses.\<close>

definition LoadConfig :: "bytes \<Rightarrow> Config option \<Rightarrow> Config option" where
  "LoadConfig home decoded = map_option (applyDefaults home) decoded"

definition LoadConfigOrMainnet :: "bytes \<Rightarrow> Config option option \<Rightarrow> Config option" where
  "LoadConfigOrMainnet home file =
     (case file of
        None \<Rightarrow> Some (MainnetConfig home)
      | Some decoded \<Rightarrow> map_option (mergeMainnet home) (LoadConfig home decoded))"

section \<open>The node\<close>

record Node =
  cfg :: Config
  nid :: KeyPair
  srv :: Server
  stateFile :: "State option"
  bloomFile :: "Filter option"

definition postorage :: bytes where
  "postorage = ascii ''postorage''"

definition block_secs :: "Config \<Rightarrow> 64 word" where
  "block_secs c = (let bt = BlockTimeMS c div 1000 in if bt < 1 then 1 else word_of_int bt)"

text \<open>\<^verbatim>\<open>NewPoStorage\<close> with the live providers and no scoreboard.\<close>

definition NewPoStorage :: "address \<Rightarrow> State \<Rightarrow> PoStorage" where
  "NewPoStorage self s = \<lparr>validators = ActiveValidators s, weights = None, PosSelf = self, eligible = True\<rparr>"

definition node_engine :: "Config \<Rightarrow> address \<Rightarrow> Engine" where
  "node_engine c self =
     (if CfgConsensus c = postorage
      then PoStorageEngine (\<lambda>s. SetWeights (Some (StorageWeights s)) (NewPoStorage self s))
      else AuthorityEngine (NewAuthority (CfgValidators c) self))"

definition NewNode :: "ext \<Rightarrow> Config \<Rightarrow> Store \<Rightarrow> State option \<Rightarrow> KeyPair \<Rightarrow> Filter option \<Rightarrow> Node" where
  "NewNode E c files loaded kp bf =
     (let mp = Mainnet;
          ledger = SetRegPoWBits (pRegPoWBits mp) (SetChainID (pChainID mp) (case loaded of Some s \<Rightarrow> s | None \<Rightarrow> New));
          self = Address (eH E) kp;
          me = \<lparr>PeerID = self, Control = ascii ''http://'' @ Advertise c @ ControlAddr c,
                ShardURL = ascii ''http://'' @ Advertise c @ ShardAddr c\<rparr>;
          ps = NewPeerstore me;
          ch = NewChain E files ledger (node_engine c self) bf self (MemberIDs ps) (block_secs c) (pGenesisTime mp) (pFinalityDepth mp);
          faucetSrc = (case pValidators mp of v # _ \<Rightarrow> v | [] \<Rightarrow> []);
          ledger = SetFaucet (pFaucetBits mp) (pFaucetAmount mp) (pFaucetCooldown mp) (pFaucetDepth mp) faucetSrc (Some (BodyHashAt files)) (cstate ch);
          ledger = SetStorageProof (pStorageWindow mp) (pStorageMinDepth mp) (pStorageCap mp) (Some (ChainShardAt (eH E) files))
                     (Some (ChainShardProofOK (eH E) files)) ledger
      in \<lparr>cfg = c, nid = kp, srv = NewServer ps (CfgSeeds c) (ch\<lparr>cstate := ledger\<rparr>) (NewPool 50000) (CfgConsensus c = postorage),
          stateFile = loaded, bloomFile = bf\<rparr>)"

datatype node_error = ErrNoValidators | EChain chain_error

definition bootstrapGenesis :: "ext \<Rightarrow> Node \<Rightarrow> (Node \<times> (node_error, unit) result) option" where
  "bootstrapGenesis E n =
     (if HasHeaders (cstore (schain (srv n))) \<or> CfgGenesis (cfg n) = [] then Some (n, Ok ())
      else case CfgValidators (cfg n) of
        [] \<Rightarrow> Some (n, Err ErrNoValidators)
      | v # _ \<Rightarrow>
          (case Genesis E (CfgGenesis (cfg n)) v (Some (nid n)) (live (srv n)) of
             None \<Rightarrow> None
           | Some (c, Err e) \<Rightarrow> Some (n\<lparr>srv := (srv n)\<lparr>schain := c\<rparr>\<rparr>, Err (EChain e))
           | Some (c, Panic) \<Rightarrow> Some (n\<lparr>srv := (srv n)\<lparr>schain := c\<rparr>\<rparr>, Panic)
           | Some (c, Ok _) \<Rightarrow> Some (n\<lparr>srv := (srv n)\<lparr>schain := c\<rparr>, stateFile := Some (cstate c)\<rparr>, Ok ())))"

section \<open>The rounds of the loop\<close>

definition trySync :: "ext \<Rightarrow> net \<Rightarrow> Node \<Rightarrow> Node option" where
  "trySync E N n =
     (case Head (schain (srv n)) of (_, hasG) \<Rightarrow>
        (case SyncFrom E N (ChainHeight (schain (srv n))) hasG (srv n) of
           None \<Rightarrow> None
         | Some (sv, None) \<Rightarrow> Some (n\<lparr>srv := sv\<rparr>)
         | Some (sv, Some to) \<Rightarrow>
             Some (if 0 < to then n\<lparr>srv := sv, stateFile := Some (cstate (schain sv))\<rparr> else n\<lparr>srv := sv\<rparr>)))"

definition EngineCanProduce :: "ext \<Rightarrow> Engine \<Rightarrow> State \<Rightarrow> u64 \<Rightarrow> hash \<Rightarrow> u32 \<Rightarrow> bool" where
  "EngineCanProduce E eng s h prev round =
     (case eng of
        AuthorityEngine a \<Rightarrow> AuthCanProduce a h prev round
      | PoStorageEngine p \<Rightarrow> CanProduce (eH E) (p s) h prev round)"

definition EngineIsValidator :: "Engine \<Rightarrow> State \<Rightarrow> bool" where
  "EngineIsValidator eng s =
     (case eng of AuthorityEngine a \<Rightarrow> AuthIsValidator a | PoStorageEngine p \<Rightarrow> IsValidator (p s))"

text \<open>The round of a production at Unix time \<open>t\<close>.\<close>

definition round_at :: "64 word \<Rightarrow> Config \<Rightarrow> Header \<Rightarrow> u32" where
  "round_at t c head =
     (let elapsed = t - Timestamp head; elapsed = (if sint elapsed < 0 then 0 else elapsed) in ucast (elapsed div block_secs c))"

definition maybeProduce ::
    "ext \<Rightarrow> net \<Rightarrow> address list \<Rightarrow> 64 word \<Rightarrow> 64 word \<Rightarrow> int \<Rightarrow> Node \<Rightarrow> (Node \<times> (chain_error, (Block \<times> bytes list) option) result) option" where
  "maybeProduce E N order t1 t2 now n =
     (let sv = srv n; c = live sv in
      case Head c of (head, ok) \<Rightarrow>
        if \<not> ok then Some (n, Ok None)
        else if Height head < BestPeerHeight N sv then Some (n, Ok None)
        else let round = round_at t1 (cfg n) head in
          if \<not> EngineCanProduce E (engine c) (cstate c) (Height head + 1) (ID (eH E) head) round then Some (n, Ok None)
          else let txs = Reap order 1000 (cstate c) (spool sv); reward = NextReward (cstate c) (Height head + 1) in
            if txs = [] \<and> reward = 0 then Some (n, Ok None)
            else (case ProduceBlock E t2 txs (nid n) round c of
                    None \<Rightarrow> None
                  | Some (c1, Err e) \<Rightarrow> Some (n\<lparr>srv := sv\<lparr>schain := c1\<rparr>\<rparr>, Err e)
                  | Some (c1, Panic) \<Rightarrow> Some (n\<lparr>srv := sv\<lparr>schain := c1\<rparr>\<rparr>, Panic)
                  | Some (c1, Ok (blk, _)) \<Rightarrow>
                      (case Broadcast now (sv\<lparr>schain := c1, spool := RemoveTxs (eH E) txs (spool sv)\<rparr>) of (sv1, out) \<Rightarrow>
                         Some (n\<lparr>srv := sv1, stateFile := Some (cstate c1)\<rparr>, Ok (Some (blk, out))))))"

definition proof_tx :: "ext \<Rightarrow> KeyPair \<Rightarrow> u64 \<Rightarrow> bytes \<Rightarrow> u64 \<Rightarrow> Transaction" where
  "proof_tx E kp target shard nonce =
     SignTx (eH E) (eSign E) kp
       \<lparr>From = [], To = [], Amount = 0, Fee = 0, Nonce = nonce, ChainID = pChainID Mainnet, Kind = KindStorageProof, Gas = 0,
        Data = put_u64 target @ shard, PubKey = [], Sig = []\<rparr>"

definition maybeProveStorage ::
    "ext \<Rightarrow> net \<Rightarrow> int \<Rightarrow> Node \<Rightarrow> Node \<times> (chain_error, (Transaction \<times> bytes list) option) result" where
  "maybeProveStorage E N now n =
     (let sv = srv n; c = schain sv; mp = Mainnet in
      if CfgConsensus (cfg n) \<noteq> postorage \<or> \<not> EngineIsValidator (engine c) (cstate c) then (n, Ok None)
      else case Head c of (head, ok) \<Rightarrow>
        if \<not> ok then (n, Ok None)
        else if Height head \<le> pStorageMinDepth mp + 1 then (n, Ok None)
        else let target = Height head - pStorageMinDepth mp - 1 in
          if target + pStorageWindow mp < Height head then (n, Ok None)
          else case ChainShardAt (eH E) (cstore c) target of
            None \<Rightarrow> (n, Ok None)
          | Some (blockID, tot) \<Rightarrow>
              if tot \<le> 0 then (n, Ok None)
              else let self = Address (eH E) (nid n);
                       index = uint ((be_get (take 8 (eH E (self @ blockID))) :: u64) mod word_of_int tot)
                in (case ShardBytes_net E N now target index sv of
                      (sv1, Panic) \<Rightarrow> (n\<lparr>srv := sv1\<rparr>, Panic)
                    | (sv1, Err e) \<Rightarrow> (n\<lparr>srv := sv1\<rparr>, Err e)
                    | (sv1, Ok None) \<Rightarrow> (n\<lparr>srv := sv1\<rparr>, Ok None)
                    | (sv1, Ok (Some shard)) \<Rightarrow>
                        let tx = proof_tx E (nid n) target shard (AcctNonce (Get (cstate c) self)) in
                        (case Submit (eH E) (eV E) (cstate c) tx (spool sv1) of
                           Ok p \<Rightarrow> (case Broadcast now (sv1\<lparr>spool := p\<rparr>) of (sv2, out) \<Rightarrow> (n\<lparr>srv := sv2\<rparr>, Ok (Some (tx, out))))
                         | _ \<Rightarrow> (n\<lparr>srv := sv1\<rparr>, Ok None))))"

definition persist :: "Node \<Rightarrow> Node" where
  "persist n = n\<lparr>stateFile := Some (cstate (schain (srv n))), bloomFile := cbloom (schain (srv n))\<rparr>"

text \<open>What \<^verbatim>\<open>Run\<close> does before its loop: genesis, discovery when there are seeds, sync.\<close>

definition startup :: "ext \<Rightarrow> net \<Rightarrow> int \<Rightarrow> (bytes list \<Rightarrow> bytes list) \<Rightarrow> Node \<Rightarrow> (Node \<times> (node_error, unit) result) option" where
  "startup E N now order n =
     (case bootstrapGenesis E n of
        None \<Rightarrow> None
      | Some (n1, Ok _) \<Rightarrow>
          (let n2 = (if CfgSeeds (cfg n1) \<noteq> [] \<or> CfgDNSSeeds (cfg n1) \<noteq> [] then n1\<lparr>srv := fst (Discover N now order (srv n1))\<rparr> else n1)
           in map_option (\<lambda>n3. (n3, Ok ())) (trySync E N n2))
      | Some (n1, r) \<Rightarrow> Some (n1, r))"

end
