(* ===== verification/SL_Gossip.thy ===== *)
theory SL_Gossip
  imports SL_Node
begin

text \<open>
  Blocks between nodes: what a node's production round broadcasts is accepted by the peers that agree with it, on the linear and on
  the fork-choice path, and what happens when the head carries a timestamp ahead of the producer's clock.
\<close>

section \<open>Engines\<close>

text \<open>The interface \<^verbatim>\<open>consensus.Engine\<close>: a signed header of a slot the node may produce in is authorized.\<close>

locale producing_engine =
  fixes authorize :: "Header \<Rightarrow> consensus_error option"
    and can_produce :: "u64 \<Rightarrow> hash \<Rightarrow> u32 \<Rightarrow> bool"
    and self :: address
    and signed :: "Header \<Rightarrow> bool"
  assumes authorized: "can_produce (Height h) (PrevHash h) (Round h) \<Longrightarrow> signed h \<Longrightarrow> Validator h = self \<Longrightarrow> authorize h = None"
begin

lemma produced_authorized:
  assumes "ProduceBlock E now txs kp round c = Some (c', Ok (b, ss))" "can_produce (Height (chead c) + 1) (ID (eH E) (chead c)) round"
    and "self = Address (eH E) kp" "\<And>h. signed (SignHdr (eH E) (eSign E) kp h)"
  shows "authorize (Hdr b) = None"
proof -
  have b: "Height (Hdr b) = Height (chead c) + 1" "PrevHash (Hdr b) = ID (eH E) (chead c)" "Round (Hdr b) = round"
    by (rule ProduceBlock_Ok [OF assms(1)], assumption)+
  obtain h where h: "Hdr b = SignHdr (eH E) (eSign E) kp h"
    using assms(1) by (auto simp: ProduceBlock_def Let_def sbind_Ok_iff split: if_splits prod.splits result.splits)
  have "Validator (Hdr b) = self" by (simp add: h SignHdr_def Let_def assms(3))
  with b h assms(2,4) show ?thesis by (intro authorized) simp_all
qed

end

interpretation authority_engine: producing_engine "AuthAuthorizeHeader H V a" "AuthCanProduce a" "AuthSelf a" "\<lambda>h. HdrVerifySig H V h = None"
  by unfold_locales (simp add: AuthAuthorizeHeader_def AuthCanProduce_def)

interpretation postorage_engine: producing_engine "AuthorizeHeader H V p" "CanProduce H p" "PosSelf p" "\<lambda>h. HdrVerifySig H V h = None"
  by unfold_locales (auto simp: AuthorizeHeader_def CanProduce_def split: if_splits)

text \<open>What ed25519 promises of a key pair.\<close>

definition signs :: "ext \<Rightarrow> KeyPair \<Rightarrow> bool" where
  "signs E kp \<longleftrightarrow> length (Pub kp) = PublicKeySize \<and> (\<forall>m. eV E (Pub kp) m (eSign E (Priv kp) m))"

lemma SignHdr_verifies: "signs E kp \<Longrightarrow> HdrVerifySig (eH E) (eV E) (SignHdr (eH E) (eSign E) kp h) = None"
  by (simp add: signs_def HdrVerifySig_def SignHdr_def Let_def Address_def PubMatchesAddress_def VerifyMsg_def Sign_def HdrSigningBytes_def)

text \<open>Nodes with the same configuration of the network and the same ledger authorize what one of them may produce.\<close>

lemma same_network_authorizes:
  assumes "ProduceBlock E now txs kp round c = Some (c', Ok (b, ss))"
    and "EngineCanProduce E (node_engine cf (Address (eH E) kp)) (cstate c) (Height (chead c) + 1) (ID (eH E) (chead c)) round" "signs E kp"
    and "CfgConsensus cf' = CfgConsensus cf" "CfgValidators cf' = CfgValidators cf"
  shows "EngineAuthorize E (node_engine cf' other) (cstate c) (Hdr b) = None"
proof (cases "CfgConsensus cf = postorage")
  case True
  let ?p = "\<lambda>a. SetWeights (Some (StorageWeights (cstate c))) (NewPoStorage a (cstate c))"
  have "AuthorizeHeader (eH E) (eV E) (?p (Address (eH E) kp)) (Hdr b) = None"
    using assms(2) True SignHdr_verifies [OF assms(3)]
    by (intro postorage_engine.produced_authorized [OF assms(1)])
      (simp_all add: EngineCanProduce_def node_engine_def SetWeights_def NewPoStorage_def)
  moreover have "AuthorizeHeader (eH E) (eV E) (?p other) (Hdr b) = AuthorizeHeader (eH E) (eV E) (?p (Address (eH E) kp)) (Hdr b)"
    by (simp only: AuthorizeHeader_def LeaderFor_def SetWeights_def NewPoStorage_def PoStorage.simps)
  ultimately show ?thesis using True assms(4) by (simp add: EngineAuthorize_def node_engine_def)
next
  case False
  have "AuthAuthorizeHeader (eH E) (eV E) (NewAuthority (CfgValidators cf) (Address (eH E) kp)) (Hdr b) = None"
    using assms(2) False SignHdr_verifies [OF assms(3)]
    by (intro authority_engine.produced_authorized [OF assms(1)]) (simp_all add: EngineCanProduce_def node_engine_def NewAuthority_def)
  then show ?thesis using False assms(4,5)
    by (auto simp: EngineAuthorize_def node_engine_def AuthAuthorizeHeader_def NewAuthority_def split: option.splits if_splits)
qed

section \<open>Rounds keep the timing rule\<close>

lemma block_secs_pos: "BlockTimeMS c < 2 ^ 63 \<Longrightarrow> 1 \<le> sint (block_secs c)"
proof -
  assume b: "BlockTimeMS c < 2 ^ 63"
  have "sint (word_of_int (BlockTimeMS c div 1000) :: 64 word) = BlockTimeMS c div 1000" if "1 \<le> BlockTimeMS c div 1000"
    using that b by (intro sint_of_int_small) simp_all
  then show ?thesis by (simp add: block_secs_def Let_def)
qed




section \<open>Accepting an extension of the head\<close>




lemma ID_inject_time:
  assumes "good E HS" "h \<in> HS" "g \<in> HS" "ID (eH E) h = ID (eH E) g"
  shows "Timestamp h = Timestamp g"
proof -
  have "HdrSigningBytes h = HdrSigningBytes g" using assms by (auto simp: good_def ID_def dest: inj_onD)
  moreover have "hdr_fits h" "hdr_fits g" using assms by (auto simp: good_def)
  ultimately have "h\<lparr>HdrSig := [], ValPubKey := []\<rparr> = g\<lparr>HdrSig := [], ValPubKey := []\<rparr>"
    by (intro HdrSigningBytes_inject)
  then show ?thesis by (metis Header.select_convs(4) Header.update_convs(11,12) Header.surjective)
qed

lemma fc_frame: "fc c c' \<Longrightarrow> cstore c' = cstore c \<and> cstate c' = cstate c \<and> chead c' = chead c \<and> cbloom c' = cbloom c \<and> tree c' = tree c"
  by (auto simp: fc_def)


section \<open>A production round and a peer\<close>

text \<open>The parts of a node fit together, as \<open>NewNode\<close> makes them.\<close>

definition wired :: "ext \<Rightarrow> Node \<Rightarrow> bool" where
  "wired E n \<longleftrightarrow> engine (schain (srv n)) = node_engine (cfg n) (Address (eH E) (nid n)) \<and>
     reorg (srv n) = (CfgConsensus (cfg n) = postorage) \<and> blockTime (schain (srv n)) = block_secs (cfg n) \<and> BlockTimeMS (cfg n) < 2 ^ 63"

lemma NewChain_sel:
  "engine (NewChain E files s eng bf self mem bt gt fd) = eng" "cstate (NewChain E files s eng bf self mem bt gt fd) = s"
  "blockTime (NewChain E files s eng bf self mem bt gt fd) = (if sint bt < 1 then 1 else bt)"
  by (simp_all add: NewChain_def Let_def loadReplayBase_def split: option.split prod.split)

lemma NewNode_wired: "BlockTimeMS c < 2 ^ 63 \<Longrightarrow> wired E (NewNode E c files loaded kp bf)"
  using block_secs_pos [of c] by (simp add: wired_def NewNode_def Let_def NewServer_def NewChain_sel)

text \<open>Two nodes of the same network that agree on head, ledger and headers.\<close>

definition in_sync :: "Node \<Rightarrow> Node \<Rightarrow> bool" where
  "in_sync n m \<longleftrightarrow> CfgConsensus (cfg m) = CfgConsensus (cfg n) \<and> CfgValidators (cfg m) = CfgValidators (cfg n) \<and>
     block_secs (cfg m) = block_secs (cfg n) \<and> chead (schain (srv m)) = chead (schain (srv n)) \<and>
     cstate (schain (srv m)) = cstate (schain (srv n)) \<and> hdrs (cstore (schain (srv m))) = hdrs (cstore (schain (srv n)))"

lemma live_sel [simp]:
  "chead (live sv) = chead (schain sv)" "hasGen (live sv) = hasGen (schain sv)" "cstate (live sv) = cstate (schain sv)"
  "cstore (live sv) = cstore (schain sv)" "engine (live sv) = engine (schain sv)" "tree (live sv) = tree (schain sv)"
  "blockTime (live sv) = blockTime (schain sv)" "cbloom (live sv) = cbloom (schain sv)" "bloom_ok (live sv) = bloom_ok (schain sv)"
  by (simp_all add: live_def bloom_ok_def)

lemma core_live: "core_same (schain sv) (live sv)"
  by (simp add: core_same_def live_def known_def fun_eq_iff split: option.split)

lemma send_all_frame: "schain (fst (send_all now ps sv)) = schain sv \<and> peers (fst (send_all now ps sv)) = peers sv \<and> spool (fst (send_all now ps sv)) = spool sv"
proof (induction now ps sv rule: send_all.induct)
  case (2 now p ps sv)
  obtain sv1 b where b: "banned now (PeerID p) sv = (sv1, b)" by fastforce
  have "schain sv1 = schain sv" "peers sv1 = peers sv" "spool sv1 = spool sv" using banned_frame [of now "PeerID p" sv] b by simp_all
  with 2 b show ?case by (auto split: prod.split)
qed simp

lemma maybeProduce_Some:
  assumes "maybeProduce E N order t1 t2 now n = Some (n', Ok (Some (b, out)))"
  obtains c ss txs where "hasGen (schain (srv n))"
    "EngineCanProduce E (engine (schain (srv n))) (cstate (schain (srv n))) (Height (chead (schain (srv n))) + 1)
       (ID (eH E) (chead (schain (srv n)))) (round_at t1 (cfg n) (chead (schain (srv n))))"
    "ProduceBlock E t2 txs (nid n) (round_at t1 (cfg n) (chead (schain (srv n)))) (live (srv n)) = Some (c, Ok (b, ss))"
    "schain (srv n') = c"
proof -
  let ?h = "chead (schain (srv n))"
  let ?txs = "Reap order 1000 (cstate (schain (srv n))) (spool (srv n))" and ?r = "round_at t1 (cfg n) ?h"
  from assms obtain c ss where a: "hasGen (schain (srv n))"
    "EngineCanProduce E (engine (schain (srv n))) (cstate (schain (srv n))) (Height ?h + 1) (ID (eH E) ?h) ?r"
    "ProduceBlock E t2 ?txs (nid n) ?r (live (srv n)) = Some (c, Ok (b, ss))"
    "n' = n\<lparr>srv := fst (Broadcast now ((srv n)\<lparr>schain := c, spool := RemoveTxs (eH E) ?txs (spool (srv n))\<rparr>)), stateFile := Some (cstate c)\<rparr>"
    by (auto simp: maybeProduce_def Let_def Head_def split: if_splits option.splits prod.splits result.splits)
  have "schain (srv n') = c" by (simp add: a(4) Broadcast_def send_all_frame)
  with a that show thesis by blast
qed


text \<open>Witness: two authority nodes with the same genesis; the second takes the first block of the first.\<close>

definition toy_config :: Config where
  "toy_config = empty_config\<lparr>CfgValidators := [val0], BlockTimeMS := 5000\<rparr>"

definition toy_node :: "Chain \<Rightarrow> Node" where
  "toy_node c = \<lparr>cfg = toy_config, nid = kp0,
     srv = NewServer (NewPeerstore \<lparr>PeerID = [1], Control = [2], ShardURL = [3]\<rparr>) [] c (NewPool 10) False,
     stateFile = None, bloomFile = None\<rparr>"

definition silent :: net where
  "silent = \<lparr>nHead = \<lambda>_. None, nHeaders = \<lambda>_ _. None, nSnapshot = \<lambda>_. None, nHello = \<lambda>_ _. None, nShard = \<lambda>_ _ _. None,
     nProve = \<lambda>_ _ _ _. None, nSeeds = []\<rparr>"

definition toy_round :: "64 word \<Rightarrow> bool" where
  "toy_round t =
     (case Genesis toyE [([9], 1000)] val0 None node0 of
        Some (c, Ok g) \<Rightarrow>
          (case maybeProduce toyE silent [] t t 0 (toy_node c) of
             Some (_, Ok (Some (b, _))) \<Rightarrow>
               fits (Hdr g) \<and> fits (Hdr b) \<and> ID toyH (Hdr g) \<noteq> ID toyH (Hdr b) \<and> Height (Hdr b) = 1 \<and> Timestamp (chead c) = 100 \<and>
               blockTime c = 5 \<and> writable (cstore c) \<and> cbloom c = None \<and> fst (Best (tree c)) = ID toyH (chead c) \<and>
               HeightOf (tree c) (ID toyH (Hdr b)) = None \<and> Timestamp (Hdr b) = t \<and>
               (case engine c of AuthorityEngine a \<Rightarrow> a = NewAuthority [val0] val0 | _ \<Rightarrow> False)
           | _ \<Rightarrow> False)
      | _ \<Rightarrow> False)"


lemma toy_round_early: "toy_round 50"
  by code_simp

lemma toy_roundE:
  assumes "toy_round t"
  obtains c g n' b out where "Genesis toyE [([9], 1000)] val0 None node0 = Some (c, Ok g)"
    "maybeProduce toyE silent [] t t 0 (toy_node c) = Some (n', Ok (Some (b, out)))"
    "Height (Hdr b) = 1" "Timestamp (chead c) = 100" "fst (Best (tree c)) = ID (eH toyE) (chead c)" "HeightOf (tree c) (ID (eH toyE) (Hdr b)) = None"
    "writable (cstore c)" "bloom_ok c" "signs toyE kp0" "wired toyE (toy_node c)" "good toyE {Hdr g, Hdr b}" "chain_inv toyE {Hdr g, Hdr b} c"
proof -
  note run = assms [unfolded toy_round_def]
  obtain c x where gx: "Genesis toyE [([9], 1000)] val0 None node0 = Some (c, x)"
    using run by (cases "Genesis toyE [([9], 1000)] val0 None node0") auto
  obtain g where x: "x = Ok g" using run gx by (cases x) auto
  obtain n' y where my: "maybeProduce toyE silent [] t t 0 (toy_node c) = Some (n', y)"
    using run gx x by (cases "maybeProduce toyE silent [] t t 0 (toy_node c)") auto
  obtain b out where y: "y = Ok (Some (b, out))" using run gx x my by (cases y) (auto split: option.splits)
  have g: "Genesis toyE [([9], 1000)] val0 None node0 = Some (c, Ok g)"
    and m: "maybeProduce toyE silent [] t t 0 (toy_node c) = Some (n', Ok (Some (b, out)))"
    and f: "fits (Hdr g)" "fits (Hdr b)" "ID toyH (Hdr g) \<noteq> ID toyH (Hdr b)" "Height (Hdr b) = 1" "Timestamp (chead c) = 100"
      "fst (Best (tree c)) = ID toyH (chead c)" "HeightOf (tree c) (ID toyH (Hdr b)) = None" "writable (cstore c)" "cbloom c = None"
      "blockTime c = 5" "case engine c of AuthorityEngine a \<Rightarrow> a = NewAuthority [val0] val0 | _ \<Rightarrow> False"
    using run gx x my y by simp_all
  have E: "eH toyE = toyH" by (simp add: toyE_def)
  have "signs toyE kp0" by (simp add: signs_def toyE_def kp0_def PublicKeySize_def)
  moreover have "wired toyE (toy_node c)"
    using f(10,11) by (auto simp: wired_def toy_node_def NewServer_def toy_config_def node_engine_def empty_config_def E val0_def [symmetric]
      block_secs_def postorage_def ascii_def split: Engine.splits)
  moreover have "chain_inv toyE {Hdr g, Hdr b} c" by (rule Genesis_inv [OF g node0_fresh]) simp
  ultimately show thesis using that g m f good_pair [OF f(1-3)] by (simp add: E bloom_ok_def)
qed


section \<open>A head from the future\<close>

lemma round_zero: "0 \<le> sint t \<Longrightarrow> sint t < sint (Timestamp h) \<Longrightarrow> round_at t c h = 0"
proof -
  assume a: "0 \<le> sint t" "sint t < sint (Timestamp h)"
  have "sint (t - Timestamp h) = sint t - sint (Timestamp h)"
  proof -
    have "sint (word_of_int (sint t - sint (Timestamp h)) :: 64 word) = sint t - sint (Timestamp h)"
      using a sint_lt [of "Timestamp h"] by (intro sint_of_int_small) simp_all
    then show ?thesis by simp
  qed
  with a show ?thesis by (simp add: round_at_def Let_def)
qed

text \<open>
  C35. A head from the future stops the honest producers: when the head carries a timestamp after the producer's clock, the production round
  still makes a block and moves the producer's own head to it, but every node that agrees with the producer refuses the block with
  \<open>ErrBadRound\<close>, keeps its head, and counts a strike against the sender.
\<close>

theorem future_head_strikes:
  assumes made: "maybeProduce E N order t1 t2 now n = Some (n', Ok (Some (b, out)))" and sig: "signs E (nid n)"
    and net: "wired E n" "wired E m" "in_sync n m"
    and clocks: "0 \<le> sint t1" "sint t1 < sint (Timestamp (chead (schain (srv n))))" "sint t2 < sint (Timestamp (chead (schain (srv n))))"
    and chain: "good E HS" "chain_inv E HS (schain (srv m))" "HeightOf (tree (schain (srv m))) (ID (eH E) (Hdr b)) = None" and ip: "ip \<noteq> []"
  shows "chead (schain (srv n')) = Hdr b \<and>
    (\<exists>sv rep. handle_gossip_block E unix now' ip b (srv m) = Some (sv, rep) \<and> rep \<in> {Conflict ErrBadRound, Forbidden} \<and>
       chead (schain sv) = chead (schain (srv m)) \<and> cstate (schain sv) = cstate (schain (srv m)) \<and>
       count_of (bans sv) ip = count_of (bans (srv m)) ip + 1)"
proof -
  let ?n = "schain (srv n)" and ?d = "live (srv m)" and ?r = "round_at t1 (cfg n) (chead (schain (srv n)))"
  obtain c ss txs where can: "EngineCanProduce E (engine ?n) (cstate ?n) (Height (chead ?n) + 1) (ID (eH E) (chead ?n)) ?r"
    and p: "ProduceBlock E t2 txs (nid n) ?r (live (srv n)) = Some (c, Ok (b, ss))" and c: "schain (srv n') = c"
    by (rule maybeProduce_Some [OF made])
  have au: "EngineAuthorize E (engine ?d) (cstate ?d) (Hdr b) = None"
    using same_network_authorizes [OF p _ sig, of "cfg n" "cfg m" "Address (eH E) (nid m)"] can net by (simp add: wired_def in_sync_def)
  obtain c2 where pr: "Height (Hdr b) = Height (chead (live (srv n))) + 1" "PrevHash (Hdr b) = ID (eH E) (chead (live (srv n)))"
      "Round (Hdr b) = ?r" "Timestamp (Hdr b) = t2" "MerkleRoot (Hdr b) = MerkleRootOf (eH E) (Txs b)" "BodyHash (Hdr b) = BodyHashOf (eH E) (Body b)"
      "advanceFinality E (recordBlock E b (c2\<lparr>chead := Hdr b\<rparr>)) = Some (c, Ok ())"
    by (rule ProduceBlock_Ok [OF p]) blast
  have hc: "chead c = Hdr b" using advanceFinality_run [OF pr(7)] by simp
  have d: "hasGen ?d" "chead ?d = chead (live (srv n))" using chain(2) net(3) by (simp_all add: chain_inv_def in_sync_def)
  have early: "\<not> sint (Timestamp (chead ?d) + ucast (Round (Hdr b)) * blockTime ?d) \<le> sint (Timestamp (Hdr b))"
    using round_zero [OF clocks(1,2)] clocks(3) d(2) pr(3,4) by simp
  from chain(2) obtain q where q: "known (schain (srv m)) (ID (eH E) (chead (schain (srv m)))) = Some q" by (auto simp: chain_inv_def)
  have hq: "Hdr q \<in> HS" "ID (eH E) (Hdr q) = ID (eH E) (chead (schain (srv m)))" "chead (schain (srv m)) \<in> HS"
    using chain(2) q by (auto simp: chain_inv_def keyed_def)
  then have sq: "Height (Hdr q) = Height (chead ?d)" "Timestamp (Hdr q) = Timestamp (chead ?d)"
    using ID_inject [OF chain(1) hq(1,3)] ID_inject_time [OF chain(1) hq(1,3)] by auto
  have kd: "known ?d = known (schain (srv m))" using core_live [of "srv m"] by (simp add: core_same_def)
  obtain d0 where d0: "block_at (PrevHash (Hdr b)) ?d = (d0, Some q)" "fc ?d d0"
    using block_at_known [of "PrevHash (Hdr b)" ?d] q pr(2) d(2) kd by (cases "block_at (PrevHash (Hdr b)) ?d") auto
  have f0: "blockTime d0 = blockTime ?d" using d0(2) by (auto simp: fc_def)
  have "\<exists>d1. (if reorg (srv m) then AcceptBlock E b ?d else ApplyExternalBlock E unix b ?d) = throw ErrBadRound d1 \<and>
      chead d1 = chead ?d \<and> cstate d1 = cstate ?d"
    using chain(3) d pr au early sq d0 f0 fc_frame [OF d0(2)] by (simp add: AcceptBlock_def ApplyExternalBlock_def Let_def)
  then obtain d1 where d1: "(if reorg (srv m) then AcceptBlock E b ?d else ApplyExternalBlock E unix b ?d) = throw ErrBadRound d1"
    "chead d1 = chead ?d" "cstate d1 = cstate ?d" by blast
  have "count_of (bans (fst (strike now' ip ((srv m)\<lparr>schain := d1\<rparr>)))) ip = count_of (bans (srv m)) ip + 1"
    using count_Strike [OF ip, of now' "bans (srv m)"] by (cases "Strike now' ip (bans (srv m))") (simp add: strike_def)
  with d1 hc c show ?thesis
    using strike_frame(2) [of now' ip "(srv m)\<lparr>schain := d1\<rparr>"]
    by (cases "strike now' ip ((srv m)\<lparr>schain := d1\<rparr>)") (auto simp: handle_gossip_block_def IsForgery_def Let_def)
qed

text \<open>Witness: the genesis block is stamped 100 and the producer's clock says 50.\<close>

theorem future_head_strikes_witness:
  "\<exists>c n' b out sv rep. maybeProduce toyE silent [] 50 50 0 (toy_node c) = Some (n', Ok (Some (b, out))) \<and>
     handle_gossip_block toyE 51 0 [8] b (srv (toy_node c)) = Some (sv, rep) \<and> count_of (bans sv) [8] = 1"
proof -
  obtain c n' b out and g :: Block where h: "maybeProduce toyE silent [] 50 50 0 (toy_node c) = Some (n', Ok (Some (b, out)))"
    "Timestamp (chead c) = 100" "HeightOf (tree c) (ID (eH toyE) (Hdr b)) = None"
    "signs toyE kp0" "wired toyE (toy_node c)" "good toyE {Hdr g, Hdr b}" "chain_inv toyE {Hdr g, Hdr b} c"
    by (rule toy_roundE [OF toy_round_early]) blast
  have s: "schain (srv (toy_node c)) = c" "nid (toy_node c) = kp0" "count_of (bans (srv (toy_node c))) [8] = 0"
    by (simp_all add: toy_node_def NewServer_def NewBanlist_def count_of_def)
  have sy: "in_sync (toy_node c) (toy_node c)" by (simp add: in_sync_def)
  have "chead (schain (srv n')) = Hdr b \<and>
    (\<exists>sv rep. handle_gossip_block toyE 51 0 [8] b (srv (toy_node c)) = Some (sv, rep) \<and> rep \<in> {Conflict ErrBadRound, Forbidden} \<and>
       chead (schain sv) = chead (schain (srv (toy_node c))) \<and> cstate (schain sv) = cstate (schain (srv (toy_node c))) \<and>
       count_of (bans sv) [8] = count_of (bans (srv (toy_node c))) [8] + 1)"
    by (rule future_head_strikes [OF h(1) _ h(5,5) sy, of "{Hdr g, Hdr b}"]) (use h s in simp_all)
  then obtain sv rep where "handle_gossip_block toyE 51 0 [8] b (srv (toy_node c)) = Some (sv, rep)" "count_of (bans sv) [8] = 1"
    using s(3) by auto
  with h(1) show ?thesis by blast
qed

end
