(* ===== verification/SL_Daemon.thy ===== *)
theory SL_Daemon
  imports SL_Gossip
begin

text \<open>
  The storage proofs a node submits, and what a late joiner can follow.
\<close>

section \<open>Storage proofs\<close>

text \<open>The storage rules \<open>NewNode\<close> installs.\<close>

definition storage_rules :: "State \<Rightarrow> bool" where
  "storage_rules s \<longleftrightarrow> StorageWindow s = pStorageWindow Mainnet \<and> StorageMinDepth s = pStorageMinDepth Mainnet \<and>
     ShardAt s \<noteq> None \<and> ShardProofOK s \<noteq> None"

lemma NewNode_storage_rules: "storage_rules (cstate (schain (srv (NewNode E c files loaded kp bf))))"
  by (simp add: storage_rules_def NewNode_def Let_def NewServer_def SetStorageProof_def)

text \<open>The shard set stored for a height commits to a body, and no forged shard of it is at hand.\<close>

definition backed :: "ext \<Rightarrow> net \<Rightarrow> Server \<Rightarrow> u64 \<Rightarrow> bool" where
  "backed E N sv h \<longleftrightarrow>
     (\<forall>hdr ss. GetHeader (cstore (schain sv)) h = Some (hdr, ss) \<longrightarrow>
        (\<exists>body shards. BuildShardSet (eH E) (eRS E) (ID (eH E) hdr) body (SetSpec ss) = Ok (shards, ss) \<and> length body < 2 ^ 32 \<and>
           rs_code E (unat (K (SetSpec ss))) (unat (M (SetSpec ss))) (padded_payload (unat (K (SetSpec ss))) body) \<and>
           committed (eH E) N (ID (eH E) hdr) ss shards sv))"

lemma reconstruct_net_body:
  assumes "BuildShardSet (eH E) (eRS E) i body (SetSpec ss) = Ok (shards, ss)" "length body < 2 ^ 32"
    and "rs_code E (unat (K (SetSpec ss))) (unat (M (SetSpec ss))) (padded_payload (unat (K (SetSpec ss))) body)"
    and "committed (eH E) N i ss shards sv" "gomap (shardfiles (cstore (schain sv)))"
  shows "snd (reconstruct_net E N now i ss sv) \<in> {Ok body, Err ErrReconstruct}"
proof -
  obtain svs where svs: "snd (reconstruct_net E N now i ss sv) = reconstructShards E ((schain sv)\<lparr>source := Some (asked E N now svs)\<rparr>) i ss"
    using reconstruct_pure by blast
  have "\<exists>url. nShard N url i (int n) = Some x" if "asked E N now svs i (int n) ss = Some x" for n x
    using that fetched_from by (auto simp: asked_def FetchShard_def Let_def)
  then have "no_forged E ((schain sv)\<lparr>source := Some (asked E N now svs)\<rparr>) i ss shards"
    using assms(4) by (auto simp: no_forged_def committed_def)
  then show ?thesis using reconstruct_body [OF assms(1,3,2), of "(schain sv)\<lparr>source := Some (asked E N now svs)\<rparr>"] assms(5) svs by auto
qed

lemma ShardBytes_net_verifies:
  assumes "ShardBytes_net E N now h n sv = (sv', Ok (Some d))" "GetHeader (cstore (schain sv)) h = Some (hdr, ss)"
    and "backed E N sv h" "gomap (shardfiles (cstore (schain sv)))"
  shows "VerifyShard (eH E) ss n d"
proof -
  let ?i = "ID (eH E) hdr"
  from assms(1,2) have n: "0 \<le> n" "n < Total (SetSpec ss)" by (auto simp: ShardBytes_net_def split: if_splits)
  have "VerifyShard (eH E) ss n d" if r: "rebuilt_net E N now ?i ss n sv = (sv', Ok (Some d))"
  proof -
    from assms(2,3) obtain body shards where b: "BuildShardSet (eH E) (eRS E) ?i body (SetSpec ss) = Ok (shards, ss)" "length body < 2 ^ 32"
      "rs_code E (unat (K (SetSpec ss))) (unat (M (SetSpec ss))) (padded_payload (unat (K (SetSpec ss))) body)"
      "committed (eH E) N ?i ss shards sv" unfolding backed_def by blast
    obtain sv1 x where x: "reconstruct_net E N now ?i ss sv = (sv1, x)" by fastforce
    with reconstruct_net_body [OF b assms(4), of now] r have "x = Ok body" by (auto simp: rebuilt_net_def)
    moreover obtain pl ol where "EncodeShards (eRS E) body (SetSpec ss) = Ok (shards, pl, ol)" using b(1) by (auto simp: BuildShardSet_def)
    ultimately have d: "d = shards ! nat n" "nat n < length shards" using r x n by (auto simp: rebuilt_net_def split: if_splits)
    show ?thesis using VerifyShard_own [OF b(1) d(2)] n d by simp
  qed
  with assms(1,2) n show ?thesis by (auto simp: ShardBytes_net_def Let_def split: option.splits if_splits)
qed


lemma reconstruct_net_frame:
  "peers (fst (reconstruct_net E N now i ss sv)) = peers sv" "schain (fst (reconstruct_net E N now i ss sv)) = schain sv"
  using reconstruct_pure [of E N now i ss sv] by (auto simp: calm_def)

lemma ShardBytes_net_frame:
  "peers (fst (ShardBytes_net E N now h n sv)) = peers sv" "schain (fst (ShardBytes_net E N now h n sv)) = schain sv"
  using reconstruct_net_frame by (simp_all add: ShardBytes_net_def rebuilt_net_def Let_def split: option.splits prod.splits) (metis fst_conv)+

lemma storage_target:
  fixes h :: u64
  assumes "unat h + 256 < 2 ^ 64" "5 < h"
  shows "\<not> h + 1 \<le> h - 5" "\<not> h - 5 + 256 < h + 1" "\<not> h + 1 - (h - 5) < 4"
proof -
  have "unat (5 :: u64) < unat h" using assms(2) by (simp only: word_less_nat_alt)
  then have u: "unat (h - 5) = unat h - 5" "5 < unat h" using assms(2) by (simp_all add: unat_sub)
  have "unat (h + 1) = unat h + 1" "unat (h - 5 + 256) = unat h + 251" using assms(1) u by (simp_all add: unat_word_ariths)
  then show "\<not> h + 1 \<le> h - 5" "\<not> h - 5 + 256 < h + 1" using u by (simp_all add: word_le_nat_alt word_less_nat_alt)
  show "\<not> h + 1 - (h - 5) < 4" by simp
qed

lemma maybeProveStorage_Some:
  assumes "maybeProveStorage E N now n = (n', Ok (Some (tx, out)))"
  obtains blockID tot shard sv1 p where
    "EngineIsValidator (engine (schain (srv n))) (cstate (schain (srv n)))" "CfgConsensus (cfg n) = postorage"
    "5 < Height (chead (schain (srv n)))"
    "ChainShardAt (eH E) (cstore (schain (srv n))) (Height (chead (schain (srv n))) - 5) = Some (blockID, tot)" "0 < tot"
    "ShardBytes_net E N now (Height (chead (schain (srv n))) - 5)
       (uint ((be_get (take 8 (eH E (Address (eH E) (nid n) @ blockID))) :: u64) mod word_of_int tot)) (srv n) = (sv1, Ok (Some shard))"
    "tx = proof_tx E (nid n) (Height (chead (schain (srv n))) - 5) shard (AcctNonce (Get (cstate (schain (srv n))) (Address (eH E) (nid n))))"
    "Submit (eH E) (eV E) (cstate (schain (srv n))) tx (spool sv1) = Ok p"
    "n' = n\<lparr>srv := fst (Broadcast now (sv1\<lparr>spool := p\<rparr>))\<rparr>"
  using assms
  by (auto simp: maybeProveStorage_def Let_def Head_def Mainnet_def not_le split: if_splits option.splits prod.splits result.splits)


lemma self_is_validator:
  assumes "wired E n" "CfgConsensus (cfg n) = postorage" "EngineIsValidator (engine (schain (srv n))) (cstate (schain (srv n)))"
    and "gomap (Validators (cstate (schain (srv n))))"
  obtains v where "map_of (Validators (cstate (schain (srv n)))) (Address (eH E) (nid n)) = Some v" "Active v"
proof -
  have "Address (eH E) (nid n) \<in> set (ActiveValidators (cstate (schain (srv n))))"
    using assms(1-3) by (simp add: wired_def node_engine_def EngineIsValidator_def IsValidator_def SetWeights_def NewPoStorage_def)
  then obtain v where "(Address (eH E) (nid n), v) \<in> set (Validators (cstate (schain (srv n))))" "Active v"
    by (auto simp: ActiveValidators_def)
  with that assms(4) show thesis by (simp add: gomap_def)
qed

lemma CheckTx_rebind: "CheckTx H V (rebind E files s) t = CheckTx H V s t"
proof -
  have g: "Get (rebind E files s) a = Get s a" for a by (simp add: Get_def rebind_def)
  show ?thesis unfolding CheckTx_def g by (simp add: rebind_def)
qed

lemma config_storage:
  assumes "config a = config b"
  shows "ShardAt a = ShardAt b" "ShardProofOK a = ShardProofOK b" "StorageWindow a = StorageWindow b"
    "StorageMinDepth a = StorageMinDepth b" "StorageCap a = StorageCap b"
  using arg_cong [OF assms, of ShardAt] arg_cong [OF assms, of ShardProofOK] arg_cong [OF assms, of StorageWindow]
    arg_cong [OF assms, of StorageMinDepth] arg_cong [OF assms, of StorageCap]
  by (simp_all add: config_def)

lemma proof_tx_sel:
  "From (proof_tx E kp target shard nonce) = Address (eH E) kp" "Kind (proof_tx E kp target shard nonce) = KindStorageProof"
  "Data (proof_tx E kp target shard nonce) = put_u64 target @ shard"
  by (simp_all add: proof_tx_def SignTx_def Let_def)

text \<open>
  C9. A storage proof counts: whatever a validator's proving round submits is accepted by the next block of that validator's chain, and
  raises the proven-storage score of its record by one up to the cap.  The shard may have been rebuilt from shards of other
  nodes; that the stored shard set is the one of a body and that no other bytes with a committed hash are at hand are
  assumed of the network, and so is a shard code that recovers the body from any \<open>K\<close> shards.
\<close>

theorem storage_proof_accepted:
  assumes made: "maybeProveStorage E N now n = (n', Ok (Some (tx, out)))" and net: "wired E n"
    and st: "storage_rules (cstate (schain (srv n)))" "gomap (Validators (cstate (schain (srv n))))"
    and files: "backed E N (srv n) (Height (chead (schain (srv n))) - 5)" "gomap (shardfiles (cstore (schain (srv n))))"
    and height: "unat (Height (chead (schain (srv n)))) + 256 < 2 ^ 64"
  shows "\<exists>v x. map_of (Validators (cstate (schain (srv n)))) (Address (eH E) (nid n)) = Some v \<and>
    apply_tx (eH E) (eV E) (eJ E) (Height (chead (schain (srv n))) + 1) i tx
      (start (rebind E (cstore (schain (srv n))) (cstate (schain (srv n))))) = (x, Ok ()) \<and>
    map_of (Validators (cur x)) (Address (eH E) (nid n)) =
      Some (proved (StorageCap (cstate (schain (srv n)))) (Height (chead (schain (srv n))) + 1) v) \<and>
    schain (srv n') = schain (srv n) \<and> map_of (byID (spool (srv n'))) (TxHash (eH E) tx) = Some tx"
proof -
  let ?c = "schain (srv n)" and ?self = "Address (eH E) (nid n)" and ?h = "Height (chead (schain (srv n)))"
  obtain blockID tot shard sv1 p where val: "EngineIsValidator (engine ?c) (cstate ?c)" "CfgConsensus (cfg n) = postorage" and h: "5 < ?h"
    and at: "ChainShardAt (eH E) (cstore ?c) (?h - 5) = Some (blockID, tot)" "0 < tot"
    and sb: "ShardBytes_net E N now (?h - 5) (uint ((be_get (take 8 (eH E (?self @ blockID))) :: u64) mod word_of_int tot)) (srv n) = (sv1, Ok (Some shard))"
    and tx: "tx = proof_tx E (nid n) (?h - 5) shard (AcctNonce (Get (cstate ?c) ?self))"
    and sub: "Submit (eH E) (eV E) (cstate ?c) tx (spool sv1) = Ok p" and n': "n' = n\<lparr>srv := fst (Broadcast now (sv1\<lparr>spool := p\<rparr>))\<rparr>"
    by (rule maybeProveStorage_Some [OF made])
  obtain v where v: "map_of (Validators (cstate ?c)) ?self = Some v" "Active v" by (rule self_is_validator [OF net val(2,1) st(2)])
  obtain hdr ss where gh: "GetHeader (cstore ?c) (?h - 5) = Some (hdr, ss)" "blockID = ID (eH E) hdr" "tot = Total (SetSpec ss)"
    using at(1) by (auto simp: ChainShardAt_def)
  have ok: "VerifyShard (eH E) ss (uint ((be_get (take 8 (eH E (?self @ blockID))) :: u64) mod word_of_int tot)) shard"
    by (rule ShardBytes_net_verifies [OF sb gh(1) files])
  have "CheckTx (eH E) (eV E) (cstate ?c) tx = None" using sub by (simp add: Submit_def split: option.splits)
  then have "CheckTx (eH E) (eV E) (rebind E (cstore ?c) (cstate ?c)) tx = None" by (simp add: CheckTx_rebind)
  then obtain y where y: "admit (eH E) (eV E) tx (start (rebind E (cstore ?c) (cstate ?c))) = (y, Ok ())"
    using admit_iff_CheckTx [of "eH E" "eV E" tx "rebind E (cstore ?c) (cstate ?c)"]
    by (cases "admit (eH E) (eV E) tx (start (rebind E (cstore ?c) (cstate ?c)))") auto
  have ys: "Validators (cur y) = Validators (cstate ?c)" "ShardAt (cur y) = Some (ChainShardAt (eH E) (cstore ?c))"
    "ShardProofOK (cur y) = Some (ChainShardProofOK (eH E) (cstore ?c))" "StorageWindow (cur y) = 256" "StorageMinDepth (cur y) = 4"
    "StorageCap (cur y) = StorageCap (cstate ?c)"
  proof -
    have "config (cur y) = config (rebind E (cstore ?c) (cstate ?c))" "Validators (cur y) = Validators (rebind E (cstore ?c) (cstate ?c))"
      using admit_frame [of "eH E" "eV E" tx "start (rebind E (cstore ?c) (cstate ?c))"] y by (simp_all add: start_def)
    with config_storage [OF this(1)] st(1) show "Validators (cur y) = Validators (cstate ?c)" "ShardAt (cur y) = Some (ChainShardAt (eH E) (cstore ?c))"
      "ShardProofOK (cur y) = Some (ChainShardProofOK (eH E) (cstore ?c))" "StorageWindow (cur y) = 256" "StorageMinDepth (cur y) = 4"
      "StorageCap (cur y) = StorageCap (cstate ?c)"
      by (auto simp: rebind_def storage_rules_def Mainnet_def)
  qed
  have "dispatch (eH E) (eV E) (eJ E) (?h + 1) i tx y = fine (on_state (\<lambda>s. s\<lparr>Validators := AList.update ?self (proved (StorageCap (cstate ?c)) (?h + 1) v) (Validators s)\<rparr>) y)"
    using storage_target [OF height h] v at ok gh
    by (simp add: dispatch_def tx_storage_proof_def Let_def ys tx proof_tx_sel ChainShardProofOK_def Kind_defs)
  then have "apply_tx (eH E) (eV E) (eJ E) (?h + 1) i tx (start (rebind E (cstore ?c) (cstate ?c))) = fine (on_state (\<lambda>s. s\<lparr>Validators := AList.update ?self (proved (StorageCap (cstate ?c)) (?h + 1) v) (Validators s)\<rparr>) y)"
    by (simp add: apply_tx_def y)
  moreover have "schain (srv n') = ?c" "spool (srv n') = p"
    using ShardBytes_net_frame [of E N now] sb by (simp_all add: n' Broadcast_def send_all_frame) (metis fst_conv)
  moreover have "map_of (byID p) (TxHash (eH E) tx) = Some tx" using sub by (auto simp: Submit_def update_conv split: option.splits if_splits)
  ultimately show ?thesis using v by (auto simp: on_state_def update_conv)
qed


text \<open>Witness: a node six blocks high proves the shard of block 1 it is assigned, from its own files.\<close>

definition toy_record :: ValidatorRec where
  "toy_record = \<lparr>Bond = 1, Active = True, Since = 0, Slashed = False, StorageScore = 3, LastProofAt = 0\<rparr>"

definition proving_files :: "bytes list \<Rightarrow> ShardSet \<Rightarrow> Store" where
  "proving_files shards ss =
     OpenStore\<lparr>hdrs := [(6, ((Hdr empty_block)\<lparr>Height := 6\<rparr>, ss)), (1, (Hdr empty_block, ss)), (0, (Hdr empty_block, ss))],
       shardfiles := [((ID toyH (Hdr empty_block), 0), shards ! 0), ((ID toyH (Hdr empty_block), 1), shards ! 1),
         ((ID toyH (Hdr empty_block), 2), shards ! 2)]\<rparr>"

definition proving_node :: "bytes list \<Rightarrow> ShardSet \<Rightarrow> Node" where
  "proving_node shards ss =
     NewNode toyE (toy_config\<lparr>CfgConsensus := postorage\<rparr>) (proving_files shards ss) (Some (New\<lparr>Validators := [(val0, toy_record)]\<rparr>)) kp0 None"

definition empty_shards :: "(bytes list \<times> ShardSet) option" where
  "empty_shards =
     (case BuildShardSet toyH raid (ID toyH (Hdr empty_block)) (Body empty_block) (Spec (Hdr empty_block)) of Ok x \<Rightarrow> Some x | _ \<Rightarrow> None)"

lemma toy_proves:
  "case empty_shards of None \<Rightarrow> False
   | Some (shards, ss) \<Rightarrow>
       length shards = 3 \<and> SetSpec ss = \<lparr>K = 2, M = 1\<rparr> \<and>
       (case maybeProveStorage toyE silent 0 (proving_node shards ss) of (_, Ok (Some _)) \<Rightarrow> True | _ \<Rightarrow> False) \<and>
       Height (chead (schain (srv (proving_node shards ss)))) = 6"
  by code_simp


lemma NewChain_store: "cstore (NewChain E files s eng bf self mem bt gt fd) = files"
  by (simp add: NewChain_def Let_def loadReplayBase_def split: option.split prod.split)

lemma NewNode_sel:
  "cstore (schain (srv (NewNode E c files loaded kp bf))) = files" "nid (NewNode E c files loaded kp bf) = kp"
  "Validators (cstate (schain (srv (NewNode E c files (Some s) kp bf)))) = Validators s"
  "StorageCap (cstate (schain (srv (NewNode E c files loaded kp bf)))) = pStorageCap Mainnet"
  by (simp_all add: NewNode_def Let_def NewServer_def NewChain_sel NewChain_store SetStorageProof_def SetFaucet_def SetRegPoWBits_def SetChainID_def)

lemma proving_node_sel:
  "cstore (schain (srv (proving_node shards ss))) = proving_files shards ss" "nid (proving_node shards ss) = kp0"
  "Validators (cstate (schain (srv (proving_node shards ss)))) = [(val0, toy_record)]"
  "StorageCap (cstate (schain (srv (proving_node shards ss)))) = 64"
  by (simp_all add: proving_node_def NewNode_sel Mainnet_def)

lemma empty_backed:
  assumes "BuildShardSet toyH raid (ID toyH (Hdr empty_block)) (Body empty_block) (Spec (Hdr empty_block)) = Ok (shards, ss)"
    and "length shards = 3" "SetSpec ss = \<lparr>K = 2, M = 1\<rparr>"
  shows "backed toyE silent (srv (proving_node shards ss)) 1"
proof -
  let ?i = "ID toyH (Hdr empty_block)"
  have E: "eH toyE = toyH" "eRS toyE = raid" by (simp_all add: toyE_def)
  have spec: "Spec (Hdr empty_block) = \<lparr>K = 2, M = 1\<rparr>" and txs: "Txs empty_block = []" by (simp_all add: empty_block_def)
  have body: "Body empty_block = [0, 0, 0, 0]" unfolding Body_def txs by code_simp
  have pl: "padded_payload 2 [0, 0, 0, 0] = [0, 0, 0, 4, 0, 0, 0, 0]" by code_simp
  have "committed toyH silent ?i ss shards (srv (proving_node shards ss))"
    by (auto simp: committed_def silent_def GetShard_def proving_node_sel proving_files_def assms(2) less_Suc_eq numeral_3_eq_3 numeral_2_eq_2)
  moreover have "rs_code toyE 2 1 (padded_payload 2 (Body empty_block))" unfolding body pl by (rule raid_code) simp
  ultimately show ?thesis using assms
    by (auto simp: backed_def E proving_node_sel proving_files_def GetHeader_def spec intro!: exI [of _ "Body empty_block"] exI [of _ shards] simp: body)
qed

theorem storage_proof_accepted_witness:
  "\<exists>shards ss n' tx out x. maybeProveStorage toyE silent 0 (proving_node shards ss) = (n', Ok (Some (tx, out))) \<and>
     apply_tx toyH (eV toyE) (eJ toyE) 7 0 tx (start (rebind toyE (proving_files shards ss) (cstate (schain (srv (proving_node shards ss)))))) = (x, Ok ()) \<and>
     map_option StorageScore (map_of (Validators (cur x)) val0) = Some 4"
proof -
  obtain shards ss where sh: "empty_shards = Some (shards, ss)" using toy_proves by (auto split: option.splits)
  let ?n = "proving_node shards ss" and ?c = "schain (srv (proving_node shards ss))"
  have b: "BuildShardSet toyH raid (ID toyH (Hdr empty_block)) (Body empty_block) (Spec (Hdr empty_block)) = Ok (shards, ss)"
    using sh by (simp add: empty_shards_def split: result.splits)
  have l: "length shards = 3" "SetSpec ss = \<lparr>K = 2, M = 1\<rparr>" and h: "Height (chead ?c) = 6"
    and mp: "case maybeProveStorage toyE silent 0 ?n of (_, Ok (Some _)) \<Rightarrow> True | _ \<Rightarrow> False"
    using toy_proves by (simp_all add: sh)
  obtain n' tx out where m: "maybeProveStorage toyE silent 0 ?n = (n', Ok (Some (tx, out)))"
    using mp by (auto split: prod.splits result.splits option.splits)
  have w: "wired toyE ?n" unfolding proving_node_def by (rule NewNode_wired) (simp add: toy_config_def)
  have r: "storage_rules (cstate ?c)" unfolding proving_node_def by (rule NewNode_storage_rules)
  have E: "eH toyE = toyH" "Address toyH kp0 = val0" by (simp_all add: toyE_def val0_def)
  have g: "gomap (Validators (cstate ?c))" "gomap (shardfiles (cstore ?c))" by (simp_all add: proving_node_sel proving_files_def gomap_def)
  have bk: "backed toyE silent (srv ?n) (Height (chead ?c) - 5)" using empty_backed [OF b l] by (simp add: h)
  obtain v x where a: "map_of (Validators (cstate ?c)) (Address (eH toyE) (nid ?n)) = Some v"
    "apply_tx (eH toyE) (eV toyE) (eJ toyE) (Height (chead ?c) + 1) 0 tx (start (rebind toyE (cstore ?c) (cstate ?c))) = (x, Ok ())"
    "map_of (Validators (cur x)) (Address (eH toyE) (nid ?n)) = Some (proved (StorageCap (cstate ?c)) (Height (chead ?c) + 1) v)"
    using storage_proof_accepted [OF m w r g(1) bk g(2), of 0] h by auto
  have "v = toy_record" using a(1) by (simp add: proving_node_sel E)
  with a(2,3) have "apply_tx toyH (eV toyE) (eJ toyE) 7 0 tx (start (rebind toyE (proving_files shards ss) (cstate ?c))) = (x, Ok ())"
    "map_option StorageScore (map_of (Validators (cur x)) val0) = Some 4"
    by (simp_all add: h proving_node_sel E proved_def toy_record_def)
  with m show ?thesis by blast
qed


section \<open>Late joiners\<close>

lemma same_files: "\<exists>files. c = c\<lparr>cstore := files\<rparr>" for c :: Chain
  by (rule exI [of _ "cstore c"]) simp

lemma install_headers_refused:
  assumes "\<exists>r\<in>set recs. EngineAuthorize E (engine c) (cstate c) (fst r) \<noteq> None"
  shows "\<exists>files e. install_headers E recs i prev c = Some (c\<lparr>cstore := files\<rparr>, Err e)"
  using assms
proof (induction recs arbitrary: i prev c)
  case (Cons r recs)
  obtain h ss where r: "r = (h, ss)" by fastforce
  obtain files w where p: "PutHeader h ss (cstore c) = (files, w)" by fastforce
  have "\<exists>files' e. install_headers E recs (Suc i) (ID (eH E) h) (c\<lparr>cstore := files\<rparr>) = Some (c\<lparr>cstore := files'\<rparr>, Err e)"
    if "EngineAuthorize E (engine c) (cstate c) h = None"
    using Cons.IH [of "c\<lparr>cstore := files\<rparr>" "Suc i" "ID (eH E) h"] Cons.prems that r by auto
  then show ?case using same_files [of c] by (auto simp: r p split: option.split bool.split)
qed simp

lemma SyncInstall_refused:
  assumes "recs = [] \<or> (\<exists>r\<in>set recs. EngineAuthorize E (engine c) (cstate c) (fst r) \<noteq> None)"
  shows "\<exists>files e. SyncInstall E recs snapshot c = Some (c\<lparr>cstore := files\<rparr>, Err e)"
proof (cases "recs = []")
  case True
  with same_files [of c] show ?thesis by (simp add: SyncInstall_def)
next
  case False
  with assms install_headers_refused [of recs E c 0 Zero] show ?thesis by (auto simp: SyncInstall_def sbind_def)
qed

text \<open>The chain of a node with other files: head, ledger, finality and block tree are kept.\<close>

definition same_view :: "Node \<Rightarrow> Node \<Rightarrow> bool" where
  "same_view n n' \<longleftrightarrow> (\<exists>files mem. schain (srv n') = (schain (srv n))\<lparr>cstore := files, members := mem\<rparr>) \<and> peers (srv n') = peers (srv n) \<and>
     reorg (srv n') = reorg (srv n) \<and> cfg n' = cfg n \<and> nid n' = nid n \<and> stateFile n' = stateFile n"

lemma same_view_refl [simp]: "same_view n n"
  unfolding same_view_def by (intro conjI refl exI [of _ "cstore (schain (srv n))"] exI [of _ "members (schain (srv n))"]) simp

lemma same_view_trans: "same_view a b \<Longrightarrow> same_view b c \<Longrightarrow> same_view a c"
  by (fastforce simp: same_view_def)

lemma stranger_refused:
  assumes "wired E n" "CfgConsensus (cfg n) = postorage" "Validator h \<notin> set (ActiveValidators (cstate (schain (srv n))))"
  shows "EngineAuthorize E (engine (schain (srv n))) (cstate (schain (srv n))) h \<noteq> None"
  using assms by (simp add: wired_def node_engine_def EngineAuthorize_def AuthorizeHeader_def SetWeights_def NewPoStorage_def split: option.split)

lemma trySync_stuck:
  assumes "wired E n" "CfgConsensus (cfg n) = postorage"
    and "\<forall>url to recs. nHeaders N url to = Some recs \<longrightarrow> recs = [] \<or> (\<exists>r\<in>set recs. Validator (fst r) \<notin> set (ActiveValidators (cstate (schain (srv n)))))"
  shows "\<exists>n'. trySync E N n = Some n' \<and> same_view n n'"
proof -
  obtain b h where f: "fold (sync_step N) (Peers (peers (srv n))) ([], 0) = (b, h)" by fastforce
  have inst: "\<exists>files e. SyncInstall E recs snapshot (live (srv n)) = Some ((live (srv n))\<lparr>cstore := files\<rparr>, Err e)"
    if "nHeaders N b h = Some recs" for recs snapshot
    using that assms(3) stranger_refused [OF assms(1,2)] by (intro SyncInstall_refused) fastforce
  have live: "same_view n (n\<lparr>srv := (srv n)\<lparr>schain := (live (srv n))\<lparr>cstore := files\<rparr>\<rparr>\<rparr>)" for files
    unfolding same_view_def by (intro conjI exI [of _ files] exI [of _ "MemberIDs (peers (srv n))"]) (simp_all add: live_def)
  let ?s = "SyncFrom E N (ChainHeight (schain (srv n))) (snd (Head (schain (srv n)))) (srv n)"
  have "?s = Some (srv n, Some 0) \<or> ?s = Some (srv n, None) \<or> (\<exists>files. ?s = Some ((srv n)\<lparr>schain := (live (srv n))\<lparr>cstore := files\<rparr>\<rparr>, None))"
  proof (cases "nHeaders N b h")
    case (Some recs)
    show ?thesis
    proof (cases "nSnapshot N b")
      case snap: (Some snapshot)
      from inst [OF Some, of snapshot] obtain files e where
        "SyncInstall E recs snapshot (live (srv n)) = Some ((live (srv n))\<lparr>cstore := files\<rparr>, Err e)" by blast
      with Some snap show ?thesis by (auto simp: SyncFrom_def f)
    qed (use Some in \<open>simp add: SyncFrom_def f\<close>)
  qed (simp add: SyncFrom_def f)
  then show ?thesis using live by (auto simp: trySync_def split: prod.splits)
qed

lemma same_view_wired: "wired E n \<Longrightarrow> same_view n n' \<Longrightarrow> wired E n' \<and> cfg n' = cfg n \<and> cstate (schain (srv n')) = cstate (schain (srv n))"
  by (auto simp: wired_def same_view_def)

definition retries :: "ext \<Rightarrow> net \<Rightarrow> nat \<Rightarrow> Node \<Rightarrow> Node option" where
  "retries E N k n = ((\<lambda>x. Option.bind x (trySync E N)) ^^ k) (Some n)"

text \<open>
  C40. A late joiner cannot follow new validators: headers are authorized against the joiner's own ledger, so when every header chain its
  peers serve holds a header of a validator that this ledger does not know as active, no number of sync rounds moves the node: head,
  ledger, finality, block tree and saved ledger stay as they were.
\<close>

theorem late_joiner_stuck:
  assumes "wired E n" "CfgConsensus (cfg n) = postorage"
    and "\<forall>url to recs. nHeaders N url to = Some recs \<longrightarrow> recs = [] \<or> (\<exists>r\<in>set recs. Validator (fst r) \<notin> set (ActiveValidators (cstate (schain (srv n)))))"
  shows "\<exists>n'. retries E N k n = Some n' \<and> chead (schain (srv n')) = chead (schain (srv n)) \<and> cstate (schain (srv n')) = cstate (schain (srv n)) \<and>
    replayBaseID (schain (srv n')) = replayBaseID (schain (srv n)) \<and> tree (schain (srv n')) = tree (schain (srv n)) \<and> stateFile n' = stateFile n"
proof -
  have "\<exists>n'. retries E N k n = Some n' \<and> same_view n n'"
  proof (induction k)
    case (Suc k)
    then obtain n1 where n1: "retries E N k n = Some n1" "same_view n n1" by blast
    note w = same_view_wired [OF assms(1) n1(2)]
    from trySync_stuck [of E n1 N] w assms(2,3) obtain n2 where "trySync E N n1 = Some n2" "same_view n1 n2" by auto
    with n1 show ?case by (auto simp: retries_def intro: same_view_trans)
  qed (simp add: retries_def)
  then show ?thesis by (auto simp: same_view_def)
qed


text \<open>Witness: the only peer is at height nine, on a chain another validator made.\<close>

definition stranger_net :: net where
  "stranger_net = silent\<lparr>nHead := \<lambda>_. Some ((Hdr empty_block)\<lparr>Height := 9\<rparr>),
     nHeaders := \<lambda>_ _. Some [(Hdr empty_block, \<lparr>SetBlockID = Zero, SetSpec = \<lparr>K = 2, M = 1\<rparr>, PaddedLen = 0, OrigLen = 0, SetShardHash = []\<rparr>)]\<rparr>"

definition joiner :: Node where
  "joiner = (let n = NewNode toyE (toy_config\<lparr>CfgConsensus := postorage\<rparr>) OpenStore (Some (New\<lparr>Validators := [(val0, toy_record)]\<rparr>)) kp0 None
     in n\<lparr>srv := fst (handle_hello peer1 (srv n))\<rparr>)"

theorem late_joiner_stuck_witness:
  "BestPeerHeight stranger_net (srv joiner) = 9 \<and> map_option (\<lambda>n. Height (chead (schain (srv n)))) (retries toyE stranger_net 5 joiner) = Some 0"
proof -
  have "wired toyE (NewNode toyE (toy_config\<lparr>CfgConsensus := postorage\<rparr>) OpenStore (Some (New\<lparr>Validators := [(val0, toy_record)]\<rparr>)) kp0 None)"
    by (rule NewNode_wired) (simp add: toy_config_def)
  then have w: "wired toyE joiner" "CfgConsensus (cfg joiner) = postorage"
    by (simp_all add: joiner_def Let_def wired_def handle_hello_def) (simp add: NewNode_def Let_def)
  have v: "ActiveValidators (cstate (schain (srv joiner))) = [val0]" "Height (chead (schain (srv joiner))) = 0"
    by code_simp+
  have ne: "val0 \<noteq> []" by code_simp
  have s: "\<forall>url to recs. nHeaders stranger_net url to = Some recs \<longrightarrow> recs = [] \<or> (\<exists>r\<in>set recs. Validator (fst r) \<notin> set (ActiveValidators (cstate (schain (srv joiner)))))"
    using ne by (auto simp: v stranger_net_def empty_block_def zero_header_def)
  obtain n' where "retries toyE stranger_net 5 joiner = Some n'" "chead (schain (srv n')) = chead (schain (srv joiner))"
    using late_joiner_stuck [OF w s, of 5] by blast
  moreover have "BestPeerHeight stranger_net (srv joiner) = 9" by code_simp
  ultimately show ?thesis by (simp add: v)
qed

end
