(* ===== verification/SL_Running.thy ===== *)
theory SL_Running
  imports SL_Daemon
begin

text \<open>
  A running node: the rounds of its loop and the requests that change it as a step relation, the invariant they keep, and finality over
  whole histories.
\<close>

section \<open>A running node\<close>

text \<open>
  The rounds of the loop and the requests that change a node, one after another, except for fast sync; \<open>HS\<close> are the headers in play.
  A request whose handler panics is a step like any other: the HTTP server drops the request and the node runs on with what the handler
  left.  A round of the loop that panics ends the process, so it is no step.
\<close>

inductive nstep :: "ext \<Rightarrow> Header set \<Rightarrow> Node \<Rightarrow> Node \<Rightarrow> bool" for E HS where
  discover: "nstep E HS n (n\<lparr>srv := fst (Discover N now order (srv n))\<rparr>)"
| hello: "nstep E HS n (n\<lparr>srv := fst (handle_hello p (srv n))\<rparr>)"
| tx: "nstep E HS n (n\<lparr>srv := fst (handle_tx E now t (srv n))\<rparr>)"
| gossip_tx: "nstep E HS n (n\<lparr>srv := fst (handle_gossip_tx E t (srv n))\<rparr>)"
| gossip_block: "banGate now ip (handle_gossip_block E unix now' ip b) (srv n) = Some (sv, rep) \<Longrightarrow> Hdr b \<in> HS
    \<Longrightarrow> no_wrap HS (Hdr b) \<Longrightarrow> nstep E HS n (n\<lparr>srv := sv\<rparr>)"
| produce: "maybeProduce E N order t1 t2 now n = Some (n', r) \<Longrightarrow> r \<noteq> Panic
    \<Longrightarrow> (\<And>b out. r = Ok (Some (b, out)) \<Longrightarrow> Hdr b \<in> HS \<and> no_wrap HS (Hdr b)) \<Longrightarrow> nstep E HS n n'"
| prove: "maybeProveStorage E N now n = (n', r) \<Longrightarrow> r \<noteq> Panic \<Longrightarrow> nstep E HS n n'"
| audit: "nstep E HS n (n\<lparr>srv := fst (AuditRound E N now rnd (srv n))\<rparr>)"
| reconstruct: "nstep E HS n (n\<lparr>srv := fst (serve_reconstruct E N now h (srv n))\<rparr>)"
| verify: "nstep E HS n (n\<lparr>srv := fst (serve_verify E N now h (srv n))\<rparr>)"
| logs: "nstep E HS n (n\<lparr>srv := fst (serve_logs E N now h (srv n))\<rparr>)"
| save: "nstep E HS n (persist n)"


inductive_cases nstep_E: "nstep E HS n n'"

text \<open>The invariant, and what a step may do: the chain evolves and the peer table learns.\<close>

definition node_inv :: "ext \<Rightarrow> Header set \<Rightarrow> Node \<Rightarrow> bool" where
  "node_inv E HS n \<longleftrightarrow> chain_inv E HS (schain (srv n)) \<and> table_ok (peers (srv n))"

definition advances :: "ext \<Rightarrow> Header set \<Rightarrow> Server \<Rightarrow> Server \<Rightarrow> bool" where
  "advances E HS sv sv' \<longleftrightarrow> chain_inv E HS (schain sv') \<and> evolves (schain sv) (schain sv') \<and> grown (peers sv) (peers sv')"

lemma advances_trans: "advances E HS a b \<Longrightarrow> advances E HS b c \<Longrightarrow> advances E HS a c"
  unfolding advances_def by (blast intro: evolves_trans grown_trans)

lemma advances_inv: "advances E HS (srv n) (srv n') \<Longrightarrow> node_inv E HS n'"
  by (auto simp: advances_def node_inv_def grown_def)

text \<open>Steps that leave the chain alone, and steps of the chain.\<close>

lemma advances_chain_kept:
  "node_inv E HS n \<Longrightarrow> schain sv' = schain (srv n) \<Longrightarrow> grown (peers (srv n)) (peers sv') \<Longrightarrow> advances E HS (srv n) sv'"
  by (simp add: advances_def node_inv_def)

lemma advances_peers_kept:
  "node_inv E HS n \<Longrightarrow> schain sv' = schain (srv n) \<Longrightarrow> peers sv' = peers (srv n) \<Longrightarrow> advances E HS (srv n) sv'"
  by (rule advances_chain_kept) (simp_all add: node_inv_def grown_refl)

lemma advances_cstep:
  assumes "node_inv E HS n" "good E HS" "cstep E HS (live (srv n)) c" "schain sv' = c" "peers sv' = peers (srv n)"
  shows "advances E HS (srv n) sv'"
proof -
  have "chain_inv E HS (live (srv n))" "evolves (schain (srv n)) (live (srv n))"
    using core_inv [OF core_live, of E HS "srv n"] assms(1) by (simp_all add: node_inv_def)
  with cstep_inv [OF assms(3,2)] have "chain_inv E HS c" "evolves (schain (srv n)) c" by (auto intro: evolves_trans)
  with assms(1,4,5) show ?thesis by (simp add: advances_def node_inv_def grown_refl)
qed

lemma advances_live:
  assumes "node_inv E HS n" "schain sv' = live (srv n)" "peers sv' = peers (srv n)"
  shows "advances E HS (srv n) sv'"
  using core_inv [OF core_live, of E HS "srv n"] assms by (simp add: advances_def node_inv_def grown_refl)

lemma audit_frame: "schain (fst (AuditRound E N now rnd sv)) = schain sv \<and> peers (fst (AuditRound E N now rnd sv)) = peers sv"
proof -
  let ?k = "\<lambda>acc. schain (fst acc) = schain sv \<and> peers (fst acc) = peers sv"
  have h: "?k (audit_holder (eH E) N now rnd i n d holder acc)" if "?k acc" for i n d holder acc
    using that by (auto simp: audit_holder_def Let_def split: prod.split)
  have hs: "?k (fold (audit_holder (eH E) N now rnd i n d) hs acc)" if "?k acc" for i n d hs acc
    using that by (induction hs arbitrary: acc) (simp_all add: h)
  have s: "?k (audit_shard (eH E) N now rnd i n acc)" if "?k acc" for i n acc
    using that hs by (auto simp: audit_shard_def Let_def split: option.split)
  have "?k (fold (audit_shard (eH E) N now rnd i) ns acc)" if "?k acc" for i ns acc
    using that by (induction ns arbitrary: acc) (simp_all add: s)
  then show ?thesis by (simp add: AuditRound_def Let_def)
qed

lemma Broadcast_frame [simp]:
  "schain (fst (Broadcast now sv)) = schain sv" "peers (fst (Broadcast now sv)) = peers sv" "spool (fst (Broadcast now sv)) = spool sv"
  by (simp_all add: Broadcast_def send_all_frame)

lemma handle_tx_frame: "schain (fst (handle_tx E now t sv)) = schain sv \<and> peers (fst (handle_tx E now t sv)) = peers sv"
proof (cases "Submit (eH E) (eV E) (cstate (schain sv)) t (spool sv)")
  case (Ok p)
  then show ?thesis
    using Broadcast_frame [of now "sv\<lparr>spool := p\<rparr>"] by (cases "Broadcast now (sv\<lparr>spool := p\<rparr>)") (simp add: handle_tx_def)
qed (simp_all add: handle_tx_def)

lemma handle_gossip_tx_frame: "schain (fst (handle_gossip_tx E t sv)) = schain sv \<and> peers (fst (handle_gossip_tx E t sv)) = peers sv"
  by (simp add: handle_gossip_tx_def split: result.split)

lemma serve_frame:
  "schain (fst (serve_reconstruct E N now h sv)) = schain sv \<and> peers (fst (serve_reconstruct E N now h sv)) = peers sv"
  "schain (fst (serve_verify E N now h sv)) = schain sv \<and> peers (fst (serve_verify E N now h sv)) = peers sv"
  "schain (fst (serve_logs E N now h sv)) = schain sv \<and> peers (fst (serve_logs E N now h sv)) = peers sv"
proof -
  have r: "schain sv1 = schain sv \<and> peers sv1 = peers sv" if "reconstruct_net E N now i ss sv = (sv1, x)" for i ss sv1 x
    using reconstruct_net_frame [of E N now i ss sv] that by simp
  show "schain (fst (serve_reconstruct E N now h sv)) = schain sv \<and> peers (fst (serve_reconstruct E N now h sv)) = peers sv"
    using r by (auto simp: serve_reconstruct_def split: option.split prod.split)
  show "schain (fst (serve_verify E N now h sv)) = schain sv \<and> peers (fst (serve_verify E N now h sv)) = peers sv"
    using r by (auto simp: serve_verify_def split: option.split prod.split)
  show "schain (fst (serve_logs E N now h sv)) = schain sv \<and> peers (fst (serve_logs E N now h sv)) = peers sv"
    using r by (auto simp: serve_logs_def split: option.split prod.split)
qed

lemma maybeProveStorage_frame:
  assumes "maybeProveStorage E N now n = (n', r)"
  shows "schain (srv n') = schain (srv n) \<and> peers (srv n') = peers (srv n)"
proof -
  have s: "schain sv1 = schain (srv n) \<and> peers sv1 = peers (srv n)" if "ShardBytes_net E N now h i (srv n) = (sv1, x)" for h i sv1 x
    using ShardBytes_net_frame [of E N now h i "srv n"] that by simp
  have b: "schain sv2 = schain sv \<and> peers sv2 = peers sv" if "Broadcast now (sv\<lparr>spool := p\<rparr>) = (sv2, out)" for sv sv2 p out
    using Broadcast_frame [of now "sv\<lparr>spool := p\<rparr>"] that by simp
  show ?thesis using assms
    by (auto simp: maybeProveStorage_def Let_def Head_def split: if_splits option.splits prod.splits result.splits dest!: s b)
qed

lemma gate_advances:
  assumes inv: "node_inv E HS n" "good E HS" and g: "banGate now ip (handle_gossip_block E unix now' ip b) (srv n) = Some (sv, rep)"
    and b: "Hdr b \<in> HS" "no_wrap HS (Hdr b)"
  shows "advances E HS (srv n) sv"
proof -
  obtain sv1 w where s1: "banned now ip (srv n) = (sv1, w)" by fastforce
  then have f: "schain sv1 = schain (srv n)" "peers sv1 = peers (srv n)" using banned_frame [of now ip "srv n"] by simp_all
  then have l: "live sv1 = live (srv n)" by (simp add: live_def)
  show ?thesis
  proof (cases w)
    case True
    with g s1 f show ?thesis by (intro advances_peers_kept [OF inv(1)]) (simp_all add: banGate_def)
  next
    case False
    with g s1 have h: "handle_gossip_block E unix now' ip b sv1 = Some (sv, rep)" by (simp add: banGate_def)
    let ?run = "if reorg sv1 then AcceptBlock E b (live sv1) else ApplyExternalBlock E unix b (live sv1)"
    obtain c r where run: "?run = Some (c, r)"
      using h by (auto simp: handle_gossip_block_def split: option.splits prod.splits result.splits)
    have st: "cstep E HS (live (srv n)) c"
      using run b cstep.accept [of E b "live (srv n)" c r HS] cstep.external [of E unix b "live (srv n)" c r HS] by (auto simp: l split: if_splits)
    have k: "schain sv2 = c" "peers sv2 = peers (srv n)" if "strike now' ip (sv1\<lparr>schain := c\<rparr>) = (sv2, v)" for sv2 v
      using strike_frame [of now' ip "sv1\<lparr>schain := c\<rparr>"] that f by simp_all
    have "schain sv = c \<and> peers sv = peers (srv n)"
    proof (cases r)
      case (Ok u)
      with h run f show ?thesis by (auto simp: handle_gossip_block_def)
    next
      case (Err e)
      obtain sv2 v where s2: "strike now' ip (sv1\<lparr>schain := c\<rparr>) = (sv2, v)" by fastforce
      from h run Err have "sv = (if IsForgery e then sv2 else sv1\<lparr>schain := c\<rparr>)"
        unfolding handle_gossip_block_def by (simp add: Let_def s2 split: if_splits)
      then show ?thesis using k [OF s2] f by simp
    next
      case Panic
      with h run f show ?thesis by (auto simp: handle_gossip_block_def)
    qed
    then show ?thesis by (intro advances_cstep [OF inv st]) simp_all
  qed
qed


lemma produce_advances:
  assumes inv: "node_inv E HS n" "good E HS" and p: "maybeProduce E N order t1 t2 now n = Some (n', r)" "r \<noteq> Panic"
    and b: "\<And>b out. r = Ok (Some (b, out)) \<Longrightarrow> Hdr b \<in> HS \<and> no_wrap HS (Hdr b)"
  shows "advances E HS (srv n) (srv n')"
proof -
  let ?r = "round_at t1 (cfg n) (chead (schain (srv n)))" and ?txs = "Reap order 1000 (cstate (schain (srv n))) (spool (srv n))"
  consider "n' = n" | c q where "ProduceBlock E t2 ?txs (nid n) ?r (live (srv n)) = Some (c, q)" "q \<noteq> Panic"
      "\<And>b ss. q = Ok (b, ss) \<Longrightarrow> \<exists>out. r = Ok (Some (b, out))" "schain (srv n') = c" "peers (srv n') = peers (srv n)"
  proof (cases "n' = n")
    case False
    have bc: "schain sv2 = schain sv \<and> peers sv2 = peers sv" if "Broadcast now (sv\<lparr>spool := x\<rparr>) = (sv2, out)" for sv sv2 x out
      using Broadcast_frame [of now "sv\<lparr>spool := x\<rparr>"] that by simp
    obtain c q where run: "ProduceBlock E t2 ?txs (nid n) ?r (live (srv n)) = Some (c, q)"
      using p False by (auto simp: maybeProduce_def Let_def Head_def split: if_splits option.splits)
    show thesis
      by (rule that(2) [OF run])
        (use p False run in \<open>auto simp: maybeProduce_def Let_def Head_def split: if_splits result.splits prod.splits dest!: bc\<close>)
  qed (rule that(1))
  then show ?thesis
  proof cases
    case 1
    then show ?thesis by (intro advances_peers_kept [OF inv(1)]) simp_all
  next
    case (2 c q)
    have "cstep E HS (live (srv n)) c" by (rule cstep.produce [OF 2(1,2)]) (use 2(3) b in blast)
    then show ?thesis by (rule advances_cstep [OF inv _ 2(4,5)])
  qed
qed

lemma nstep_advances:
  assumes "nstep E HS n n'" "node_inv E HS n" "good E HS"
  shows "advances E HS (srv n) (srv n')"
  using assms
proof (induction rule: nstep.induct)
  case (discover n N now order)
  then show ?case using grown_Discover [of "srv n" N now order] by (intro advances_chain_kept) (auto simp: node_inv_def)
next
  case (hello n p)
  then show ?case by (intro advances_chain_kept) (auto simp: handle_hello_def Let_def node_inv_def intro: grown_AddPeer)
next
  case (tx n now t)
  then show ?case using handle_tx_frame [of E now t "srv n"] by (intro advances_peers_kept) simp_all
next
  case (gossip_tx n t)
  then show ?case using handle_gossip_tx_frame [of E t "srv n"] by (intro advances_peers_kept) simp_all
next
  case (gossip_block now ip unix now' b n sv rep)
  then show ?case using gate_advances by simp
next
  case (produce N order t1 t2 now n n' r)
  then show ?case by (intro produce_advances)
next
  case (prove N now n n' r)
  then show ?case using maybeProveStorage_frame by (intro advances_peers_kept) blast+
next
  case (audit n N now rnd)
  then show ?case using audit_frame [of E N now rnd "srv n"] by (intro advances_peers_kept) simp_all
qed (use serve_frame in \<open>auto intro!: advances_peers_kept simp: persist_def\<close>)

lemma nsteps_advance:
  assumes "(nstep E HS)\<^sup>*\<^sup>* n n'" "node_inv E HS n" "good E HS"
  shows "advances E HS (srv n) (srv n')"
  using assms(1)
proof (induction rule: rtranclp_induct)
  case base
  show ?case by (rule advances_peers_kept [OF assms(2)]) simp_all
next
  case (step y z)
  from nstep_advances [OF step.hyps(2) advances_inv [OF step.IH] assms(3)] step.IH show ?case by (blast intro: advances_trans)
qed


section \<open>Starting up\<close>

lemma Genesis_head: "Genesis E funding v kp c = Some (c', Ok g) \<Longrightarrow> chead c' = Hdr g"
  by (auto simp: Genesis_def Let_def sbind_Ok_iff saveReplayBase_def split: if_splits option.splits)

lemma fresh_chain: "known (NewChain E OpenStore s eng bf self mem bt gt fd) = Map.empty" "tree (NewChain E OpenStore s eng bf self mem bt gt fd) = NewTree"
  by (simp_all add: NewChain_def OpenStore_def HasHeaders_def loadReplayBase_def GetState_def known_def GetBlock_def fun_eq_iff)

lemma fresh_node:
  "known (live (srv (NewNode E c OpenStore loaded kp bf))) = Map.empty" "tree (live (srv (NewNode E c OpenStore loaded kp bf))) = NewTree"
proof -
  have "core_same (NewChain E OpenStore s eng bf self mem bt gt fd) ((NewChain E OpenStore s eng bf self mem bt gt fd)\<lparr>cstate := s'\<rparr>)"
    for s eng self mem bt gt fd s'
    by (simp add: core_same_def known_def fun_eq_iff split: option.split)
  then have "known ((NewChain E OpenStore s eng bf self mem bt gt fd)\<lparr>cstate := s'\<rparr>) = Map.empty"
    "tree ((NewChain E OpenStore s eng bf self mem bt gt fd)\<lparr>cstate := s'\<rparr>) = NewTree" for s eng self mem bt gt fd s'
    using fresh_chain by (auto simp: core_same_def)
  then show "known (live (srv (NewNode E c OpenStore loaded kp bf))) = Map.empty" "tree (live (srv (NewNode E c OpenStore loaded kp bf))) = NewTree"
    using core_live [of "srv (NewNode E c OpenStore loaded kp bf)"] by (simp_all add: core_same_def NewNode_def Let_def NewServer_def)
qed

lemma bootstrap_inv:
  assumes "bootstrapGenesis E (NewNode E c OpenStore loaded kp bf) = Some (n, Ok ())" "CfgGenesis c \<noteq> []" "chead (schain (srv n)) \<in> HS"
  shows "node_inv E HS n"
proof -
  let ?n = "NewNode E c OpenStore loaded kp bf"
  have f: "cfg ?n = c" "\<not> HasHeaders (cstore (schain (srv ?n)))" "table_ok (peers (srv ?n))"
    by (simp_all add: NewNode_sel HasHeaders_def OpenStore_def) (simp_all add: NewNode_def Let_def NewServer_def)
  obtain v vs where v: "CfgValidators c = v # vs" using assms(1,2) f by (auto simp: bootstrapGenesis_def split: list.splits)
  obtain ch g where g: "Genesis E (CfgGenesis c) v (Some (nid ?n)) (live (srv ?n)) = Some (ch, Ok g)" "schain (srv n) = ch" "peers (srv n) = peers (srv ?n)"
    using assms(1,2) f v by (auto simp: bootstrapGenesis_def split: option.splits prod.splits result.splits)
  have "chain_inv E HS ch" by (rule Genesis_inv [OF g(1) fresh_node]) (use Genesis_head [OF g(1)] g(2) assms(3) in simp)
  with g f show ?thesis by (simp add: node_inv_def)
qed

section \<open>Finality\<close>

text \<open>
  C2. Finality of a node: from its start on an empty data directory with a genesis of its configuration, through any number of discovery,
  production, proving, audit and saving rounds and any requests from anyone, also those whose handler panics, a block that was final at some moment stays an ancestor of
  every later head, the finalized height never falls, and the membership that places shards only grows, without repetitions.  The
  exception is fast sync, which is not a step here.  The hash function must not collide on the headers in play, and no
  child of a block of height \<open>2^64 - 1\<close> may wrap around to height 0.
\<close>

theorem node_finality:
  assumes "good E HS" "bootstrapGenesis E (NewNode E c OpenStore loaded kp bf) = Some (n0, Ok ())" "CfgGenesis c \<noteq> []" "chead (schain (srv n0)) \<in> HS"
    and "(nstep E HS)\<^sup>*\<^sup>* n0 n" "(nstep E HS)\<^sup>*\<^sup>* n n'"
  shows "ancestor (known (schain (srv n'))) (replayBaseID (schain (srv n))) (ID (eH E) (chead (schain (srv n')))) \<and>
    Finalized (schain (srv n)) \<le> Finalized (schain (srv n')) \<and>
    distinct (MemberIDs (peers (srv n'))) \<and> set (MemberIDs (peers (srv n))) \<subseteq> set (MemberIDs (peers (srv n')))"
proof -
  have n: "node_inv E HS n" using nsteps_advance [OF assms(5) bootstrap_inv [OF assms(2-4)] assms(1)] by (rule advances_inv)
  from nsteps_advance [OF assms(6) n assms(1)]
  have a: "chain_inv E HS (schain (srv n'))" "evolves (schain (srv n)) (schain (srv n'))" "grown (peers (srv n)) (peers (srv n'))"
    by (simp_all add: advances_def)
  from a(1,2) have "ancestor (known (schain (srv n'))) (replayBaseID (schain (srv n))) (replayBaseID (schain (srv n')))"
    "ancestor (known (schain (srv n'))) (replayBaseID (schain (srv n'))) (ID (eH E) (chead (schain (srv n'))))"
    by (simp_all add: evolves_def chain_inv_def)
  then have "ancestor (known (schain (srv n'))) (replayBaseID (schain (srv n))) (ID (eH E) (chead (schain (srv n'))))" by (rule ancestor_trans)
  with a MemberIDs_distinct [of "peers (srv n')"] show ?thesis by (simp add: evolves_def Finalized_def grown_def)
qed

text \<open>Witness: a node derives its genesis, produces its first block and learns a peer.\<close>

definition first_node :: Node where
  "first_node = NewNode toyE (toy_config\<lparr>CfgGenesis := [([9], 1000)]\<rparr>) OpenStore None kp0 None"

lemma first_rounds:
  "case bootstrapGenesis toyE first_node of
     Some (n0, Ok _) \<Rightarrow>
       (case maybeProduce toyE silent [] 1780000005 1780000005 0 n0 of
          Some (n2, Ok (Some (b, _))) \<Rightarrow>
            fits (chead (schain (srv n0))) \<and> fits (Hdr b) \<and> ID toyH (chead (schain (srv n0))) \<noteq> ID toyH (Hdr b) \<and> Height (Hdr b) = 1
        | _ \<Rightarrow> False)
   | _ \<Rightarrow> False"
  by code_simp


theorem node_finality_witness:
  "\<exists>n0 n1 n2 b out HS. good toyE HS \<and> bootstrapGenesis toyE first_node = Some (n0, Ok ()) \<and>
     maybeProduce toyE silent [] 1780000005 1780000005 0 n0 = Some (n1, Ok (Some (b, out))) \<and>
     n2 = n1\<lparr>srv := fst (handle_hello peer1 (srv n1))\<rparr> \<and>
     ancestor (known (schain (srv n2))) (replayBaseID (schain (srv n0))) (ID (eH toyE) (chead (schain (srv n2)))) \<and>
     distinct (MemberIDs (peers (srv n2)))"
proof -
  note run = first_rounds
  obtain n0 q where b0: "bootstrapGenesis toyE first_node = Some (n0, q)" using run by (cases "bootstrapGenesis toyE first_node") auto
  have q: "q = Ok ()" using run b0 by (cases q) auto
  obtain n1 y where my: "maybeProduce toyE silent [] 1780000005 1780000005 0 n0 = Some (n1, y)"
    using run b0 q by (cases "maybeProduce toyE silent [] 1780000005 1780000005 0 n0") auto
  obtain b out where y: "y = Ok (Some (b, out))" using run b0 q my by (cases y) (auto split: option.splits)
  let ?HS = "{chead (schain (srv n0)), Hdr b}" and ?n2 = "n1\<lparr>srv := fst (handle_hello peer1 (srv n1))\<rparr>"
  have f: "fits (chead (schain (srv n0)))" "fits (Hdr b)" "ID toyH (chead (schain (srv n0))) \<noteq> ID toyH (Hdr b)" "Height (Hdr b) = 1"
    using run b0 q my y by simp_all
  have good: "good toyE ?HS" by (rule good_pair [OF f(1-3)])
  have "nstep toyE ?HS n0 n1" by (rule nstep.produce [OF my]) (use y f(4) in \<open>auto simp: no_wrap_def\<close>)
  moreover have "nstep toyE ?HS n1 ?n2" by (rule nstep.hello)
  ultimately have st: "(nstep toyE ?HS)\<^sup>*\<^sup>* n0 ?n2" by (meson r_into_rtranclp rtranclp_trans)
  have cg: "CfgGenesis (toy_config\<lparr>CfgGenesis := [([9], 1000)]\<rparr>) \<noteq> []" by simp
  have hd: "chead (schain (srv n0)) \<in> ?HS" by simp
  note nf = node_finality [OF good b0 [unfolded q first_node_def] cg hd rtranclp.rtrancl_refl st]
  show ?thesis
    by (rule exI [of _ n0], rule exI [of _ n1], rule exI [of _ ?n2], rule exI [of _ b], rule exI [of _ out], rule exI [of _ ?HS])
      (use good b0 q my y nf in simp)
qed

end
