(* ===== verification/SL_Wallet.thy ===== *)
theory SL_Wallet
  imports SL_Crypto
begin

text \<open>
  \<^verbatim>\<open>internal/crypto/wallet.go\<close> and \<^verbatim>\<open>internal/crypto/tok.go\<close>: key files, plain (\<^verbatim>\<open>.json\<close>) and sealed (\<^verbatim>\<open>.tok\<close>).

  Files are the fields of their JSON objects, keyed by path; a field a decoder does not know is dropped and one it does not
  find keeps its zero value, as \<^verbatim>\<open>encoding/json\<close> has it.  scrypt and AES-256-GCM are the fields of \<open>vault\<close>; random bytes and fresh keys are
  arguments.  Paths are ASCII.
\<close>

section \<open>Base64\<close>

text \<open>\<^verbatim>\<open>base64.StdEncoding\<close>: three bytes as four characters, padded; the decoder skips line breaks.\<close>

definition b64_pad :: byte where
  "b64_pad = 61"

definition b64_char :: "nat \<Rightarrow> byte" where
  "b64_char v =
     (if v < 26 then of_nat (65 + v) else if v < 52 then of_nat (71 + v) else if v < 62 then of_nat (v - 4) else if v = 62 then 43 else 47)"

definition b64_val :: "byte \<Rightarrow> nat option" where
  "b64_val c =
     (let n = unat c in
      if 65 \<le> n \<and> n \<le> 90 then Some (n - 65) else if 97 \<le> n \<and> n \<le> 122 then Some (n - 71) else if 48 \<le> n \<and> n \<le> 57 then Some (n + 4)
      else if n = 43 then Some 62 else if n = 47 then Some 63 else None)"

definition triple :: "byte \<Rightarrow> byte \<Rightarrow> byte \<Rightarrow> nat" where
  "triple a b c = unat a * 65536 + unat b * 256 + unat c"

definition sextet :: "nat \<Rightarrow> nat \<Rightarrow> byte" where
  "sextet i v = b64_char (v div 64 ^ (3 - i) mod 64)"

fun b64_encode :: "bytes \<Rightarrow> bytes" where
  "b64_encode [] = []"
| "b64_encode [a] = [sextet 0 (triple a 0 0), sextet 1 (triple a 0 0), b64_pad, b64_pad]"
| "b64_encode [a, b] = [sextet 0 (triple a b 0), sextet 1 (triple a b 0), sextet 2 (triple a b 0), b64_pad]"
| "b64_encode (a # b # c # bs) =
     [sextet 0 (triple a b c), sextet 1 (triple a b c), sextet 2 (triple a b c), sextet 3 (triple a b c)] @ b64_encode bs"

definition quad :: "nat \<Rightarrow> nat \<Rightarrow> nat \<Rightarrow> nat \<Rightarrow> nat" where
  "quad p q r s = p * 262144 + q * 4096 + r * 64 + s"

definition octet :: "nat \<Rightarrow> nat \<Rightarrow> byte" where
  "octet i v = of_nat (v div 256 ^ (2 - i) mod 256)"

fun b64_quanta :: "bytes \<Rightarrow> bytes option" where
  "b64_quanta [] = Some []"
| "b64_quanta (p # q # r # s # cs) =
     (case (b64_val p, b64_val q) of
        (Some p', Some q') \<Rightarrow>
          (if r = b64_pad then (if s = b64_pad \<and> cs = [] then Some [octet 0 (quad p' q' 0 0)] else None)
           else case b64_val r of
             None \<Rightarrow> None
           | Some r' \<Rightarrow>
               if s = b64_pad then (if cs = [] then Some [octet 0 (quad p' q' r' 0), octet 1 (quad p' q' r' 0)] else None)
               else (case b64_val s of
                       None \<Rightarrow> None
                     | Some s' \<Rightarrow>
                         let v = quad p' q' r' s' in
                         map_option (\<lambda>bs. octet 0 v # octet 1 v # octet 2 v # bs) (b64_quanta cs)))
      | _ \<Rightarrow> None)"
| "b64_quanta _ = None"

definition b64_decode :: "bytes \<Rightarrow> bytes option" where
  "b64_decode s = b64_quanta (filter (\<lambda>c. c \<noteq> 10 \<and> c \<noteq> 13) s)"

lemma unat_b64_char:
  "v < 64 \<Longrightarrow> unat (b64_char v) = (if v < 26 then 65 + v else if v < 52 then 71 + v else if v < 62 then v - 4 else if v = 62 then 43 else 47)"
  by (auto simp: b64_char_def unat_of_nat_small simp del: of_nat_add of_nat_diff)

lemma b64_char_val: "v < 64 \<Longrightarrow> b64_val (b64_char v) = Some v" "v < 64 \<Longrightarrow> b64_char v \<notin> {10, 13, b64_pad}"
proof -
  assume v: "v < 64"
  then show "b64_val (b64_char v) = Some v" by (simp add: b64_val_def unat_b64_char Let_def) linarith
  have "unat (b64_char v) \<notin> {unat (10 :: byte), unat (13 :: byte), unat b64_pad}" using v by (auto simp: unat_b64_char b64_pad_def)
  then show "b64_char v \<notin> {10, 13, b64_pad}" by auto
qed

lemma sextet_val: "b64_val (sextet i v) = Some (v div 64 ^ (3 - i) mod 64)" "sextet i v \<notin> {10, 13, b64_pad}"
  using b64_char_val [of "v div 64 ^ (3 - i) mod 64"] by (simp_all add: sextet_def)

lemma triple_bytes: "octet 0 (triple a b c) = a" "octet 1 (triple a b c) = b" "octet 2 (triple a b c) = c" "triple a b c < 64 ^ 4"
proof -
  have u: "unat a < 256" "unat b < 256" "unat c < 256" using unsigned_less [of a, where ?'a = nat] unsigned_less [of b, where ?'a = nat] unsigned_less [of c, where ?'a = nat] by simp_all
  show "triple a b c < 64 ^ 4" using u by (simp add: triple_def)
  have "triple a b c div 65536 mod 256 = unat a" "triple a b c div 256 mod 256 = unat b" "triple a b c mod 256 = unat c"
  proof -
    have t: "triple a b c = (unat a * 256 + unat b) * 256 + unat c" by (simp add: triple_def)
    show "triple a b c div 65536 mod 256 = unat a" using u by (simp add: triple_def)
    have "triple a b c div 256 = unat a * 256 + unat b" unfolding t using u(3) by simp
    then show "triple a b c div 256 mod 256 = unat b" using u(2) by simp
    have "triple a b c mod 256 = unat c mod 256" unfolding t by (rule mod_mult_self3)
    then show "triple a b c mod 256 = unat c" using u(3) by simp
  qed
  then show "octet 0 (triple a b c) = a" "octet 1 (triple a b c) = b" "octet 2 (triple a b c) = c" by (simp_all add: octet_def)
qed

lemma quad_sextets:
  assumes "v < 64 ^ 4"
  shows "quad (v div 262144 mod 64) (v div 4096 mod 64) (v div 64 mod 64) (v mod 64) = v"
proof -
  have d: "v div 4096 = v div 64 div 64" "v div 262144 = v div 64 div 64 div 64" by (simp_all add: div_mult2_eq [symmetric])
  have "v div 64 div 64 div 64 < 64" using assms by (simp add: div_mult2_eq [symmetric] less_mult_imp_div_less)
  then have m: "v div 64 div 64 div 64 mod 64 = v div 64 div 64 div 64" by simp
  have e: "64 * (v div 64) + v mod 64 = v" "64 * (v div 64 div 64) + v div 64 mod 64 = v div 64"
    "64 * (v div 64 div 64 div 64) + v div 64 div 64 mod 64 = v div 64 div 64" by (rule mult_div_mod_eq)+
  show ?thesis unfolding quad_def d m using e by linarith
qed


lemma triple_low: "triple a b 0 mod 64 = 0" "triple a 0 0 div 64 mod 64 = 0"
proof -
  have "triple a b 0 = 64 * (unat a * 1024 + unat b * 4)" "triple a 0 0 = 64 * (64 * (unat a * 16))" by (simp_all add: triple_def)
  then show "triple a b 0 mod 64 = 0" "triple a 0 0 div 64 mod 64 = 0" by simp_all
qed

lemma quad_triple:
  "quad (triple a b c div 262144 mod 64) (triple a b c div 4096 mod 64) (triple a b c div 64 mod 64) (triple a b c mod 64) = triple a b c"
  "quad (triple a b 0 div 262144 mod 64) (triple a b 0 div 4096 mod 64) (triple a b 0 div 64 mod 64) 0 = triple a b 0"
  "quad (triple a 0 0 div 262144 mod 64) (triple a 0 0 div 4096 mod 64) 0 0 = triple a 0 0"
  using quad_sextets [OF triple_bytes(4)] triple_low [of a] by metis+

lemma b64_no_breaks: "c \<in> set (b64_encode bs) \<Longrightarrow> c \<noteq> 10 \<and> c \<noteq> 13"
  using sextet_val(2) by (induction bs rule: b64_encode.induct) (auto simp: b64_pad_def)

lemma b64_quanta_encode: "b64_quanta (b64_encode bs) = Some bs"
proof (induction bs rule: b64_encode.induct)
  case (4 a b c bs)
  then show ?case using sextet_val(2) by (simp add: sextet_val quad_triple triple_bytes triple_bytes(2) [simplified] Let_def)
qed (use sextet_val(2) in \<open>simp_all add: sextet_val quad_triple triple_bytes triple_bytes(2) [simplified]\<close>)

lemma b64_decode_encode [simp]: "b64_decode (b64_encode bs) = Some bs"
proof -
  have "filter (\<lambda>c. c \<noteq> 10 \<and> c \<noteq> 13) (b64_encode bs) = b64_encode bs" using b64_no_breaks by (simp add: filter_id_conv)
  then show ?thesis by (simp add: b64_decode_def b64_quanta_encode)
qed

section \<open>Files\<close>

record walletFile =
  wPriv :: bytes
  wPub :: bytes
  wAddress :: address

record kdfParams =
  kN :: int
  kR :: int
  kP :: int
  kSalt :: bytes

record tokFile =
  tVersion :: int
  tAddress :: address
  tKDF :: bytes
  tParams :: kdfParams
  tCipher :: bytes
  tNonce :: bytes
  tCiphertext :: bytes

datatype keyfile = JsonDoc walletFile | TokDoc tokFile | NoJson

definition as_wallet :: "keyfile \<Rightarrow> walletFile option" where
  "as_wallet f =
     (case f of
        JsonDoc w \<Rightarrow> Some w
      | TokDoc t \<Rightarrow> Some \<lparr>wPriv = [], wPub = [], wAddress = tAddress t\<rparr>
      | NoJson \<Rightarrow> None)"

definition as_tok :: "keyfile \<Rightarrow> tokFile option" where
  "as_tok f =
     (case f of
        TokDoc t \<Rightarrow> Some t
      | JsonDoc w \<Rightarrow>
          Some \<lparr>tVersion = 0, tAddress = wAddress w, tKDF = [], tParams = \<lparr>kN = 0, kR = 0, kP = 0, kSalt = []\<rparr>, tCipher = [], tNonce = [], tCiphertext = []\<rparr>
      | NoJson \<Rightarrow> None)"

record disk =
  keyfiles :: "(bytes, keyfile) gomap"
  disk_ok :: bool

text \<open>
  The library: \<^verbatim>\<open>scrypt.Key(pass, salt, N, r, p, 32)\<close>, \<^verbatim>\<open>gcm.Seal(nil, nonce, plain, aad)\<close> and \<^verbatim>\<open>gcm.Open(nil, nonce, ct, aad)\<close>
  under a key.
\<close>

record vault =
  kdf :: "bytes \<Rightarrow> bytes \<Rightarrow> int \<Rightarrow> int \<Rightarrow> int \<Rightarrow> bytes option"
  sealed :: "bytes \<Rightarrow> bytes \<Rightarrow> bytes \<Rightarrow> bytes \<Rightarrow> bytes"
  opened :: "bytes \<Rightarrow> bytes \<Rightarrow> bytes \<Rightarrow> bytes \<Rightarrow> bytes option"

datatype wallet_error = ErrNoPassphrase | ErrBadPass | ErrBadKeyLen | EFile | EJson | EBase64 | EKey | ERand

definition TokVersion :: int where "TokVersion = 1"
definition scryptN :: int where "scryptN = 32768"
definition scryptR :: int where "scryptR = 8"
definition scryptP :: int where "scryptP = 1"
definition PrivateKeySize :: nat where "PrivateKeySize = 64"
definition NonceSize :: nat where "NonceSize = 12"

section \<open>Saving and loading\<close>

definition need :: "'e \<Rightarrow> 'a option \<Rightarrow> ('e, 'a) result" where
  "need e x = (case x of Some v \<Rightarrow> Ok v | None \<Rightarrow> Err e)"

text \<open>A write succeeds or fails as a whole; a file cut short by a crash of the machine is not represented.\<close>

definition WriteFile :: "bytes \<Rightarrow> keyfile \<Rightarrow> disk \<Rightarrow> disk \<times> (wallet_error, unit) result" where
  "WriteFile path f d = (if disk_ok d then (d\<lparr>keyfiles := AList.update path f (keyfiles d)\<rparr>, Ok ()) else (d, Err EFile))"

definition SaveWallet :: "(bytes \<Rightarrow> hash) \<Rightarrow> KeyPair \<Rightarrow> bytes \<Rightarrow> disk \<Rightarrow> disk \<times> (wallet_error, unit) result" where
  "SaveWallet H k path d =
     WriteFile path (JsonDoc \<lparr>wPriv = b64_encode (Priv k), wPub = b64_encode (Pub k), wAddress = Address H k\<rparr>) d"

definition LoadWallet :: "bytes \<Rightarrow> disk \<Rightarrow> (wallet_error, KeyPair) result" where
  "LoadWallet path d =
     rbind (need EFile (map_of (keyfiles d) path)) (\<lambda>f.
     rbind (need EJson (as_wallet f)) (\<lambda>wf.
     rbind (need EBase64 (b64_decode (wPriv wf))) (\<lambda>priv.
     rbind (need EBase64 (b64_decode (wPub wf))) (\<lambda>pub.
     if length priv \<noteq> PrivateKeySize \<or> length pub \<noteq> PublicKeySize then Err ErrBadKeyLen
     else Ok \<lparr>Priv = priv, Pub = pub\<rparr>))))"

text \<open>A key of 16, 24 or 32 bytes makes a cipher.\<close>

definition NewCipher :: "bytes \<Rightarrow> (wallet_error, bytes) result" where
  "NewCipher dk = (if length dk \<in> {16, 24, 32} then Ok dk else Err EKey)"

text \<open>The random salt and nonce are arguments; \<open>None\<close> when the random source fails.\<close>

definition tok_of :: "vault \<Rightarrow> (bytes \<Rightarrow> hash) \<Rightarrow> KeyPair \<Rightarrow> bytes \<Rightarrow> bytes \<Rightarrow> bytes \<Rightarrow> tokFile" where
  "tok_of v H k dk salt nonce =
     \<lparr>tVersion = TokVersion, tAddress = Address H k, tKDF = ascii ''scrypt'',
      tParams = \<lparr>kN = scryptN, kR = scryptR, kP = scryptP, kSalt = b64_encode salt\<rparr>, tCipher = ascii ''aes-256-gcm'',
      tNonce = b64_encode nonce, tCiphertext = b64_encode (sealed v dk nonce (Priv k) (Address H k))\<rparr>"

definition SaveTok ::
    "vault \<Rightarrow> (bytes \<Rightarrow> hash) \<Rightarrow> bytes option \<Rightarrow> bytes option \<Rightarrow> KeyPair \<Rightarrow> bytes \<Rightarrow> bytes \<Rightarrow> disk \<Rightarrow> disk \<times> (wallet_error, unit) result" where
  "SaveTok v H rsalt rnonce k path pass d =
     (if pass = [] then (d, Err ErrNoPassphrase)
      else case rbind (need ERand rsalt) (\<lambda>salt.
                rbind (need EKey (kdf v pass salt scryptN scryptR scryptP)) (\<lambda>dk.
                rbind (NewCipher dk) (\<lambda>dk.
                rbind (need ERand rnonce) (\<lambda>nonce. Ok (tok_of v H k dk salt nonce))))) of
             Ok tf \<Rightarrow> WriteFile path (TokDoc tf) d
           | Err e \<Rightarrow> (d, Err e)
           | Panic \<Rightarrow> (d, Panic))"

text \<open>\<^verbatim>\<open>gcm.Open\<close> panics on a nonce of another length.\<close>

definition Open :: "vault \<Rightarrow> bytes \<Rightarrow> bytes \<Rightarrow> bytes \<Rightarrow> bytes \<Rightarrow> (wallet_error, bytes) result" where
  "Open v dk nonce ct aad = (if length nonce \<noteq> NonceSize then Panic else need ErrBadPass (opened v dk nonce ct aad))"

definition LoadTok :: "vault \<Rightarrow> (bytes \<Rightarrow> hash) \<Rightarrow> bytes \<Rightarrow> bytes \<Rightarrow> disk \<Rightarrow> (wallet_error, KeyPair) result" where
  "LoadTok v H path pass d =
     (if pass = [] then Err ErrNoPassphrase
      else rbind (need EFile (map_of (keyfiles d) path)) (\<lambda>f.
           rbind (need EJson (as_tok f)) (\<lambda>tf.
           rbind (need EBase64 (b64_decode (kSalt (tParams tf)))) (\<lambda>salt.
           rbind (need EKey (kdf v pass salt (kN (tParams tf)) (kR (tParams tf)) (kP (tParams tf)))) (\<lambda>dk.
           rbind (NewCipher dk) (\<lambda>dk.
           rbind (need EBase64 (b64_decode (tNonce tf))) (\<lambda>nonce.
           rbind (need EBase64 (b64_decode (tCiphertext tf))) (\<lambda>ct.
           rbind (Open v dk nonce ct (tAddress tf)) (\<lambda>priv.
           if length priv \<noteq> PrivateKeySize then Err ErrBadPass
           else let kp = \<lparr>Priv = priv, Pub = drop 32 priv\<rparr> in
             if Address H kp \<noteq> tAddress tf then Err ErrBadPass else Ok kp)))))))))"

definition to_lower :: "byte \<Rightarrow> byte" where
  "to_lower c = (if 65 \<le> c \<and> c \<le> 90 then c + 32 else c)"

definition IsTok :: "bytes \<Rightarrow> bool" where
  "IsTok path \<longleftrightarrow> (let p = map to_lower path in 4 \<le> length p \<and> drop (length p - 4) p = ascii ''.tok'')"

definition LoadWalletAuto :: "vault \<Rightarrow> (bytes \<Rightarrow> hash) \<Rightarrow> bytes \<Rightarrow> bytes \<Rightarrow> disk \<Rightarrow> (wallet_error, KeyPair) result" where
  "LoadWalletAuto v H path pass d = (if IsTok path then LoadTok v H path pass d else LoadWallet path d)"

definition SaveWalletAuto ::
    "vault \<Rightarrow> (bytes \<Rightarrow> hash) \<Rightarrow> bytes option \<Rightarrow> bytes option \<Rightarrow> KeyPair \<Rightarrow> bytes \<Rightarrow> bytes \<Rightarrow> disk \<Rightarrow> disk \<times> (wallet_error, unit) result" where
  "SaveWalletAuto v H rsalt rnonce k path pass d = (if IsTok path then SaveTok v H rsalt rnonce k path pass d else SaveWallet H k path d)"

definition LoadOrCreateWalletAuto ::
    "vault \<Rightarrow> (bytes \<Rightarrow> hash) \<Rightarrow> KeyPair option \<Rightarrow> bytes option \<Rightarrow> bytes option \<Rightarrow> bytes \<Rightarrow> bytes \<Rightarrow> disk
       \<Rightarrow> disk \<times> (wallet_error, KeyPair) result" where
  "LoadOrCreateWalletAuto v H fresh rsalt rnonce path pass d =
     (if map_of (keyfiles d) path \<noteq> None then (d, LoadWalletAuto v H path pass d)
      else case fresh of
        None \<Rightarrow> (d, Err ERand)
      | Some k \<Rightarrow>
          (case SaveWalletAuto v H rsalt rnonce k path pass d of
             (d', Ok _) \<Rightarrow> (d', Ok k)
           | (d', Err e) \<Rightarrow> (d', Err e)
           | (d', Panic) \<Rightarrow> (d', Panic)))"

definition LoadOrCreateWallet :: "(bytes \<Rightarrow> hash) \<Rightarrow> KeyPair option \<Rightarrow> bytes \<Rightarrow> disk \<Rightarrow> disk \<times> (wallet_error, KeyPair) result" where
  "LoadOrCreateWallet H fresh path d =
     (if map_of (keyfiles d) path \<noteq> None then (d, LoadWallet path d)
      else case fresh of
        None \<Rightarrow> (d, Err ERand)
      | Some k \<Rightarrow>
          (case SaveWallet H k path d of
             (d', Ok _) \<Rightarrow> (d', Ok k)
           | (d', Err e) \<Rightarrow> (d', Err e)
           | (d', Panic) \<Rightarrow> (d', Panic)))"


section \<open>Properties\<close>

text \<open>What the documentation of scrypt and AES-GCM promises: a key of the length asked for, and \<^verbatim>\<open>Open\<close> undoes \<^verbatim>\<open>Seal\<close>.\<close>

definition vault_laws :: "vault \<Rightarrow> bool" where
  "vault_laws v \<longleftrightarrow>
     (\<forall>dk nonce plain aad. length nonce = NonceSize \<longrightarrow> opened v dk nonce (sealed v dk nonce plain aad) aad = Some plain) \<and>
     (\<forall>pass salt n r p dk. kdf v pass salt n r p = Some dk \<longrightarrow> length dk = 32)"

definition key_ok :: "KeyPair \<Rightarrow> bool" where
  "key_ok k \<longleftrightarrow> length (Priv k) = PrivateKeySize \<and> Pub k = drop 32 (Priv k)"

lemma need_Ok [simp]: "need e x = Ok y \<longleftrightarrow> x = Some y"
  by (auto simp: need_def split: option.splits)

lemma need_Some [simp]: "need e (Some y) = Ok y"
  by simp

lemma SaveTok_Ok:
  assumes "SaveTok v H rsalt rnonce k path pass d = (d', Ok ())"
  obtains salt dk nonce where "pass \<noteq> []" "rsalt = Some salt" "rnonce = Some nonce" "kdf v pass salt scryptN scryptR scryptP = Some dk"
    "d' = d\<lparr>keyfiles := AList.update path (TokDoc (tok_of v H k dk salt nonce)) (keyfiles d)\<rparr>"
  using assms by (auto simp: SaveTok_def WriteFile_def NewCipher_def split: if_splits result.splits)

lemma LoadTok_SaveTok:
  assumes "vault_laws v" "key_ok k" "SaveTok v H rsalt rnonce k path pass d = (d', Ok ())" "\<forall>n. rnonce = Some n \<longrightarrow> length n = NonceSize"
  shows "LoadTok v H path pass d' = Ok k"
proof -
  obtain salt dk nonce where s: "pass \<noteq> []" "rsalt = Some salt" "rnonce = Some nonce" "kdf v pass salt scryptN scryptR scryptP = Some dk"
    "d' = d\<lparr>keyfiles := AList.update path (TokDoc (tok_of v H k dk salt nonce)) (keyfiles d)\<rparr>"
    by (rule SaveTok_Ok [OF assms(3)])
  have l: "length nonce = NonceSize" "length dk = 32" using assms(1,4) s(3,4) by (auto simp: vault_laws_def)
  then have o: "opened v dk nonce (sealed v dk nonce (Priv k) (Address H k)) (Address H k) = Some (Priv k)"
    using assms(1) by (simp add: vault_laws_def)
  have k: "\<lparr>Priv = Priv k, Pub = drop 32 (Priv k)\<rparr> = k" "length (Priv k) = PrivateKeySize" using assms(2) by (simp_all add: key_ok_def)
  show ?thesis using s l o k by (simp add: LoadTok_def update_conv as_tok_def tok_of_def NewCipher_def Open_def Let_def)
qed

lemma LoadWallet_SaveWallet:
  assumes "key_ok k" "SaveWallet H k path d = (d', Ok ())"
  shows "LoadWallet path d' = Ok k"
proof -
  have k: "\<lparr>Priv = Priv k, Pub = Pub k\<rparr> = k" "length (Priv k) = PrivateKeySize" "length (Pub k) = PublicKeySize"
    using assms(1) by (simp_all add: key_ok_def PrivateKeySize_def PublicKeySize_def)
  with assms(2) have "LoadWallet path d' = Ok \<lparr>Priv = Priv k, Pub = Pub k\<rparr>"
    by (auto simp: SaveWallet_def WriteFile_def LoadWallet_def as_wallet_def update_conv simp del: rbind_eq_Ok_iff split: if_splits)
  with k(1) show ?thesis by simp
qed

lemma LoadTok_address:
  assumes "LoadTok v H path pass d = Ok k"
  obtains f tf where "map_of (keyfiles d) path = Some f" "as_tok f = Some tf" "Address H k = tAddress tf" "key_ok k"
  using assms by (auto simp: LoadTok_def Let_def key_ok_def split: if_splits)

text \<open>
  C39. The identity of a node survives restarts: whatever key pair the first start returns, freshly made or read from the file, every later
  start with the same path and passphrase returns the same, no other file is touched, and a sealed file never yields a key of
  another address, whatever passphrase is tried.
\<close>

theorem wallet_stable:
  assumes "vault_laws v" "LoadOrCreateWalletAuto v H fresh rsalt rnonce path pass d = (d', Ok k)"
    and "\<forall>x. fresh = Some x \<longrightarrow> key_ok x" "\<forall>n. rnonce = Some n \<longrightarrow> length n = NonceSize"
  shows "LoadOrCreateWalletAuto v H fresh' rsalt' rnonce' path pass d' = (d', Ok k) \<and>
    (\<forall>q. q \<noteq> path \<longrightarrow> map_of (keyfiles d') q = map_of (keyfiles d) q) \<and>
    (IsTok path \<longrightarrow> (\<forall>pass' k'. LoadWalletAuto v H path pass' d' = Ok k' \<longrightarrow> Address H k' = Address H k))"
proof -
  have "LoadWalletAuto v H path pass d' = Ok k \<and> map_of (keyfiles d') path \<noteq> None \<and> (\<forall>q. q \<noteq> path \<longrightarrow> map_of (keyfiles d') q = map_of (keyfiles d) q)"
  proof (cases "map_of (keyfiles d) path")
    case (Some f)
    with assms(2) show ?thesis by (auto simp: LoadOrCreateWalletAuto_def)
  next
    case None
    with assms(2) have sv: "fresh = Some k" "SaveWalletAuto v H rsalt rnonce k path pass d = (d', Ok ())"
      by (auto simp: LoadOrCreateWalletAuto_def split: option.splits prod.splits result.splits)
    obtain f where "d' = d\<lparr>keyfiles := AList.update path f (keyfiles d)\<rparr>"
      using sv(2) by (auto simp: SaveWalletAuto_def SaveWallet_def WriteFile_def elim: SaveTok_Ok split: if_splits)
    moreover have "LoadWalletAuto v H path pass d' = Ok k"
      using sv assms(1,3,4) LoadTok_SaveTok LoadWallet_SaveWallet by (auto simp: LoadWalletAuto_def SaveWalletAuto_def split: if_splits)
    ultimately show ?thesis by (simp add: update_conv)
  qed
  moreover from this have "Address H k' = Address H k" if "IsTok path" "LoadWalletAuto v H path pass' d' = Ok k'" for pass' k'
    using that by (auto simp: LoadWalletAuto_def elim!: LoadTok_address)
  ultimately show ?thesis by (simp add: LoadOrCreateWalletAuto_def)
qed

text \<open>
  A damaged sealed file stops the program: when the nonce of a \<^verbatim>\<open>.tok\<close> file decodes to another length than twelve bytes, loading it panics inside
  AES-GCM instead of returning the error for a corrupt wallet, whatever the passphrase.
\<close>

theorem bad_nonce_panics:
  assumes "vault_laws v" "IsTok path" "pass \<noteq> []" "map_of (keyfiles d) path = Some (TokDoc tf)"
    and "b64_decode (kSalt (tParams tf)) = Some salt" "kdf v pass salt (kN (tParams tf)) (kR (tParams tf)) (kP (tParams tf)) \<noteq> None"
    and "b64_decode (tNonce tf) = Some nonce" "length nonce \<noteq> NonceSize" "b64_decode (tCiphertext tf) \<noteq> None"
  shows "LoadOrCreateWalletAuto v H fresh rsalt rnonce path pass d = (d, Panic)"
  using assms by (auto simp: LoadOrCreateWalletAuto_def LoadWalletAuto_def LoadTok_def as_tok_def NewCipher_def vault_laws_def Open_def)

text \<open>Witnesses, with a sealing that prepends key and associated data.\<close>

definition toy_vault :: vault where
  "toy_vault = \<lparr>kdf = \<lambda>pass salt n r p. Some (take 32 (pass @ salt @ replicate 32 0)), sealed = \<lambda>dk nonce plain aad. dk @ aad @ plain,
     opened = \<lambda>dk nonce ct aad. if take (length dk + length aad) ct = dk @ aad then Some (drop (length dk + length aad) ct) else None\<rparr>"

lemma toy_vault_laws: "vault_laws toy_vault"
  by (auto simp: vault_laws_def toy_vault_def min_def)

definition toy_key :: KeyPair where
  "toy_key = \<lparr>Priv = replicate 64 5, Pub = replicate 32 5\<rparr>"

theorem wallet_stable_witness:
  "\<exists>d'. LoadOrCreateWalletAuto toy_vault (\<lambda>m. take 32 (m @ replicate 32 0)) (Some toy_key) (Some (replicate 16 1)) (Some (replicate 12 2)) (ascii ''node.TOK'') [7]
       \<lparr>keyfiles = [], disk_ok = True\<rparr> = (d', Ok toy_key) \<and>
     LoadOrCreateWalletAuto toy_vault (\<lambda>m. take 32 (m @ replicate 32 0)) None None None (ascii ''node.TOK'') [7] d' = (d', Ok toy_key)"
proof -
  let ?H = "\<lambda>m :: bytes. take 32 (m @ replicate 32 0)" and ?p = "ascii ''node.TOK''"
  let ?run = "LoadOrCreateWalletAuto toy_vault ?H (Some toy_key) (Some (replicate 16 1)) (Some (replicate 12 2)) ?p [7] \<lparr>keyfiles = [], disk_ok = True\<rparr>"
  have "IsTok ?p" by code_simp
  then obtain d' where r: "?run = (d', Ok toy_key)"
    by (simp add: LoadOrCreateWalletAuto_def SaveWalletAuto_def SaveTok_def NewCipher_def toy_vault_def WriteFile_def)
  have k: "\<forall>x. Some toy_key = Some x \<longrightarrow> key_ok x" by (simp add: key_ok_def toy_key_def PrivateKeySize_def)
  have n: "\<forall>n. Some (replicate 12 2) = Some n \<longrightarrow> length n = NonceSize" by (simp add: NonceSize_def)
  from wallet_stable [OF toy_vault_laws r k n, of None None None] r show ?thesis by blast
qed

theorem bad_nonce_panics_witness:
  "LoadOrCreateWalletAuto toy_vault (\<lambda>_. []) None None None (ascii ''w.tok'') [7]
     \<lparr>keyfiles = [(ascii ''w.tok'', TokDoc (tok_of toy_vault (\<lambda>_. []) toy_key [] [] [1, 2, 3]))], disk_ok = True\<rparr> =
     (\<lparr>keyfiles = [(ascii ''w.tok'', TokDoc (tok_of toy_vault (\<lambda>_. []) toy_key [] [] [1, 2, 3]))], disk_ok = True\<rparr>, Panic)"
proof -
  have "IsTok (ascii ''w.tok'')" by code_simp
  then show ?thesis
    by (rule bad_nonce_panics [OF toy_vault_laws, where tf = "tok_of toy_vault (\<lambda>_. []) toy_key [] [] [1, 2, 3]" and salt = "[]" and nonce = "[1, 2, 3]"])
      (simp_all add: tok_of_def NonceSize_def toy_vault_def del: b64_encode.simps)
qed

end
