(* ===== verification/SL_Version.thy ===== *)
theory SL_Version
  imports SL_Strconv
begin

text \<open>
  \<^verbatim>\<open>internal/version/check.go\<close>: the comparison of release tags, with the functions of \<^verbatim>\<open>strings\<close> and \<^verbatim>\<open>strconv\<close> it calls (and
  the command line client).  Texts are ASCII.  The request for the latest tag is not modelled.
\<close>

section \<open>Strings\<close>

text \<open>The bytes of a file as text.\<close>

definition text_of :: "bytes \<Rightarrow> string" where
  "text_of bs = map (\<lambda>b. char_of (unat b)) bs"

lemma ascii_text_of [simp]: "ascii (text_of bs) = bs"
proof -
  have "(of_char (char_of (unat b)) :: byte) = b" for b :: byte
  proof -
    have "(of_char (char_of (unat b)) :: byte) = of_nat (of_char (char_of (unat b)) :: nat)" by (simp only: of_nat_of_char)
    also have "\<dots> = of_nat (unat b mod 256)" by (simp only: of_char_of)
    also have "unat b mod 256 = unat b" using unsigned_less [of b, where ?'a = nat] by simp
    finally show ?thesis by simp
  qed
  then show ?thesis by (simp add: ascii_def text_of_def comp_def)
qed

definition is_space :: "char \<Rightarrow> bool" where
  "is_space c \<longleftrightarrow> (of_char c :: nat) \<in> {9, 10, 11, 12, 13, 32}"

definition TrimSpace :: "string \<Rightarrow> string" where
  "TrimSpace s = rev (dropWhile is_space (rev (dropWhile is_space s)))"

fun Split :: "char \<Rightarrow> string \<Rightarrow> string list" where
  "Split sep [] = [[]]"
| "Split sep (c # cs) = (if c = sep then [] # Split sep cs else case Split sep cs of p # ps \<Rightarrow> (c # p) # ps | [] \<Rightarrow> [[c]])"

definition TrimPrefix :: "string \<Rightarrow> string \<Rightarrow> string" where
  "TrimPrefix p s = (if take (length p) s = p then drop (length p) s else s)"

lemma TrimSpace_id: "\<forall>c\<in>set s. \<not> is_space c \<Longrightarrow> TrimSpace s = s"
proof -
  assume "\<forall>c\<in>set s. \<not> is_space c"
  then have "dropWhile is_space s = s" "dropWhile is_space (rev s) = rev s" by (auto simp: dropWhile_eq_self_iff hd_rev)
  then show ?thesis by (simp add: TrimSpace_def)
qed

text \<open>
  The value \<^verbatim>\<open>strconv.Atoi\<close> returns, its error dropped: 0 on a syntax error, the nearest \<open>int64\<close> when out of range.  The loop stops at
  the first digit that overflows \<open>uint64\<close>, before it looks at what follows.
\<close>

fun digits_loop :: "int \<Rightarrow> bytes \<Rightarrow> int option" where
  "digits_loop n [] = Some n"
| "digits_loop n (c # cs) =
     (if \<not> is_digit c then None
      else let n' = 10 * n + (uint c - 48) in if 2 ^ 64 \<le> n' then Some (2 ^ 64 - 1) else digits_loop n' cs)"

definition Atoi :: "string \<Rightarrow> int" where
  "Atoi s =
     (let neg = (take 1 s = ''-''); ds = (if take 1 s \<in> {''-'', ''+''} then drop 1 s else s) in
      if ds = [] then 0
      else case digits_loop 0 (ascii ds) of
             None \<Rightarrow> 0
           | Some n \<Rightarrow> if neg then max (- (2 ^ 63)) (- n) else min (2 ^ 63 - 1) n)"

section \<open>Versions\<close>

definition parse :: "string \<Rightarrow> int list" where
  "parse v = map Atoi (Split CHR ''.'' (TrimPrefix ''v'' (TrimSpace v)))"

fun cmp :: "int list \<Rightarrow> int list \<Rightarrow> int" where
  "cmp [] [] = 0"
| "cmp (x # a) [] = (if x \<noteq> 0 then (if 0 < x then 1 else -1) else cmp a [])"
| "cmp [] (y # b) = (if 0 \<noteq> y then (if y < 0 then 1 else -1) else cmp [] b)"
| "cmp (x # a) (y # b) = (if x \<noteq> y then (if y < x then 1 else -1) else cmp a b)"

definition IsNewer :: "string \<Rightarrow> string \<Rightarrow> bool" where
  "IsNewer latest current \<longleftrightarrow> \<not> (current = ''dev'' \<or> latest = []) \<and> 0 < cmp (parse latest) (parse current)"

section \<open>Order\<close>

lemma cmp_refl [simp]: "cmp a a = 0"
  by (induction a) simp_all

lemma cmp_swap: "cmp b a = - cmp a b"
  by (induction a b rule: cmp.induct) simp_all

lemma cmp_trans: "0 < cmp a b \<Longrightarrow> 0 \<le> cmp b c \<Longrightarrow> 0 < cmp a c"
proof (induction a b arbitrary: c rule: cmp.induct)
  case 1
  then show ?case by simp
next
  case (2 x a)
  then show ?case by (cases c) (auto split: if_splits)
next
  case (3 y b)
  show ?case
  proof (cases c)
    case Nil
    with 3 show ?thesis using "3.IH" [of "[]"] by (auto split: if_splits)
  next
    case (Cons z c')
    with 3 show ?thesis by (auto split: if_splits)
  qed
next
  case (4 x a y b)
  then show ?case by (cases c) (auto split: if_splits)
qed

text \<open>Being newer is a strict order among release tags.\<close>

lemma IsNewer_order:
  "\<not> IsNewer v v" "IsNewer a b \<Longrightarrow> IsNewer b c \<Longrightarrow> IsNewer a c" "IsNewer a b \<Longrightarrow> \<not> IsNewer b a"
  using cmp_trans [of "parse a" "parse b" "parse c"] cmp_swap [of "parse a" "parse b"] by (auto simp: IsNewer_def)

section \<open>Printed versions\<close>

lemma digits_loop_value:
  assumes "list_all is_digit s" "0 \<le> n" "foldl (\<lambda>n c. 10 * n + (uint c - 48)) n s < 2 ^ 64"
  shows "digits_loop n s = Some (foldl (\<lambda>n c. 10 * n + (uint c - 48)) n s)"
  using assms
proof (induction s arbitrary: n)
  case (Cons c cs)
  let ?n = "10 * n + (uint c - 48)"
  have c: "48 \<le> uint c" using Cons.prems(1) by (simp add: is_digit_def word_le_def)
  have up: "0 \<le> k \<Longrightarrow> list_all is_digit s \<Longrightarrow> k \<le> foldl (\<lambda>n c. 10 * n + (uint c - 48)) k s" for k and s :: bytes
  proof (induction s arbitrary: k)
    case (Cons d ds)
    then have d: "48 \<le> uint d" by (simp add: is_digit_def word_le_def)
    have "k \<le> 10 * k + (uint d - 48)" "0 \<le> 10 * k + (uint d - 48)" using Cons.prems(1) d by linarith+
    with Cons.IH [of "10 * k + (uint d - 48)"] Cons.prems(2) show ?case by auto
  qed simp
  have n: "0 \<le> ?n" using Cons.prems(2) c by linarith
  with up [of ?n cs] Cons.prems(1,3) have "?n < 2 ^ 64" by auto
  with Cons.IH [OF _ n] Cons.prems(1,3) show ?case by (auto simp: Let_def)
qed simp

definition number :: "nat \<Rightarrow> string" where
  "number n = text_of (dec_digits n)"

lemma number_chars: "c \<in> set (number n) \<Longrightarrow> (of_char c :: nat) \<in> {48..57}"
proof -
  assume "c \<in> set (number n)"
  then obtain b where b: "b \<in> set (dec_digits n)" "c = char_of (unat b)" by (auto simp: number_def text_of_def)
  then have "is_digit b" using dec_digits_ok [of n] by (auto simp: list_all_iff)
  then have "unat b \<in> {48..57}" by (simp add: is_digit_def word_le_nat_alt)
  then show ?thesis using b(2) by simp
qed

lemma number_clean: "CHR ''.'' \<notin> set (number n)" "c \<in> set (number n) \<Longrightarrow> \<not> is_space c" "number n \<noteq> []"
  "take 1 (number n) \<notin> {''-'', ''+''}"
proof -
  show "CHR ''.'' \<notin> set (number n)" using number_chars [of "CHR ''.''" n] by auto
  show "\<not> is_space c" if "c \<in> set (number n)" using number_chars [OF that] by (auto simp: is_space_def)
  show ne: "number n \<noteq> []" using dec_digits_ok [of n] by (simp add: number_def text_of_def)
  then obtain c cs where "number n = c # cs" by (cases "number n") auto
  then show "take 1 (number n) \<notin> {''-'', ''+''}" using number_chars [of c n] by auto
qed

lemma Atoi_number: "n < 2 ^ 63 \<Longrightarrow> Atoi (number n) = int n"
proof -
  assume n: "n < 2 ^ 63"
  have d: "list_all is_digit (dec_digits n)" "dec_value (dec_digits n) = int n" using dec_digits_ok [of n] by simp_all
  have "digits_loop 0 (dec_digits n) = Some (int n)"
    using digits_loop_value [OF d(1), of 0] d(2) n by (simp add: dec_value_def)
  moreover have "ascii (number n) = dec_digits n" by (simp add: number_def)
  ultimately show ?thesis using number_clean(3,4) [of n] n by (auto simp: Atoi_def Let_def)
qed

lemma Split_part: "sep \<notin> set a \<Longrightarrow> Split sep (a @ sep # b) = a # Split sep b" "sep \<notin> set a \<Longrightarrow> Split sep a = [a]"
  by (induction a) auto

definition tag :: "nat \<Rightarrow> nat \<Rightarrow> nat \<Rightarrow> string" where
  "tag x y z = ''v'' @ number x @ ''.'' @ number y @ ''.'' @ number z"

lemma parse_tag: "x < 2 ^ 63 \<Longrightarrow> y < 2 ^ 63 \<Longrightarrow> z < 2 ^ 63 \<Longrightarrow> parse (tag x y z) = [int x, int y, int z]"
proof -
  assume b: "x < 2 ^ 63" "y < 2 ^ 63" "z < 2 ^ 63"
  have "TrimSpace (tag x y z) = tag x y z" by (rule TrimSpace_id) (auto simp: tag_def is_space_def dest: number_clean(2))
  then have "TrimPrefix ''v'' (TrimSpace (tag x y z)) = number x @ CHR ''.'' # number y @ CHR ''.'' # number z"
    by (simp add: TrimPrefix_def tag_def)
  then show ?thesis using b by (simp add: parse_def Split_part number_clean(1) Atoi_number)
qed

text \<open>
  Release tags compare as their numbers: among tags of three numbers below \<open>2^63\<close>, one is newer than another exactly when it is greater in the
  first number in which they differ.
\<close>

theorem IsNewer_tags:
  assumes "x < 2 ^ 63" "y < 2 ^ 63" "z < 2 ^ 63" "x' < 2 ^ 63" "y' < 2 ^ 63" "z' < 2 ^ 63"
  shows "IsNewer (tag x y z) (tag x' y' z') \<longleftrightarrow> x' < x \<or> x = x' \<and> (y' < y \<or> y = y' \<and> z' < z)"
proof -
  have "tag x' y' z' \<noteq> ''dev''" "tag x y z \<noteq> []" by (simp_all add: tag_def)
  then show ?thesis using assms by (auto simp: IsNewer_def parse_tag)
qed

theorem IsNewer_tags_witness: "IsNewer (tag 0 11 0) (tag 0 10 0)"
  using IsNewer_tags [of 0 11 0 0 10 0] by simp

end
