(* ===== verification/SL_Lexer.thy ===== *)
theory SL_Lexer
  imports SL_Vm SL_Strconv
begin

text \<open>
  \<^verbatim>\<open>internal/shl/lexer.go\<close>: the scanner of the contract language.  The text not read yet stands
  for \<open>src\<close> and \<open>i\<close>; the position and line are carried along because errors report them.
\<close>

datatype tokKind = tEOF | tNum | tIdent | tPunct

record token =
  kind :: tokKind
  str :: string
  num :: u64
  pos :: nat
  line :: nat

text \<open>The errors of scanner, parser and compiler, with what their messages report.\<close>

datatype shl_error =
    BadNumber nat string | UnexpectedChar nat char
  | ExpectedName nat | ExpectedFnName nat | ExpectedParam nat | Expected nat string string
  | Unexpected nat string | UnexpectedInExpr nat string | UnknownMsg nat string
  | NotMapping string | UndefinedVar string | UnknownBuiltin string | UnknownOp string
  | CannotCompileStmt | CannotCompileExpr

definition char_code :: "char \<Rightarrow> nat" where
  "char_code c = of_char c"

definition isDigit :: "char \<Rightarrow> bool" where
  "isDigit c \<longleftrightarrow> 48 \<le> char_code c \<and> char_code c \<le> 57"

definition isIdentStart :: "char \<Rightarrow> bool" where
  "isIdentStart c \<longleftrightarrow> c = CHR ''_'' \<or> (97 \<le> char_code c \<and> char_code c \<le> 122) \<or> (65 \<le> char_code c \<and> char_code c \<le> 90)"

definition isIdentPart :: "char \<Rightarrow> bool" where
  "isIdentPart c \<longleftrightarrow> isIdentStart c \<or> isDigit c"

text \<open>Blanks and comments.\<close>

function skip :: "string \<Rightarrow> nat \<Rightarrow> nat \<Rightarrow> string \<times> nat \<times> nat" where
  "skip [] i ln = ([], i, ln)"
| "skip (c # cs) i ln =
     (if c = CHR 0x0A then skip cs (i + 1) (ln + 1)
      else if c = CHR '' '' \<or> c = CHR 0x09 \<or> c = CHR 0x0D then skip cs (i + 1) ln
      else if c = CHR ''/'' \<and> (case cs of d # _ \<Rightarrow> d = CHR ''/'' | [] \<Rightarrow> False)
      then skip (dropWhile (\<lambda>x. x \<noteq> CHR 0x0A) cs) (i + 1 + length (takeWhile (\<lambda>x. x \<noteq> CHR 0x0A) cs)) ln
      else (c # cs, i, ln))"
  by pat_completeness auto
termination
  by (relation "measure (\<lambda>(cs, _, _). length cs)") (auto simp: less_Suc_eq_le length_dropWhile_le)

definition two_char_ops :: "string list" where
  "two_char_ops = [''=='', ''&&'', ''||'', ''!='', ''<='', ''>='']"

definition one_char_ops :: string where
  "one_char_ops = ''(){}[];,.=+-*/%<>!''"

definition punct_at :: "string \<Rightarrow> nat \<Rightarrow> nat \<Rightarrow> token" where
  "punct_at s i ln = \<lparr>kind = tPunct, str = s, num = 0, pos = i, line = ln\<rparr>"

text \<open>One token from a text that starts with none to skip.\<close>

definition scan :: "string \<Rightarrow> nat \<Rightarrow> nat \<Rightarrow> (shl_error, token \<times> string \<times> nat) result" where
  "scan cs i ln =
     (case cs of
        [] \<Rightarrow> Ok (\<lparr>kind = tEOF, str = [], num = 0, pos = i, line = ln\<rparr>, [], i)
      | c # r \<Rightarrow>
          if isDigit c then
            (let ds = takeWhile isDigit cs in
             case ParseUint (ascii ds) of
               None \<Rightarrow> Err (BadNumber ln ds)
             | Some n \<Rightarrow> Ok (\<lparr>kind = tNum, str = [], num = n, pos = i, line = ln\<rparr>, dropWhile isDigit cs, i + length ds))
          else if isIdentStart c then
            (let w = takeWhile isIdentPart cs
             in Ok (\<lparr>kind = tIdent, str = w, num = 0, pos = i, line = ln\<rparr>, dropWhile isIdentPart cs, i + length w))
          else if 2 \<le> length cs \<and> List.member two_char_ops (take 2 cs) then Ok (punct_at (take 2 cs) i ln, drop 2 cs, i + 2)
          else if List.member one_char_ops c then Ok (punct_at [c] i ln, r, i + 1)
          else Err (UnexpectedChar ln c))"

definition next_token :: "string \<Rightarrow> nat \<Rightarrow> nat \<Rightarrow> (shl_error, token \<times> string \<times> nat \<times> nat) result" where
  "next_token cs i ln =
     (case skip cs i ln of (cs', i', ln') \<Rightarrow>
        rbind (scan cs' i' ln') (\<lambda>(t, r, j). Ok (t, r, j, ln')))"

lemma skip_length: "skip cs i ln = (cs', i', ln') \<Longrightarrow> length cs' \<le> length cs"
proof (induction cs i ln rule: skip.induct)
  case (2 c cs i ln)
  show ?case
    using 2 length_dropWhile_le [of "\<lambda>x. x \<noteq> CHR 0x0A" cs] by (auto split: if_splits)
qed simp

lemma scan_shrinks:
  assumes "scan cs i ln = Ok (t, r, j)" shows "length r < length cs \<or> (kind t = tEOF \<and> cs = [])"
proof (cases cs)
  case (Cons c cs')
  have d: "length (dropWhile P cs) < length cs" if "P c" for P
    using that length_dropWhile_le [of P cs'] by (simp add: Cons less_Suc_eq_le)
  have "isIdentStart c \<Longrightarrow> isIdentPart c" by (simp add: isIdentPart_def)
  with assms d [of isDigit] d [of isIdentPart] show ?thesis
    by (auto simp: scan_def Cons Let_def punct_at_def split: if_splits option.splits)
qed (use assms in \<open>auto simp: scan_def\<close>)

lemma next_token_shrinks:
  assumes "next_token cs i ln = Ok (t, r, j, ln')" "kind t \<noteq> tEOF" shows "length r < length cs"
proof -
  obtain cs' i' l' where s: "skip cs i ln = (cs', i', l')" by (cases "skip cs i ln")
  with assms(1) have "scan cs' i' l' = Ok (t, r, j)" by (auto simp: next_token_def)
  from scan_shrinks [OF this] skip_length [OF s] assms(2) show ?thesis by auto
qed

function lex_from :: "string \<Rightarrow> nat \<Rightarrow> nat \<Rightarrow> (shl_error, token list) result" where
  "lex_from cs i ln =
     (case next_token cs i ln of
        Err e \<Rightarrow> Err e
      | Panic \<Rightarrow> Panic
      | Ok (t, r, j, ln') \<Rightarrow>
          if kind t = tEOF then Ok [t] else rbind (lex_from r j ln') (\<lambda>ts. Ok (t # ts)))"
  by pat_completeness auto
termination
  by (relation "measure (\<lambda>(cs, _, _). length cs)") (auto intro: next_token_shrinks)

declare lex_from.simps [simp del]

definition lex :: "string \<Rightarrow> (shl_error, token list) result" where
  "lex src = lex_from src 0 1"

text \<open>A scan ends in exactly one end-of-input token, and there are no more tokens than characters.\<close>

definition token_seq :: "token list \<Rightarrow> bool" where
  "token_seq ts \<longleftrightarrow> ts \<noteq> [] \<and> kind (last ts) = tEOF \<and> str (last ts) = [] \<and> (\<forall>t\<in>set (butlast ts). kind t \<noteq> tEOF)"

lemma token_seq_Cons: "token_seq (t # ts) \<longleftrightarrow> (if ts = [] then kind t = tEOF \<and> str t = [] else kind t \<noteq> tEOF \<and> token_seq ts)"
  by (auto simp: token_seq_def)

lemma token_seq_ne: "token_seq ts \<Longrightarrow> ts \<noteq> []"
  by (simp add: token_seq_def)

lemma lex_from_ok:
  "lex_from cs i ln \<noteq> Panic \<and> (\<forall>ts. lex_from cs i ln = Ok ts \<longrightarrow> token_seq ts \<and> length ts \<le> length cs + 1)"
proof (induction cs i ln rule: lex_from.induct)
  case (1 cs i ln)
  have eof: "next_token cs i ln = Ok (t, x) \<Longrightarrow> kind t = tEOF \<Longrightarrow> str t = []" for t x
    by (auto simp: next_token_def scan_def Let_def punct_at_def split: prod.splits list.splits if_splits option.splits)
  have np: "scan x y z \<noteq> Panic" for x y z
    by (auto simp: scan_def Let_def split: list.split option.split)
  show ?case
  proof (cases "next_token cs i ln")
    case (Ok x)
    obtain t r j l where x: "x = (t, r, j, l)" by (cases x)
    show ?thesis
    proof (cases "kind t = tEOF")
      case False
      note ih = "1.IH" [OF Ok x [symmetric] refl refl False] and sh = next_token_shrinks [OF Ok [unfolded x] False]
      then show ?thesis
        using False by (auto simp: lex_from.simps [of cs] Ok x rbind_eq_Panic_iff token_seq_Cons token_seq_ne)
    qed (use eof Ok x in \<open>simp add: lex_from.simps [of cs] token_seq_Cons\<close>)
  next
    case Panic
    then have False by (auto simp: next_token_def rbind_eq_Panic_iff np split: prod.splits)
    then show ?thesis ..
  qed (simp add: lex_from.simps [of cs])
qed

lemma lex_ok: "lex src = Ok ts \<Longrightarrow> token_seq ts \<and> length ts \<le> length src + 1" "lex src \<noteq> Panic"
  using lex_from_ok [of src 0 1] by (auto simp: lex_def)

end
