(* ===== verification/SL_Parser.thy ===== *)
theory SL_Parser
  imports SL_Lexer
begin

text \<open>
  \<^verbatim>\<open>internal/shl/parser.go\<close>: recursive descent over the tokens.  A parser is a function of the
  tokens not read yet, \<open>toks[i:]\<close>; reading past the last one is the panic of an index out of range.
  The recursion of expressions and of statements carries a budget, and so do the loops;
  \<open>None\<close> means that it ran out, which \<open>Parse\<close> is shown never to do with as many units as
  there are tokens.  The depth of the recursion is not bounded: a goroutine stack that overflows on
  extremely deep nesting is not represented.
\<close>

section \<open>Syntax trees\<close>

datatype expr =
    Num u64
  | Var string
  | Load expr
  | Index string expr
  | Builtin string "expr option"
  | Unary string expr
  | Binary string expr expr

datatype stmt =
    LetStmt string expr
  | StoreStmt expr expr
  | IfStmt expr "stmt list" "stmt list"
  | WhileStmt expr "stmt list"
  | EmitStmt "expr list"
  | ReturnStmt expr
  | StopStmt
  | StateDecl string
  | FnDecl string "string list" "stmt list"
  | RequireStmt expr
  | RevertStmt
  | IndexStore string expr expr

section \<open>Parsers\<close>

type_synonym 'a parsed = "(shl_error, 'a \<times> token list) result option"
type_synonym 'a parser = "token list \<Rightarrow> 'a parsed"

fun pbind :: "'a parsed \<Rightarrow> ('a \<Rightarrow> 'b parser) \<Rightarrow> 'b parsed" where
  "pbind None f = None"
| "pbind (Some (Ok (x, ts))) f = f x ts"
| "pbind (Some (Err e)) f = Some (Err e)"
| "pbind (Some Panic) f = Some Panic"

abbreviation give :: "'a \<Rightarrow> 'a parser" where
  "give x ts \<equiv> Some (Ok (x, ts))"

abbreviation reject :: "shl_error \<Rightarrow> 'a parsed" where
  "reject e \<equiv> Some (Err e)"

definition cur_tok :: "token parser" where
  "cur_tok ts = (case ts of [] \<Rightarrow> Some Panic | t # _ \<Rightarrow> give t ts)"

definition adv :: "token parser" where
  "adv ts = (case ts of [] \<Rightarrow> Some Panic | t # r \<Rightarrow> give t r)"

definition isPunct :: "string \<Rightarrow> token \<Rightarrow> bool" where
  "isPunct s t \<longleftrightarrow> kind t = tPunct \<and> str t = s"

definition isKw :: "string \<Rightarrow> token \<Rightarrow> bool" where
  "isKw s t \<longleftrightarrow> kind t = tIdent \<and> str t = s"

definition expect :: "string \<Rightarrow> unit parser" where
  "expect s ts =
     pbind (cur_tok ts) (\<lambda>t ts.
       if isPunct s t then pbind (adv ts) (\<lambda>_. give ())
       else reject (Expected (line t) s (str t)))"

text \<open>\<^verbatim>\<open>return x, p.expect(s)\<close>: the node is dropped when the error is not nil.\<close>

definition closing :: "string \<Rightarrow> 'a \<Rightarrow> 'a parser" where
  "closing s x ts = pbind (expect s ts) (\<lambda>_. give x)"

section \<open>Expressions\<close>

definition primary :: "expr parser \<Rightarrow> expr parser" where
  "primary E ts =
     pbind (cur_tok ts) (\<lambda>t ts.
       if kind t = tNum then pbind (adv ts) (\<lambda>t. give (Num (num t)))
       else if isPunct ''('' t then pbind (adv ts) (\<lambda>_ ts. pbind (E ts) (closing '')''))
       else if isKw ''store'' t then
         pbind (adv ts) (\<lambda>_ ts. pbind (expect ''['' ts) (\<lambda>_ ts. pbind (E ts) (\<lambda>k. closing '']'' (Load k))))
       else if isKw ''caller'' t \<or> isKw ''value'' t \<or> isKw ''balance'' t \<or> isKw ''self'' t then
         pbind (adv ts) (\<lambda>n ts. pbind (expect ''('' ts) (\<lambda>_. closing '')'' (Builtin (str n) None)))
       else if isKw ''arg'' t then
         pbind (adv ts) (\<lambda>_ ts. pbind (expect ''('' ts) (\<lambda>_ ts. pbind (E ts) (\<lambda>e. closing '')'' (Builtin ''arg'' (Some e)))))
       else if isKw ''msg'' t then
         pbind (adv ts) (\<lambda>_ ts. pbind (expect ''.'' ts) (\<lambda>_ ts. pbind (adv ts) (\<lambda>f ts.
           if str f = ''sender'' then give (Builtin ''caller'' None) ts
           else if str f = ''value'' then give (Builtin ''value'' None) ts
           else reject (UnknownMsg (line f) (str f)))))
       else if kind t = tIdent then
         pbind (adv ts) (\<lambda>n ts. pbind (cur_tok ts) (\<lambda>c ts.
           if isPunct ''['' c then pbind (adv ts) (\<lambda>_ ts. pbind (E ts) (\<lambda>k. closing '']'' (Index (str n) k)))
           else give (Var (str n)) ts))
       else reject (UnexpectedInExpr (line t) (str t)))"

fun unary :: "expr parser \<Rightarrow> expr parser" where
  "unary E [] = Some Panic"
| "unary E (t # ts) =
     (if isPunct ''!'' t then pbind (unary E ts) (\<lambda>x. give (Unary ''!'' x)) else primary E (t # ts))"

text \<open>The loop of the left-associative levels.\<close>

primrec binloop :: "nat \<Rightarrow> string list \<Rightarrow> expr parser \<Rightarrow> expr \<Rightarrow> expr parser" where
  "binloop 0 ops sub l ts = None"
| "binloop (Suc n) ops sub l ts =
     pbind (cur_tok ts) (\<lambda>t ts.
       if (\<exists>s\<in>set ops. isPunct s t)
       then pbind (adv ts) (\<lambda>o1 ts. pbind (sub ts) (\<lambda>r. binloop n ops sub (Binary (str o1) l r)))
       else give l ts)"

definition mulExpr :: "nat \<Rightarrow> expr parser \<Rightarrow> expr parser" where
  "mulExpr n E ts = pbind (unary E ts) (binloop n [''*'', ''/'', ''%''] (unary E))"

definition addExpr :: "nat \<Rightarrow> expr parser \<Rightarrow> expr parser" where
  "addExpr n E ts = pbind (mulExpr n E ts) (binloop n [''+'', ''-''] (mulExpr n E))"

definition cmpExpr :: "nat \<Rightarrow> expr parser \<Rightarrow> expr parser" where
  "cmpExpr n E ts =
     pbind (addExpr n E ts) (\<lambda>l ts. pbind (cur_tok ts) (\<lambda>t ts.
       if isPunct ''=='' t \<or> isPunct ''!='' t \<or> isPunct ''<'' t \<or> isPunct ''>'' t \<or> isPunct ''<='' t \<or> isPunct ''>='' t
       then pbind (adv ts) (\<lambda>o1 ts. pbind (addExpr n E ts) (\<lambda>r. give (Binary (str o1) l r)))
       else give l ts))"

definition andExpr :: "nat \<Rightarrow> expr parser \<Rightarrow> expr parser" where
  "andExpr n E ts = pbind (cmpExpr n E ts) (binloop n [''&&''] (cmpExpr n E))"

definition orExpr :: "nat \<Rightarrow> expr parser \<Rightarrow> expr parser" where
  "orExpr n E ts = pbind (andExpr n E ts) (binloop n [''||''] (andExpr n E))"

primrec p_expr :: "nat \<Rightarrow> expr parser" where
  "p_expr 0 ts = None"
| "p_expr (Suc n) ts = orExpr (Suc n) (p_expr n) ts"

section \<open>Statements\<close>

primrec args_loop :: "nat \<Rightarrow> expr parser \<Rightarrow> expr list \<Rightarrow> expr list parser" where
  "args_loop 0 E acc ts = None"
| "args_loop (Suc n) E acc ts =
     pbind (cur_tok ts) (\<lambda>t ts.
       if isPunct '')'' t then closing '')'' acc ts
       else pbind (E ts) (\<lambda>e ts. pbind (cur_tok ts) (\<lambda>c ts.
         if isPunct '','' c then pbind (adv ts) (\<lambda>_. args_loop n E (acc @ [e])) else args_loop n E (acc @ [e]) ts)))"

definition callArgs :: "nat \<Rightarrow> expr parser \<Rightarrow> expr list parser" where
  "callArgs n E ts = pbind (expect ''('' ts) (\<lambda>_. args_loop n E [])"

primrec block_loop :: "nat \<Rightarrow> stmt parser \<Rightarrow> stmt list \<Rightarrow> stmt list parser" where
  "block_loop 0 S acc ts = None"
| "block_loop (Suc n) S acc ts =
     pbind (cur_tok ts) (\<lambda>t ts.
       if isPunct ''}'' t \<or> kind t = tEOF then closing ''}'' acc ts
       else pbind (S ts) (\<lambda>s. block_loop n S (acc @ [s])))"

definition block :: "nat \<Rightarrow> stmt parser \<Rightarrow> stmt list parser" where
  "block n S ts = pbind (expect ''{'' ts) (\<lambda>_. block_loop n S [])"

definition ifStmt :: "nat \<Rightarrow> expr parser \<Rightarrow> stmt parser \<Rightarrow> stmt parser" where
  "ifStmt n E S ts =
     pbind (adv ts) (\<lambda>_ ts. pbind (expect ''('' ts) (\<lambda>_ ts. pbind (E ts) (\<lambda>c ts.
     pbind (expect '')'' ts) (\<lambda>_ ts. pbind (block n S ts) (\<lambda>th ts. pbind (cur_tok ts) (\<lambda>t ts.
       if isKw ''else'' t then pbind (adv ts) (\<lambda>_ ts. pbind (block n S ts) (\<lambda>el. give (IfStmt c th el)))
       else give (IfStmt c th []) ts))))))"

definition whileStmt :: "nat \<Rightarrow> expr parser \<Rightarrow> stmt parser \<Rightarrow> stmt parser" where
  "whileStmt n E S ts =
     pbind (adv ts) (\<lambda>_ ts. pbind (expect ''('' ts) (\<lambda>_ ts. pbind (E ts) (\<lambda>c ts.
     pbind (expect '')'' ts) (\<lambda>_ ts. pbind (block n S ts) (\<lambda>b. give (WhileStmt c b))))))"

definition stmt_body :: "nat \<Rightarrow> expr parser \<Rightarrow> stmt parser \<Rightarrow> stmt parser" where
  "stmt_body n E S ts =
     pbind (cur_tok ts) (\<lambda>t ts.
       if isKw ''let'' t then
         pbind (adv ts) (\<lambda>_ ts. pbind (adv ts) (\<lambda>x ts.
           if kind x \<noteq> tIdent then reject (ExpectedName (line x))
           else pbind (expect ''='' ts) (\<lambda>_ ts. pbind (E ts) (\<lambda>v. closing '';'' (LetStmt (str x) v)))))
       else if isKw ''store'' t then
         pbind (adv ts) (\<lambda>_ ts. pbind (expect ''['' ts) (\<lambda>_ ts. pbind (E ts) (\<lambda>k ts.
         pbind (expect '']'' ts) (\<lambda>_ ts. pbind (expect ''='' ts) (\<lambda>_ ts. pbind (E ts) (\<lambda>v. closing '';'' (StoreStmt k v)))))))
       else if isKw ''if'' t then ifStmt n E S ts
       else if isKw ''while'' t then whileStmt n E S ts
       else if isKw ''emit'' t then pbind (adv ts) (\<lambda>_ ts. pbind (callArgs n E ts) (\<lambda>as. closing '';'' (EmitStmt as)))
       else if isKw ''return'' t then pbind (adv ts) (\<lambda>_ ts. pbind (E ts) (\<lambda>v. closing '';'' (ReturnStmt v)))
       else if isKw ''stop'' t then pbind (adv ts) (\<lambda>_. closing '';'' StopStmt)
       else if isKw ''require'' t then
         pbind (adv ts) (\<lambda>_ ts. pbind (expect ''('' ts) (\<lambda>_ ts. pbind (E ts) (\<lambda>c ts.
         pbind (expect '')'' ts) (\<lambda>_. closing '';'' (RequireStmt c)))))
       else if isKw ''revert'' t then pbind (adv ts) (\<lambda>_. closing '';'' RevertStmt)
       else if kind t = tIdent then
         pbind (adv ts) (\<lambda>x ts. pbind (cur_tok ts) (\<lambda>c ts.
           if isPunct ''['' c then
             pbind (adv ts) (\<lambda>_ ts. pbind (E ts) (\<lambda>k ts. pbind (expect '']'' ts) (\<lambda>_ ts.
             pbind (expect ''='' ts) (\<lambda>_ ts. pbind (E ts) (\<lambda>v. closing '';'' (IndexStore (str x) k v))))))
           else pbind (expect ''='' ts) (\<lambda>_ ts. pbind (E ts) (\<lambda>v. closing '';'' (LetStmt (str x) v)))))
       else reject (Unexpected (line t) (str t)))"

primrec p_stmt :: "nat \<Rightarrow> stmt parser" where
  "p_stmt 0 ts = None"
| "p_stmt (Suc n) ts = stmt_body (Suc n) (p_expr (Suc n)) (p_stmt n) ts"

primrec params_loop :: "nat \<Rightarrow> string list \<Rightarrow> string list parser" where
  "params_loop 0 acc ts = None"
| "params_loop (Suc n) acc ts =
     pbind (cur_tok ts) (\<lambda>t ts.
       if isPunct '')'' t then give acc ts
       else pbind (adv ts) (\<lambda>x ts.
         if kind x \<noteq> tIdent then reject (ExpectedParam (line x))
         else pbind (cur_tok ts) (\<lambda>c ts.
           if isPunct '','' c then pbind (adv ts) (\<lambda>_. params_loop n (acc @ [str x])) else params_loop n (acc @ [str x]) ts)))"

definition fnDecl :: "nat \<Rightarrow> stmt parser" where
  "fnDecl n ts =
     pbind (adv ts) (\<lambda>_ ts. pbind (adv ts) (\<lambda>x ts.
       if kind x \<noteq> tIdent then reject (ExpectedFnName (line x))
       else pbind (expect ''('' ts) (\<lambda>_ ts. pbind (params_loop n [] ts) (\<lambda>ps ts.
            pbind (expect '')'' ts) (\<lambda>_ ts. pbind (block n (p_stmt n) ts) (\<lambda>b. give (FnDecl (str x) ps b)))))))"

definition topLevel :: "nat \<Rightarrow> stmt parser" where
  "topLevel n ts =
     pbind (cur_tok ts) (\<lambda>t ts.
       if isKw ''state'' t then
         pbind (adv ts) (\<lambda>_ ts. pbind (adv ts) (\<lambda>x ts.
           if kind x \<noteq> tIdent then reject (ExpectedName (line x)) else closing '';'' (StateDecl (str x)) ts))
       else if isKw ''fn'' t then fnDecl n ts
       else p_stmt n ts)"

primrec prog_loop :: "nat \<Rightarrow> nat \<Rightarrow> stmt list \<Rightarrow> stmt list parser" where
  "prog_loop 0 m acc ts = None"
| "prog_loop (Suc n) m acc ts =
     pbind (cur_tok ts) (\<lambda>t ts.
       if kind t = tEOF then give acc ts
       else pbind (topLevel m ts) (\<lambda>s. prog_loop n m (acc @ [s])))"

definition Parse :: "string \<Rightarrow> (shl_error, stmt list) result option" where
  "Parse src =
     (case lex src of
        Err e \<Rightarrow> Some (Err e)
      | Panic \<Rightarrow> Some Panic
      | Ok ts \<Rightarrow>
          (case prog_loop (length ts) (length ts) [] ts of
             None \<Rightarrow> None
           | Some (Ok (p, _)) \<Rightarrow> Some (Ok p)
           | Some (Err e) \<Rightarrow> Some (Err e)
           | Some Panic \<Rightarrow> Some Panic))"

section \<open>Parsing ends and reads no token past the last\<close>

text \<open>A good outcome: an error, or a value with fewer than \<open>n\<close> tokens left, ending in the end of input.\<close>

definition good :: "nat \<Rightarrow> 'a parsed \<Rightarrow> bool" where
  "good n r \<longleftrightarrow>
     (case r of Some (Ok (_, ts)) \<Rightarrow> token_seq ts \<and> length ts < n | Some (Err _) \<Rightarrow> True | Some Panic \<Rightarrow> False | None \<Rightarrow> False)"

definition works :: "nat \<Rightarrow> 'a parser \<Rightarrow> bool" where
  "works m P \<longleftrightarrow> (\<forall>ts. token_seq ts \<and> length ts \<le> m \<longrightarrow> good (length ts) (P ts))"

lemma good_simps [simp]:
  "good n (give x ts) \<longleftrightarrow> token_seq ts \<and> length ts < n" "good n (reject e)"
  by (simp_all add: good_def)

lemma good_bind:
  assumes "good n r" "\<And>x ts. token_seq ts \<Longrightarrow> length ts < n \<Longrightarrow> good m (f x ts)"
  shows "good m (pbind r f)"
  using assms by (auto simp: good_def [of n] split: option.splits result.splits prod.splits)

lemma good_mono: "good n r \<Longrightarrow> n \<le> m \<Longrightarrow> good m r"
  by (auto simp: good_def split: option.splits result.splits prod.splits)

lemma worksD: "works m P \<Longrightarrow> token_seq ts \<Longrightarrow> length ts \<le> m \<Longrightarrow> good (length ts) (P ts)"
  by (simp add: works_def)

lemma tok_simps [simp]: "cur_tok (t # ts) = give t (t # ts)" "adv (t # ts) = give t ts"
  by (simp_all add: cur_tok_def adv_def)

lemma tok_kinds: "isPunct s t \<Longrightarrow> kind t = tPunct" "isKw s t \<Longrightarrow> kind t = tIdent"
  by (simp_all add: isPunct_def isKw_def)

lemma seq_tail: "token_seq (t # ts) \<Longrightarrow> kind t \<noteq> tEOF \<Longrightarrow> token_seq ts"
  by (auto simp: token_seq_Cons split: if_splits)

lemma seq_read: "token_seq (t # ts) \<Longrightarrow> kind t = tPunct \<Longrightarrow> token_seq ts" "token_seq (t # ts) \<Longrightarrow> kind t = tIdent \<Longrightarrow> token_seq ts"
  by (auto intro: seq_tail)

lemma good_expect: assumes "token_seq ts" shows "good (length ts) (expect s ts)"
proof (cases ts)
  case (Cons t r)
  with assms seq_tail [of t r] tok_kinds(1) [of s t] show ?thesis by (auto simp: expect_def)
qed (use assms in \<open>simp add: token_seq_def\<close>)

lemma good_closing: "token_seq ts \<Longrightarrow> length ts \<le> n \<Longrightarrow> good n (closing s x ts)"
  unfolding closing_def by (rule good_bind [OF good_expect]) auto

text \<open>A token that was looked at and is not the end of the input can be read.\<close>

lemma good_adv:
  assumes "token_seq (t # ts)" "kind t \<noteq> tEOF" "\<And>u. token_seq ts \<Longrightarrow> good m (f t ts)"
  shows "good m (pbind (adv (t # ts)) f)"
  using assms seq_tail [OF assms(1,2)] by simp

lemma good_name:
  assumes "token_seq ts" "\<And>x r. ts = x # r \<Longrightarrow> kind x = tIdent \<Longrightarrow> token_seq r \<Longrightarrow> good m (f x r)"
  shows "good m (pbind (adv ts) (\<lambda>x ts. if kind x \<noteq> tIdent then reject (e x) else f x ts))"
proof (cases ts)
  case (Cons x r)
  with assms seq_tail [of x r] show ?thesis by auto
qed (use assms in \<open>simp add: token_seq_def\<close>)

lemma good_cur:
  assumes "token_seq ts" "\<And>t r. ts = t # r \<Longrightarrow> good m (f t ts)"
  shows "good m (pbind (cur_tok ts) f)"
  using assms by (cases ts) (auto simp: token_seq_def)

lemma good_then:
  assumes "works m P" "token_seq ts" "length ts \<le> m" "\<And>x r. token_seq r \<Longrightarrow> length r < length ts \<Longrightarrow> good n (f x r)"
  shows "good n (pbind (P ts) f)"
  by (rule good_bind [OF worksD [OF assms(1-3)] assms(4)])

lemma good_expect_then:
  assumes "token_seq ts" "\<And>r. token_seq r \<Longrightarrow> length r < length ts \<Longrightarrow> good n (f () r)"
  shows "good n (pbind (expect s ts) f)"
  by (rule good_bind [OF good_expect [OF assms(1)]]) (use assms(2) in simp)

lemma good_if: "(b \<Longrightarrow> good n x) \<Longrightarrow> (\<not> b \<Longrightarrow> good n y) \<Longrightarrow> good n (if b then x else y)"
  by simp

lemma works_primary:
  assumes E: "works n E" shows "works (Suc n) (primary E)"
  unfolding works_def
proof (intro allI impI, elim conjE)
  fix ts assume ts: "token_seq ts" "length ts \<le> Suc n"
  then obtain t r where c: "ts = t # r" by (cases ts) (auto simp: token_seq_def)
  have r: "kind t \<noteq> tEOF \<Longrightarrow> token_seq r" using seq_tail ts(1) c by blast
  have e: "good m (pbind (E u) f)" if "token_seq u" "length u \<le> n" "\<And>x v. token_seq v \<Longrightarrow> length v < length u \<Longrightarrow> good m (f x v)" for m u f
    by (rule good_then [OF E that])
  have f: "good (Suc (length r)) (pbind (adv u) (\<lambda>f ts. if str f = ''sender'' then give (Builtin ''caller'' None) ts
      else if str f = ''value'' then give (Builtin ''value'' None) ts else reject (UnknownMsg (line f) (str f))))"
    if "token_seq u" "length u < length r" for u
    using that by (cases u) (auto simp: token_seq_def split: if_splits)
  have "good (Suc (length r)) (primary E (t # r))"
    unfolding primary_def using ts r
    by (auto simp: c intro!: e f good_expect_then good_closing good_cur dest!: tok_kinds dest: seq_read)
  then show "good (length ts) (primary E ts)" by (simp add: c)
qed

lemma works_unary: assumes "works n E" shows "works (Suc n) (unary E)"
proof -
  have "token_seq ts \<Longrightarrow> length ts \<le> Suc n \<Longrightarrow> good (length ts) (unary E ts)" for ts
  proof (induction ts)
    case (Cons t ts)
    show ?case
    proof (cases "isPunct ''!'' t")
      case True
      then have s: "token_seq ts" using Cons.prems(1) by (auto dest: tok_kinds seq_read)
      from Cons.prems(2) have "length ts \<le> Suc n" by simp
      note ih = Cons.IH [OF s this]
      have "good (Suc (length ts)) (pbind (unary E ts) (\<lambda>x. give (Unary ''!'' x)))"
        by (rule good_bind [OF ih]) simp
      with True show ?thesis by simp
    next
      case False
      then show ?thesis using worksD [OF works_primary [OF assms] Cons.prems] by simp
    qed
  qed (simp add: token_seq_def)
  then show ?thesis by (simp add: works_def)
qed

lemma good_binloop:
  assumes sub: "works m sub" and "token_seq ts" "length ts \<le> k" "length ts \<le> Suc m"
  shows "good (Suc (length ts)) (binloop k ops sub l ts)"
  using assms(2-4)
proof (induction k arbitrary: l ts)
  case (Suc k)
  then obtain t r where c: "ts = t # r" by (cases ts) (auto simp: token_seq_def)
  show ?case
  proof (cases "\<exists>s\<in>set ops. isPunct s t")
    case True
    then have r: "token_seq r" using Suc.prems(1) c by (auto dest: tok_kinds seq_read)
    have "good (Suc (length ts)) (pbind (sub r) (\<lambda>x. binloop k ops sub (Binary (str t) l x)))"
    proof (rule good_then [OF sub r])
      show "length r \<le> m" using Suc.prems(3) c by simp
      show "good (Suc (length ts)) (binloop k ops sub (Binary (str t) l x) u)" if "token_seq u" "length u < length r" for x u
        by (rule good_mono [OF Suc.IH]) (use that Suc.prems c in auto)
    qed
    with True c show ?thesis by auto
  qed (use Suc.prems(1) c in auto)
qed (simp add: token_seq_def)

lemma works_level:
  assumes "works (Suc n) sub" shows "works (Suc n) (\<lambda>ts. pbind (sub ts) (binloop (Suc n) ops sub))"
  unfolding works_def
proof (intro allI impI, elim conjE)
  fix ts assume ts: "token_seq ts" "length ts \<le> Suc n"
  show "good (length ts) (pbind (sub ts) (binloop (Suc n) ops sub))"
    by (rule good_then [OF assms ts], rule good_mono [OF good_binloop [OF assms]]) (use ts in auto)
qed

lemma works_cmp:
  assumes a: "works (Suc n) (addExpr (Suc n) E)" shows "works (Suc n) (cmpExpr (Suc n) E)"
  unfolding works_def
proof (intro allI impI, elim conjE)
  fix ts assume ts: "token_seq ts" "length ts \<le> Suc n"
  show "good (length ts) (cmpExpr (Suc n) E ts)"
    unfolding cmpExpr_def
  proof (rule good_then [OF a ts])
    fix l r assume r: "token_seq r" "length r < length ts"
    then obtain t q where c: "r = t # q" by (cases r) (auto simp: token_seq_def)
    have "good (length ts) (pbind (addExpr (Suc n) E q) (\<lambda>x. give (Binary (str t) l x)))" if "kind t = tPunct"
      by (rule good_then [OF a]) (use that r ts c in \<open>auto dest: seq_read\<close>)
    with r c show "good (length ts) (pbind (cur_tok r) (\<lambda>t ts.
       if isPunct ''=='' t \<or> isPunct ''!='' t \<or> isPunct ''<'' t \<or> isPunct ''>'' t \<or> isPunct ''<='' t \<or> isPunct ''>='' t
       then pbind (adv ts) (\<lambda>o1 ts. pbind (addExpr (Suc n) E ts) (\<lambda>r. give (Binary (str o1) l r))) else give l ts))"
      by (auto dest: tok_kinds)
  qed
qed

lemma works_or: assumes "works n E" shows "works (Suc n) (orExpr (Suc n) E)"
proof -
  have "works (Suc n) (mulExpr (Suc n) E)"
    using works_level [OF works_unary [OF assms]] by (simp add: mulExpr_def [abs_def])
  from works_level [OF this] have "works (Suc n) (addExpr (Suc n) E)" by (simp add: addExpr_def [abs_def])
  from works_level [OF works_cmp [OF this]] have "works (Suc n) (andExpr (Suc n) E)" by (simp add: andExpr_def [abs_def])
  from works_level [OF this] show ?thesis by (simp add: orExpr_def [abs_def])
qed

lemma works_expr: "works n (p_expr n)"
proof (induction n)
  case (Suc n)
  then show ?case using works_or [OF Suc] by (simp add: works_def)
qed (auto simp: works_def token_seq_def)

lemma good_args:
  assumes E: "works m E" and "token_seq ts" "length ts \<le> k" "length ts \<le> m"
  shows "good (length ts) (args_loop k E acc ts)"
  using assms(2-4)
proof (induction k arbitrary: acc ts)
  case (Suc k)
  show ?case
    unfolding args_loop.simps
  proof (rule good_cur [OF Suc.prems(1)])
    fix t r assume c: "ts = t # r"
    have "good (length ts) (pbind (E ts) (\<lambda>e ts. pbind (cur_tok ts) (\<lambda>c ts.
         if isPunct '','' c then pbind (adv ts) (\<lambda>_. args_loop k E (acc @ [e])) else args_loop k E (acc @ [e]) ts)))"
    proof (rule good_then [OF E Suc.prems(1,3)], rule good_cur, assumption)
      fix e u c v assume u: "token_seq u" "length u < length ts" "u = c # v"
      have ih: "good (length ts) (args_loop k E (acc @ [e]) w)" if "token_seq w" "length w < length ts" for w
        by (rule good_mono [OF Suc.IH]) (use that Suc.prems in auto)
      show "good (length ts) (if isPunct '','' c then pbind (adv u) (\<lambda>_. args_loop k E (acc @ [e])) else args_loop k E (acc @ [e]) u)"
        using u ih [OF u(1,2)] ih [of v] by (auto dest: tok_kinds seq_read)
    qed
    then show "good (length ts) (if isPunct '')'' t then closing '')'' acc ts else pbind (E ts) (\<lambda>e ts. pbind (cur_tok ts) (\<lambda>c ts.
         if isPunct '','' c then pbind (adv ts) (\<lambda>_. args_loop k E (acc @ [e])) else args_loop k E (acc @ [e]) ts)))"
      by (auto intro: good_closing [OF Suc.prems(1)])
  qed
qed (simp add: token_seq_def)

lemma works_args: "works m E \<Longrightarrow> works m (callArgs m E)"
  unfolding works_def [of m "callArgs m E"] callArgs_def
  by (auto intro!: good_expect_then good_mono [OF good_args])

lemma good_block_loop:
  assumes S: "works m S" and "token_seq ts" "length ts \<le> k" "length ts \<le> m"
  shows "good (length ts) (block_loop k S acc ts)"
  using assms(2-4)
proof (induction k arbitrary: acc ts)
  case (Suc k)
  have "good (length ts) (pbind (S ts) (\<lambda>s. block_loop k S (acc @ [s])))"
    by (rule good_then [OF S Suc.prems(1,3)], rule good_mono [OF Suc.IH]) (use Suc.prems in auto)
  then show ?case
    unfolding block_loop.simps by (intro good_cur good_if good_closing) (rule Suc.prems(1) order_refl | assumption)+
qed (simp add: token_seq_def)

lemma works_block: "works m S \<Longrightarrow> works (Suc m) (block (Suc m) S)"
  unfolding works_def [of "Suc m"] block_def
  by (auto intro!: good_expect_then good_mono [OF good_block_loop])

text \<open>Stepping through the statements and declarations: each reads a token that is not the last and goes on.\<close>

lemma works_stmt_body:
  assumes E: "works (Suc n) E" and S: "works n S"
  shows "works (Suc n) (stmt_body (Suc n) E S)"
  unfolding works_def
proof (intro allI impI, elim conjE)
  fix ts assume ts: "token_seq ts" "length ts \<le> Suc n"
  then obtain t r where c: "ts = t # r" by (cases ts) (auto simp: token_seq_def)
  note e = good_then [OF E] and b = good_then [OF works_block [OF S]] and a = good_then [OF works_args [OF E]]
  have lr: "length r \<le> n" using ts c by simp
  have i: "good (Suc (length r)) (ifStmt (Suc n) E S (t # r))" if "token_seq r"
    unfolding ifStmt_def using that lr by (auto intro!: e b good_expect_then good_cur dest!: tok_kinds dest: seq_read)
  have w: "good (Suc (length r)) (whileStmt (Suc n) E S (t # r))" if "token_seq r"
    unfolding whileStmt_def using that lr by (auto intro!: e b good_expect_then)
  have l: "good (Suc (length r)) (pbind (adv r) (\<lambda>x ts. if kind x \<noteq> tIdent then reject (ExpectedName (line x))
       else pbind (expect ''='' ts) (\<lambda>_ ts. pbind (E ts) (\<lambda>v. closing '';'' (LetStmt (str x) v)))))" if "token_seq r"
    by (rule good_name [OF that]) (use lr in \<open>auto intro!: e good_expect_then good_closing\<close>)
  have x: "good (Suc (length r)) (pbind (cur_tok r) (\<lambda>c ts.
           if isPunct ''['' c then
             pbind (adv ts) (\<lambda>_ ts. pbind (E ts) (\<lambda>k ts. pbind (expect '']'' ts) (\<lambda>_ ts.
             pbind (expect ''='' ts) (\<lambda>_ ts. pbind (E ts) (\<lambda>v. closing '';'' (IndexStore y k v))))))
           else pbind (expect ''='' ts) (\<lambda>_ ts. pbind (E ts) (\<lambda>v. closing '';'' (LetStmt y v)))))" if "token_seq r" for y
    using that lr by (intro good_cur) (auto intro!: e good_expect_then good_closing dest!: tok_kinds dest: seq_read)
  have kw: "isKw s t \<Longrightarrow> token_seq r" "kind t = tIdent \<Longrightarrow> token_seq r" for s
    using ts(1) c by (auto dest!: tok_kinds dest: seq_read)
  have "good (Suc (length r)) (stmt_body (Suc n) E S (t # r))"
    unfolding stmt_body_def tok_simps pbind.simps
    by (intro good_if; (drule kw)?) (use lr in \<open>auto intro!: l i w a e x good_expect_then good_closing\<close>)
  then show "good (length ts) (stmt_body (Suc n) E S ts)" by (simp add: c)
qed

lemma works_stmt: "works n (p_stmt n)"
proof (induction n)
  case (Suc n)
  then show ?case using works_stmt_body [OF works_expr Suc] by (simp add: works_def)
qed (auto simp: works_def token_seq_def)

lemma good_params:
  assumes "token_seq ts" "length ts \<le> k" shows "good (Suc (length ts)) (params_loop k acc ts)"
  using assms
proof (induction k arbitrary: acc ts)
  case (Suc k)
  have ih: "good (Suc (length ts)) (params_loop k acc' w)" if "token_seq w" "length w < length ts" for acc' w
    by (rule good_mono [OF Suc.IH]) (use that Suc.prems in auto)
  have "good (Suc (length ts)) (pbind (adv ts) (\<lambda>x ts. if kind x \<noteq> tIdent then reject (ExpectedParam (line x))
         else pbind (cur_tok ts) (\<lambda>c ts.
           if isPunct '','' c then pbind (adv ts) (\<lambda>_. params_loop k (acc @ [str x])) else params_loop k (acc @ [str x]) ts)))"
  proof (rule good_name [OF Suc.prems(1)], rule good_cur, assumption)
    fix x u c v assume u: "ts = x # u" "token_seq u" "u = c # v"
    then have "isPunct '','' c \<Longrightarrow> token_seq v" by (auto dest!: tok_kinds dest: seq_read)
    with u ih [OF u(2)] ih [of v] show "good (Suc (length ts)) (if isPunct '','' c then pbind (adv u) (\<lambda>_. params_loop k (acc @ [str x]))
        else params_loop k (acc @ [str x]) u)" by simp
  qed
  then show ?case
    unfolding params_loop.simps using Suc.prems(1) by (intro good_cur good_if) auto
qed (simp add: token_seq_def)

lemma works_topLevel: "works (Suc n) (topLevel (Suc n))"
  unfolding works_def
proof (intro allI impI, elim conjE)
  fix ts assume ts: "token_seq ts" "length ts \<le> Suc n"
  then obtain t r where c: "ts = t # r" by (cases ts) (auto simp: token_seq_def)
  have lr: "length r \<le> n" using ts c by simp
  have kw: "token_seq r" if "isKw s t" for s
    using that ts(1) c by (auto dest!: tok_kinds dest: seq_read)
  have bl: "works (Suc n) (block (Suc n) (p_stmt (Suc n)))"
    unfolding works_def block_def by (auto intro!: good_expect_then good_mono [OF good_block_loop [OF works_stmt]])
  have f: "good (Suc (length r)) (fnDecl (Suc n) (t # r))" if "token_seq r"
    unfolding fnDecl_def tok_simps pbind.simps
    by (rule good_name [OF that]) (use lr in \<open>auto intro!: good_expect_then good_bind [OF good_params] good_then [OF bl] simp del: params_loop.simps\<close>)
  have s: "good (Suc (length r)) (pbind (adv r) (\<lambda>x ts. if kind x \<noteq> tIdent then reject (ExpectedName (line x))
      else closing '';'' (StateDecl (str x)) ts))" if "token_seq r"
    by (rule good_name [OF that]) (auto intro!: good_closing)
  have "good (Suc (length r)) (topLevel (Suc n) (t # r))"
    unfolding topLevel_def tok_simps pbind.simps using worksD [OF works_stmt ts] kw
    by (intro good_if f s) (auto simp: c)
  then show "good (length ts) (topLevel (Suc n) ts)" by (simp add: c)
qed

lemma good_prog:
  assumes "token_seq ts" "length ts \<le> k" "length ts \<le> Suc m"
  shows "good (Suc (length ts)) (prog_loop k (Suc m) acc ts)"
  using assms
proof (induction k arbitrary: acc ts)
  case (Suc k)
  have "good (Suc (length ts)) (pbind (topLevel (Suc m) ts) (\<lambda>s. prog_loop k (Suc m) (acc @ [s])))"
    by (rule good_then [OF works_topLevel Suc.prems(1,3)], rule good_mono [OF Suc.IH]) (use Suc.prems in auto)
  then show ?case
    unfolding prog_loop.simps using Suc.prems(1) by (intro good_cur good_if) auto
qed (simp add: token_seq_def)

text \<open>
  C31. Every source text has an outcome: the scanner and the parser return a program or an error and never read
  past the last token.
\<close>

theorem Parse_total: "\<exists>r. Parse src = Some r \<and> r \<noteq> Panic"
proof (cases "lex src")
  case (Ok ts)
  note ok = conjunct1 [OF lex_ok(1) [OF Ok]]
  then obtain m where "length ts = Suc m" by (cases ts) (auto simp: token_seq_def)
  with good_prog [OF ok, of "length ts" m "[]"] show ?thesis
    by (auto simp: Parse_def Ok good_def split: option.splits result.splits prod.splits)
qed (use lex_ok(2) in \<open>auto simp: Parse_def\<close>)

end
