(* ===== verification/SL_Compile.thy ===== *)
theory SL_Compile
  imports SL_Parser
begin

text \<open>
  \<^verbatim>\<open>internal/shl/compile.go\<close> and \<^verbatim>\<open>estimate.go\<close>: code generation with labels and back-patching, the
  selector dispatcher and the gas estimate.  A label index comes from \<open>newLabel\<close> and an operand
  position from \<open>pushLabel\<close>; an index out of range is the panic of the Go slice.
\<close>

section \<open>Emitting\<close>

definition localBase :: u64 where "localBase = 0xFFFFFFFF00000000"
definition stateBase :: u64 where "stateBase = 0xFFFFFFF000000000"

definition Selector :: "(bytes \<Rightarrow> hash) \<Rightarrow> string \<Rightarrow> u64" where
  "Selector H name = be_get (take 8 (H (ascii name)))"

record gen =
  gcode :: bytes
  gvars :: "(string, u64) gomap"
  gnext :: u64
  gstate :: "(string, u64) gomap"
  gnextState :: u64
  labels :: "int list"
  fixups :: "(nat \<times> nat) list"

definition emit :: "opcode \<Rightarrow> gen \<Rightarrow> gen" where
  "emit b g = g\<lparr>gcode := gcode g @ [opcode_byte b]\<rparr>"

definition pushU64 :: "u64 \<Rightarrow> gen \<Rightarrow> gen" where
  "pushU64 v g = (let g = emit PUSH g in g\<lparr>gcode := gcode g @ put_u64 v\<rparr>)"

definition newLabel :: "gen \<Rightarrow> nat \<times> gen" where
  "newLabel g = (length (labels g), g\<lparr>labels := labels g @ [-1]\<rparr>)"

definition mark :: "nat \<Rightarrow> gen \<Rightarrow> (shl_error, gen) result" where
  "mark i g = (if i < length (labels g) then Ok (g\<lparr>labels := (labels g)[i := int (length (gcode g))]\<rparr>) else Panic)"

definition pushLabel :: "nat \<Rightarrow> gen \<Rightarrow> gen" where
  "pushLabel i g =
     (let g = emit PUSH g
      in g\<lparr>fixups := fixups g @ [(length (gcode g), i)], gcode := gcode g @ replicate 8 0\<rparr>)"

definition patch :: "nat \<Rightarrow> u64 \<Rightarrow> bytes \<Rightarrow> bytes" where
  "patch p v c = take p c @ put_u64 v @ drop (p + 8) c"

primrec resolve_loop :: "int list \<Rightarrow> (nat \<times> nat) list \<Rightarrow> bytes \<Rightarrow> (shl_error, bytes) result" where
  "resolve_loop ls [] c = Ok c"
| "resolve_loop ls (f # fs) c =
     (if length c < fst f + 8 \<or> length ls \<le> snd f then Panic
      else resolve_loop ls fs (patch (fst f) (of_int (ls ! snd f)) c))"

definition resolve :: "gen \<Rightarrow> (shl_error, gen) result" where
  "resolve g = rbind (resolve_loop (labels g) (fixups g) (gcode g)) (\<lambda>c. Ok (g\<lparr>gcode := c\<rparr>))"

definition slot :: "string \<Rightarrow> gen \<Rightarrow> u64 \<times> gen" where
  "slot name g =
     (case map_of (gvars g) name of
        Some s \<Rightarrow> (s, g)
      | None \<Rightarrow> (gnext g, g\<lparr>gnext := gnext g + 1, gvars := AList.update name (gnext g) (gvars g)\<rparr>))"

definition declState :: "string \<Rightarrow> gen \<Rightarrow> u64 \<times> gen" where
  "declState name g =
     (case map_of (gstate g) name of
        Some s \<Rightarrow> (s, g)
      | None \<Rightarrow> (gnextState g, g\<lparr>gnextState := gnextState g + 1, gstate := AList.update name (gnextState g) (gstate g)\<rparr>))"

section \<open>Expressions\<close>

definition g_binop :: "string \<Rightarrow> gen \<Rightarrow> (shl_error, gen) result" where
  "g_binop o1 g =
     (if o1 = ''+'' then Ok (emit ADDC g)
      else if o1 = ''-'' then Ok (emit SUBC g)
      else if o1 = ''*'' then Ok (emit MULC g)
      else if o1 = ''/'' then Ok (emit DIV g)
      else if o1 = ''%'' then Ok (emit MOD g)
      else if o1 = ''=='' then Ok (emit EQ g)
      else if o1 = ''<'' then Ok (emit LT g)
      else if o1 = ''>'' then Ok (emit GT g)
      else if o1 = ''&&'' then Ok (emit AND g)
      else if o1 = ''||'' then Ok (emit OR g)
      else if o1 = ''!='' then Ok (emit ISZERO (emit EQ g))
      else if o1 = ''<='' then Ok (emit ISZERO (emit GT g))
      else if o1 = ''>='' then Ok (emit ISZERO (emit LT g))
      else Err (UnknownOp o1))"

fun g_expr :: "expr \<Rightarrow> gen \<Rightarrow> (shl_error, gen) result" where
  "g_expr (Num v) g = Ok (pushU64 v g)"
| "g_expr (Var x) g =
     (case map_of (gvars g) x of
        Some s \<Rightarrow> Ok (emit SLOAD (pushU64 s g))
      | None \<Rightarrow>
          (case map_of (gstate g) x of
             Some s \<Rightarrow> Ok (emit SLOAD (pushU64 s g))
           | None \<Rightarrow> Err (UndefinedVar x)))"
| "g_expr (Index x k) g =
     (case map_of (gstate g) x of
        None \<Rightarrow> Err (NotMapping x)
      | Some s \<Rightarrow> rbind (g_expr k (pushU64 s g)) (\<lambda>g. Ok (emit SLOAD (emit MIX g))))"
| "g_expr (Load k) g = rbind (g_expr k g) (\<lambda>g. Ok (emit SLOAD g))"
| "g_expr (Builtin n a) g =
     (if n = ''caller'' then Ok (emit CALLER g)
      else if n = ''value'' then Ok (emit VALUE g)
      else if n = ''balance'' then Ok (emit BAL g)
      else if n = ''self'' then Ok (emit SELF g)
      else if n = ''arg'' then
        (case a of None \<Rightarrow> Err CannotCompileExpr | Some e \<Rightarrow> rbind (g_expr e g) (\<lambda>g. Ok (emit CDLOAD g)))
      else Err (UnknownBuiltin n))"
| "g_expr (Unary o1 x) g = rbind (g_expr x g) (\<lambda>g. Ok (emit ISZERO g))"
| "g_expr (Binary o1 l r) g = rbind (g_expr l g) (\<lambda>g. rbind (g_expr r g) (g_binop o1))"

primrec g_exprs :: "expr list \<Rightarrow> gen \<Rightarrow> (shl_error, gen) result" where
  "g_exprs [] g = Ok g"
| "g_exprs (e # es) g = rbind (g_expr e g) (g_exprs es)"

section \<open>Statements\<close>

fun g_stmt :: "stmt \<Rightarrow> gen \<Rightarrow> (shl_error, gen) result"
and g_stmts :: "stmt list \<Rightarrow> gen \<Rightarrow> (shl_error, gen) result" where
  "g_stmt (LetStmt x v) g =
     (case map_of (gstate g) x of
        Some s \<Rightarrow> rbind (g_expr v (pushU64 s g)) (\<lambda>g. Ok (emit SSTORE g))
      | None \<Rightarrow> (case slot x g of (s, g) \<Rightarrow> rbind (g_expr v (pushU64 s g)) (\<lambda>g. Ok (emit SSTORE g))))"
| "g_stmt (IndexStore x k v) g =
     (case map_of (gstate g) x of
        None \<Rightarrow> Err (NotMapping x)
      | Some s \<Rightarrow> rbind (g_expr k (pushU64 s g)) (\<lambda>g. rbind (g_expr v (emit MIX g)) (\<lambda>g. Ok (emit SSTORE g))))"
| "g_stmt (StoreStmt k v) g = rbind (g_expr k g) (\<lambda>g. rbind (g_expr v g) (\<lambda>g. Ok (emit SSTORE g)))"
| "g_stmt (RequireStmt c) g =
     (case newLabel g of (co, g) \<Rightarrow>
        rbind (g_expr c g) (\<lambda>g. mark co (emit REVERT (emit JUMPI (pushLabel co g)))))"
| "g_stmt RevertStmt g = Ok (emit REVERT g)"
| "g_stmt (IfStmt c th el) g =
     (case newLabel g of (elseL, g) \<Rightarrow> case newLabel g of (endL, g) \<Rightarrow>
        rbind (g_expr c g) (\<lambda>g.
        rbind (g_stmts th (emit JUMPI (pushLabel elseL (emit ISZERO g)))) (\<lambda>g.
        rbind (mark elseL (emit JUMP (pushLabel endL g))) (\<lambda>g.
        rbind (g_stmts el g) (mark endL)))))"
| "g_stmt (WhileStmt c b) g =
     (case newLabel g of (startL, g) \<Rightarrow> case newLabel g of (endL, g) \<Rightarrow>
        rbind (mark startL g) (\<lambda>g.
        rbind (g_expr c g) (\<lambda>g.
        rbind (g_stmts b (emit JUMPI (pushLabel endL (emit ISZERO g)))) (\<lambda>g.
        mark endL (emit JUMP (pushLabel startL g))))))"
| "g_stmt (EmitStmt as) g = rbind (g_exprs as g) (\<lambda>g. Ok (emit LOG (pushU64 (of_nat (length as)) g)))"
| "g_stmt (ReturnStmt v) g = rbind (g_expr v g) (\<lambda>g. Ok (emit RETURN g))"
| "g_stmt StopStmt g = Ok (emit STOP g)"
| "g_stmt (StateDecl x) g = Err CannotCompileStmt"
| "g_stmt (FnDecl x ps b) g = Err CannotCompileStmt"
| "g_stmts [] g = Ok g"
| "g_stmts (s # ss) g = rbind (g_stmt s g) (g_stmts ss)"

section \<open>Dispatcher and program\<close>

type_synonym fn = "string \<times> string list \<times> stmt list"

primrec selectors :: "(bytes \<Rightarrow> hash) \<Rightarrow> fn list \<Rightarrow> gen \<Rightarrow> nat list \<times> gen" where
  "selectors H [] g = ([], g)"
| "selectors H (f # fs) g =
     (case newLabel g of (l, g) \<Rightarrow>
        case selectors H fs (emit JUMPI (pushLabel l (emit EQ (pushU64 (Selector H (fst f)) (emit DUP g))))) of
          (ls, g) \<Rightarrow> (l # ls, g))"

primrec bind_params :: "nat \<Rightarrow> string list \<Rightarrow> gen \<Rightarrow> gen" where
  "bind_params i [] g = g"
| "bind_params i (p # ps) g =
     (case slot p g of (s, g) \<Rightarrow>
        bind_params (Suc i) ps (emit SSTORE (emit CDLOAD (pushU64 (of_nat (i + 1)) (pushU64 s g)))))"

primrec fn_bodies :: "(nat \<times> fn) list \<Rightarrow> gen \<Rightarrow> (shl_error, gen) result" where
  "fn_bodies [] g = Ok g"
| "fn_bodies (lf # lfs) g =
     (case lf of (l, _, ps, b) \<Rightarrow>
        rbind (mark l g) (\<lambda>g.
        rbind (g_stmts b (bind_params 0 ps ((emit POP g)\<lparr>gvars := [], gnext := localBase\<rparr>))) (\<lambda>g.
        fn_bodies lfs (emit STOP g))))"

definition fn_dispatch :: "(bytes \<Rightarrow> hash) \<Rightarrow> fn list \<Rightarrow> gen \<Rightarrow> (shl_error, gen) result" where
  "fn_dispatch H fns g =
     (case selectors H fns (emit CDLOAD (pushU64 0 g)) of (ls, g) \<Rightarrow>
        fn_bodies (zip ls fns) (emit REVERT (emit POP g)))"

text \<open>Pass 1 over the program: the state variables, the functions and the flat statements.\<close>

fun split_prog :: "stmt list \<Rightarrow> gen \<Rightarrow> gen \<times> fn list \<times> stmt list" where
  "split_prog [] g = (g, [], [])"
| "split_prog (StateDecl x # p) g = split_prog p (snd (declState x g))"
| "split_prog (FnDecl x ps b # p) g = (case split_prog p g of (g, fns, flat) \<Rightarrow> (g, (x, ps, b) # fns, flat))"
| "split_prog (s # p) g = (case split_prog p g of (g, fns, flat) \<Rightarrow> (g, fns, s # flat))"

definition gen0 :: gen where
  "gen0 = \<lparr>gcode = [], gvars = [], gnext = localBase, gstate = [], gnextState = stateBase, labels = [], fixups = []\<rparr>"

definition compile_prog :: "(bytes \<Rightarrow> hash) \<Rightarrow> stmt list \<Rightarrow> (shl_error, bytes) result" where
  "compile_prog H prog =
     (case split_prog prog gen0 of (g, fns, flat) \<Rightarrow>
        rbind (g_stmts flat g) (\<lambda>g.
        rbind (if 0 < length fns then fn_dispatch H fns g else Ok g) (\<lambda>g.
        rbind (resolve (emit STOP g)) (\<lambda>g. Ok (gcode g)))))"

definition Compile :: "(bytes \<Rightarrow> hash) \<Rightarrow> string \<Rightarrow> (shl_error, bytes) result option" where
  "Compile H src =
     (case Parse src of
        None \<Rightarrow> None
      | Some (Err e) \<Rightarrow> Some (Err e)
      | Some Panic \<Rightarrow> Some Panic
      | Some (Ok prog) \<Rightarrow> Some (compile_prog H prog))"

section \<open>Gas estimate\<close>

text \<open>The loop over the code: total and last constant pushed, if the last instruction was a push.\<close>

function est_loop :: "bytes \<Rightarrow> nat \<Rightarrow> u64 \<Rightarrow> u64 option \<Rightarrow> u64" where
  "est_loop code i tot lastConst =
     (if length code \<le> i then tot
      else let o1 = code ! i in
        if o1 = opcode_byte PUSH then
          est_loop code (i + 9) (tot + 3) (if i + 9 \<le> length code then Some (be_get (take 8 (drop (i + 1) code))) else lastConst)
        else if o1 = opcode_byte SSTORE then est_loop code (i + 1) (tot + 100) None
        else if o1 = opcode_byte SLOAD \<or> o1 = opcode_byte MIX then est_loop code (i + 1) (tot + 20) None
        else if o1 = opcode_byte LOG then
          est_loop code (i + 1) (tot + 50 + (case lastConst of Some n \<Rightarrow> 8 * n | None \<Rightarrow> 0)) None
        else est_loop code (i + 1) (tot + 1) None)"
  by pat_completeness auto
termination
  by (relation "measure (\<lambda>(code, i, _, _). length code - i)") auto

declare est_loop.simps [simp del]

definition Estimate :: "bytes \<Rightarrow> u64" where
  "Estimate code = est_loop code 0 0 None"

definition CompileAndEstimate :: "(bytes \<Rightarrow> hash) \<Rightarrow> string \<Rightarrow> (shl_error, bytes \<times> u64) result option" where
  "CompileAndEstimate H src =
     (case Compile H src of
        None \<Rightarrow> None
      | Some r \<Rightarrow> Some (rbind r (\<lambda>code. Ok (code, Estimate code))))"


end
