(* ===== verification/SL_Cli.thy ===== *)
theory SL_Cli
  imports SL_Running SL_Wallet SL_Version SL_Compile
begin

text \<open>
  \<^verbatim>\<open>cmd/slctl/main.go\<close>: the command line client.  A command is a function of its arguments and of what it reads: the key files, the other
  files, the environment and the answers of the node it talks to (\<open>shell\<close>).  Its result is the transaction it posts or the request it
  makes; \<open>Err ()\<close> is an exit with an error status.  Arguments are ASCII.  What is printed is not modelled.
\<close>

section \<open>Reading arguments\<close>

fun flagVal :: "string list \<Rightarrow> string \<Rightarrow> string" where
  "flagVal (a # b # args) name = (if a = ''--'' @ name then b else flagVal (b # args) name)"
| "flagVal _ name = []"

text \<open>\<^verbatim>\<open>fmt.Sscanf(s, "%d", &v)\<close>: white space but no line break is skipped, then the longest run of digits is read; what follows is ignored.\<close>

definition Sscanf_d :: "string \<Rightarrow> u64 option" where
  "Sscanf_d s = ParseUint (takeWhile is_digit (ascii (dropWhile (\<lambda>c. is_space c \<and> c \<noteq> CHR 0x0A) s)))"

definition must :: "('e, 'a) result \<Rightarrow> (unit, 'a) result" where
  "must r = (case r of Ok v \<Rightarrow> Ok v | Err e \<Rightarrow> Err () | Panic \<Rightarrow> Panic)"

definition mustU64 :: "string \<Rightarrow> (unit, u64) result" where
  "mustU64 s = need () (Sscanf_d s)"

definition mustU64opt :: "string list \<Rightarrow> string \<Rightarrow> u64 \<Rightarrow> (unit, u64) result" where
  "mustU64opt args name d = (let v = flagVal args name in if v \<noteq> [] then mustU64 v else Ok d)"

text \<open>\<^verbatim>\<open>hex.DecodeString\<close>.\<close>

definition hex_val :: "byte \<Rightarrow> byte" where
  "hex_val c = (if c \<le> 0x39 then c - 0x30 else if 0x61 \<le> c then c - 0x57 else c - 0x37)"

fun hex_pairs :: "bytes \<Rightarrow> bytes" where
  "hex_pairs (a # b # cs) = or (push_bit 4 (hex_val a)) (hex_val b) # hex_pairs cs"
| "hex_pairs _ = []"

definition hex_decode :: "bytes \<Rightarrow> bytes option" where
  "hex_decode cs = (if hex_decodable cs then Some (hex_pairs cs) else None)"

definition decodeHex :: "string \<Rightarrow> (unit, bytes) result" where
  "decodeHex s = need () (hex_decode (ascii (TrimSpace (TrimPrefix ''0x'' s))))"

section \<open>What a command reads\<close>

record shell =
  sDisk :: disk
  sFile :: "string \<Rightarrow> string option"
  sEnvPass :: string
  sAlive :: bool
  rNonce :: "address \<Rightarrow> u64 option"
  rHead :: "u64 option"
  rBody :: "u64 \<Rightarrow> hash option"

definition rpcOf :: "shell \<Rightarrow> string list \<Rightarrow> bytes" where
  "rpcOf sh args =
     (let rpc = flagVal args ''rpc'' in
      if rpc \<noteq> [] then ascii rpc
      else if sAlive sh then ascii ''http://localhost:4004''
      else case pSeeds Mainnet of s # _ \<Rightarrow> s | [] \<Rightarrow> ascii ''http://localhost:4004'')"

definition passOf :: "shell \<Rightarrow> string list \<Rightarrow> bytes" where
  "passOf sh args = (let p = flagVal args ''pass'' in ascii (if p \<noteq> [] then p else sEnvPass sh))"

definition wallet_of :: "ext \<Rightarrow> vault \<Rightarrow> shell \<Rightarrow> string list \<Rightarrow> (unit, KeyPair) result" where
  "wallet_of E v sh args = must (LoadWalletAuto v (eH E) (ascii (flagVal args ''wallet'')) (passOf sh args) (sDisk sh))"

definition readHexArg :: "shell \<Rightarrow> string list \<Rightarrow> string \<Rightarrow> (unit, bytes) result" where
  "readHexArg sh args name =
     (let path = flagVal args name in if path = [] then Err () else rbind (need () (sFile sh path)) decodeHex)"

definition fetchNonce :: "shell \<Rightarrow> address \<Rightarrow> (unit, u64) result" where
  "fetchNonce sh a = need () (rNonce sh a)"

definition signTx :: "ext \<Rightarrow> KeyPair \<Rightarrow> Transaction \<Rightarrow> Transaction" where
  "signTx E kp t = SignTx (eH E) (eSign E) kp (t\<lparr>ChainID := pChainID Mainnet\<rparr>)"

definition blank_tx :: Transaction where
  "blank_tx = \<lparr>From = [], To = [], Amount = 0, Fee = 0, Nonce = 0, ChainID = 0, Kind = KindTransfer, Gas = 0, Data = [], PubKey = [], Sig = []\<rparr>"

section \<open>Commands\<close>

fun arg_words :: "string list \<Rightarrow> (unit, bytes) result" where
  "arg_words [] = Ok []"
| "arg_words (p # ps) =
     (let p' = TrimSpace p in
      if p' = [] then arg_words ps
      else rbind (mustU64 p') (\<lambda>n. rbind (arg_words ps) (\<lambda>bs. Ok (put_u64 n @ bs))))"

definition buildCalldata :: "(bytes \<Rightarrow> hash) \<Rightarrow> string list \<Rightarrow> (unit, bytes) result" where
  "buildCalldata H args =
     (let d = flagVal args ''data'' in
      if d \<noteq> [] then decodeHex d
      else let fn = flagVal args ''fn''; out = (if fn \<noteq> [] then put_u64 (Selector H fn) else []); a = flagVal args ''args'' in
        if a \<noteq> [] then rbind (arg_words (Split CHR '','' a)) (\<lambda>bs. Ok (out @ bs)) else Ok out)"

definition deploy :: "ext \<Rightarrow> vault \<Rightarrow> shell \<Rightarrow> string list \<Rightarrow> (unit, Transaction) result" where
  "deploy E v sh args =
     rbind (wallet_of E v sh args) (\<lambda>kp.
     rbind (readHexArg sh args ''code'') (\<lambda>code.
     rbind (mustU64opt args ''gas'' 100000) (\<lambda>gas.
     rbind (fetchNonce sh (Address (eH E) kp)) (\<lambda>nonce.
     Ok (signTx E kp (blank_tx\<lparr>Kind := KindDeploy, Data := code, Gas := gas, Nonce := nonce\<rparr>))))))"

definition cli_call :: "ext \<Rightarrow> vault \<Rightarrow> shell \<Rightarrow> string list \<Rightarrow> (unit, Transaction) result" where
  "cli_call E v sh args =
     rbind (wallet_of E v sh args) (\<lambda>kp.
     rbind (buildCalldata (eH E) args) (\<lambda>data.
     rbind (mustU64opt args ''amount'' 0) (\<lambda>amount.
     rbind (mustU64opt args ''gas'' 100000) (\<lambda>gas.
     rbind (fetchNonce sh (Address (eH E) kp)) (\<lambda>nonce.
     Ok (signTx E kp (blank_tx\<lparr>To := ascii (flagVal args ''to''), Kind := KindCall, Amount := amount, Data := data, Gas := gas, Nonce := nonce\<rparr>)))))))"

definition send :: "ext \<Rightarrow> vault \<Rightarrow> shell \<Rightarrow> string list \<Rightarrow> (unit, Transaction) result" where
  "send E v sh args =
     rbind (wallet_of E v sh args) (\<lambda>kp.
     rbind (mustU64 (flagVal args ''amount'')) (\<lambda>amount.
     rbind (mustU64opt args ''fee'' 0) (\<lambda>fee.
     rbind (fetchNonce sh (Address (eH E) kp)) (\<lambda>nonce.
     Ok (signTx E kp (blank_tx\<lparr>To := ascii (flagVal args ''to''), Amount := amount, Fee := fee, Nonce := nonce\<rparr>))))))"

definition unregister :: "ext \<Rightarrow> vault \<Rightarrow> shell \<Rightarrow> string list \<Rightarrow> (unit, Transaction) result" where
  "unregister E v sh args =
     rbind (wallet_of E v sh args) (\<lambda>kp.
     rbind (mustU64opt args ''fee'' 0) (\<lambda>fee.
     rbind (fetchNonce sh (Address (eH E) kp)) (\<lambda>nonce.
     Ok (signTx E kp (blank_tx\<lparr>Kind := KindUnregister, Fee := fee, Nonce := nonce\<rparr>)))))"

definition slash :: "ext \<Rightarrow> vault \<Rightarrow> shell \<Rightarrow> string list \<Rightarrow> (unit, Transaction) result" where
  "slash E v sh args =
     rbind (wallet_of E v sh args) (\<lambda>kp.
     rbind (need () (sFile sh (flagVal args ''evidence''))) (\<lambda>ev.
     rbind (mustU64opt args ''fee'' 0) (\<lambda>fee.
     rbind (fetchNonce sh (Address (eH E) kp)) (\<lambda>nonce.
     Ok (signTx E kp (blank_tx\<lparr>Kind := KindSlash, Data := ascii ev, Fee := fee, Nonce := nonce\<rparr>))))))"

text \<open>The two commands that solve a puzzle; the search does not end when there is no solution.\<close>

definition obind :: "('e, 'a) result option \<Rightarrow> ('a \<Rightarrow> ('e, 'b) result option) \<Rightarrow> ('e, 'b) result option" where
  "obind r f = (case r of Some (Ok v) \<Rightarrow> f v | Some (Err e) \<Rightarrow> Some (Err e) | Some Panic \<Rightarrow> Some Panic | None \<Rightarrow> None)"

definition register :: "ext \<Rightarrow> vault \<Rightarrow> shell \<Rightarrow> string list \<Rightarrow> (unit, Transaction) result option" where
  "register E v sh args =
     obind (Some (wallet_of E v sh args)) (\<lambda>kp.
     obind (Some (mustU64 (flagVal args ''bond''))) (\<lambda>bond.
     obind (map_option Ok (RegSolve (eH E) (pChainID Mainnet) (Address (eH E) kp) (pRegPoWBits Mainnet))) (\<lambda>pow.
     obind (Some (mustU64opt args ''fee'' 0)) (\<lambda>fee.
     obind (Some (fetchNonce sh (Address (eH E) kp))) (\<lambda>nonce.
     Some (Ok (signTx E kp (blank_tx\<lparr>Kind := KindRegister, Amount := bond, Data := put_u64 pow, Fee := fee, Nonce := nonce\<rparr>))))))))"

definition faucetClaim :: "ext \<Rightarrow> vault \<Rightarrow> shell \<Rightarrow> string list \<Rightarrow> (unit, Transaction) result option" where
  "faucetClaim E v sh args =
     obind (Some (wallet_of E v sh args)) (\<lambda>kp.
     if pFaucetAmount Mainnet = 0 then Some (Err ())
     else obind (Some (need () (rHead sh))) (\<lambda>height.
       if height < pFaucetDepth Mainnet then Some (Err ())
       else let anchorH = height - pFaucetDepth Mainnet in
         obind (Some (need () (rBody sh anchorH))) (\<lambda>body.
         obind (map_option Ok (FaucetSolve (eH E) (pChainID Mainnet) (Address (eH E) kp) body (pFaucetBits Mainnet))) (\<lambda>pow.
         obind (Some (fetchNonce sh (Address (eH E) kp))) (\<lambda>nonce.
         Some (Ok (signTx E kp (blank_tx\<lparr>Kind := KindFaucet, Data := put_u64 anchorH @ put_u64 pow, Nonce := nonce\<rparr>))))))))"

definition keygen :: "vault \<Rightarrow> (bytes \<Rightarrow> hash) \<Rightarrow> KeyPair option \<Rightarrow> bytes option \<Rightarrow> bytes option \<Rightarrow> shell \<Rightarrow> string list \<Rightarrow> shell \<times> (unit, address) result" where
  "keygen v H fresh rsalt rnonce sh args =
     (let p = flagVal args ''out''; out = ascii (if p = [] then ''wallet.json'' else p) in
      case fresh of
        None \<Rightarrow> (sh, Err ())
      | Some kp \<Rightarrow>
          (case SaveWalletAuto v H rsalt rnonce kp out (passOf sh args) (sDisk sh) of
             (d, r) \<Rightarrow> (sh\<lparr>sDisk := d\<rparr>, rbind (must r) (\<lambda>_. Ok (Address H kp)))))"

definition show_address :: "ext \<Rightarrow> vault \<Rightarrow> shell \<Rightarrow> string list \<Rightarrow> (unit, address) result" where
  "show_address E v sh args = rbind (wallet_of E v sh args) (\<lambda>kp. Ok (Address (eH E) kp))"

text \<open>\<^verbatim>\<open>compile\<close> with \<^verbatim>\<open>--out\<close> writes the hex text, which is what \<^verbatim>\<open>deploy --code\<close> reads.\<close>

definition compileSHL :: "(bytes \<Rightarrow> hash) \<Rightarrow> shell \<Rightarrow> string list \<Rightarrow> (shell \<times> (unit, bytes) result) option" where
  "compileSHL H sh args =
     (case sFile sh (flagVal args ''in'') of
        None \<Rightarrow> Some (sh, Err ())
      | Some src \<Rightarrow>
          (case Compile H src of
             None \<Rightarrow> None
           | Some (Ok code) \<Rightarrow>
               (let h = hex_encode code; out = flagVal args ''out'' in
                Some (if out \<noteq> [] then sh\<lparr>sFile := (sFile sh)(out \<mapsto> text_of h)\<rparr> else sh, Ok h))
           | Some (Err e) \<Rightarrow> Some (sh, Err ())
           | Some Panic \<Rightarrow> Some (sh, Panic)))"

definition estimateSHL :: "(bytes \<Rightarrow> hash) \<Rightarrow> shell \<Rightarrow> string list \<Rightarrow> (unit, nat \<times> u64) result option" where
  "estimateSHL H sh args =
     (case sFile sh (flagVal args ''in'') of
        None \<Rightarrow> Some (Err ())
      | Some src \<Rightarrow> map_option (\<lambda>r. rbind (must r) (\<lambda>(code, gas). Ok (length code, gas))) (CompileAndEstimate H src))"

definition query :: "(bytes \<Rightarrow> hash) \<Rightarrow> string list \<Rightarrow> (unit, bytes \<times> bytes \<times> bytes \<times> u64) result" where
  "query H args =
     rbind (buildCalldata H args) (\<lambda>data.
     rbind (mustU64opt args ''gas'' 0) (\<lambda>gas.
     Ok (ascii (flagVal args ''to''), hex_encode data, ascii (flagVal args ''caller''), gas)))"

text \<open>The commands that print the answer to one request: its path at the node.\<close>

definition get_path :: "string \<Rightarrow> string list \<Rightarrow> bytes option" where
  "get_path c args =
     (if c = ''balance'' then Some (ascii (''/account/'' @ flagVal args ''addr''))
      else if c = ''head'' then Some (ascii ''/head'')
      else if c = ''block'' then Some (ascii (''/block/'' @ flagVal args ''height''))
      else if c = ''reconstruct'' then Some (ascii (''/reconstruct/'' @ flagVal args ''height''))
      else if c = ''verify'' then Some (ascii (''/verify/'' @ flagVal args ''height''))
      else if c = ''supply'' then Some (ascii ''/supply'')
      else if c = ''peers'' then Some (ascii ''/peers'')
      else if c = ''storage'' then Some (ascii ''/storage/scores'')
      else if c = ''logs'' then Some (ascii (''/logs/'' @ flagVal args ''height''))
      else if c = ''validators'' then Some (ascii ''/validators'')
      else if c = ''bans'' then Some (ascii ''/bans'')
      else None)"

text \<open>What a run of the program does in the end.\<close>

datatype action = PostTx Transaction | GetURL bytes | PostCall "bytes \<times> bytes \<times> bytes \<times> u64" | ShowAddress address | Compiled bytes | Estimated "nat \<times> u64" | ShowVersion

definition does :: "shell \<Rightarrow> ('a \<Rightarrow> action) \<Rightarrow> (unit, 'a) result \<Rightarrow> (shell \<times> (unit, action) result) option" where
  "does sh f r = Some (sh, rbind r (\<lambda>x. Ok (f x)))"

definition main_cmd ::
    "ext \<Rightarrow> vault \<Rightarrow> KeyPair option \<Rightarrow> bytes option \<Rightarrow> bytes option \<Rightarrow> shell \<Rightarrow> string list \<Rightarrow> (shell \<times> (unit, action) result) option" where
  "main_cmd E v fresh rsalt rnonce sh argv =
     (case argv of
        [] \<Rightarrow> Some (sh, Err ())
      | c # args \<Rightarrow>
          (case get_path c args of
             Some p \<Rightarrow> does sh GetURL (Ok (rpcOf sh args @ p))
           | None \<Rightarrow>
               if c = ''keygen'' then (case keygen v (eH E) fresh rsalt rnonce sh args of (sh', r) \<Rightarrow> does sh' ShowAddress r)
               else if c = ''address'' then does sh ShowAddress (show_address E v sh args)
               else if c = ''send'' then does sh PostTx (send E v sh args)
               else if c = ''deploy'' then does sh PostTx (deploy E v sh args)
               else if c = ''call'' then does sh PostTx (cli_call E v sh args)
               else if c = ''query'' then does sh PostCall (query (eH E) args)
               else if c = ''compile'' then Option.bind (compileSHL (eH E) sh args) (\<lambda>(sh', r). does sh' Compiled r)
               else if c = ''estimate'' then Option.bind (estimateSHL (eH E) sh args) (does sh Estimated)
               else if c = ''version'' then does sh (\<lambda>_. ShowVersion) (Ok ())
               else if c = ''faucet'' then Option.bind (faucetClaim E v sh args) (does sh PostTx)
               else if c = ''register'' then Option.bind (register E v sh args) (does sh PostTx)
               else if c = ''unregister'' then does sh PostTx (unregister E v sh args)
               else if c = ''slash'' then does sh PostTx (slash E v sh args)
               else Some (sh, Err ())))"

section \<open>Hexadecimal text\<close>

lemma hex_val_digit: "n < 16 \<Longrightarrow> hex_val (hex_digit n) = n"
proof -
  assume "n < 16"
  then have n: "unat n < 16" by (simp add: word_less_nat_alt)
  have a: "unat (0x30 + n) = 48 + unat n" "unat (0x57 + n) = 87 + unat n" using n by (simp_all add: unat_word_ariths)
  show ?thesis using n a by (auto simp: hex_digit_def hex_val_def word_less_nat_alt word_le_nat_alt)
qed

lemma hex_pairs_encode: "hex_pairs (hex_encode bs) = bs"
proof (induction bs)
  case (Cons b bs)
  have "or (push_bit 4 (drop_bit 4 b)) (and b (mask 4)) = b"
    by (rule bit_word_eqI) (auto simp: bit_simps)
  then have "or (push_bit 4 (drop_bit 4 b)) (and b 0x0f) = b" by (simp add: mask_eq_exp_minus_1)
  moreover have "hex_encode (b # bs) = hex_digit (drop_bit 4 b) # hex_digit (and b 0x0f) # hex_encode bs" by (simp add: hex_encode_def)
  ultimately show ?case using Cons by (simp add: hex_val_digit nibble_bound)
qed (simp add: hex_encode_def)

lemma hex_decode_encode [simp]: "hex_decode (hex_encode bs) = Some bs"
  by (simp add: hex_decode_def hex_encode_decodable hex_pairs_encode)


section \<open>What a command posts\<close>

lemma must_Ok [simp]: "must r = Ok v \<longleftrightarrow> r = Ok v"
  by (simp add: must_def split: result.split)

lemma obind_Ok [simp]: "obind r f = Some (Ok v) \<longleftrightarrow> (\<exists>x. r = Some (Ok x) \<and> f x = Some (Ok v))"
  by (simp add: obind_def split: option.split result.split)

lemmas command_defs = send_def deploy_def cli_call_def unregister_def slash_def register_def faucetClaim_def fetchNonce_def Let_def

text \<open>Every posted transaction is signed by the key of the wallet and carries the nonce the node reports for it.\<close>

definition posts :: "ext \<Rightarrow> vault \<Rightarrow> shell \<Rightarrow> string list \<Rightarrow> Transaction \<Rightarrow> bool" where
  "posts E v sh args tx \<longleftrightarrow>
     (\<exists>kp t. wallet_of E v sh args = Ok kp \<and> tx = signTx E kp t \<and> rNonce sh (Address (eH E) kp) = Some (Nonce t))"

lemma postsI: "wallet_of E v sh args = Ok kp \<Longrightarrow> rNonce sh (Address (eH E) kp) = Some (Nonce t) \<Longrightarrow> posts E v sh args (signTx E kp t)"
  by (auto simp: posts_def)

lemma plain_posts:
  "send E v sh args = Ok tx \<Longrightarrow> posts E v sh args tx" "deploy E v sh args = Ok tx \<Longrightarrow> posts E v sh args tx"
  "cli_call E v sh args = Ok tx \<Longrightarrow> posts E v sh args tx" "unregister E v sh args = Ok tx \<Longrightarrow> posts E v sh args tx"
  "slash E v sh args = Ok tx \<Longrightarrow> posts E v sh args tx"
  by (auto simp: command_defs intro: postsI)

lemma puzzle_posts:
  "register E v sh args = Some (Ok tx) \<Longrightarrow> posts E v sh args tx" "faucetClaim E v sh args = Some (Ok tx) \<Longrightarrow> posts E v sh args tx"
  by (auto simp: command_defs intro: postsI split: if_splits)

lemma does_PostTx: "does sh f r = Some (sh', Ok (PostTx tx)) \<longleftrightarrow> sh' = sh \<and> (\<exists>y. r = Ok y \<and> f y = PostTx tx)"
  by (auto simp: does_def)

lemma main_posts:
  assumes "main_cmd E v fresh rsalt rnonce sh (c # args) = Some (sh', Ok (PostTx tx))"
  shows "posts E v sh args tx \<and> sh' = sh"
proof (cases "get_path c args")
  case None
  with assms show ?thesis
    using plain_posts [of E v sh args tx] puzzle_posts [of E v sh args tx]
    by (auto simp: main_cmd_def does_PostTx bind_eq_Some_conv split: if_splits prod.splits)
qed (use assms in \<open>simp add: main_cmd_def does_PostTx\<close>)

section \<open>The node answers\<close>

text \<open>The answers come from a node of the network; balances are as that node serves them.\<close>

definition asks :: "shell \<Rightarrow> Server \<Rightarrow> bool" where
  "asks sh sv \<longleftrightarrow> (\<forall>a. rNonce sh a = Some (snd (serve_account a sv))) \<and> rHead sh = map_option Height (serve_head sv) \<and>
     (\<forall>h. rBody sh h = map_option (\<lambda>(hdr, _). BodyHash hdr) (serve_block h sv))"

definition affordable :: "State \<Rightarrow> Transaction \<Rightarrow> bool" where
  "affordable s t \<longleftrightarrow> unat (Amount t) + unat (Fee t) \<le> unat (Balance (Get s (From t)))"

lemma affordable_check: "affordable s t \<Longrightarrow> \<not> Amount t + Fee t < Amount t \<and> \<not> Balance (Get s (From t)) < Amount t + Fee t"
proof -
  assume a: "affordable s t"
  have "unat (Balance (Get s (From t))) < 2 ^ 64" using unsigned_less [of "Balance (Get s (From t))", where ?'a = nat] by simp
  then have "unat (Amount t + Fee t) = unat (Amount t) + unat (Fee t)" using a by (simp add: affordable_def unat_word_ariths)
  with a show ?thesis by (simp add: affordable_def word_less_nat_alt)
qed

lemma signTx_sel:
  "From (signTx E kp t) = Address (eH E) kp" "Nonce (signTx E kp t) = Nonce t" "ChainID (signTx E kp t) = pChainID Mainnet"
  "Amount (signTx E kp t) = Amount t" "Fee (signTx E kp t) = Fee t" "Kind (signTx E kp t) = Kind t" "Data (signTx E kp t) = Data t"
  by (simp_all add: signTx_def SignTx_def Let_def)

lemma Address_nonempty: "Address H kp \<noteq> []"
  by (simp add: Address_def AddressFromPub_def AddressPrefix_def)

lemma posted_checks:
  assumes "posts E v sh args tx" "asks sh sv" "\<And>kp. wallet_of E v sh args = Ok kp \<Longrightarrow> signs E kp"
    and "StChainID (cstate (schain sv)) = pChainID Mainnet" "affordable (cstate (schain sv)) tx"
  shows "CheckTx (eH E) (eV E) (cstate (schain sv)) tx = None"
proof -
  from assms(1) obtain kp t where w: "wallet_of E v sh args = Ok kp" "tx = signTx E kp t" "rNonce sh (Address (eH E) kp) = Some (Nonce t)"
    by (auto simp: posts_def)
  have s: "TxVerifySig (eH E) (eV E) tx = None"
    unfolding w(2) signTx_def by (rule signed_tx_verifies) (use assms(3) [OF w(1)] in \<open>simp_all add: signs_def\<close>)
  have n: "AcctNonce (Get (cstate (schain sv)) (Address (eH E) kp)) = Nonce t"
    using w(3) assms(2) by (simp add: asks_def serve_account_def Let_def)
  show ?thesis using affordable_check [OF assms(5)] assms(4) s n
    by (simp add: CheckTx_def IsCoinbase_def w(2) signTx_sel Address_nonempty Let_def)
qed


lemma send_all_pool: "snd (send_all now ps (sv\<lparr>spool := p\<rparr>)) = snd (send_all now ps sv)"
proof (induction ps arbitrary: sv)
  case (Cons q ps)
  obtain sv1 w where b: "banned now (PeerID q) sv = (sv1, w)" by fastforce
  then have b': "banned now (PeerID q) (sv\<lparr>spool := p\<rparr>) = (sv1\<lparr>spool := p\<rparr>, w)"
    by (auto simp: banned_def split: prod.splits)
  show ?case using Cons.IH [of sv1] by (auto simp: b b' split: prod.split)
qed simp

text \<open>
  C12. The client and the node agree: whatever transaction a command posts, built from the answers of a node and signed with the key of the
  wallet, that node accepts, pools and gossips, provided the account can pay amount and fee and the pool has room.
\<close>

theorem command_accepted:
  assumes "main_cmd E v fresh rsalt rnonce sh (c # args) = Some (sh', Ok (PostTx tx))" "asks sh sv" "\<forall>kp. wallet_of E v sh args = Ok kp \<longrightarrow> signs E kp"
    and "StChainID (cstate (schain sv)) = pChainID Mainnet" "affordable (cstate (schain sv)) tx" "Len (spool sv) < limit (spool sv)"
  shows "\<exists>sv1 out. handle_tx E now tx sv = (sv1, out, OK) \<and> map_of (byID (spool sv1)) (TxHash (eH E) tx) = Some tx \<and>
    schain sv1 = schain sv \<and> out = snd (Broadcast now sv)"
proof -
  have "CheckTx (eH E) (eV E) (cstate (schain sv)) tx = None"
    by (rule posted_checks [OF conjunct1 [OF main_posts [OF assms(1)]] assms(2) _ assms(4,5)]) (use assms(3) in blast)
  then obtain p where p: "Submit (eH E) (eV E) (cstate (schain sv)) tx (spool sv) = Ok p" "map_of (byID p) (TxHash (eH E) tx) = Some tx"
    using assms(6) by (simp add: Submit_def Len_def update_conv)
  obtain sv1 out where o: "Broadcast now (sv\<lparr>spool := p\<rparr>) = (sv1, out)" by fastforce
  have "schain sv1 = schain sv" "spool sv1 = p" using Broadcast_frame [of now "sv\<lparr>spool := p\<rparr>"] by (simp_all add: o)
  moreover have "out = snd (Broadcast now sv)" using send_all_pool [of now "Peers (peers sv)" p sv] o by (simp add: Broadcast_def)
  ultimately show ?thesis using p o by (simp add: handle_tx_def)
qed

section \<open>Puzzles solved by the client\<close>

lemma RegSolve_verifies: "RegSolve H c a bits = Some n \<Longrightarrow> RegVerify H c a n bits"
proof (cases "bits \<le> 0")
  case False
  let ?ok = "\<lambda>n. bits \<le> int (leadingZeroBits (RegHash H c a n))"
  assume "RegSolve H c a bits = Some n"
  with False have "(\<exists>m. ?ok m) \<and> n = (LEAST m. ?ok m)" by (auto simp: RegSolve_def search_total split: if_splits)
  then have "?ok n" by (metis (mono_tags, lifting) LeastI)
  then show ?thesis by (simp add: RegVerify_def)
qed (simp add: RegVerify_def)

lemma FaucetSolve_verifies: "FaucetSolve H c a b bits = Some n \<Longrightarrow> FaucetVerify H c a b n bits"
proof (cases "bits \<le> 0")
  case False
  let ?ok = "\<lambda>n. bits \<le> int (leadingZeroBits (FaucetHash H c a b n))"
  assume "FaucetSolve H c a b bits = Some n"
  with False have "(\<exists>m. ?ok m) \<and> n = (LEAST m. ?ok m)" by (auto simp: FaucetSolve_def search_total split: if_splits)
  then have "?ok n" by (metis (mono_tags, lifting) LeastI)
  then show ?thesis by (simp add: FaucetVerify_def)
qed (simp add: FaucetVerify_def)

text \<open>The ledger after the checks and the debit of an admissible transaction.\<close>

lemma admitted:
  assumes "CheckTx H V s t = None"
  obtains y where "admit H V t (start s) = (y, Ok ())" "config (cur y) = config s" "Validators (cur y) = Validators s"
    "FaucetClaims (cur y) = FaucetClaims s"
    "\<And>b. Balance (Get (cur y) b) = (if b = From t then Balance (Get s b) - (Amount t + Fee t) else Balance (Get s b))"
proof -
  obtain y where y: "admit H V t (start s) = (y, Ok ())"
    using admit_iff_CheckTx [of H V t s] assms by (cases "admit H V t (start s)") auto
  have f: "config (cur y) = config s" "Validators (cur y) = Validators s" "FaucetClaims (cur y) = FaucetClaims s"
    using admit_frame [of H V t "start s"] y by (simp_all add: start_def)
  have "Balance (Get (cur y) b) = (if b = From t then Balance (Get s b) - (Amount t + Fee t) else Balance (Get s b))" for b
    using y by (auto simp: admit_def Let_def start_def split: option.splits if_splits)
  with that y f show thesis by blast
qed


lemma config_rules:
  assumes "config a = config b"
  shows "StChainID a = StChainID b" "RegPoWBits a = RegPoWBits b" "FaucetBits a = FaucetBits b" "FaucetAmount a = FaucetAmount b"
    "FaucetDepth a = FaucetDepth b" "FaucetCooldown a = FaucetCooldown b" "FaucetSource a = FaucetSource b" "AnchorBodyHash a = AnchorBodyHash b"
  using arg_cong [OF assms, of StChainID] arg_cong [OF assms, of RegPoWBits] arg_cong [OF assms, of FaucetBits] arg_cong [OF assms, of FaucetAmount]
    arg_cong [OF assms, of FaucetDepth] arg_cong [OF assms, of FaucetCooldown] arg_cong [OF assms, of FaucetSource] arg_cong [OF assms, of AnchorBodyHash]
  by (simp_all add: config_def)

text \<open>The rules \<open>NewNode\<close> installs.\<close>

definition mainnet_rules :: "State \<Rightarrow> bool" where
  "mainnet_rules s \<longleftrightarrow> StChainID s = pChainID Mainnet \<and> RegPoWBits s = pRegPoWBits Mainnet \<and> FaucetBits s = pFaucetBits Mainnet \<and>
     FaucetAmount s = pFaucetAmount Mainnet \<and> FaucetDepth s = pFaucetDepth Mainnet \<and> FaucetCooldown s = pFaucetCooldown Mainnet \<and>
     FaucetSource s = founder \<and> AnchorBodyHash s \<noteq> None"

lemma NewNode_mainnet_rules: "mainnet_rules (cstate (schain (srv (NewNode E c files loaded kp bf))))"
  by (simp add: mainnet_rules_def NewNode_def Let_def NewServer_def NewChain_sel SetStorageProof_def SetFaucet_def SetRegPoWBits_def SetChainID_def)
    (simp add: Mainnet_def)

lemma rebind_frame: "Validators (rebind E files s) = Validators s" "FaucetClaims (rebind E files s) = FaucetClaims s"
  by (simp_all add: rebind_def)

lemma mainnet_rebind: "mainnet_rules s \<Longrightarrow> mainnet_rules (rebind E files s) \<and> AnchorBodyHash (rebind E files s) = Some (BodyHashAt files)"
  by (auto simp: mainnet_rules_def rebind_def)

text \<open>
  C37. Registering works: the transaction of \<^verbatim>\<open>slctl register\<close>, with the proof of work the client found, is accepted by the next block of the node it
  was built against, whenever the bond is at least the minimum and affordable and the address neither is a validator nor was slashed; the
  address is then an active validator with that bond, and pays exactly bond and fee.
\<close>

theorem register_joins:
  assumes cmd: "register E v sh args = Some (Ok tx)" "asks sh sv" "\<forall>kp. wallet_of E v sh args = Ok kp \<longrightarrow> signs E kp"
    and s: "s = cstate (schain sv)" "mainnet_rules s" "affordable s tx" "MinBond \<le> Amount tx"
    and new: "case map_of (Validators s) (From tx) of Some r \<Rightarrow> \<not> Active r \<and> \<not> Slashed r | None \<Rightarrow> True"
  shows "\<exists>x. apply_tx (eH E) (eV E) (eJ E) hgt i tx (start (rebind E files s)) = (x, Ok ()) \<and>
    map_of (Validators (cur x)) (From tx) = Some \<lparr>Bond = Amount tx, Active = True, Since = hgt, Slashed = False, StorageScore = 0, LastProofAt = 0\<rparr> \<and>
    Balance (Get (cur x) (From tx)) = Balance (Get s (From tx)) - (Amount tx + Fee tx)"
proof -
  let ?s = "rebind E files s"
  have "CheckTx (eH E) (eV E) s tx = None" unfolding s(1)
    by (rule posted_checks [OF puzzle_posts(1) [OF cmd(1)] cmd(2)]) (use cmd(3) s in \<open>simp_all add: mainnet_rules_def\<close>)
  then have "CheckTx (eH E) (eV E) ?s tx = None" by (simp add: CheckTx_rebind)
  then obtain y where y: "admit (eH E) (eV E) tx (start ?s) = (y, Ok ())" "config (cur y) = config ?s" "Validators (cur y) = Validators ?s"
    "\<And>b. Balance (Get (cur y) b) = (if b = From tx then Balance (Get ?s b) - (Amount tx + Fee tx) else Balance (Get ?s b))"
    by (rule admitted) blast
  obtain kp pow t where t: "RegSolve (eH E) (pChainID Mainnet) (Address (eH E) kp) (pRegPoWBits Mainnet) = Some pow" "tx = signTx E kp t"
    "Kind t = KindRegister" "Data t = put_u64 pow"
    using cmd(1) by (auto simp: register_def)
  have pow: "RegVerify (eH E) (StChainID (cur y)) (From tx) pow (RegPoWBits (cur y))"
    using RegSolve_verifies [OF t(1)] config_rules(1,2) [OF y(2)] conjunct1 [OF mainnet_rebind [OF s(2), of E files]]
    by (simp add: t(2) signTx_sel mainnet_rules_def)
  have "dispatch (eH E) (eV E) (eJ E) hgt i tx y = fine (on_state (\<lambda>s. s\<lparr>Validators := AList.update (From tx)
      \<lparr>Bond = Amount tx, Active = True, Since = hgt, Slashed = False, StorageScore = 0, LastProofAt = 0\<rparr> (Validators s)\<rparr>) y)"
    using pow s(4) new t(3,4)
    by (auto simp: dispatch_def tx_register_def Let_def y(3) rebind_frame t(2) signTx_sel Kind_defs split: option.splits)
  then have "apply_tx (eH E) (eV E) (eJ E) hgt i tx (start ?s) = fine (on_state (\<lambda>s. s\<lparr>Validators := AList.update (From tx)
      \<lparr>Bond = Amount tx, Active = True, Since = hgt, Slashed = False, StorageScore = 0, LastProofAt = 0\<rparr> (Validators s)\<rparr>) y)"
    by (simp add: apply_tx_def y(1))
  then show ?thesis using y(4) [of "From tx"] by (auto simp: on_state_def update_conv Get_rebind)
qed


text \<open>
  C36. The faucet pays: the claim of \<^verbatim>\<open>slctl faucet\<close>, mined against the block the node serves for the required depth, is accepted by the next block of that
  node, whenever the address has no claim within the cooldown and the treasury can pay; the claimant then has exactly the faucet's
  amount more, the treasury that much less, and the claim is recorded.
\<close>

theorem faucet_pays:
  assumes cmd: "faucetClaim E v sh args = Some (Ok tx)" "asks sh sv" "\<forall>kp. wallet_of E v sh args = Ok kp \<longrightarrow> signs E kp"
    and s: "s = cstate (schain sv)" "mainnet_rules s" "pFaucetAmount Mainnet \<le> Balance (Get s founder)" "From tx \<noteq> founder"
    and hgt: "hgt = Height (chead (schain sv)) + 1" "unat (Height (chead (schain sv))) + 300 < 2 ^ 64"
    and cool: "case map_of (FaucetClaims s) (From tx) of Some l \<Rightarrow> l + pFaucetCooldown Mainnet \<le> hgt | None \<Rightarrow> True"
  shows "\<exists>x. apply_tx (eH E) (eV E) (eJ E) hgt i tx (start (rebind E (cstore (schain sv)) s)) = (x, Ok ()) \<and>
    Balance (Get (cur x) (From tx)) = Balance (Get s (From tx)) + pFaucetAmount Mainnet \<and>
    Balance (Get (cur x) founder) = Balance (Get s founder) - pFaucetAmount Mainnet \<and> map_of (FaucetClaims (cur x)) (From tx) = Some hgt"
proof -
  let ?files = "cstore (schain sv)" and ?h = "Height (chead (schain sv))"
  let ?s = "rebind E (cstore (schain sv)) s"
  obtain kp pow t body where t: "FaucetSolve (eH E) (pChainID Mainnet) (Address (eH E) kp) body (pFaucetBits Mainnet) = Some pow" "tx = signTx E kp t"
    "rBody sh (?h - 4) = Some body" "4 \<le> ?h" "Kind t = KindFaucet" "Amount t = 0" "Fee t = 0" "Data t = put_u64 (?h - 4) @ put_u64 pow"
    using cmd(1,2) by (auto simp: faucetClaim_def Let_def asks_def serve_head_def Head_def Mainnet_def blank_tx_def not_less split: if_splits)
  have "CheckTx (eH E) (eV E) s tx = None" unfolding s(1)
    by (rule posted_checks [OF puzzle_posts(2) [OF cmd(1)] cmd(2)]) (use cmd(3) s t in \<open>simp_all add: mainnet_rules_def affordable_def signTx_sel\<close>)
  then have "CheckTx (eH E) (eV E) ?s tx = None" by (simp add: CheckTx_rebind)
  then obtain y where y: "admit (eH E) (eV E) tx (start ?s) = (y, Ok ())" "config (cur y) = config ?s" "FaucetClaims (cur y) = FaucetClaims ?s"
    "\<And>b. Balance (Get (cur y) b) = Balance (Get s b)"
    by (rule admitted) (simp add: t signTx_sel Get_rebind)
  note r = mainnet_rebind [OF s(2), of E ?files] and cf = config_rules [OF y(2)]
  have body: "BodyHashAt ?files (?h - 4) = Some body"
    using t(3) cmd(2) by (simp add: asks_def serve_block_def BodyHashAt_def)
  have pow: "FaucetVerify (eH E) (StChainID (cur y)) (From tx) body pow (FaucetBits (cur y))"
    using FaucetSolve_verifies [OF t(1)] cf r by (simp add: t(2) signTx_sel mainnet_rules_def)
  have win: "\<not> hgt < ?h - 4 + 4" "\<not> ?h - 4 + 256 < hgt"
  proof -
    have u: "unat (?h - 4) = unat ?h - 4" "4 \<le> unat ?h" using t(4) by (simp_all add: unat_sub word_le_nat_alt)
    then have "unat (?h - 4 + 256) = unat ?h + 252" "unat hgt = unat ?h + 1" using hgt by (simp_all add: unat_word_ariths)
    then show "\<not> hgt < ?h - 4 + 4" "\<not> ?h - 4 + 256 < hgt" using u by (simp_all add: word_less_nat_alt)
  qed
  have rules: "AnchorBodyHash (cur y) = Some (BodyHashAt ?files)" "FaucetAmount (cur y) = pFaucetAmount Mainnet" "FaucetDepth (cur y) = 4"
    "FaucetCooldown (cur y) = pFaucetCooldown Mainnet" "FaucetSource (cur y) = founder"
    using cf r by (simp_all add: mainnet_rules_def) (simp add: Mainnet_def)
  have am: "pFaucetAmount Mainnet \<noteq> 0" by (simp add: Mainnet_def)
  have data: "be_get (take 8 (Data tx)) = ?h - 4" "be_get (drop 8 (Data tx)) = pow" "length (Data tx) = 16" "Kind tx = KindFaucet"
    by (simp_all add: t signTx_sel)
  have nocool: "\<not> (case map_of (FaucetClaims (cur y)) (From tx) of Some l \<Rightarrow> hgt < l + FaucetCooldown (cur y) | None \<Rightarrow> False)"
    using cool by (auto simp: rules(4) y(3) rebind_frame not_less split: option.splits)
  have rich: "\<not> Balance (Get (cur (on_state (acct founder) y)) founder) < pFaucetAmount Mainnet" using s(3) y(4) by (simp add: on_state_def not_less)
  let ?x1 = "snap founder (on_state (acct founder) y)"
  have d: "dispatch (eH E) (eV E) (eJ E) hgt i tx y =
      fine (on_state (\<lambda>s. s\<lparr>FaucetClaims := AList.update (From tx) hgt (FaucetClaims s)\<rparr>)
        (on_state (Credit (From tx) (pFaucetAmount Mainnet)) (on_state (debit founder (pFaucetAmount Mainnet)) ?x1)))"
    using win pow body nocool rich am
    by (simp add: dispatch_def tx_faucet_def Let_def rules data Kind_defs)
  show ?thesis
    by (intro exI [of _ "on_state (\<lambda>s. s\<lparr>FaucetClaims := AList.update (From tx) hgt (FaucetClaims s)\<rparr>)
        (on_state (Credit (From tx) (pFaucetAmount Mainnet)) (on_state (debit founder (pFaucetAmount Mainnet)) ?x1))"] conjI)
      (use d y s(4) in \<open>simp_all add: apply_tx_def on_state_def Credit_def debit_def update_conv\<close>)
qed


section \<open>From source text to the ledger\<close>

lemma hex_not_space: "is_hex_digit b \<Longrightarrow> \<not> is_space (char_of (unat b))"
proof -
  assume "is_hex_digit b"
  then have "48 \<le> unat b" by (auto simp: is_hex_digit_def word_le_nat_alt)
  moreover have "(of_char (char_of (unat b)) :: nat) = unat b" using unsigned_less [of b, where ?'a = nat] by simp
  ultimately show ?thesis by (auto simp: is_space_def)
qed

lemma decodeHex_written: "decodeHex (text_of (hex_encode code)) = Ok code"
proof -
  let ?h = "hex_encode code"
  have hex: "list_all is_hex_digit ?h" using hex_encode_decodable [of code] by (simp add: hex_decodable_def)
  have "TrimPrefix ''0x'' (text_of ?h) = text_of ?h"
  proof -
    have "take 2 (text_of ?h) \<noteq> ''0x''"
    proof
      assume "take 2 (text_of ?h) = ''0x''"
      then have "ascii (take 2 (text_of ?h)) = [0x30, 0x78]" by (simp add: ascii_def)
      moreover have "ascii (take 2 (text_of ?h)) = take 2 ?h" using ascii_text_of [of ?h] by (simp add: ascii_def take_map [symmetric])
      ultimately have "(0x78 :: byte) \<in> set ?h" by (metis in_set_takeD list.set_intros)
      with hex show False by (auto simp: list_all_iff is_hex_digit_def)
    qed
    then show ?thesis by (simp add: TrimPrefix_def numeral_2_eq_2)
  qed
  moreover have "TrimSpace (text_of ?h) = text_of ?h" using hex hex_not_space by (intro TrimSpace_id) (auto simp: text_of_def list_all_iff)
  ultimately show ?thesis by (simp add: decodeHex_def)
qed

text \<open>
  C38. From source text to the ledger: when \<^verbatim>\<open>slctl compile\<close> wrote its output to a file and \<^verbatim>\<open>slctl deploy\<close> posts that file, the transaction is accepted,
  and the account at the contract address derived from the sender and the nonce holds exactly the code the compiler made of
  the source text.
\<close>

theorem compile_deploys:
  assumes "compileSHL (eH E) sh0 cargs = Some (sh, Ok h)" "flagVal cargs ''out'' \<noteq> []" "flagVal args ''code'' = flagVal cargs ''out''"
    and "deploy E v sh args = Ok tx" "asks sh sv" "\<forall>kp. wallet_of E v sh args = Ok kp \<longrightarrow> signs E kp"
    and "s = cstate (schain sv)" "mainnet_rules s"
  shows "\<exists>src code x. sFile sh0 (flagVal cargs ''in'') = Some src \<and> Compile (eH E) src = Some (Ok code) \<and>
    apply_tx (eH E) (eV E) (eJ E) hgt i tx (start (rebind E files s)) = (x, Ok ()) \<and>
    Code (Get (cur x) (ContractAddress (eH E) (From tx) (Nonce tx))) = code"
proof -
  obtain src code where c: "sFile sh0 (flagVal cargs ''in'') = Some src" "Compile (eH E) src = Some (Ok code)"
    "sFile sh (flagVal args ''code'') = Some (text_of (hex_encode code))" "flagVal args ''code'' \<noteq> []"
    using assms(1-3) by (auto simp: compileSHL_def Let_def split: option.splits result.splits)
  obtain kp t where t: "tx = signTx E kp t" "Data t = code" "Kind t = KindDeploy" "Amount t = 0" "Fee t = 0"
    using assms(4) c(3,4) by (auto simp: deploy_def readHexArg_def Let_def decodeHex_written blank_tx_def)
  have "CheckTx (eH E) (eV E) s tx = None" unfolding assms(7)
    by (rule posted_checks [OF plain_posts(2) [OF assms(4)] assms(5)])
      (use assms(6-8) t in \<open>simp_all add: mainnet_rules_def affordable_def signTx_sel\<close>)
  then have "CheckTx (eH E) (eV E) (rebind E files s) tx = None" by (simp add: CheckTx_rebind)
  then obtain y where y: "admit (eH E) (eV E) tx (start (rebind E files s)) = (y, Ok ())" by (rule admitted)
  have "\<exists>x. dispatch (eH E) (eV E) (eJ E) hgt i tx y = (x, Ok ()) \<and> Code (Get (cur x) (ContractAddress (eH E) (From tx) (Nonce tx))) = code"
    by (simp add: dispatch_def tx_deploy_def Let_def t signTx_sel Kind_defs on_state_def)
  with y c show ?thesis by (auto simp: apply_tx_def)
qed


section \<open>Witnesses\<close>

text \<open>A node of height six with a funded treasury, a wallet file, and a hash that starts with four zero bytes.\<close>

definition zH :: "bytes \<Rightarrow> hash" where
  "zH m = [0, 0, 0, 0] @ take 28 (m @ replicate 28 0)"

definition cliE :: ext where
  "cliE = toyE\<lparr>eH := zH\<rparr>"

definition cli_addr :: address where
  "cli_addr = Address zH toy_key"

definition cli_state :: State where
  "cli_state = New\<lparr>Accounts := [(founder, empty_account\<lparr>Balance := 1000000000000000\<rparr>), (cli_addr, empty_account\<lparr>Balance := 500000000000\<rparr>)]\<rparr>"

definition cli_files :: Store where
  "cli_files = (let ss = \<lparr>SetBlockID = Zero, SetSpec = \<lparr>K = 2, M = 1\<rparr>, PaddedLen = 0, OrigLen = 0, SetShardHash = []\<rparr> in
     OpenStore\<lparr>hdrs := [(6, (zero_header\<lparr>Height := 6\<rparr>, ss)), (2, (zero_header\<lparr>Height := 2\<rparr>, ss))]\<rparr>)"

definition cli_node :: Server where
  "cli_node = srv (NewNode cliE empty_config cli_files (Some cli_state) kp0 None)"

definition cli_shell :: shell where
  "cli_shell = \<lparr>sDisk = \<lparr>keyfiles = [(ascii ''w.json'', JsonDoc \<lparr>wPriv = b64_encode (Priv toy_key), wPub = b64_encode (Pub toy_key), wAddress = cli_addr\<rparr>)],
       disk_ok = True\<rparr>,
     sFile = [''c.shl'' \<mapsto> ''return 7;''], sEnvPass = [], sAlive = True, rNonce = \<lambda>a. Some (snd (serve_account a cli_node)), rHead = map_option Height (serve_head cli_node),
     rBody = \<lambda>h. map_option (\<lambda>(hdr, _). BodyHash hdr) (serve_block h cli_node)\<rparr>"

lemma cli_asks: "asks (cli_shell\<lparr>sFile := f\<rparr>) cli_node"
  by (simp add: asks_def cli_shell_def)

lemma cli_signs: "signs cliE toy_key"
  by (simp add: signs_def cliE_def toyE_def toy_key_def PublicKeySize_def)

lemma cli_rules: "mainnet_rules (cstate (schain cli_node))"
  unfolding cli_node_def by (rule NewNode_mainnet_rules)

lemma NewNode_ledger:
  "Get (cstate (schain (srv (NewNode E c files (Some s) kp bf)))) = Get s"
  "FaucetClaims (cstate (schain (srv (NewNode E c files (Some s) kp bf)))) = FaucetClaims s"
  by (simp_all add: NewNode_def Let_def NewServer_def NewChain_sel SetStorageProof_def SetFaucet_def SetRegPoWBits_def SetChainID_def Get_def fun_eq_iff)

lemma cli_head: "Height (chead (schain cli_node)) = 6 \<and> hasGen (schain cli_node)"
proof -
  have "Height (chead (NewChain E cli_files s eng bf self mem bt gt fd)) = 6 \<and> hasGen (NewChain E cli_files s eng bf self mem bt gt fd)"
    for E s eng bf self mem bt gt fd
    by (simp add: NewChain_def Let_def cli_files_def OpenStore_def HasHeaders_def StoreHeight_def GetHeader_def loadBlock_def GetBlock_def
      loadReplayBase_def GetState_def)
  then show ?thesis by (simp add: cli_node_def NewNode_def Let_def NewServer_def)
qed

lemma cli_other: "cli_addr \<noteq> founder"
proof -
  have "cli_addr ! 2 = 48" "founder ! 2 = 48" "cli_addr ! 3 \<noteq> founder ! 3" by code_simp+
  then show ?thesis by auto
qed

lemma cli_world:
  "GetHeader (cstore (schain cli_node)) 2 \<noteq> None"
  "Balance (Get (cstate (schain cli_node)) founder) = 1000000000000000" "Balance (Get (cstate (schain cli_node)) cli_addr) = 500000000000"
  "Validators (cstate (schain cli_node)) = []" "FaucetClaims (cstate (schain cli_node)) = []" "Len (spool cli_node) < limit (spool cli_node)"
  using cli_other
  by (simp_all add: cli_node_def NewNode_sel NewNode_ledger cli_files_def GetHeader_def OpenStore_def cli_state_def New_def)
    (simp_all add: Get_def empty_account_def NewNode_def Let_def NewServer_def NewPool_def Len_def)

lemma cli_wallet:
  assumes "flagVal args ''wallet'' = ''w.json''"
  shows "wallet_of cliE v (cli_shell\<lparr>sFile := f\<rparr>) args = Ok toy_key"
proof -
  have "\<not> IsTok (ascii ''w.json'')" by code_simp
  then show ?thesis
    by (simp add: wallet_of_def LoadWalletAuto_def LoadWallet_def as_wallet_def cli_shell_def assms toy_key_def PrivateKeySize_def PublicKeySize_def
      need_def must_def del: b64_encode.simps)
qed

lemma cli_signs_all: "flagVal args ''wallet'' = ''w.json'' \<Longrightarrow> \<forall>kp. wallet_of cliE v (cli_shell\<lparr>sFile := f\<rparr>) args = Ok kp \<longrightarrow> signs cliE kp"
  using cli_wallet cli_signs by auto

lemma cli_same: "cli_shell\<lparr>sFile := sFile cli_shell\<rparr> = cli_shell"
  by simp

lemma cli_nonce: "rNonce cli_shell a = Some (AcctNonce (Get (cstate (schain cli_node)) a))"
  by (simp add: cli_shell_def serve_account_def Let_def)

lemma zH_zeros: "32 \<le> leadingZeroBits (zH m)"
  by (simp add: zH_def)

lemma cli_puzzles: "RegSolve zH c a 20 = Some 0" "FaucetSolve zH c a b 18 = Some 0"
proof -
  have "20 \<le> int (leadingZeroBits (RegHash zH c a 0))" "18 \<le> int (leadingZeroBits (FaucetHash zH c a b 0))"
    using zH_zeros [of "regpow_prefix @ put_u64 c @ a @ put_u64 0"] zH_zeros [of "faucet_prefix @ put_u64 c @ a @ b @ put_u64 0"]
    unfolding RegHash_def FaucetHash_def by linarith+
  then show "RegSolve zH c a 20 = Some 0" "FaucetSolve zH c a b 18 = Some 0"
    by (simp_all add: RegSolve_def FaucetSolve_def search.simps)
qed

theorem command_accepted_witness:
  "\<exists>tx sv1 out. main_cmd cliE toy_vault None None None cli_shell [''send'', ''--wallet'', ''w.json'', ''--to'', ''sl00'', ''--amount'', ''1.5''] =
       Some (cli_shell, Ok (PostTx tx)) \<and>
     Amount tx = 1 \<and> handle_tx cliE 0 tx cli_node = (sv1, out, OK)"
proof -
  let ?args = "[''--wallet'', ''w.json'', ''--to'', ''sl00'', ''--amount'', ''1.5'']"
  have f: "flagVal ?args ''wallet'' = ''w.json''" "flagVal ?args ''amount'' = ''1.5''" "flagVal ?args ''fee'' = []" by simp_all
  have a: "mustU64 ''1.5'' = Ok 1" by code_simp
  note w = cli_wallet [OF f(1), of toy_vault "sFile cli_shell", unfolded cli_same]
  obtain tx where tx: "main_cmd cliE toy_vault None None None cli_shell (''send'' # ?args) = Some (cli_shell, Ok (PostTx tx))" "Amount tx = 1" "Fee tx = 0" "From tx = cli_addr"
    using w a by (auto simp: main_cmd_def get_path_def does_def send_def mustU64opt_def Let_def f fetchNonce_def cli_nonce signTx_sel blank_tx_def cli_addr_def cliE_def)
  have af: "affordable (cstate (schain cli_node)) tx" by (simp add: affordable_def tx cli_world)
  have id: "StChainID (cstate (schain cli_node)) = pChainID Mainnet" using cli_rules by (simp add: mainnet_rules_def)
  from command_accepted [OF tx(1) cli_asks [of "sFile cli_shell", unfolded cli_same] cli_signs_all [OF f(1), of toy_vault "sFile cli_shell", unfolded cli_same]
    id af cli_world(6), of 0] tx show ?thesis by auto
qed

theorem register_joins_witness:
  "\<exists>tx x. register cliE toy_vault cli_shell [''--wallet'', ''w.json'', ''--bond'', ''200000000000''] = Some (Ok tx) \<and>
     apply_tx zH (eV cliE) (eJ cliE) 7 0 tx (start (rebind cliE cli_files (cstate (schain cli_node)))) = (x, Ok ()) \<and>
     map_option Bond (map_of (Validators (cur x)) cli_addr) = Some 200000000000"
proof -
  let ?args = "[''--wallet'', ''w.json'', ''--bond'', ''200000000000'']"
  have f: "flagVal ?args ''wallet'' = ''w.json''" "flagVal ?args ''bond'' = ''200000000000''" "flagVal ?args ''fee'' = []" by simp_all
  have a: "mustU64 ''200000000000'' = Ok 200000000000" by code_simp
  note w = cli_wallet [OF f(1), of toy_vault "sFile cli_shell", unfolded cli_same]
  have E: "eH cliE = zH" by (simp add: cliE_def)
  have p: "pRegPoWBits Mainnet = 20" by (simp add: Mainnet_def)
  obtain tx where tx: "register cliE toy_vault cli_shell ?args = Some (Ok tx)" "Amount tx = 200000000000" "Fee tx = 0" "From tx = cli_addr"
    using w a by (auto simp: register_def mustU64opt_def Let_def f fetchNonce_def cli_nonce signTx_sel blank_tx_def cli_addr_def E p cli_puzzles)
  have b: "MinBond \<le> Amount tx" by (simp add: tx MinBond_def Coin_def)
  have af: "affordable (cstate (schain cli_node)) tx" by (simp add: affordable_def tx cli_world)
  have nw: "case map_of (Validators (cstate (schain cli_node))) (From tx) of Some r \<Rightarrow> \<not> Active r \<and> \<not> Slashed r | None \<Rightarrow> True"
    by (simp add: cli_world)
  from register_joins [OF tx(1) cli_asks [of "sFile cli_shell", unfolded cli_same] cli_signs_all [OF f(1), of toy_vault "sFile cli_shell", unfolded cli_same]
    refl cli_rules af b nw, of 7 0 cli_files] tx E show ?thesis by auto
qed

theorem faucet_pays_witness:
  "\<exists>tx x. faucetClaim cliE toy_vault cli_shell [''--wallet'', ''w.json''] = Some (Ok tx) \<and>
     apply_tx zH (eV cliE) (eJ cliE) 7 0 tx (start (rebind cliE (cstore (schain cli_node)) (cstate (schain cli_node)))) = (x, Ok ()) \<and>
     Balance (Get (cur x) cli_addr) = 500200000000"
proof -
  let ?args = "[''--wallet'', ''w.json'']"
  have f: "flagVal ?args ''wallet'' = ''w.json''" by simp
  note w = cli_wallet [OF f, of toy_vault "sFile cli_shell", unfolded cli_same]
  have E: "eH cliE = zH" by (simp add: cliE_def)
  have p: "pFaucetBits Mainnet = 18" "pFaucetAmount Mainnet = 200000000" "pFaucetDepth Mainnet = 4" by (simp_all add: Mainnet_def)
  have hd: "rHead cli_shell = Some 6" using cli_head by (simp add: cli_shell_def serve_head_def Head_def)
  obtain body where bd: "rBody cli_shell 2 = Some body" using cli_world(1) by (auto simp: cli_shell_def serve_block_def)
  obtain tx where tx: "faucetClaim cliE toy_vault cli_shell ?args = Some (Ok tx)" "From tx = cli_addr"
    using w by (auto simp: faucetClaim_def Let_def fetchNonce_def cli_nonce signTx_sel blank_tx_def cli_addr_def E p cli_puzzles hd bd)
  have hgt: "7 = Height (chead (schain cli_node)) + 1" "unat (Height (chead (schain cli_node))) + 300 < 2 ^ 64" using cli_head by simp_all
  have rich: "pFaucetAmount Mainnet \<le> Balance (Get (cstate (schain cli_node)) founder)" by (simp add: p cli_world)
  have other: "From tx \<noteq> founder" using cli_other tx by simp
  have cool: "case map_of (FaucetClaims (cstate (schain cli_node))) (From tx) of Some l \<Rightarrow> l + pFaucetCooldown Mainnet \<le> 7 | None \<Rightarrow> True"
    by (simp add: cli_world)
  from faucet_pays [OF tx(1) cli_asks [of "sFile cli_shell", unfolded cli_same] cli_signs_all [OF f, of toy_vault "sFile cli_shell", unfolded cli_same]
    refl cli_rules rich other hgt cool, of 0] tx E show ?thesis by (auto simp: cli_world p)
qed

theorem compile_deploys_witness:
  "\<exists>sh h tx code x. compileSHL zH cli_shell [''--in'', ''c.shl'', ''--out'', ''c.hex''] = Some (sh, Ok h) \<and>
     deploy cliE toy_vault sh [''--wallet'', ''w.json'', ''--code'', ''c.hex''] = Ok tx \<and>
     Compile zH ''return 7;'' = Some (Ok code) \<and>
     apply_tx zH (eV cliE) (eJ cliE) 7 0 tx (start (rebind cliE cli_files (cstate (schain cli_node)))) = (x, Ok ()) \<and>
     Code (Get (cur x) (ContractAddress zH cli_addr 0)) = code"
proof -
  let ?cargs = "[''--in'', ''c.shl'', ''--out'', ''c.hex'']" and ?args = "[''--wallet'', ''w.json'', ''--code'', ''c.hex'']"
  have f: "flagVal ?args ''wallet'' = ''w.json''" "flagVal ?args ''code'' = ''c.hex''" "flagVal ?args ''gas'' = []"
    "flagVal ?cargs ''in'' = ''c.shl''" "flagVal ?cargs ''out'' = ''c.hex''" by simp_all
  have "case Compile zH ''return 7;'' of Some (Ok _) \<Rightarrow> True | _ \<Rightarrow> False" by code_simp
  then obtain code where c: "Compile zH ''return 7;'' = Some (Ok code)" by (auto split: option.splits result.splits)
  have src: "sFile cli_shell ''c.shl'' = Some ''return 7;''" by (simp add: cli_shell_def)
  let ?sh = "cli_shell\<lparr>sFile := (sFile cli_shell)(''c.hex'' \<mapsto> text_of (hex_encode code))\<rparr>"
  have E: "eH cliE = zH" by (simp add: cliE_def)
  have cmp: "compileSHL (eH cliE) cli_shell ?cargs = Some (?sh, Ok (hex_encode code))"
    by (simp add: compileSHL_def f src c E Let_def)
  have n: "rNonce ?sh cli_addr = Some 0"
    using cli_world(3) by (simp add: cli_nonce) (simp add: cli_node_def NewNode_ledger cli_state_def Get_def New_def empty_account_def)
  obtain tx where tx: "deploy cliE toy_vault ?sh ?args = Ok tx" "From tx = cli_addr" "Nonce tx = 0"
    using cli_wallet [OF f(1), of toy_vault "(sFile cli_shell)(''c.hex'' \<mapsto> text_of (hex_encode code))"] n
    by (auto simp: deploy_def mustU64opt_def readHexArg_def Let_def f fetchNonce_def signTx_sel blank_tx_def cli_addr_def E decodeHex_written)
  have ne: "flagVal ?cargs ''out'' \<noteq> []" "flagVal ?args ''code'' = flagVal ?cargs ''out''" by (simp_all only: f) simp
  from compile_deploys [OF cmp ne tx(1) cli_asks cli_signs_all [OF f(1)] refl cli_rules, of 7 0 cli_files]
  obtain x where "apply_tx zH (eV cliE) (eJ cliE) 7 0 tx (start (rebind cliE cli_files (cstate (schain cli_node)))) = (x, Ok ())"
    "Code (Get (cur x) (ContractAddress zH cli_addr 0)) = code"
    using src c by (auto simp: f E tx)
  with cmp tx(1) c show ?thesis unfolding E by blast
qed

end
