(* ===== verification/SL_Backpatch.thy ===== *)
theory SL_Backpatch
  imports SL_Compile
begin

text \<open>
  The code generator against a reference without labels: the reference computes the address of every jump
  from the sizes of the pieces, the generator leaves holes and patches them at the end.  They
  give the same code or the same error, and the patching never indexes out of range.
\<close>

section \<open>The reference\<close>

abbreviation opc :: "opcode \<Rightarrow> bytes" where
  "opc b \<equiv> [opcode_byte b]"

abbreviation pushc :: "u64 \<Rightarrow> bytes" where
  "pushc v \<equiv> opcode_byte PUSH # put_u64 v"

type_synonym names = "(string, u64) gomap"

definition cop :: "string \<Rightarrow> (shl_error, bytes) result" where
  "cop o1 =
     (case map_of [(''+'', [ADDC]), (''-'', [SUBC]), (''*'', [MULC]), (''/'', [DIV]), (''%'', [MOD]), (''=='', [EQ]),
        (''<'', [LT]), (''>'', [GT]), (''&&'', [AND]), (''||'', [OR]), (''!='', [EQ, ISZERO]), (''<='', [GT, ISZERO]),
        (''>='', [LT, ISZERO])] o1 of
        Some ops \<Rightarrow> Ok (map opcode_byte ops)
      | None \<Rightarrow> Err (UnknownOp o1))"

definition cvar :: "names \<Rightarrow> names \<Rightarrow> string \<Rightarrow> (shl_error, u64) result" where
  "cvar V S x =
     (case map_of V x of
        Some s \<Rightarrow> Ok s
      | None \<Rightarrow> (case map_of S x of Some s \<Rightarrow> Ok s | None \<Rightarrow> Err (UndefinedVar x)))"

fun cexpr :: "names \<Rightarrow> names \<Rightarrow> expr \<Rightarrow> (shl_error, bytes) result" where
  "cexpr V S (Num v) = Ok (pushc v)"
| "cexpr V S (Var x) = rbind (cvar V S x) (\<lambda>s. Ok (pushc s @ opc SLOAD))"
| "cexpr V S (Index x k) =
     (case map_of S x of
        None \<Rightarrow> Err (NotMapping x)
      | Some s \<Rightarrow> rbind (cexpr V S k) (\<lambda>c. Ok (pushc s @ c @ opc MIX @ opc SLOAD)))"
| "cexpr V S (Load k) = rbind (cexpr V S k) (\<lambda>c. Ok (c @ opc SLOAD))"
| "cexpr V S (Builtin n a) =
     (if n = ''caller'' then Ok (opc CALLER)
      else if n = ''value'' then Ok (opc VALUE)
      else if n = ''balance'' then Ok (opc BAL)
      else if n = ''self'' then Ok (opc SELF)
      else if n = ''arg'' then
        (case a of None \<Rightarrow> Err CannotCompileExpr | Some e \<Rightarrow> rbind (cexpr V S e) (\<lambda>c. Ok (c @ opc CDLOAD)))
      else Err (UnknownBuiltin n))"
| "cexpr V S (Unary o1 x) = rbind (cexpr V S x) (\<lambda>c. Ok (c @ opc ISZERO))"
| "cexpr V S (Binary o1 l r) =
     rbind (cexpr V S l) (\<lambda>a. rbind (cexpr V S r) (\<lambda>b. rbind (cop o1) (\<lambda>c. Ok (a @ b @ c))))"

primrec cexprs :: "names \<Rightarrow> names \<Rightarrow> expr list \<Rightarrow> (shl_error, bytes) result" where
  "cexprs V S [] = Ok []"
| "cexprs V S (e # es) = rbind (cexpr V S e) (\<lambda>c. rbind (cexprs V S es) (\<lambda>d. Ok (c @ d)))"

definition cslot :: "string \<Rightarrow> names \<Rightarrow> u64 \<Rightarrow> u64 \<times> names \<times> u64" where
  "cslot x V n =
     (case map_of V x of Some s \<Rightarrow> (s, V, n) | None \<Rightarrow> (n, AList.update x n V, n + 1))"

text \<open>A statement placed at address \<open>p\<close>: its code, the locals and the next free slot after it.\<close>

fun cstmt :: "names \<Rightarrow> nat \<Rightarrow> names \<Rightarrow> u64 \<Rightarrow> stmt \<Rightarrow> (shl_error, bytes \<times> names \<times> u64) result"
and cstmts :: "names \<Rightarrow> nat \<Rightarrow> names \<Rightarrow> u64 \<Rightarrow> stmt list \<Rightarrow> (shl_error, bytes \<times> names \<times> u64) result" where
  "cstmt S p V n (LetStmt x v) =
     (case map_of S x of
        Some s \<Rightarrow> rbind (cexpr V S v) (\<lambda>c. Ok (pushc s @ c @ opc SSTORE, V, n))
      | None \<Rightarrow> (case cslot x V n of (s, V, n) \<Rightarrow> rbind (cexpr V S v) (\<lambda>c. Ok (pushc s @ c @ opc SSTORE, V, n))))"
| "cstmt S p V n (IndexStore x k v) =
     (case map_of S x of
        None \<Rightarrow> Err (NotMapping x)
      | Some s \<Rightarrow> rbind (cexpr V S k) (\<lambda>c. rbind (cexpr V S v) (\<lambda>d. Ok (pushc s @ c @ opc MIX @ d @ opc SSTORE, V, n))))"
| "cstmt S p V n (StoreStmt k v) = rbind (cexpr V S k) (\<lambda>c. rbind (cexpr V S v) (\<lambda>d. Ok (c @ d @ opc SSTORE, V, n)))"
| "cstmt S p V n (RequireStmt e) =
     rbind (cexpr V S e) (\<lambda>c. Ok (c @ pushc (of_nat (p + length c + 11)) @ opc JUMPI @ opc REVERT, V, n))"
| "cstmt S p V n RevertStmt = Ok (opc REVERT, V, n)"
| "cstmt S p V n (IfStmt e th el) =
     rbind (cexpr V S e) (\<lambda>c.
     rbind (cstmts S (p + length c + 11) V n th) (\<lambda>(a, V1, n1).
     rbind (cstmts S (p + length c + length a + 21) V1 n1 el) (\<lambda>(b, V2, n2).
       Ok (c @ opc ISZERO @ pushc (of_nat (p + length c + length a + 21)) @ opc JUMPI @ a
           @ pushc (of_nat (p + length c + length a + length b + 21)) @ opc JUMP @ b, V2, n2))))"
| "cstmt S p V n (WhileStmt e bd) =
     rbind (cexpr V S e) (\<lambda>c.
     rbind (cstmts S (p + length c + 11) V n bd) (\<lambda>(a, V1, n1).
       Ok (c @ opc ISZERO @ pushc (of_nat (p + length c + length a + 21)) @ opc JUMPI @ a @ pushc (of_nat p) @ opc JUMP, V1, n1)))"
| "cstmt S p V n (EmitStmt as) = rbind (cexprs V S as) (\<lambda>c. Ok (c @ pushc (of_nat (length as)) @ opc LOG, V, n))"
| "cstmt S p V n (ReturnStmt v) = rbind (cexpr V S v) (\<lambda>c. Ok (c @ opc RETURN, V, n))"
| "cstmt S p V n StopStmt = Ok (opc STOP, V, n)"
| "cstmt S p V n (StateDecl x) = Err CannotCompileStmt"
| "cstmt S p V n (FnDecl x ps b) = Err CannotCompileStmt"
| "cstmts S p V n [] = Ok ([], V, n)"
| "cstmts S p V n (s # ss) =
     rbind (cstmt S p V n s) (\<lambda>(a, V1, n1). rbind (cstmts S (p + length a) V1 n1 ss) (\<lambda>(b, V2, n2). Ok (a @ b, V2, n2)))"

text \<open>The dispatcher at address \<open>p\<close>: the router knows where each body will be.\<close>

primrec cparams :: "nat \<Rightarrow> names \<Rightarrow> u64 \<Rightarrow> string list \<Rightarrow> bytes \<times> names \<times> u64" where
  "cparams i V n [] = ([], V, n)"
| "cparams i V n (x # xs) =
     (case cslot x V n of (s, V, n) \<Rightarrow> case cparams (Suc i) V n xs of (b, V, n) \<Rightarrow>
        (pushc s @ pushc (of_nat (i + 1)) @ opc CDLOAD @ opc SSTORE @ b, V, n))"

definition cfn :: "names \<Rightarrow> nat \<Rightarrow> fn \<Rightarrow> (shl_error, bytes \<times> names \<times> u64) result" where
  "cfn S p f =
     (case f of (_, ps, b) \<Rightarrow> case cparams 0 [] localBase ps of (a, V, n) \<Rightarrow>
        rbind (cstmts S (p + length a + 1) V n b) (\<lambda>(c, V, n). Ok (opc POP @ a @ c @ opc STOP, V, n)))"

primrec cfns :: "names \<Rightarrow> nat \<Rightarrow> fn list \<Rightarrow> (shl_error, nat list \<times> bytes) result" where
  "cfns S p [] = Ok ([], [])"
| "cfns S p (f # fs) =
     rbind (cfn S p f) (\<lambda>(a, _, _). rbind (cfns S (p + length a) fs) (\<lambda>(ps, b). Ok (p # ps, a @ b)))"

definition crouter :: "(bytes \<Rightarrow> hash) \<Rightarrow> fn list \<Rightarrow> nat list \<Rightarrow> bytes" where
  "crouter H fs addrs =
     concat (map2 (\<lambda>f a. opc DUP @ pushc (Selector H (fst f)) @ opc EQ @ pushc (of_nat a) @ opc JUMPI) fs addrs)"

definition cdispatch :: "(bytes \<Rightarrow> hash) \<Rightarrow> names \<Rightarrow> nat \<Rightarrow> fn list \<Rightarrow> (shl_error, bytes) result" where
  "cdispatch H S p fs =
     rbind (cfns S (p + 21 * length fs + 12) fs) (\<lambda>(addrs, b).
       Ok (pushc 0 @ opc CDLOAD @ crouter H fs addrs @ opc POP @ opc REVERT @ b))"

definition direct :: "(bytes \<Rightarrow> hash) \<Rightarrow> stmt list \<Rightarrow> (shl_error, bytes) result" where
  "direct H prog =
     (case split_prog prog gen0 of (g, fns, flt) \<Rightarrow>
        rbind (cstmts (gstate g) 0 [] localBase flt) (\<lambda>(a, _, _).
        rbind (if fns = [] then Ok [] else cdispatch H (gstate g) (length a) fns) (\<lambda>b.
          Ok (a @ b @ opc STOP))))"

section \<open>Code with holes\<close>

datatype item = Raw byte | Ref nat

fun flat :: "(nat \<Rightarrow> u64) \<Rightarrow> item list \<Rightarrow> bytes" where
  "flat L [] = []"
| "flat L (Raw b # is) = b # flat L is"
| "flat L (Ref l # is) = put_u64 (L l) @ flat L is"

fun refs :: "nat \<Rightarrow> item list \<Rightarrow> (nat \<times> nat) list" where
  "refs p [] = []"
| "refs p (Raw b # is) = refs (p + 1) is"
| "refs p (Ref l # is) = (p, l) # refs (p + 8) is"

definition holes :: "item list \<Rightarrow> nat set" where
  "holes is = {l. Ref l \<in> set is}"

lemma holes_simps [simp]: "holes [] = {}" "holes (Raw b # is) = holes is" "holes (Ref l # is) = insert l (holes is)"
  "holes (is @ js) = holes is \<union> holes js" "holes (map Raw c) = {}"
  by (auto simp: holes_def)

lemma flat_append [simp]: "flat L (is @ js) = flat L is @ flat L js"
  by (induction L "is" rule: flat.induct) auto

lemma flat_raw [simp]: "flat L (map Raw c) = c"
  by (induction c) auto

lemma length_flat: "length (flat L is) = length (flat L' is)"
  by (induction L "is" rule: flat.induct) auto

lemma refs_append [simp]: "refs p (is @ js) = refs p is @ refs (p + length (flat (\<lambda>_. 0) is)) js"
  by (induction p "is" rule: refs.induct) (auto simp: algebra_simps)

lemma refs_raw [simp]: "refs p (map Raw c) = []"
  by (induction c arbitrary: p) auto

lemma resolve_flat:
  assumes "\<forall>l\<in>holes is. l < length ls"
  shows "resolve_loop ls (refs (length pre) is) (pre @ flat (\<lambda>_. 0) is @ post) = Ok (pre @ flat (\<lambda>l. of_int (ls ! l)) is @ post)"
  using assms
proof (induction "is" arbitrary: pre)
  case (Cons i "is")
  show ?case
  proof (cases i)
    case (Raw b)
    then show ?thesis using Cons.IH [of "pre @ [b]"] Cons.prems by simp
  next
    case (Ref l)
    have "patch (length pre) (of_int (ls ! l)) (pre @ put_u64 0 @ flat (\<lambda>_. 0) is @ post)
        = (pre @ put_u64 (of_int (ls ! l))) @ flat (\<lambda>_. 0) is @ post" by (simp add: patch_def)
    then show ?thesis using Cons.IH [of "pre @ put_u64 (of_int (ls ! l))"] Cons.prems Ref by simp
  qed
qed simp

section \<open>What the generator appends\<close>

definition adds :: "gen \<Rightarrow> item list \<Rightarrow> gen \<Rightarrow> bool" where
  "adds g is g' \<longleftrightarrow> gcode g' = gcode g @ flat (\<lambda>_. 0) is \<and> fixups g' = fixups g @ refs (length (gcode g)) is"

lemma adds_trans: "adds g is g' \<Longrightarrow> adds g' js g'' \<Longrightarrow> adds g (is @ js) g''"
  by (simp add: adds_def)

lemma zero_operand: "put_u64 0 = replicate 8 0"
  by code_simp

lemma gen_sel [simp]:
  "gcode (emit b g) = gcode g @ opc b" "fixups (emit b g) = fixups g" "labels (emit b g) = labels g"
  "gvars (emit b g) = gvars g" "gnext (emit b g) = gnext g" "gstate (emit b g) = gstate g"
  "gcode (pushU64 v g) = gcode g @ pushc v" "fixups (pushU64 v g) = fixups g" "labels (pushU64 v g) = labels g"
  "gvars (pushU64 v g) = gvars g" "gnext (pushU64 v g) = gnext g" "gstate (pushU64 v g) = gstate g"
  "gcode (pushLabel l g) = gcode g @ pushc 0" "fixups (pushLabel l g) = fixups g @ [(length (gcode g) + 1, l)]"
  "labels (pushLabel l g) = labels g" "gvars (pushLabel l g) = gvars g" "gnext (pushLabel l g) = gnext g" "gstate (pushLabel l g) = gstate g"
  by (simp_all add: emit_def pushU64_def pushLabel_def Let_def zero_operand)

lemma gen_app: "emit b g = g\<lparr>gcode := gcode g @ opc b\<rparr>" "pushU64 v g = g\<lparr>gcode := gcode g @ pushc v\<rparr>"
  by (simp_all add: emit_def pushU64_def Let_def)

lemma g_binop_code: "g_binop o1 g = rbind (cop o1) (\<lambda>c. Ok (g\<lparr>gcode := gcode g @ c\<rparr>))"
  by (simp add: g_binop_def cop_def gen_app)

lemma g_expr_code: "g_expr e g = rbind (cexpr (gvars g) (gstate g) e) (\<lambda>c. Ok (g\<lparr>gcode := gcode g @ c\<rparr>))"
proof (induction e g rule: g_expr.induct)
  case (2 x g)
  then show ?case by (simp add: cvar_def gen_app split: option.split)
next
  case (3 x k g)
  then show ?case by (simp add: gen_app rbind_assoc split: option.split)
next
  case (5 n a g)
  then show ?case by (simp add: gen_app rbind_assoc split: option.split)
next
  case (7 o1 l r g)
  show ?case
  proof (cases "cexpr (gvars g) (gstate g) l")
    case (Ok a)
    with 7 show ?thesis by (cases "cexpr (gvars g) (gstate g) r") (simp_all add: g_binop_code rbind_assoc)
  qed (use 7 in simp_all)
qed (simp_all add: gen_app rbind_assoc)

lemma g_exprs_code: "g_exprs es g = rbind (cexprs (gvars g) (gstate g) es) (\<lambda>c. Ok (g\<lparr>gcode := gcode g @ c\<rparr>))"
proof (induction es arbitrary: g)
  case (Cons e es)
  show ?case
    by (cases "cexpr (gvars g) (gstate g) e") (simp_all add: g_expr_code Cons rbind_assoc)
qed simp

text \<open>
  The outcome \<open>r\<close> of generating from \<open>g\<close> agrees with the reference \<open>c\<close>: the same error, or code that
  becomes the reference code once the labels made on the way are filled in.
\<close>

definition fills :: "nat \<Rightarrow> int list \<Rightarrow> (nat \<Rightarrow> u64) \<Rightarrow> bool" where
  "fills k new L \<longleftrightarrow> (\<forall>i<length new. L (k + i) = of_int (new ! i))"

lemma fills_append: "fills k (a @ b) L \<longleftrightarrow> fills k a L \<and> fills (k + length a) b L"
proof
  assume f: "fills k (a @ b) L"
  have "L (k + length a + i) = of_int (b ! i)" if "i < length b" for i
    using f [unfolded fills_def, rule_format, of "length a + i"] that by (simp add: nth_append add.assoc)
  with f show "fills k a L \<and> fills (k + length a) b L" by (auto simp: fills_def nth_append)
next
  assume f: "fills k a L \<and> fills (k + length a) b L"
  show "fills k (a @ b) L"
    unfolding fills_def
  proof (intro allI impI)
    fix i assume "i < length (a @ b)"
    then show "L (k + i) = of_int ((a @ b) ! i)"
      using f [THEN conjunct1, unfolded fills_def] f [THEN conjunct2, unfolded fills_def, rule_format, of "i - length a"]
      by (auto simp: nth_append)
  qed
qed

lemma fills_Cons: "fills k (a # b) L \<longleftrightarrow> L k = of_int a \<and> fills (Suc k) b L"
  using fills_append [of k "[a]" b L] by (simp add: fills_def)

lemma fills_ex: "\<exists>L. fills k new L"
  by (rule exI [of _ "\<lambda>l. of_int (new ! (l - k))"]) (simp add: fills_def)

definition agrees :: "gen \<Rightarrow> (shl_error, gen) result \<Rightarrow> (shl_error, bytes \<times> names \<times> u64) result \<Rightarrow> bool" where
  "agrees g r c \<longleftrightarrow>
     (case r of
        Panic \<Rightarrow> False
      | Err e \<Rightarrow> c = Err e
      | Ok g' \<Rightarrow> \<exists>is new. adds g is g' \<and> labels g' = labels g @ new \<and> gstate g' = gstate g \<and>
          holes is \<subseteq> {length (labels g)..<length (labels g')} \<and>
          (\<forall>L. fills (length (labels g)) new L \<longrightarrow> c = Ok (flat L is, gvars g', gnext g')))"

lemma agrees_raw:
  assumes "r = rbind x (\<lambda>b. Ok (h b))" "c = rbind x (\<lambda>b. Ok (f b, gvars (h b), gnext (h b)))" "x \<noteq> Panic"
    and "\<And>b. gcode (h b) = gcode g @ f b" "\<And>b. fixups (h b) = fixups g" "\<And>b. labels (h b) = labels g" "\<And>b. gstate (h b) = gstate g"
  shows "agrees g r c"
proof (cases x)
  case (Ok b)
  then show ?thesis unfolding agrees_def
    by (auto simp: assms adds_def intro!: exI [of _ "map Raw (f b)"])
qed (use assms in \<open>auto simp: agrees_def\<close>)

lemma cexpr_np [simp]: "cexpr V S e \<noteq> Panic"
  by (induction V S e rule: cexpr.induct) (auto simp: cop_def cvar_def rbind_eq_Panic_iff split: option.split)

lemma cexprs_np [simp]: "cexprs V S es \<noteq> Panic"
  by (induction es) (auto simp: rbind_eq_Panic_iff)

lemma agrees_OkI:
  assumes "adds g is g'" "labels g' = labels g @ new" "gstate g' = gstate g" "holes is \<subseteq> {length (labels g)..<length (labels g')}"
    "\<forall>L. fills (length (labels g)) new L \<longrightarrow> c = Ok (flat L is, gvars g', gnext g')"
  shows "agrees g (Ok g') c"
  using assms by (auto simp: agrees_def)

lemma agrees_OkE:
  assumes "agrees g (Ok g') c"
  obtains "is" new where "adds g is g'" "labels g' = labels g @ new" "gstate g' = gstate g" "holes is \<subseteq> {length (labels g)..<length (labels g')}"
    "\<forall>L. fills (length (labels g)) new L \<longrightarrow> c = Ok (flat L is, gvars g', gnext g')"
  using assms by (auto simp: agrees_def)

lemma agrees_Err: "agrees g (Err e) c \<longleftrightarrow> c = Err e" "\<not> agrees g Panic c"
  by (auto simp: agrees_def)

abbreviation ref_stmts :: "gen \<Rightarrow> stmt list \<Rightarrow> (shl_error, bytes \<times> names \<times> u64) result" where
  "ref_stmts g ss \<equiv> cstmts (gstate g) (length (gcode g)) (gvars g) (gnext g) ss"

text \<open>Sequencing: a piece of code after another.\<close>

lemma agrees_seq:
  assumes a: "agrees g r1 (cstmt (gstate g) (length (gcode g)) (gvars g) (gnext g) s)"
    and b: "\<And>g1. r1 = Ok g1 \<Longrightarrow> agrees g1 (g_stmts ss g1) (ref_stmts g1 ss)"
  shows "agrees g (rbind r1 (g_stmts ss)) (ref_stmts g (s # ss))"
proof (cases r1)
  case (Ok g1)
  from a [unfolded Ok] obtain i1 new1 where a1: "adds g i1 g1" "labels g1 = labels g @ new1" "gstate g1 = gstate g"
    "holes i1 \<subseteq> {length (labels g)..<length (labels g1)}"
    and r1: "\<forall>L. fills (length (labels g)) new1 L \<longrightarrow> cstmt (gstate g) (length (gcode g)) (gvars g) (gnext g) s = Ok (flat L i1, gvars g1, gnext g1)"
    by (rule agrees_OkE)
  have len: "length (gcode g1) = length (gcode g) + length (flat L i1)" for L
    using a1(1) length_flat [of L i1 "\<lambda>_. 0"] by (simp add: adds_def)
  obtain x where c1: "cstmt (gstate g) (length (gcode g)) (gvars g) (gnext g) s = Ok (x, gvars g1, gnext g1)"
    "length (gcode g1) = length (gcode g) + length x"
    using r1 len fills_ex [of "length (labels g)" new1] by auto
  show ?thesis
  proof (cases "g_stmts ss g1")
    case (Ok g2)
    from b [OF \<open>r1 = Ok g1\<close>, unfolded Ok] obtain i2 new2 where a2: "adds g1 i2 g2" "labels g2 = labels g1 @ new2" "gstate g2 = gstate g1"
      "holes i2 \<subseteq> {length (labels g1)..<length (labels g2)}"
      and r2: "\<forall>L. fills (length (labels g1)) new2 L \<longrightarrow> ref_stmts g1 ss = Ok (flat L i2, gvars g2, gnext g2)"
      by (rule agrees_OkE)
    have "agrees g (Ok g2) (ref_stmts g (s # ss))"
    proof (rule agrees_OkI [OF adds_trans [OF a1(1) a2(1)], of "new1 @ new2"])
      show "labels g2 = labels g @ new1 @ new2" "gstate g2 = gstate g" using a1 a2 by simp_all
      show "holes (i1 @ i2) \<subseteq> {length (labels g)..<length (labels g2)}" using a1(2,4) a2(2,4) by (auto simp: subset_iff)
      show "\<forall>L. fills (length (labels g)) (new1 @ new2) L \<longrightarrow> ref_stmts g (s # ss) = Ok (flat L (i1 @ i2), gvars g2, gnext g2)"
      proof (intro allI impI)
        fix L assume "fills (length (labels g)) (new1 @ new2) L"
        then have "fills (length (labels g)) new1 L" "fills (length (labels g1)) new2 L" by (simp_all add: fills_append a1(2))
        then show "ref_stmts g (s # ss) = Ok (flat L (i1 @ i2), gvars g2, gnext g2)"
          using r1 r2 len [of L] a1(3) by simp
      qed
    qed
    then show ?thesis by (simp add: \<open>r1 = Ok g1\<close> Ok)
  next
    case (Err e)
    then show ?thesis using b [OF \<open>r1 = Ok g1\<close>] c1 a1(3) by (simp add: \<open>r1 = Ok g1\<close> agrees_Err)
  next
    case Panic
    then show ?thesis using b [OF \<open>r1 = Ok g1\<close>] by (simp add: agrees_Err)
  qed
qed (use a in \<open>simp_all add: agrees_Err\<close>)

lemma agrees_require:
  "agrees g (g_stmt (RequireStmt e) g) (cstmt (gstate g) (length (gcode g)) (gvars g) (gnext g) (RequireStmt e))"
proof (cases "cexpr (gvars g) (gstate g) e")
  case (Ok c)
  let ?l = "length (labels g)" and ?q = "length (gcode g) + length c + 11"
  let ?g = "g\<lparr>labels := labels g @ [int ?q], fixups := fixups g @ [(length (gcode g) + length c + 1, ?l)],
    gcode := gcode g @ c @ pushc 0 @ opc JUMPI @ opc REVERT\<rparr>"
  have r: "g_stmt (RequireStmt e) g = Ok ?g"
    by (simp add: newLabel_def g_expr_code Ok mark_def emit_def pushLabel_def Let_def zero_operand)
  show ?thesis
    unfolding r
    by (rule agrees_OkI [of g "map Raw c @ [Raw (opcode_byte PUSH), Ref ?l, Raw (opcode_byte JUMPI), Raw (opcode_byte REVERT)]" ?g "[int ?q]"])
      (auto simp: adds_def Ok fills_def)
qed (simp_all add: newLabel_def g_expr_code agrees_Err)

lemma agrees_if:
  assumes th: "\<And>h. agrees h (g_stmts th h) (ref_stmts h th)" and el: "\<And>h. agrees h (g_stmts el h) (ref_stmts h el)"
  shows "agrees g (g_stmt (IfStmt e th el) g) (cstmt (gstate g) (length (gcode g)) (gvars g) (gnext g) (IfStmt e th el))"
proof (cases "cexpr (gvars g) (gstate g) e")
  case c: (Ok c)
  let ?l = "length (labels g)" and ?p = "length (gcode g) + length c"
  let ?g1 = "g\<lparr>labels := labels g @ [-1, -1], fixups := fixups g @ [(?p + 2, ?l)],
    gcode := gcode g @ c @ opc ISZERO @ pushc 0 @ opc JUMPI\<rparr>"
  have r1: "g_stmt (IfStmt e th el) g = rbind (g_stmts th ?g1) (\<lambda>h. rbind (mark ?l (emit JUMP (pushLabel (?l + 1) h))) (\<lambda>h.
      rbind (g_stmts el h) (mark (?l + 1))))"
    by (simp add: newLabel_def g_expr_code c emit_def pushLabel_def Let_def zero_operand)
  show ?thesis
  proof (cases "g_stmts th ?g1")
    case t: (Ok g2)
    from th [of ?g1, unfolded t] obtain i1 new1 where a1: "adds ?g1 i1 g2" "labels g2 = labels ?g1 @ new1" "gstate g2 = gstate ?g1"
      "holes i1 \<subseteq> {length (labels ?g1)..<length (labels g2)}"
      and s1: "\<forall>L. fills (length (labels ?g1)) new1 L \<longrightarrow> ref_stmts ?g1 th = Ok (flat L i1, gvars g2, gnext g2)"
      by (rule agrees_OkE)
    let ?a = "length (flat (\<lambda>_. 0) i1)"
    let ?g3 = "g2\<lparr>fixups := fixups g2 @ [(length (gcode g2) + 1, ?l + 1)], gcode := gcode g2 @ pushc 0 @ opc JUMP,
      labels := labels g @ [int (?p + ?a + 21), -1] @ new1\<rparr>"
    have r2: "g_stmt (IfStmt e th el) g = rbind (g_stmts el ?g3) (mark (?l + 1))"
      using a1 unfolding r1 t rbind.simps
      by (simp add: mark_def emit_def pushLabel_def Let_def zero_operand adds_def ac_simps)
    have l2: "length (gcode ?g3) = ?p + ?a + 21" using a1(1) by (simp add: adds_def)
    obtain x where x: "ref_stmts ?g1 th = Ok (x, gvars g2, gnext g2)" "length x = ?a"
      using s1 fills_ex [of "length (labels ?g1)" new1] length_flat [of _ i1 "\<lambda>_. 0"] by blast
    have th_eq: "cstmts (gstate g) (?p + 11) (gvars g) (gnext g) th = ref_stmts ?g1 th" by (simp add: algebra_simps)
    have el_eq: "cstmts (gstate g) (?p + ?a + 21) (gvars g2) (gnext g2) el = ref_stmts ?g3 el" using l2 a1(3) by (simp add: ac_simps)
    show ?thesis
    proof (cases "g_stmts el ?g3")
      case e: (Ok g4)
      from el [of ?g3, unfolded e] obtain i2 new2 where a2: "adds ?g3 i2 g4" "labels g4 = labels ?g3 @ new2" "gstate g4 = gstate ?g3"
        "holes i2 \<subseteq> {length (labels ?g3)..<length (labels g4)}"
        and s2: "\<forall>L. fills (length (labels ?g3)) new2 L \<longrightarrow> ref_stmts ?g3 el = Ok (flat L i2, gvars g4, gnext g4)"
        by (rule agrees_OkE)
      let ?b = "length (flat (\<lambda>_. 0) i2)"
      let ?new = "[int (?p + ?a + 21), int (?p + ?a + ?b + 21)] @ new1 @ new2"
      have r3: "g_stmt (IfStmt e th el) g = Ok (g4\<lparr>labels := labels g @ ?new\<rparr>)"
        using a2 l2 unfolding r2 e rbind.simps by (simp add: mark_def adds_def list_update_append algebra_simps)
      let ?is = "map Raw c @ [Raw (opcode_byte ISZERO), Raw (opcode_byte PUSH), Ref ?l, Raw (opcode_byte JUMPI)] @ i1 @
          [Raw (opcode_byte PUSH), Ref (?l + 1), Raw (opcode_byte JUMP)] @ i2"
      have "adds ?g1 (i1 @ [Raw (opcode_byte PUSH), Ref (?l + 1), Raw (opcode_byte JUMP)] @ i2) g4"
        using a1(1) a2(1) by (simp add: adds_def ac_simps)
      then have ad: "adds g ?is (g4\<lparr>labels := labels g @ ?new\<rparr>)" by (simp add: adds_def algebra_simps)
      show ?thesis
        unfolding r3
      proof (rule agrees_OkI [OF ad, of ?new])
        show "holes ?is \<subseteq> {?l..<length (labels (g4\<lparr>labels := labels g @ ?new\<rparr>))}"
          using a1(2,4) a2(2,4) by (auto simp: subset_iff)
        show "\<forall>L. fills ?l ?new L \<longrightarrow> cstmt (gstate g) (length (gcode g)) (gvars g) (gnext g) (IfStmt e th el) =
            Ok (flat L ?is, gvars (g4\<lparr>labels := labels g @ ?new\<rparr>), gnext (g4\<lparr>labels := labels g @ ?new\<rparr>))"
        proof (intro allI impI)
          fix L assume "fills ?l ?new L"
          then have f: "L ?l = of_nat (?p + ?a + 21)" "L (Suc ?l) = of_nat (?p + ?a + ?b + 21)"
            "fills (length (labels ?g1)) new1 L" "fills (length (labels ?g3)) new2 L"
            by (simp_all add: fills_append fills_Cons)
          have 1: "cstmts (gstate g) (?p + 11) (gvars g) (gnext g) th = Ok (flat L i1, gvars g2, gnext g2)"
            using s1 f(3) unfolding th_eq by simp
          have 2: "cstmts (gstate g) (?p + length (flat L i1) + 21) (gvars g2) (gnext g2) el = Ok (flat L i2, gvars g4, gnext g4)"
            using s2 f(4) unfolding length_flat [of L i1 "\<lambda>_. 0"] el_eq by simp
          show "cstmt (gstate g) (length (gcode g)) (gvars g) (gnext g) (IfStmt e th el) =
            Ok (flat L ?is, gvars (g4\<lparr>labels := labels g @ ?new\<rparr>), gnext (g4\<lparr>labels := labels g @ ?new\<rparr>))"
            using 1 2 f(1,2) by (simp add: c length_flat [of L _ "\<lambda>_. 0"])
        qed
      qed (use a1(3) a2(3) in simp_all)
    qed (use el [of ?g3] r2 x el_eq th_eq in \<open>simp_all add: agrees_Err c\<close>)
  qed (use th [of ?g1] r1 in \<open>simp_all add: agrees_Err c algebra_simps\<close>)
qed (simp_all add: newLabel_def g_expr_code agrees_Err)

lemma agrees_while:
  assumes bd: "\<And>h. agrees h (g_stmts bd h) (ref_stmts h bd)"
  shows "agrees g (g_stmt (WhileStmt e bd) g) (cstmt (gstate g) (length (gcode g)) (gvars g) (gnext g) (WhileStmt e bd))"
proof (cases "cexpr (gvars g) (gstate g) e")
  case c: (Ok c)
  let ?l = "length (labels g)" and ?p = "length (gcode g) + length c"
  let ?g1 = "g\<lparr>labels := labels g @ [int (length (gcode g)), -1], fixups := fixups g @ [(?p + 2, ?l + 1)],
    gcode := gcode g @ c @ opc ISZERO @ pushc 0 @ opc JUMPI\<rparr>"
  have r1: "g_stmt (WhileStmt e bd) g = rbind (g_stmts bd ?g1) (\<lambda>h. mark (?l + 1) (emit JUMP (pushLabel ?l h)))"
    by (simp add: newLabel_def g_expr_code c mark_def [of ?l] list_update_append emit_def pushLabel_def Let_def zero_operand)
  show ?thesis
  proof (cases "g_stmts bd ?g1")
    case t: (Ok g2)
    from bd [of ?g1, unfolded t] obtain i1 new1 where a1: "adds ?g1 i1 g2" "labels g2 = labels ?g1 @ new1" "gstate g2 = gstate ?g1"
      "holes i1 \<subseteq> {length (labels ?g1)..<length (labels g2)}"
      and s1: "\<forall>L. fills (length (labels ?g1)) new1 L \<longrightarrow> ref_stmts ?g1 bd = Ok (flat L i1, gvars g2, gnext g2)"
      by (rule agrees_OkE)
    let ?a = "length (flat (\<lambda>_. 0) i1)"
    let ?new = "[int (length (gcode g)), int (?p + ?a + 21)] @ new1"
    let ?g3 = "g2\<lparr>fixups := fixups g2 @ [(length (gcode g2) + 1, ?l)], gcode := gcode g2 @ pushc 0 @ opc JUMP,
      labels := labels g @ ?new\<rparr>"
    have r2: "g_stmt (WhileStmt e bd) g = Ok ?g3"
      using a1 unfolding r1 t rbind.simps
      by (simp add: mark_def emit_def pushLabel_def Let_def zero_operand adds_def list_update_append ac_simps)
    let ?is = "map Raw c @ [Raw (opcode_byte ISZERO), Raw (opcode_byte PUSH), Ref (?l + 1), Raw (opcode_byte JUMPI)] @ i1 @
        [Raw (opcode_byte PUSH), Ref ?l, Raw (opcode_byte JUMP)]"
    have ad: "adds g ?is ?g3" using a1(1) by (simp add: adds_def ac_simps)
    show ?thesis
      unfolding r2
    proof (rule agrees_OkI [OF ad, of ?new])
      show "gstate ?g3 = gstate g" using a1(3) by simp
      show "holes ?is \<subseteq> {?l..<length (labels ?g3)}" using a1(2,4) by (auto simp: subset_iff)
      show "\<forall>L. fills ?l ?new L \<longrightarrow> cstmt (gstate g) (length (gcode g)) (gvars g) (gnext g) (WhileStmt e bd) =
          Ok (flat L ?is, gvars ?g3, gnext ?g3)"
      proof (intro allI impI)
        fix L assume "fills ?l ?new L"
        then have f: "L ?l = of_nat (length (gcode g))" "L (Suc ?l) = of_nat (?p + ?a + 21)" "fills (length (labels ?g1)) new1 L"
          by (simp_all add: fills_append fills_Cons)
        have "cstmts (gstate g) (?p + 11) (gvars g) (gnext g) bd = Ok (flat L i1, gvars g2, gnext g2)"
          using s1 f(3) by (simp add: ac_simps)
        then show "cstmt (gstate g) (length (gcode g)) (gvars g) (gnext g) (WhileStmt e bd) = Ok (flat L ?is, gvars ?g3, gnext ?g3)"
          using f(1,2) by (simp add: c length_flat [of L _ "\<lambda>_. 0"])
      qed
    qed simp
  qed (use bd [of ?g1] r1 in \<open>simp_all add: agrees_Err c ac_simps\<close>)
qed (simp_all add: newLabel_def mark_def g_expr_code agrees_Err)

lemma agrees_list:
  assumes "\<And>s g. s \<in> set ss \<Longrightarrow> agrees g (g_stmt s g) (cstmt (gstate g) (length (gcode g)) (gvars g) (gnext g) s)"
  shows "agrees g (g_stmts ss g) (ref_stmts g ss)"
  using assms
proof (induction ss arbitrary: g)
  case Nil
  show ?case by (rule agrees_raw [of _ "Ok ()" "\<lambda>_. g" _ "\<lambda>_. []"]) simp_all
next
  case (Cons s ss)
  have "agrees g (rbind (g_stmt s g) (g_stmts ss)) (ref_stmts g (s # ss))"
    by (rule agrees_seq) (use Cons in auto)
  then show ?case by simp
qed

lemma slot_cslot:
  "slot x g = (case cslot x (gvars g) (gnext g) of (s, V, n) \<Rightarrow> (s, g\<lparr>gnext := n, gvars := V\<rparr>))"
  by (simp add: slot_def cslot_def split: option.split)

lemma agrees_stmt: "agrees g (g_stmt s g) (cstmt (gstate g) (length (gcode g)) (gvars g) (gnext g) s)"
proof (induction s arbitrary: g)
  case (LetStmt x v)
  show ?case
  proof (cases "map_of (gstate g) x")
    case (Some s)
    then show ?thesis
      by (intro agrees_raw [of _ "cexpr (gvars g) (gstate g) v" "\<lambda>c. g\<lparr>gcode := gcode g @ pushc s @ c @ opc SSTORE\<rparr>" _ "\<lambda>c. pushc s @ c @ opc SSTORE"])
        (simp_all add: g_expr_code gen_app rbind_assoc)
  next
    case None
    obtain s V n where sl: "cslot x (gvars g) (gnext g) = (s, V, n)" by (cases "cslot x (gvars g) (gnext g)")
    show ?thesis
      by (intro agrees_raw [of _ "cexpr V (gstate g) v" "\<lambda>c. g\<lparr>gnext := n, gvars := V, gcode := gcode g @ pushc s @ c @ opc SSTORE\<rparr>" _ "\<lambda>c. pushc s @ c @ opc SSTORE"])
        (simp_all add: None sl slot_cslot g_expr_code gen_app rbind_assoc)
  qed
next
  case (StoreStmt k v)
  show ?case
    by (intro agrees_raw [of _ "rbind (cexpr (gvars g) (gstate g) k) (\<lambda>c. rbind (cexpr (gvars g) (gstate g) v) (\<lambda>d. Ok (c, d)))"
          "\<lambda>(c, d). g\<lparr>gcode := gcode g @ c @ d @ opc SSTORE\<rparr>" _ "\<lambda>(c, d). c @ d @ opc SSTORE"])
      (auto simp: g_expr_code gen_app rbind_assoc rbind_eq_Panic_iff)
next
  case (IndexStore x k v)
  show ?case
  proof (cases "map_of (gstate g) x")
    case (Some s)
    then show ?thesis
      by (intro agrees_raw [of _ "rbind (cexpr (gvars g) (gstate g) k) (\<lambda>c. rbind (cexpr (gvars g) (gstate g) v) (\<lambda>d. Ok (c, d)))"
            "\<lambda>(c, d). g\<lparr>gcode := gcode g @ pushc s @ c @ opc MIX @ d @ opc SSTORE\<rparr>" _ "\<lambda>(c, d). pushc s @ c @ opc MIX @ d @ opc SSTORE"])
        (auto simp: g_expr_code gen_app rbind_assoc rbind_eq_Panic_iff)
  qed (simp add: agrees_Err)
next
  case (EmitStmt as)
  show ?case
    by (intro agrees_raw [of _ "cexprs (gvars g) (gstate g) as" "\<lambda>c. g\<lparr>gcode := gcode g @ c @ pushc (of_nat (length as)) @ opc LOG\<rparr>" _
          "\<lambda>c. c @ pushc (of_nat (length as)) @ opc LOG"])
      (simp_all add: g_exprs_code gen_app rbind_assoc)
next
  case (ReturnStmt v)
  show ?case
    by (intro agrees_raw [of _ "cexpr (gvars g) (gstate g) v" "\<lambda>c. g\<lparr>gcode := gcode g @ c @ opc RETURN\<rparr>" _ "\<lambda>c. c @ opc RETURN"])
      (simp_all add: g_expr_code gen_app rbind_assoc)
next
  case StopStmt
  show ?case
    by (intro agrees_raw [of _ "Ok ()" "\<lambda>_. emit STOP g" _ "\<lambda>_. opc STOP"]) simp_all
next
  case RevertStmt
  show ?case
    by (intro agrees_raw [of _ "Ok ()" "\<lambda>_. emit REVERT g" _ "\<lambda>_. opc REVERT"]) simp_all
next
  case (IfStmt e th el)
  show ?case by (rule agrees_if; rule agrees_list) (use IfStmt in auto)
next
  case (WhileStmt e bd)
  show ?case by (rule agrees_while; rule agrees_list) (use WhileStmt in auto)
next
  case (RequireStmt e)
  show ?case by (rule agrees_require)
qed (simp_all add: agrees_Err)

lemma agrees_stmts: "agrees g (g_stmts ss g) (ref_stmts g ss)"
  by (rule agrees_list) (rule agrees_stmt)

section \<open>The dispatcher\<close>

lemma upt_first: "[k..<Suc (k + n)] = k # [Suc k..<Suc (k + n)]"
  by (simp add: upt_conv_Cons del: upt_Suc)

lemma selectors_run:
  "selectors H fs g = (ls, g') \<Longrightarrow>
     ls = [length (labels g)..<length (labels g) + length fs] \<and> labels g' = labels g @ replicate (length fs) (-1) \<and>
     gstate g' = gstate g \<and> gvars g' = gvars g \<and> gnext g' = gnext g \<and>
     (\<exists>is. adds g is g' \<and> holes is \<subseteq> {length (labels g)..<length (labels g')} \<and>
        (\<forall>L. flat L is = concat (map2 (\<lambda>f l. opc DUP @ pushc (Selector H (fst f)) @ opc EQ @ pushc (L l) @ opc JUMPI) fs ls)))"
proof (induction fs arbitrary: g ls)
  case Nil
  then show ?case by (auto simp: adds_def intro!: exI [of _ "[]"])
next
  case (Cons f fs)
  let ?l = "length (labels g)"
  let ?is = "Raw (opcode_byte DUP) # map Raw (pushc (Selector H (fst f))) @ [Raw (opcode_byte EQ), Raw (opcode_byte PUSH), Ref ?l, Raw (opcode_byte JUMPI)]"
  let ?h = "emit JUMPI (pushLabel ?l (emit EQ (pushU64 (Selector H (fst f)) (emit DUP (g\<lparr>labels := labels g @ [-1]\<rparr>)))))"
  obtain ls' where s: "selectors H fs ?h = (ls', g')" "ls = ?l # ls'"
    using Cons.prems by (auto simp: newLabel_def split: prod.splits)
  from Cons.IH [OF s(1)] obtain js where ih: "ls' = [length (labels ?h)..<length (labels ?h) + length fs]"
    "labels g' = labels ?h @ replicate (length fs) (-1)" "gstate g' = gstate ?h" "gvars g' = gvars ?h" "gnext g' = gnext ?h"
    "adds ?h js g'" "holes js \<subseteq> {length (labels ?h)..<length (labels g')}"
    "\<forall>L. flat L js = concat (map2 (\<lambda>f l. opc DUP @ pushc (Selector H (fst f)) @ opc EQ @ pushc (L l) @ opc JUMPI) fs ls')"
    by blast
  have a: "adds g (?is @ js) g'"
    by (rule adds_trans [OF _ ih(6)]) (simp add: adds_def)
  have "holes (?is @ js) \<subseteq> {?l..<length (labels g')}" using ih(2,7) by auto
  with a ih(1-5,8) s(2) show ?case
    by (intro conjI exI [of _ "?is @ js"]) (simp_all add: upt_first del: upt_Suc)
qed

lemma bind_params_code:
  "bind_params i ps g = (case cparams i (gvars g) (gnext g) ps of (b, V, n) \<Rightarrow> g\<lparr>gcode := gcode g @ b, gnext := n, gvars := V\<rparr>)"
proof (induction ps arbitrary: i g)
  case (Cons x ps)
  obtain s V n where c: "cslot x (gvars g) (gnext g) = (s, V, n)" by (cases "cslot x (gvars g) (gnext g)")
  show ?case by (simp add: slot_cslot c Cons gen_app split: prod.splits)
qed simp

lemma fn_bodies_run:
  assumes "labels g = A @ replicate (length fs) (-1) @ B"
  shows "case fn_bodies (zip [length A..<length A + length fs] fs) g of
      Panic \<Rightarrow> False
    | Err e \<Rightarrow> cfns (gstate g) (length (gcode g)) fs = Err e
    | Ok g' \<Rightarrow> \<exists>is new addrs. adds g is g' \<and> labels g' = A @ map int addrs @ B @ new \<and> length addrs = length fs \<and> gstate g' = gstate g \<and>
        holes is \<subseteq> {length (labels g)..<length (labels g')} \<and>
        (\<forall>L. fills (length (labels g)) new L \<longrightarrow> cfns (gstate g) (length (gcode g)) fs = Ok (addrs, flat L is))"
  using assms
proof (induction fs arbitrary: g A B)
  case Nil
  then show ?case by (auto simp: adds_def intro!: exI [of _ "[]"])
next
  case (Cons f fs)
  obtain x ps b where f: "f = (x, ps, b)" by (cases f)
  obtain a V n where pa: "cparams 0 [] localBase ps = (a, V, n)" by (cases "cparams 0 [] localBase ps")
  let ?p = "length (gcode g)"
  let ?g1 = "g\<lparr>labels := A @ int ?p # replicate (length fs) (-1) @ B, gcode := gcode g @ opc POP @ a, gnext := n, gvars := V\<rparr>"
  have z: "zip [length A..<length A + length (f # fs)] (f # fs) = (length A, f) # zip [Suc (length A)..<Suc (length A) + length fs] fs"
    by (simp add: upt_first del: upt_Suc)
  have run: "fn_bodies (zip [length A..<length A + length (f # fs)] (f # fs)) g =
      rbind (g_stmts b ?g1) (\<lambda>g. fn_bodies (zip [Suc (length A)..<Suc (length A) + length fs] fs) (emit STOP g))"
    unfolding z using Cons.prems
    by (simp add: f mark_def bind_params_code pa gen_app list_update_append)
  note ag = agrees_stmts [of ?g1 b]
  have cb: "cfn (gstate g) ?p f = rbind (ref_stmts ?g1 b) (\<lambda>(c, V, n). Ok (opc POP @ a @ c @ opc STOP, V, n))"
    by (simp add: cfn_def f pa)
  show ?case
  proof (cases "g_stmts b ?g1")
    case (Ok g2)
    from ag [unfolded Ok] obtain i1 new1 where a1: "adds ?g1 i1 g2" "labels g2 = labels ?g1 @ new1" "gstate g2 = gstate ?g1"
      "holes i1 \<subseteq> {length (labels ?g1)..<length (labels g2)}"
      and s1: "\<forall>L. fills (length (labels ?g1)) new1 L \<longrightarrow> ref_stmts ?g1 b = Ok (flat L i1, gvars g2, gnext g2)"
      by (rule agrees_OkE)
    let ?g3 = "emit STOP g2"
    let ?i1 = "map Raw (opc POP @ a) @ i1 @ [Raw (opcode_byte STOP)]"
    have ad: "adds g ?i1 ?g3" using a1(1) by (simp add: adds_def)
    have ll: "length (labels ?g1) = length (labels g)" using Cons.prems by simp
    have c1: "fills (length (labels g)) new1 L \<Longrightarrow> cfn (gstate g) ?p f = Ok (flat L ?i1, gvars g2, gnext g2)" for L
      using s1 unfolding cb ll by simp
    have len: "length (gcode ?g3) = ?p + length (flat L ?i1)" for L
      using ad length_flat [of L ?i1 "\<lambda>_. 0"] by (simp add: adds_def)
    have lab: "labels ?g3 = (A @ [int ?p]) @ replicate (length fs) (-1) @ (B @ new1)" using a1(2) by simp
    note ih = Cons.IH [OF lab]
    have run2: "fn_bodies (zip [length A..<length A + length (f # fs)] (f # fs)) g =
        fn_bodies (zip [length (A @ [int ?p])..<length (A @ [int ?p]) + length fs] fs) ?g3"
      unfolding run Ok by simp
    obtain L0 where "fills (length (labels g)) new1 L0" using fills_ex by blast
    note c0 = c1 [OF this] len [of L0]
    show ?thesis
    proof (cases "fn_bodies (zip [length (A @ [int ?p])..<length (A @ [int ?p]) + length fs] fs) ?g3")
      case ok: (Ok g')
      from ih [unfolded ok] obtain i2 new2 addrs where a2: "adds ?g3 i2 g'" "labels g' = (A @ [int ?p]) @ map int addrs @ (B @ new1) @ new2"
        "length addrs = length fs" "gstate g' = gstate ?g3" "holes i2 \<subseteq> {length (labels ?g3)..<length (labels g')}"
        and s2: "\<forall>L. fills (length (labels ?g3)) new2 L \<longrightarrow> cfns (gstate ?g3) (length (gcode ?g3)) fs = Ok (addrs, flat L i2)"
        by auto
      have c: "cfns (gstate g) ?p (f # fs) = Ok (?p # addrs, flat L (?i1 @ i2))" if "fills (length (labels g)) (new1 @ new2) L" for L
      proof -
        have "length (labels ?g3) = length (labels g) + length new1" using lab Cons.prems by simp
        with that have fl: "fills (length (labels g)) new1 L" "fills (length (labels ?g3)) new2 L" by (simp_all add: fills_append)
        show ?thesis using c1 [OF fl(1)] s2 fl(2) len [of L] a1(3) by simp
      qed
      have ho: "holes (?i1 @ i2) \<subseteq> {length (labels g)..<length (labels g')}"
        using a1(2,4) a2(2,3,5) ll lab Cons.prems by (fastforce simp: subset_iff)
      show ?thesis
        unfolding run2 ok result.case
      proof (rule exI [of _ "?i1 @ i2"], rule exI [of _ "new1 @ new2"], rule exI [of _ "?p # addrs"], intro conjI)
        show "adds g (?i1 @ i2) g'" by (rule adds_trans [OF ad a2(1)])
        show "\<forall>L. fills (length (labels g)) (new1 @ new2) L \<longrightarrow> cfns (gstate g) ?p (f # fs) = Ok (?p # addrs, flat L (?i1 @ i2))"
          using c by blast
      qed (use ho a1(3) a2(2-4) in simp_all)
    next
      case (Err e)
      then show ?thesis using ih c0 a1(3) unfolding run2 by simp
    next
      case Panic
      then show ?thesis using ih by simp
    qed
  next
    case (Err e)
    then show ?thesis using ag cb unfolding run by (simp add: agrees_Err)
  next
    case Panic
    then show ?thesis using ag by (simp add: agrees_Err)
  qed
qed

section \<open>Whole programs\<close>

lemma split_prog_frame:
  "split_prog prog g = (g', fns, flt) \<Longrightarrow>
     gcode g' = gcode g \<and> labels g' = labels g \<and> fixups g' = fixups g \<and> gvars g' = gvars g \<and> gnext g' = gnext g"
proof (induction prog g arbitrary: fns flt rule: split_prog.induct)
  case (2 x p g)
  then have "gcode g' = gcode (snd (declState x g)) \<and> labels g' = labels (snd (declState x g)) \<and> fixups g' = fixups (snd (declState x g)) \<and>
    gvars g' = gvars (snd (declState x g)) \<and> gnext g' = gnext (snd (declState x g))" by simp
  then show ?case by (simp add: declState_def split: option.splits)
qed (auto split: prod.splits)

lemma resolve_adds:
  assumes "gcode g = []" "fixups g = []" "adds g is g'" "holes is \<subseteq> {..<length (labels g')}"
  shows "resolve g' = Ok (g'\<lparr>gcode := flat (\<lambda>l. of_int (labels g' ! l)) is\<rparr>)"
proof -
  have "\<forall>l\<in>holes is. l < length (labels g')" using assms(4) by auto
  from resolve_flat [OF this, of "[]" "[]"] show ?thesis using assms(1-3) by (simp add: resolve_def adds_def)
qed

lemma fills_nth: "ls = A @ new @ B \<Longrightarrow> fills (length A) new (\<lambda>l. of_int (ls ! l))"
  by (simp add: fills_def nth_append)

lemma crouter_addrs:
  assumes "length addrs = length fs" "\<And>i. i < length addrs \<Longrightarrow> L (k + i) = of_nat (addrs ! i)"
  shows "concat (map2 (\<lambda>f l. opc DUP @ pushc (Selector H (fst f)) @ opc EQ @ pushc (L l) @ opc JUMPI) fs [k..<k + length fs]) = crouter H fs addrs"
proof -
  have "map2 (\<lambda>f l. opc DUP @ pushc (Selector H (fst f)) @ opc EQ @ pushc (L l) @ opc JUMPI) fs [k..<k + length fs] =
      map2 (\<lambda>f a. opc DUP @ pushc (Selector H (fst f)) @ opc EQ @ pushc (of_nat a) @ opc JUMPI) fs addrs"
    by (rule nth_equalityI) (use assms in auto)
  then show ?thesis by (simp add: crouter_def)
qed

text \<open>The dispatcher after the flat statements, given what the pieces did.\<close>

lemma dispatch_run:
  "case fn_dispatch H fs g of
      Panic \<Rightarrow> False
    | Err e \<Rightarrow> cdispatch H (gstate g) (length (gcode g)) fs = Err e
    | Ok g' \<Rightarrow> \<exists>is new. adds g is g' \<and> labels g' = labels g @ new \<and> holes is \<subseteq> {length (labels g)..<length (labels g')} \<and>
        (\<forall>L. fills (length (labels g)) new L \<longrightarrow> cdispatch H (gstate g) (length (gcode g)) fs = Ok (flat L is))"
proof -
  let ?h = "emit CDLOAD (pushU64 0 g)" and ?k = "length (labels g)" and ?n = "length fs"
  obtain ls g1 where s: "selectors H fs ?h = (ls, g1)" by (cases "selectors H fs ?h")
  from selectors_run [OF s] obtain i1 where a1: "ls = [?k..<?k + ?n]" "labels g1 = labels g @ replicate ?n (-1)" "gstate g1 = gstate g"
    "adds ?h i1 g1" "holes i1 \<subseteq> {?k..<length (labels g1)}"
    and f1: "\<forall>L. flat L i1 = concat (map2 (\<lambda>f l. opc DUP @ pushc (Selector H (fst f)) @ opc EQ @ pushc (L l) @ opc JUMPI) fs ls)"
    by auto
  let ?g2 = "emit REVERT (emit POP g1)"
  let ?pre = "map Raw (pushc 0 @ opc CDLOAD) @ i1 @ map Raw (opc POP @ opc REVERT)"
  have ad: "adds g ?pre ?g2" using a1(4) by (simp add: adds_def ac_simps)
  have size: "length (flat L i1) = 21 * ?n" for L
    unfolding spec [OF f1] a1(1) by (simp add: length_concat comp_def case_prod_unfold sum_list_triv)
  have len: "length (gcode ?g2) = length (gcode g) + 21 * ?n + 12"
    using ad size [of "\<lambda>_. 0"] by (simp add: adds_def)
  have run: "fn_dispatch H fs g = fn_bodies (zip [length (labels g)..<length (labels g) + ?n] fs) ?g2"
    by (simp add: fn_dispatch_def s a1(1))
  have lab: "labels ?g2 = labels g @ replicate ?n (-1) @ []" using a1(2) by simp
  note b = fn_bodies_run [OF lab, folded run]
  have st: "gstate ?g2 = gstate g" using a1(3) by simp
  show ?thesis
  proof (cases "fn_dispatch H fs g")
    case (Ok g')
    from b [unfolded Ok] obtain i2 new addrs where a2: "adds ?g2 i2 g'" "labels g' = labels g @ map int addrs @ new" "length addrs = ?n"
      "holes i2 \<subseteq> {length (labels ?g2)..<length (labels g')}"
      and s2: "\<forall>L. fills (length (labels ?g2)) new L \<longrightarrow> cfns (gstate g) (length (gcode ?g2)) fs = Ok (addrs, flat L i2)"
      using st by auto
    have c: "cdispatch H (gstate g) (length (gcode g)) fs = Ok (flat L (?pre @ i2))" if "fills ?k (map int addrs @ new) L" for L
    proof -
      have "length (labels ?g2) = ?k + length addrs" using lab a2(3) by simp
      with that have fl: "fills ?k (map int addrs) L" "fills (length (labels ?g2)) new L" by (simp_all add: fills_append)
      have "flat L i1 = crouter H fs addrs"
        unfolding spec [OF f1] a1(1) by (rule crouter_addrs [OF a2(3)]) (use fl(1) in \<open>simp add: fills_def\<close>)
      moreover have "cfns (gstate g) (length (gcode g) + 21 * ?n + 12) fs = Ok (addrs, flat L i2)"
        using s2 fl(2) unfolding len by blast
      ultimately show ?thesis by (simp add: cdispatch_def)
    qed
    have ho: "holes (?pre @ i2) \<subseteq> {?k..<length (labels g')}"
      using a1(2,5) a2(2-4) lab by (fastforce simp: subset_iff)
    show ?thesis
      unfolding Ok result.case
      by (rule exI [of _ "?pre @ i2"], rule exI [of _ "map int addrs @ new"], intro conjI)
        (use adds_trans [OF ad a2(1)] a2(2) ho c in blast)+
  next
    case (Err e)
    with b have "cfns (gstate g) (length (gcode g) + 21 * ?n + 12) fs = Err e" unfolding len st by simp
    with Err show ?thesis by (simp add: cdispatch_def)
  qed (use b in simp)
qed

text \<open>
  The generator with labels, holes and patching gives exactly what the reference with computed addresses gives, code or
  error, for every program, and never panics.
\<close>

theorem compile_direct: "compile_prog H prog = direct H prog \<and> compile_prog H prog \<noteq> Panic"
proof -
  obtain g fns flt where sp: "split_prog prog gen0 = (g, fns, flt)" by (cases "split_prog prog gen0")
  have g: "gcode g = []" "labels g = []" "fixups g = []" "gvars g = []" "gnext g = localBase"
    using split_prog_frame [OF sp] by (simp_all add: gen0_def)
  note ag = agrees_stmts [of g flt]
  have ref: "ref_stmts g flt = cstmts (gstate g) 0 [] localBase flt" by (simp add: g)
  show ?thesis
  proof (cases "g_stmts flt g")
    case (Ok g1)
    from ag [unfolded Ok] obtain i1 new1 where a1: "adds g i1 g1" "labels g1 = new1" "gstate g1 = gstate g"
      "holes i1 \<subseteq> {..<length (labels g1)}"
      and s1: "\<forall>L. fills 0 new1 L \<longrightarrow> ref_stmts g flt = Ok (flat L i1, gvars g1, gnext g1)"
      by (rule agrees_OkE) (auto simp: g lessThan_atLeast0)
    have fin: "resolve (emit STOP h) = Ok ((emit STOP h)\<lparr>gcode := flat (\<lambda>l. of_int (labels h ! l)) i @ opc STOP\<rparr>)"
      if "adds g i h" "holes i \<subseteq> {..<length (labels h)}" for h i
    proof -
      have "adds g (i @ [Raw (opcode_byte STOP)]) (emit STOP h)" using that(1) by (simp add: adds_def)
      from resolve_adds [OF g(1,3) this] that(2) show ?thesis by simp
    qed
    have len: "length (gcode g1) = length (flat L i1)" for L
      using a1(1) length_flat [of L i1 "\<lambda>_. 0"] by (simp add: adds_def g)
    show ?thesis
    proof (cases "fns = []")
      case True
      have "fills 0 new1 (\<lambda>l. of_int (labels g1 ! l))" using fills_nth [of "labels g1" "[]" new1 "[]"] a1(2) by simp
      with s1 fin [OF a1(1,4)] show ?thesis by (simp add: compile_prog_def direct_def sp Ok True flip: ref)
    next
      case False
      note d = dispatch_run [where H = H and fs = fns and g = g1]
      obtain L0 where "fills 0 new1 L0" using fills_ex by blast
      with s1 obtain x where x: "ref_stmts g flt = Ok (x, gvars g1, gnext g1)" "length x = length (gcode g1)" using len by auto
      show ?thesis
      proof (cases "fn_dispatch H fns g1")
        case d1: (Ok g2)
        from d [unfolded d1] obtain i2 new2 where a2: "adds g1 i2 g2" "labels g2 = labels g1 @ new2"
          "holes i2 \<subseteq> {length (labels g1)..<length (labels g2)}"
          and s2: "\<forall>L. fills (length (labels g1)) new2 L \<longrightarrow> cdispatch H (gstate g) (length (gcode g1)) fns = Ok (flat L i2)"
          using a1(3) by auto
        let ?L = "\<lambda>l. of_int (labels g2 ! l) :: u64"
        have "fills 0 new1 ?L" using fills_nth [of "labels g2" "[]" new1 new2] a1(2) a2(2) by simp
        moreover have "fills (length (labels g1)) new2 ?L" using fills_nth [of "labels g2" "labels g1" new2 "[]"] a2(2) by simp
        moreover have "holes (i1 @ i2) \<subseteq> {..<length (labels g2)}" using a1(2,4) a2(2,3) by fastforce
        ultimately show ?thesis
          using s1 s2 fin [OF adds_trans [OF a1(1) a2(1)]] len [of ?L] False
          by (simp add: compile_prog_def direct_def sp Ok d1 flip: ref)
      next
        case (Err e)
        then show ?thesis using d x a1(3) False by (simp add: compile_prog_def direct_def sp Ok flip: ref)
      qed (use d in simp)
    qed
  next
    case (Err e)
    then show ?thesis using ag by (simp add: agrees_Err compile_prog_def direct_def sp flip: ref)
  qed (use ag in \<open>simp add: agrees_Err\<close>)
qed

end
