(* ===== verification/SL_ShlTypes.thy ===== *)
theory SL_ShlTypes
  imports SL_Backpatch
begin

text \<open>
  Well-formed syntax trees: the parser builds no other, and the compiler refuses a well-formed program only for a
  name that was not declared.
\<close>

section \<open>Well-formed trees\<close>

definition binops :: "string set" where
  "binops = {''+'', ''-'', ''*'', ''/'', ''%'', ''=='', ''<'', ''>'', ''&&'', ''||'', ''!='', ''<='', ''>=''}"

fun wf_expr :: "expr \<Rightarrow> bool" where
  "wf_expr (Num v) = True"
| "wf_expr (Var x) = True"
| "wf_expr (Load k) = wf_expr k"
| "wf_expr (Index x k) = wf_expr k"
| "wf_expr (Builtin n a) =
     (case a of None \<Rightarrow> n \<in> {''caller'', ''value'', ''balance'', ''self''} | Some e \<Rightarrow> n = ''arg'' \<and> wf_expr e)"
| "wf_expr (Unary o1 x) = wf_expr x"
| "wf_expr (Binary o1 l r) = (o1 \<in> binops \<and> wf_expr l \<and> wf_expr r)"

text \<open>Inside a function or a block; declarations stand at the top level only.\<close>

fun wf_stmt :: "stmt \<Rightarrow> bool" where
  "wf_stmt (LetStmt x v) = wf_expr v"
| "wf_stmt (StoreStmt k v) = (wf_expr k \<and> wf_expr v)"
| "wf_stmt (IfStmt e th el) = (wf_expr e \<and> (\<forall>t\<in>set th. wf_stmt t) \<and> (\<forall>t\<in>set el. wf_stmt t))"
| "wf_stmt (WhileStmt e bd) = (wf_expr e \<and> (\<forall>t\<in>set bd. wf_stmt t))"
| "wf_stmt (EmitStmt as) = (\<forall>e\<in>set as. wf_expr e)"
| "wf_stmt (ReturnStmt v) = wf_expr v"
| "wf_stmt StopStmt = True"
| "wf_stmt (RequireStmt e) = wf_expr e"
| "wf_stmt RevertStmt = True"
| "wf_stmt (IndexStore x k v) = (wf_expr k \<and> wf_expr v)"
| "wf_stmt (StateDecl x) = False"
| "wf_stmt (FnDecl x ps b) = False"

definition wf_top :: "stmt \<Rightarrow> bool" where
  "wf_top t = (case t of StateDecl x \<Rightarrow> True | FnDecl x ps b \<Rightarrow> (\<forall>s\<in>set b. wf_stmt s) | _ \<Rightarrow> wf_stmt t)"

section \<open>The parser builds well-formed trees\<close>

definition yields :: "('a \<Rightarrow> bool) \<Rightarrow> 'a parsed \<Rightarrow> bool" where
  "yields P r \<longleftrightarrow> (\<forall>x ts. r = Some (Ok (x, ts)) \<longrightarrow> P x)"

lemma yields_simps [simp]: "yields P (give x ts) \<longleftrightarrow> P x" "yields P (reject e)" "yields P (Some Panic)" "yields P None"
  by (auto simp: yields_def)

lemma yields_then: "yields Q r \<Longrightarrow> (\<And>x ts. Q x \<Longrightarrow> yields P (f x ts)) \<Longrightarrow> yields P (pbind r f)"
  by (cases "(r, f)" rule: pbind.cases) (auto simp: yields_def)

lemma yields_any: "(\<And>x ts. yields P (f x ts)) \<Longrightarrow> yields P (pbind r f)"
  by (rule yields_then [of "\<lambda>_. True"]) (simp_all add: yields_def)

lemma yields_closing [simp]: "P x \<Longrightarrow> yields P (closing s x ts)"
  unfolding closing_def by (rule yields_any) simp

lemma yields_if: "(b \<Longrightarrow> yields P x) \<Longrightarrow> (\<not> b \<Longrightarrow> yields P y) \<Longrightarrow> yields P (if b then x else y)"
  by simp

text \<open>The token looked at is the one read next.\<close>

lemma yields_look: "(\<And>t r. ts = t # r \<Longrightarrow> yields P (f t ts)) \<Longrightarrow> yields P (pbind (cur_tok ts) f)"
  by (cases ts) (simp_all add: cur_tok_def)

lemma yields_read: "yields P (f t r) \<Longrightarrow> yields P (pbind (adv (t # r)) f)"
  by simp

lemma yields_primary: assumes "\<And>ts. yields wf_expr (E ts)" shows "yields wf_expr (primary E ts)"
  unfolding primary_def
  by (rule yields_look, intro yields_if) (auto intro!: yields_any yields_then [OF assms] simp: isKw_def)


lemma yields_unary: assumes "\<And>ts. yields wf_expr (E ts)" shows "yields wf_expr (unary E ts)"
proof (induction ts)
  case (Cons t ts)
  then show ?case by (auto intro: yields_then yields_primary [OF assms])
qed simp

lemma yields_binloop:
  assumes "\<And>ts. yields wf_expr (sub ts)" "set ops \<subseteq> binops" "wf_expr l"
  shows "yields wf_expr (binloop n ops sub l ts)"
  using assms(3)
proof (induction n arbitrary: l ts)
  case (Suc n)
  show ?case
    unfolding binloop.simps
    by (rule yields_look) (use Suc assms(2) in \<open>auto intro!: yields_then [OF assms(1)] simp: isPunct_def\<close>)
qed simp

lemma yields_level:
  assumes "\<And>ts. yields wf_expr (sub ts)" "set ops \<subseteq> binops"
  shows "yields wf_expr (pbind (sub ts) (binloop n ops sub))"
  by (rule yields_then [OF assms(1) yields_binloop [OF assms]])

lemma yields_expr: "yields wf_expr (p_expr n ts)"
proof (induction n arbitrary: ts)
  case (Suc n)
  have m: "yields wf_expr (mulExpr k (p_expr n) ts)" for k ts
    unfolding mulExpr_def by (rule yields_level [OF yields_unary [OF Suc]]) (simp add: binops_def)
  have a: "yields wf_expr (addExpr k (p_expr n) ts)" for k ts
    unfolding addExpr_def by (rule yields_level [OF m]) (simp add: binops_def)
  have c: "yields wf_expr (cmpExpr k (p_expr n) ts)" for k ts
    unfolding cmpExpr_def
    by (rule yields_then [OF a], rule yields_look) (auto intro!: yields_then [OF a] simp: isPunct_def binops_def)
  have d: "yields wf_expr (andExpr k (p_expr n) ts)" for k ts
    unfolding andExpr_def by (rule yields_level [OF c]) (simp add: binops_def)
  show ?case unfolding p_expr.simps orExpr_def by (rule yields_level [OF d]) (simp add: binops_def)
qed simp

abbreviation wf_exprs :: "expr list \<Rightarrow> bool" where "wf_exprs es \<equiv> \<forall>e\<in>set es. wf_expr e"
abbreviation wf_stmts :: "stmt list \<Rightarrow> bool" where "wf_stmts ts \<equiv> \<forall>t\<in>set ts. wf_stmt t"

lemma yields_args: "wf_exprs acc \<Longrightarrow> yields wf_exprs (args_loop n (p_expr k) acc ts)"
proof (induction n arbitrary: acc ts)
  case (Suc n)
  show ?case
    unfolding args_loop.simps
    by (rule yields_look, rule yields_if)
      (use Suc in \<open>auto intro!: yields_then [OF yields_expr] yields_look simp: closing_def intro: yields_any\<close>)
qed simp

lemma yields_callArgs: "yields wf_exprs (callArgs n (p_expr k) ts)"
  unfolding callArgs_def by (rule yields_any) (simp add: yields_args)

lemma yields_block_loop:
  assumes "\<And>ts. yields wf_stmt (S ts)" "wf_stmts acc"
  shows "yields wf_stmts (block_loop n S acc ts)"
  using assms(2)
proof (induction n arbitrary: acc ts)
  case (Suc n)
  show ?case
    unfolding block_loop.simps
    by (rule yields_look, rule yields_if) (use Suc in \<open>auto intro!: yields_then [OF assms(1)]\<close>)
qed simp

lemma yields_block: assumes "\<And>ts. yields wf_stmt (S ts)" shows "yields wf_stmts (block n S ts)"
  unfolding block_def by (rule yields_any) (simp add: yields_block_loop [OF assms])

lemma yields_stmt: "yields wf_stmt (p_stmt n ts)"
proof (induction n arbitrary: ts)
  case (Suc n)
  note b = yields_block [OF Suc]
  have i: "yields wf_stmt (ifStmt k (p_expr k') (p_stmt n) ts)" for k k' ts
    unfolding ifStmt_def
    by (intro yields_any yields_then [OF yields_expr] yields_then [OF b] yields_look yields_if) (auto intro!: yields_any yields_then [OF b])
  have w: "yields wf_stmt (whileStmt k (p_expr k') (p_stmt n) ts)" for k k' ts
    unfolding whileStmt_def by (intro yields_any yields_then [OF yields_expr] yields_then [OF b]) simp
  show ?case
    unfolding p_stmt.simps stmt_body_def
    by (rule yields_then [OF yields_callArgs] yields_then [OF yields_expr] i w yields_look yields_if yields_any | simp del: p_expr.simps)+
qed simp


lemma yields_top: "yields wf_top (topLevel n ts)"
proof -
  have s: "yields wf_top (p_stmt n ts)" for ts
    using yields_stmt [of n ts] by (auto simp: yields_def wf_top_def split: stmt.split)
  have f: "yields wf_top (fnDecl n ts)" for ts
    unfolding fnDecl_def
    by (rule yields_then [OF yields_block [OF yields_stmt]] yields_if yields_any | simp add: wf_top_def)+
  show ?thesis
    unfolding topLevel_def by (rule yields_look, intro yields_if s f) (auto intro!: yields_any simp: wf_top_def)
qed

lemma yields_prog: "\<forall>t\<in>set acc. wf_top t \<Longrightarrow> yields (\<lambda>p. \<forall>t\<in>set p. wf_top t) (prog_loop n m acc ts)"
proof (induction n arbitrary: acc ts)
  case (Suc n)
  show ?case
    unfolding prog_loop.simps by (rule yields_look, rule yields_if) (use Suc in \<open>auto intro!: yields_then [OF yields_top]\<close>)
qed simp

lemma Parse_wf: "Parse src = Some (Ok prog) \<Longrightarrow> t \<in> set prog \<Longrightarrow> wf_top t"
  using yields_prog [of "[]"] by (fastforce simp: Parse_def yields_def split: result.splits option.splits)

section \<open>What the compiler refuses\<close>

definition undeclared :: "shl_error \<Rightarrow> bool" where
  "undeclared e \<longleftrightarrow> (\<exists>x. e = UndefinedVar x \<or> e = NotMapping x)"

lemma undeclared_simps [simp]: "undeclared (UndefinedVar x)" "undeclared (NotMapping x)"
  by (auto simp: undeclared_def)

lemma cop_wf: "o1 \<in> binops \<Longrightarrow> cop o1 \<noteq> Err e"
  by (auto simp: binops_def cop_def)

lemma cexpr_wf: "wf_expr x \<Longrightarrow> cexpr V S x = Err e \<Longrightarrow> undeclared e"
proof (induction V S x arbitrary: e rule: cexpr.induct)
  case (5 V S n a)
  then show ?case by (auto simp: rbind_eq_Err_iff split: option.splits if_splits)
next
  case (7 V S o1 l r)
  then show ?case using cop_wf [of o1] by (auto simp: rbind_eq_Err_iff)
qed (auto simp: rbind_eq_Err_iff cvar_def split: option.splits)

lemma cexprs_wf: "wf_exprs es \<Longrightarrow> cexprs V S es = Err e \<Longrightarrow> undeclared e"
  by (induction es) (auto simp: rbind_eq_Err_iff dest: cexpr_wf)

lemma cstmt_wf:
  "wf_stmt t \<Longrightarrow> cstmt S p V n t = Err e \<Longrightarrow> undeclared e"
  "wf_stmts ts \<Longrightarrow> cstmts S p V n ts = Err e \<Longrightarrow> undeclared e"
  by (induction S p V n t and S p V n ts arbitrary: e and e rule: cstmt_cstmts.induct)
    (auto simp: rbind_eq_Err_iff split: option.splits prod.splits dest: cexpr_wf cexprs_wf)

lemma cfns_wf: "\<forall>fd\<in>set fds. wf_stmts (snd (snd fd)) \<Longrightarrow> cfns S p fds = Err e \<Longrightarrow> undeclared e"
  by (induction fds arbitrary: p) (auto simp: rbind_eq_Err_iff cfn_def split: prod.splits dest: cstmt_wf)

lemma split_wf:
  "split_prog prog g = (g', fns, flt) \<Longrightarrow> \<forall>t\<in>set prog. wf_top t \<Longrightarrow> wf_stmts flt \<and> (\<forall>fd\<in>set fns. wf_stmts (snd (snd fd)))"
  by (induction prog g arbitrary: g' fns flt rule: split_prog.induct) (auto simp: wf_top_def split: prod.splits)

text \<open>
  C32. The compiler is total on parsed programs: a source text that parses compiles to code, or is refused for
  a name that was not declared; operators, built-in names and the placement of declarations need no further check.
\<close>

theorem Compile_refusals:
  assumes "Parse src = Some (Ok prog)"
  shows "(\<exists>code. Compile H src = Some (Ok code)) \<or>
    (\<exists>x. Compile H src = Some (Err (UndefinedVar x)) \<or> Compile H src = Some (Err (NotMapping x)))"
proof -
  obtain g fns flt where sp: "split_prog prog gen0 = (g, fns, flt)" by (metis prod_cases3)
  have wf: "wf_stmts flt \<and> (\<forall>fd\<in>set fns. wf_stmts (snd (snd fd)))"
    by (rule split_wf [OF sp]) (use Parse_wf [OF assms] in blast)
  have "undeclared e" if "direct H prog = Err e" for e
    using that wf by (auto simp: direct_def sp rbind_eq_Err_iff cdispatch_def split: if_splits dest: cstmt_wf cfns_wf)
  then show ?thesis
    using compile_direct [of H prog] by (cases "direct H prog") (auto simp: Compile_def assms undeclared_def)
qed

theorem Compile_refusals_witness:
  "Parse ''return x;'' = Some (Ok [ReturnStmt (Var ''x'')]) \<and>
   ((\<exists>code. Compile sha256 ''return x;'' = Some (Ok code)) \<or>
    (\<exists>x. Compile sha256 ''return x;'' = Some (Err (UndefinedVar x)) \<or> Compile sha256 ''return x;'' = Some (Err (NotMapping x))))"
proof -
  have p: "Parse ''return x;'' = Some (Ok [ReturnStmt (Var ''x'')])" by code_simp
  show ?thesis by (rule conjI [OF p Compile_refusals [OF p]])
qed

end
