(* ===== verification/SL_Shl.thy ===== *)
theory SL_Shl
  imports SL_Backpatch
begin

text \<open>
  What a contract in the language of \<^verbatim>\<open>internal/shl\<close> means, and that the compiled code does it on the
  virtual machine.

  A name stands for a storage cell: a local for the slot the compiler gave it, a state variable for its
  declared slot, an entry of a mapping for the cell \<open>MIX(slot, key)\<close>.  Evaluation is total
  arithmetic with overflow and division errors; statements run with a fuel that only loops
  consume, and report the gas the compiled code needs.
\<close>

declare opcode_byte.simps [simp del]

section \<open>Meaning of expressions\<close>

record world =
  wH :: "bytes \<Rightarrow> hash"
  winput :: bytes
  wctx :: Context
  wstate :: names

type_synonym cells = "(u64, u64) gomap"

definition mix :: "world \<Rightarrow> u64 \<Rightarrow> u64 \<Rightarrow> u64" where
  "mix W b k = beU64 (wH W (put_u64 b @ put_u64 k))"

definition sem_op :: "string \<Rightarrow> u64 \<Rightarrow> u64 \<Rightarrow> (vm_error, u64) result" where
  "sem_op o1 a b =
     (if o1 = ''+'' then (if uint a + uint b < 2 ^ 64 then Ok (a + b) else Err ErrOverflow)
      else if o1 = ''-'' then (if b \<le> a then Ok (a - b) else Err ErrOverflow)
      else if o1 = ''*'' then (if uint a * uint b < 2 ^ 64 then Ok (a * b) else Err ErrOverflow)
      else if o1 = ''/'' then (if b = 0 then Err ErrDivZero else Ok (a div b))
      else if o1 = ''%'' then (if b = 0 then Err ErrDivZero else Ok (a mod b))
      else if o1 = ''=='' then Ok (b2u (a = b))
      else if o1 = ''<'' then Ok (b2u (a < b))
      else if o1 = ''>'' then Ok (b2u (b < a))
      else if o1 = ''&&'' then Ok (and a b)
      else if o1 = ''||'' then Ok (or a b)
      else if o1 = ''!='' then Ok (b2u (a \<noteq> b))
      else if o1 = ''<='' then Ok (b2u (a \<le> b))
      else Ok (b2u (b \<le> a)))"

definition cell :: "names \<Rightarrow> names \<Rightarrow> string \<Rightarrow> u64" where
  "cell V S x = (case cvar V S x of Ok s \<Rightarrow> s | _ \<Rightarrow> 0)"

definition slot_of :: "names \<Rightarrow> string \<Rightarrow> u64" where
  "slot_of S x = (case map_of S x of Some s \<Rightarrow> s | None \<Rightarrow> 0)"

fun eval :: "world \<Rightarrow> names \<Rightarrow> cells \<Rightarrow> expr \<Rightarrow> (vm_error, u64) result" where
  "eval W V m (Num v) = Ok v"
| "eval W V m (Var x) = Ok (load m (cell V (wstate W) x))"
| "eval W V m (Index x k) = rbind (eval W V m k) (\<lambda>i. Ok (load m (mix W (slot_of (wstate W) x) i)))"
| "eval W V m (Load k) = rbind (eval W V m k) (\<lambda>i. Ok (load m i))"
| "eval W V m (Builtin n a) =
     (if n = ''caller'' then Ok (CtxCaller (wctx W))
      else if n = ''value'' then Ok (CtxValue (wctx W))
      else if n = ''balance'' then Ok (CtxBalance (wctx W))
      else if n = ''self'' then Ok (CtxSelf (wctx W))
      else (case a of Some e \<Rightarrow> rbind (eval W V m e) (vm_word (winput W)) | None \<Rightarrow> Ok 0))"
| "eval W V m (Unary o1 x) = rbind (eval W V m x) (\<lambda>v. Ok (b2u (v = 0)))"
| "eval W V m (Binary o1 l r) = rbind (eval W V m l) (\<lambda>a. rbind (eval W V m r) (sem_op o1 a))"

primrec evals :: "world \<Rightarrow> names \<Rightarrow> cells \<Rightarrow> expr list \<Rightarrow> (vm_error, u64 list) result" where
  "evals W V m [] = Ok []"
| "evals W V m (e # es) = rbind (eval W V m e) (\<lambda>v. rbind (evals W V m es) (\<lambda>vs. Ok (v # vs)))"

text \<open>The gas of the code of an expression and the stack it needs.\<close>

fun ecost :: "expr \<Rightarrow> nat" where
  "ecost (Num v) = 3"
| "ecost (Var x) = 23"
| "ecost (Index x k) = 43 + ecost k"
| "ecost (Load k) = ecost k + 20"
| "ecost (Builtin n a) = (if n \<in> {''caller'', ''value'', ''balance'', ''self''} then 1 else case a of Some e \<Rightarrow> ecost e + 1 | None \<Rightarrow> 0)"
| "ecost (Unary o1 x) = ecost x + 1"
| "ecost (Binary o1 l r) = ecost l + ecost r + (if o1 \<in> {''!='', ''<='', ''>=''} then 2 else 1)"

fun edepth :: "expr \<Rightarrow> nat" where
  "edepth (Num v) = 1"
| "edepth (Var x) = 1"
| "edepth (Index x k) = edepth k + 1"
| "edepth (Load k) = edepth k"
| "edepth (Builtin n a) = (if n \<in> {''caller'', ''value'', ''balance'', ''self''} then 1 else case a of Some e \<Rightarrow> edepth e | None \<Rightarrow> 0)"
| "edepth (Unary o1 x) = edepth x"
| "edepth (Binary o1 l r) = max (edepth l) (edepth r + 1)"

section \<open>Machine runs\<close>

record 'h machine =
  mW :: world
  mhost :: "'h host option"
  mcode :: bytes
  mgas :: u64
  mh :: 'h

definition vgo :: "'h machine \<Rightarrow> int \<Rightarrow> vm \<Rightarrow> 'h \<times> (vm_error, vm) result" where
  "vgo M n s = vm_loop (wH (mW M)) (mhost M) (mcode M) (winput (mW M)) (mgas M) (wctx (mW M)) n (mh M) s"

text \<open>With \<open>c\<close> gas the machine gets from one state to another, or to the end of its run.\<close>

definition runs :: "'h machine \<Rightarrow> nat \<Rightarrow> vm \<Rightarrow> vm \<Rightarrow> bool" where
  "runs M c s s' \<longleftrightarrow>
     (unat (used s) + c \<le> unat (mgas M) \<longrightarrow>
        unat (used s') = unat (used s) + c \<and>
        (\<exists>k\<le>c. \<forall>n. n + int c \<le> maxSteps \<longrightarrow> vgo M n s = vgo M (n + int k) s'))"

definition ends :: "'h machine \<Rightarrow> nat \<Rightarrow> vm \<Rightarrow> (vm_error, vm) result \<Rightarrow> bool" where
  "ends M c s r \<longleftrightarrow>
     (unat (used s) + c \<le> unat (mgas M) \<longrightarrow> (\<forall>n. n + int c \<le> maxSteps \<longrightarrow> vgo M n s = (mh M, r)))"

lemma runs_refl: "runs M 0 s s"
  by (simp add: runs_def)

lemma runs_trans: assumes "runs M c s s'" "runs M d s' s''" shows "runs M (c + d) s s''"
  unfolding runs_def
proof (intro impI)
  assume g: "unat (used s) + (c + d) \<le> unat (mgas M)"
  with assms(1) obtain k where k: "unat (used s') = unat (used s) + c" "k \<le> c" "\<And>n. n + int c \<le> maxSteps \<Longrightarrow> vgo M n s = vgo M (n + int k) s'"
    by (auto simp: runs_def)
  with assms(2) g obtain l where l: "unat (used s'') = unat (used s') + d" "l \<le> d" "\<And>n. n + int d \<le> maxSteps \<Longrightarrow> vgo M n s' = vgo M (n + int l) s''"
    by (auto simp: runs_def)
  have "vgo M n s = vgo M (n + int (k + l)) s''" if "n + int (c + d) \<le> maxSteps" for n
    using k(3) [of n] l(3) [of "n + int k"] that k(2) l(2) by (simp add: algebra_simps)
  then show "unat (used s'') = unat (used s) + (c + d) \<and> (\<exists>k\<le>c + d. \<forall>n. n + int (c + d) \<le> maxSteps \<longrightarrow> vgo M n s = vgo M (n + int k) s'')"
    using k l by (auto intro!: exI [of _ "k + l"])
qed

lemma ends_trans: assumes "runs M c s s'" "ends M d s' r" "c + d \<le> e" shows "ends M e s r"
  unfolding ends_def
proof (intro impI allI)
  fix n assume g: "unat (used s) + e \<le> unat (mgas M)" and n: "n + int e \<le> maxSteps"
  with assms(1,3) obtain k where k: "unat (used s') = unat (used s) + c" "k \<le> c" "\<And>n. n + int c \<le> maxSteps \<Longrightarrow> vgo M n s = vgo M (n + int k) s'"
    by (auto simp: runs_def)
  with assms(2,3) g n show "vgo M n s = (mh M, r)" by (auto simp: ends_def)
qed

lemmas ends_mono = ends_trans [OF runs_refl, simplified]

definition code_at :: "'h machine \<Rightarrow> nat \<Rightarrow> bytes \<Rightarrow> bool" where
  "code_at M p c \<longleftrightarrow> (\<exists>post. drop p (mcode M) = c @ post)"

lemma code_at_append: "code_at M p (a @ b) \<longleftrightarrow> code_at M p a \<and> code_at M (p + length a) b"
proof
  assume "code_at M p (a @ b)"
  then obtain post where "drop p (mcode M) = a @ b @ post" by (auto simp: code_at_def)
  moreover from this have "drop (p + length a) (mcode M) = b @ post"
    by (metis add.commute append_eq_conv_conj drop_drop)
  ultimately show "code_at M p a \<and> code_at M (p + length a) b" by (auto simp: code_at_def)
next
  assume "code_at M p a \<and> code_at M (p + length a) b"
  then obtain post post' where d: "drop p (mcode M) = a @ post" "drop (p + length a) (mcode M) = b @ post'" by (auto simp: code_at_def)
  then have "post = b @ post'" by (metis add.commute append_eq_conv_conj drop_drop)
  with d(1) show "code_at M p (a @ b)" by (simp add: code_at_def)
qed

lemma code_at_Cons: "code_at M p (x # b) \<longleftrightarrow> p < length (mcode M) \<and> mcode M ! p = x \<and> code_at M (Suc p) b"
proof -
  have "code_at M p [x] \<longleftrightarrow> p < length (mcode M) \<and> mcode M ! p = x"
  proof (cases "p < length (mcode M)")
    case True
    then show ?thesis by (simp add: code_at_def flip: Cons_nth_drop_Suc)
  qed (simp add: code_at_def)
  with code_at_append [of M p "[x]" b] show ?thesis by simp
qed

lemma code_at_bytes: "code_at M p c \<Longrightarrow> take (length c) (drop p (mcode M)) = c" "code_at M p c \<Longrightarrow> c \<noteq> [] \<Longrightarrow> p + length c \<le> length (mcode M)"
proof -
  assume "code_at M p c"
  then obtain post where "drop p (mcode M) = c @ post" by (auto simp: code_at_def)
  moreover from this have "length (mcode M) - p = length c + length post" by (metis length_append length_drop)
  ultimately show "take (length c) (drop p (mcode M)) = c" "c \<noteq> [] \<Longrightarrow> p + length c \<le> length (mcode M)"
    by (simp_all add: le_diff_conv2 flip: length_greater_0_conv)
qed

section \<open>Single instructions\<close>

text \<open>The state the switch sees: the gas is charged and the program counter is past the opcode.\<close>

definition fetched :: "nat \<Rightarrow> nat \<Rightarrow> vm \<Rightarrow> vm" where
  "fetched c p s = s\<lparr>pc := int (p + 1), used := used s + of_nat c\<rparr>"

lemma unat_fetched: "unat (used s) + c \<le> unat (g :: u64) \<Longrightarrow> unat (used (fetched c p s)) = unat (used s) + c"
  using unsigned_less [of g, where ?'a = nat] by (simp add: fetched_def unat_add_no_wrap unat_of_nat_small)

text \<open>One turn of the machine at an instruction other than a call.\<close>

lemma vgo_step:
  assumes "pc s = int p" "p < length (mcode M)" "mcode M ! p = opcode_byte op" "op \<noteq> CALL"
    and "unat (used s) + unat (gasCost (opcode_byte op)) \<le> unat (mgas M)" "n + 1 \<le> maxSteps"
  shows "vgo M n s =
    (case step_local (wH (mW M)) (mcode M) (winput (mW M)) (mgas M) (wctx (mW M)) op
       (fetched (unat (gasCost (opcode_byte op))) p s) of
       Ok (Continue s') \<Rightarrow> vgo M (n + 1) s' | Ok (Halt s') \<Rightarrow> (mh M, Ok s') | Err e \<Rightarrow> (mh M, Err e) | Panic \<Rightarrow> (mh M, Panic))"
proof -
  let ?c = "gasCost (opcode_byte op)"
  have "unat (used s + ?c) = unat (used s) + unat ?c"
    using assms(5) unsigned_less [of "mgas M", where ?'a = nat] by (simp add: unat_add_no_wrap)
  then have "\<not> mgas M < used s + ?c" using assms(5) by (simp add: word_less_nat_alt)
  moreover have "s\<lparr>used := used s + ?c, pc := pc s + 1\<rparr> = fetched (unat ?c) p s" by (simp add: fetched_def assms(1))
  ultimately show ?thesis
    using assms(1-4,6) unfolding vgo_def by (subst vm_loop.simps) (auto simp: vm_step_def split: result.splits ctl.splits)
qed

lemma runs_one:
  assumes "pc s = int p" "code_at M p [opcode_byte op]" "op \<noteq> CALL" "unat (gasCost (opcode_byte op)) = c"
    and "unat (used s) + c \<le> unat (mgas M) \<Longrightarrow> step_local (wH (mW M)) (mcode M) (winput (mW M)) (mgas M) (wctx (mW M)) op
       (fetched c p s) = Ok (Continue s')" "used s' = used (fetched c p s)"
  shows "runs M c s s'"
  unfolding runs_def
proof (intro impI conjI)
  assume g: "unat (used s) + c \<le> unat (mgas M)"
  show "unat (used s') = unat (used s) + c" using unat_fetched [OF g] assms(6) by simp
  have c: "1 \<le> c" using gasCost_pos [of "opcode_byte op"] assms(4) by simp
  have "vgo M n s = vgo M (n + 1) s'" if "n + int c \<le> maxSteps" for n
    using vgo_step [OF assms(1) _ _ assms(3), where n = n and M = M] assms(2,4,5) g c that by (simp add: code_at_Cons)
  then show "\<exists>k\<le>c. \<forall>n. n + int c \<le> maxSteps \<longrightarrow> vgo M n s = vgo M (n + int k) s'"
    using c by (intro exI [of _ 1]) simp
qed

lemma ends_one:
  assumes "pc s = int p" "code_at M p [opcode_byte op]" "op \<noteq> CALL" "unat (gasCost (opcode_byte op)) = c"
    and "unat (used s) + c \<le> unat (mgas M) \<Longrightarrow> (case step_local (wH (mW M)) (mcode M) (winput (mW M)) (mgas M) (wctx (mW M)) op
       (fetched c p s) of Ok (Halt s') \<Rightarrow> r = Ok s' | Err e \<Rightarrow> r = Err e | Panic \<Rightarrow> r = Panic | _ \<Rightarrow> False)"
  shows "ends M c s r"
  unfolding ends_def
proof (intro impI allI)
  fix n assume g: "unat (used s) + c \<le> unat (mgas M)" and n: "n + int c \<le> maxSteps"
  have c: "1 \<le> c" using gasCost_pos [of "opcode_byte op"] assms(4) by simp
  show "vgo M n s = (mh M, r)"
    using vgo_step [OF assms(1) _ _ assms(3), where n = n and M = M] assms(2,4) assms(5) [OF g] g c n
    by (auto simp: code_at_Cons split: result.splits ctl.splits)
qed

text \<open>Both at once: the machine gets to a state or ends its run in an error.\<close>

definition does :: "'h machine \<Rightarrow> nat \<Rightarrow> vm \<Rightarrow> (vm_error, vm) result \<Rightarrow> bool" where
  "does M c s r \<longleftrightarrow> (case r of Ok s' \<Rightarrow> runs M c s s' | Err e \<Rightarrow> ends M c s (Err e) | Panic \<Rightarrow> ends M c s Panic)"

lemma does_Ok [simp]: "does M c s (Ok s') \<longleftrightarrow> runs M c s s'"
  by (simp add: does_def)

lemma does_bind:
  assumes "does M c s r" "\<And>s'. r = Ok s' \<Longrightarrow> does M d s' (f s')"
  shows "does M (c + d) s (rbind r f)"
proof (cases r)
  case (Ok s')
  with assms(1) have r: "runs M c s s'" by simp
  show ?thesis
  proof (cases "f s'")
    case ok: (Ok s'')
    with assms(2) [OF Ok] r show ?thesis by (auto simp: Ok intro: runs_trans)
  qed (use assms(2) [OF Ok] r in \<open>simp_all add: does_def Ok ends_trans\<close>)
qed (use assms(1) in \<open>simp_all add: does_def ends_mono\<close>)

lemma does_one:
  assumes "pc s = int p" "code_at M p [opcode_byte op]" "op \<noteq> CALL" "unat (gasCost (opcode_byte op)) = c"
    and "step_local (wH (mW M)) (mcode M) (winput (mW M)) (mgas M) (wctx (mW M)) op (fetched c p s) = cont r"
    and "\<And>s'. r = Ok s' \<Longrightarrow> used s' = used (fetched c p s)"
  shows "does M c s r"
proof (cases r)
  case (Ok s')
  have "runs M c s s'"
    by (rule runs_one [OF assms(1-4)]) (simp_all add: assms(5,6) Ok cont_def)
  then show ?thesis by (simp add: Ok)
next
  case (Err e)
  have "ends M c s (Err e)" by (rule ends_one [OF assms(1-4)]) (simp add: assms(5) Err cont_def)
  then show ?thesis by (simp add: does_def Err)
next
  case Panic
  have "ends M c s Panic" by (rule ends_one [OF assms(1-4)]) (simp add: assms(5) Panic cont_def)
  then show ?thesis by (simp add: does_def Panic)
qed

text \<open>Where the machine is afterwards.\<close>

definition cfg :: "vm \<Rightarrow> nat \<Rightarrow> nat \<Rightarrow> u64 list \<Rightarrow> vm" where
  "cfg s p c k = s\<lparr>pc := int p, used := used s + of_nat c, st := k\<rparr>"

lemma cfg_sel [simp]: "pc (cfg s p c k) = int p" "st (cfg s p c k) = k" "work (cfg s p c k) = work s" "logs (cfg s p c k) = logs s"
  "used (cfg s p c k) = used s + of_nat c" "ret (cfg s p c k) = ret s" "bwork (cfg s p c k) = bwork s" "retBytes (cfg s p c k) = retBytes s"
  by (simp_all add: cfg_def)

lemma cfg_cfg [simp]: "cfg (cfg s p c k) p' c' k' = cfg s p' (c + c') k'"
  by (simp add: cfg_def add.assoc)

lemma gas_of: "unat (gasCost (opcode_byte op)) =
    (if op \<in> {SSTORE, BSTORE, CALLERB, SELFB} then 100 else if op = LOG then 50 else if op \<in> {SLOAD, BEQ, BHASH, MIX} then 20 else if op = PUSH then 3 else 1)"
  by (simp add: gasCost_def)

lemma does_push:
  assumes "pc s = int p" "code_at M p (pushc v)" "length (st s) < maxStack"
  shows "runs M 3 s (cfg s (p + 9) 3 (v # st s))"
proof -
  have b: "code_at M (Suc p) (put_u64 v)" "code_at M p [opcode_byte PUSH]"
    using assms(2) code_at_append [of M p "[opcode_byte PUSH]" "put_u64 v"] by simp_all
  have "take 8 (drop (Suc p) (mcode M)) = put_u64 v" "Suc p + 8 \<le> length (mcode M)"
    using code_at_bytes(1) [OF b(1)] code_at_bytes(2) [OF b(1)] by auto
  then have e: "exec_push (mcode M) (fetched 3 p s) = Ok (cfg s (p + 9) 3 (v # st s))"
    using assms(1,3) by (simp add: exec_push_def push_def fetched_def cfg_def nat_add_distrib)
  have "does M 3 s (Ok (cfg s (p + 9) 3 (v # st s)))"
  proof (rule does_one [OF assms(1) b(2)])
    show "used s' = used (fetched 3 p s)" if "Ok (cfg s (p + 9) 3 (v # st s)) = Ok s'" for s'
      using that by (auto simp: fetched_def)
  qed (simp_all add: gas_of e step_local_def)
  then show ?thesis by simp
qed

lemma does_plain:
  assumes "pc s = int p" "code_at M p [opcode_byte op]" "op \<noteq> CALL" "unat (gasCost (opcode_byte op)) = c"
    and "step_local (wH (mW M)) (mcode M) (winput (mW M)) (mgas M) (wctx (mW M)) op (fetched c p s)
      = cont (rbind r (\<lambda>v. Ok (cfg s (p + 1) c (v # k))))"
  shows "does M c s (rbind r (\<lambda>v. Ok (cfg s (p + 1) c (v # k))))"
  by (rule does_one [OF assms]) (auto simp: fetched_def)

lemma does_iszero:
  "pc s = int p \<Longrightarrow> code_at M p (opc ISZERO) \<Longrightarrow> st s = a # k \<Longrightarrow> runs M 1 s (cfg s (p + 1) 1 (b2u (a = 0) # k))"
  using does_plain [of s p M ISZERO 1 "Ok (b2u (a = 0))" k]
  by (simp add: gas_of step_local_def exec_unary_def pop_def append_st_def fetched_def cfg_def cont_def)

lemma does_sload:
  "pc s = int p \<Longrightarrow> code_at M p (opc SLOAD) \<Longrightarrow> st s = a # k \<Longrightarrow> length k < maxStack \<Longrightarrow> runs M 20 s (cfg s (p + 1) 20 (load (work s) a # k))"
  using does_plain [of s p M SLOAD 20 "Ok (load (work s) a)" k]
  by (simp add: gas_of step_local_def exec_sload_def pop_def push_def fetched_def cfg_def cont_def)

lemma does_mix:
  "pc s = int p \<Longrightarrow> code_at M p (opc MIX) \<Longrightarrow> st s = i # b # k \<Longrightarrow> length k < maxStack \<Longrightarrow> runs M 20 s (cfg s (p + 1) 20 (mix (mW M) b i # k))"
  using does_plain [of s p M MIX 20 "Ok (mix (mW M) b i)" k]
  by (simp add: gas_of step_local_def exec_mix_def pop_def push_def fetched_def cfg_def cont_def mix_def)

lemma does_context:
  assumes "pc s = int p" "code_at M p (opc op)" "length (st s) < maxStack"
    and "(op, v) \<in> {(CALLER, CtxCaller (wctx (mW M))), (VALUE, CtxValue (wctx (mW M))), (BAL, CtxBalance (wctx (mW M))), (SELF, CtxSelf (wctx (mW M)))}"
  shows "runs M 1 s (cfg s (p + 1) 1 (v # st s))"
  using does_plain [of s p M op 1 "Ok v" "st s"] assms
  by (auto simp: gas_of step_local_def push_def fetched_def cfg_def cont_def)

lemma does_cdload:
  "pc s = int p \<Longrightarrow> code_at M p (opc CDLOAD) \<Longrightarrow> st s = i # k \<Longrightarrow> length k < maxStack \<Longrightarrow>
   does M 1 s (rbind (vm_word (winput (mW M)) i) (\<lambda>v. Ok (cfg s (p + 1) 1 (v # k))))"
  by (rule does_plain [where op = CDLOAD]) (simp_all add: gas_of step_local_def exec_cdload_def pop_def push_def fetched_def cfg_def cong: rbind_cong)

lemma does_binop:
  assumes "pc s = int p" "code_at M p (opc op)" "st s = b # a # k" "length k < maxStack"
    and "op \<in> {DIV, MOD, EQ, LT, GT, AND, OR}"
  shows "does M 1 s (rbind (binop op a b) (\<lambda>v. Ok (cfg s (p + 1) 1 (v # k))))"
  by (rule does_plain [OF assms(1,2)])
    (use assms(3-5) in \<open>auto simp: gas_of step_local_def exec_binop_def pop_def push_def fetched_def cfg_def cong: rbind_cong\<close>)

lemma does_checked:
  assumes "pc s = int p" "code_at M p (opc op)" "st s = b # a # k" "length k < maxStack" "op \<in> {ADDC, SUBC, MULC}"
  shows "does M 1 s (rbind (checked op a b) (\<lambda>v. Ok (cfg s (p + 1) 1 (v # k))))"
  by (rule does_plain [OF assms(1,2)])
    (use assms(3-5) in \<open>auto simp: gas_of step_local_def exec_checked_def pop_def push_def fetched_def cfg_def cong: rbind_cong\<close>)

section \<open>Expressions are compiled correctly\<close>

lemma does_val:
  assumes "does M c s (rbind r (\<lambda>v. Ok (g v)))" "\<And>v. r = Ok v \<Longrightarrow> does M d (g v) (h v)" "e = c + d"
  shows "does M e s (rbind r h)"
proof (cases r)
  case (Ok v)
  then show ?thesis using does_bind [of M c s "Ok (g v)" d "\<lambda>_. h v"] assms by simp
qed (use assms in \<open>auto simp: does_def intro: ends_mono\<close>)

lemma does_then: "runs M c s s' \<Longrightarrow> does M d s' r \<Longrightarrow> e = c + d \<Longrightarrow> does M e s r"
  using does_val [of M c s "Ok s'" "\<lambda>s. s" d "\<lambda>_. r" e] by simp

lemma checked_sem: "checked ADDC a b = sem_op ''+'' a b" "checked SUBC a b = sem_op ''-'' a b" "checked MULC a b = sem_op ''*'' a b"
proof -
  have "uint a + uint b < 2 ^ 64 \<longleftrightarrow> unat a + unat b < 2 ^ 64" "uint a * uint b < 2 ^ 64 \<longleftrightarrow> unat a * unat b < 2 ^ 64"
    by (simp_all add: nat_less_iff flip: nat_uint_eq nat_add_distrib nat_mult_distrib)
  then show "checked ADDC a b = sem_op ''+'' a b" "checked SUBC a b = sem_op ''-'' a b" "checked MULC a b = sem_op ''*'' a b"
    using checked_arith_exact [of a b] by (simp_all add: sem_op_def word_le_nat_alt of_nat_diff unat_sub)
qed

lemma b2u_zero [simp]: "b2u x = 0 \<longleftrightarrow> \<not> x"
  by (simp add: b2u_def)

lemma does_negated:
  assumes "pc s = int p" "code_at M p (opc op @ opc ISZERO)" "st s = b # a # k" "length k < maxStack" "op \<in> {EQ, LT, GT}"
    and "binop op a b = Ok (b2u q)"
  shows "runs M 2 s (cfg s (p + 2) 2 (b2u (\<not> q) # k))"
proof -
  have c: "code_at M p (opc op)" "code_at M (p + 1) (opc ISZERO)" using assms(2) code_at_append [of M p "opc op" "opc ISZERO"] by simp_all
  have 1: "runs M 1 s (cfg s (p + 1) 1 (b2u q # k))"
    using does_binop [OF assms(1) c(1) assms(3,4)] assms(5) unfolding assms(6) rbind.simps does_Ok by blast
  have "runs M 1 (cfg s (p + 1) 1 (b2u q # k)) (cfg (cfg s (p + 1) 1 (b2u q # k)) (p + 1 + 1) 1 (b2u (b2u q = 0) # k))"
    by (rule does_iszero) (use c(2) in simp_all)
  from runs_trans [OF 1 this] show ?thesis by (simp add: numeral_2_eq_2)
qed

definition opcost :: "string \<Rightarrow> nat" where
  "opcost o1 = (if o1 \<in> {''!='', ''<='', ''>=''} then 2 else 1)"

lemma op_cases:
  assumes c: "cop o1 = Ok c"
  obtains (chk) op where "op \<in> {ADDC, SUBC, MULC}" "c = opc op" "sem_op o1 a b = checked op a b" "opcost o1 = 1"
    | (bin) op where "op \<in> {DIV, MOD, EQ, LT, GT, AND, OR}" "c = opc op" "sem_op o1 a b = binop op a b" "opcost o1 = 1"
    | (neg) op q where "op \<in> {EQ, LT, GT}" "c = opc op @ opc ISZERO" "sem_op o1 a b = Ok (b2u (\<not> q))" "binop op a b = Ok (b2u q)" "opcost o1 = 2"
proof -
  have x: "o1 = ''+'' \<or> o1 = ''-'' \<or> o1 = ''*'' \<or> o1 = ''/'' \<or> o1 = ''%'' \<or> o1 = ''=='' \<or> o1 = ''<'' \<or> o1 = ''>'' \<or>
      o1 = ''&&'' \<or> o1 = ''||'' \<or> o1 = ''!='' \<or> o1 = ''<='' \<or> o1 = ''>=''"
    using c by (simp add: cop_def split: if_splits)
  from x show thesis
  proof (elim disjE)
    assume "o1 = ''+''"
    with c show thesis by (intro chk [of ADDC]) (simp_all add: cop_def opcost_def checked_sem)
  next
    assume "o1 = ''-''"
    with c show thesis by (intro chk [of SUBC]) (simp_all add: cop_def opcost_def checked_sem)
  next
    assume "o1 = ''*''"
    with c show thesis by (intro chk [of MULC]) (simp_all add: cop_def opcost_def checked_sem)
  next
    assume "o1 = ''/''"
    with c show thesis by (intro bin [of DIV]) (simp_all add: cop_def opcost_def sem_op_def binop_def)
  next
    assume "o1 = ''%''"
    with c show thesis by (intro bin [of MOD]) (simp_all add: cop_def opcost_def sem_op_def binop_def)
  next
    assume "o1 = ''==''"
    with c show thesis by (intro bin [of EQ]) (simp_all add: cop_def opcost_def sem_op_def binop_def)
  next
    assume "o1 = ''<''"
    with c show thesis by (intro bin [of LT]) (simp_all add: cop_def opcost_def sem_op_def binop_def)
  next
    assume "o1 = ''>''"
    with c show thesis by (intro bin [of GT]) (simp_all add: cop_def opcost_def sem_op_def binop_def)
  next
    assume "o1 = ''&&''"
    with c show thesis by (intro bin [of AND]) (simp_all add: cop_def opcost_def sem_op_def binop_def)
  next
    assume "o1 = ''||''"
    with c show thesis by (intro bin [of OR]) (simp_all add: cop_def opcost_def sem_op_def binop_def)
  next
    assume "o1 = ''!=''"
    with c show thesis by (intro neg [of EQ "a = b"]) (simp_all add: cop_def opcost_def sem_op_def binop_def not_less)
  next
    assume "o1 = ''<=''"
    with c show thesis by (intro neg [of GT "b < a"]) (simp_all add: cop_def opcost_def sem_op_def binop_def not_less)
  next
    assume "o1 = ''>=''"
    with c show thesis by (intro neg [of LT "a < b"]) (simp_all add: cop_def opcost_def sem_op_def binop_def not_less)
  qed
qed

lemma does_op:
  assumes c: "cop o1 = Ok c" "code_at M p c" and s: "pc s = int p" "st s = b # a # k" "length k < maxStack"
  shows "does M (opcost o1) s (rbind (sem_op o1 a b) (\<lambda>v. Ok (cfg s (p + length c) (opcost o1) (v # k))))"
proof -
  from c(1) show ?thesis
  proof (cases rule: op_cases [where a = a and b = b])
    case (chk op)
    then show ?thesis using does_checked [OF s(1) _ s(2,3), of M op] c(2) by simp
  next
    case (bin op)
    then show ?thesis using does_binop [OF s(1) _ s(2,3), of M op] c(2) by simp
  next
    case (neg op q)
    then show ?thesis using does_negated [OF s(1) _ s(2,3), of M op q] c(2) by simp
  qed
qed

lemma ecost_Binary: "ecost (Binary o1 l r) = ecost l + ecost r + opcost o1"
  by (simp add: opcost_def)

lemma edepth_pos: "cexpr V S e = Ok c \<Longrightarrow> 1 \<le> edepth e"
  by (induction V S e arbitrary: c rule: cexpr.induct) (auto split: if_splits option.splits)

lemma expr_runs:
  assumes "cexpr V (wstate (mW M)) e = Ok c" "code_at M p c" "pc s = int p" "length (st s) + edepth e \<le> maxStack"
  shows "does M (ecost e) s (rbind (eval (mW M) V (work s) e) (\<lambda>v. Ok (cfg s (p + length c) (ecost e) (v # st s))))"
  using assms
proof (induction e arbitrary: c p s)
  case (Num v)
  then show ?case using does_push [of s p M v] by auto
next
  case (Var x)
  from Var.prems(1) obtain a where a: "cvar V (wstate (mW M)) x = Ok a" "c = pushc a @ opc SLOAD" by auto
  let ?s = "cfg s (p + 9) 3 (a # st s)"
  have "code_at M p (pushc a)" "code_at M (p + 9) (opc SLOAD)"
    using Var.prems(2) code_at_append [of M p "pushc a" "opc SLOAD"] by (simp_all add: a(2))
  with Var.prems(3,4) have "runs M 3 s ?s" "runs M 20 ?s (cfg ?s (p + 9 + 1) 20 (load (work ?s) a # st s))"
    by (simp add: does_push, intro does_sload, simp_all)
  from runs_trans [OF this] show ?case by (simp add: a cell_def add.commute)
next
  case (Load k)
  from Load.prems(1) obtain d where d: "cexpr V (wstate (mW M)) k = Ok d" "c = d @ opc SLOAD" by auto
  have at: "code_at M p d" "code_at M (p + length d) (opc SLOAD)"
    using Load.prems(2) code_at_append [of M p d "opc SLOAD"] by (simp_all add: d(2))
  have l: "length (st s) < maxStack" using Load.prems(4) edepth_pos [OF d(1)] by simp
  show ?case
    unfolding eval.simps rbind_assoc rbind.simps
  proof (rule does_val [OF Load.IH [OF d(1) at(1) Load.prems(3)]])
    fix v show "does M 20 (cfg s (p + length d) (ecost k) (v # st s)) (Ok (cfg s (p + length c) (ecost (expr.Load k)) (load (work s) v # st s)))"
      using does_sload [of "cfg s (p + length d) (ecost k) (v # st s)" "p + length d" M v "st s"] at(2) l by (simp add: d(2))
  qed (use Load.prems(4) in simp_all)
next
  case (Index x k)
  from Index.prems(1) obtain a d where d: "map_of (wstate (mW M)) x = Some a" "cexpr V (wstate (mW M)) k = Ok d" "c = pushc a @ d @ opc MIX @ opc SLOAD"
    by (auto split: option.splits)
  have at: "code_at M p (pushc a)" "code_at M (p + 9) d" "code_at M (p + 9 + length d) (opc MIX)" "code_at M (p + 10 + length d) (opc SLOAD)"
    using Index.prems(2) code_at_append [of M p "pushc a" "d @ opc MIX @ opc SLOAD"] code_at_append [of M "p + 9" d "opc MIX @ opc SLOAD"]
      code_at_append [of M "p + 9 + length d" "opc MIX" "opc SLOAD"] by (simp_all add: d(3) ac_simps)
  let ?s = "cfg s (p + 9) 3 (a # st s)"
  have l: "length (st s) < maxStack" using Index.prems(4) by simp
  have 1: "runs M 3 s ?s" by (rule does_push [OF Index.prems(3) at(1) l])
  have 2: "does M (ecost k + 40) ?s (rbind (eval (mW M) V (work ?s) k)
      (\<lambda>i. Ok (cfg s (p + length c) (ecost (Index x k)) (load (work s) (mix (mW M) a i) # st s))))"
  proof (rule does_val [OF Index.IH [OF d(2) at(2)]])
    fix i
    let ?t = "cfg ?s (p + 9 + length d) (ecost k) (i # st ?s)"
    have "runs M 20 ?t (cfg ?t (p + 9 + length d + 1) 20 (mix (mW M) a i # st s))"
      by (rule does_mix) (use at(3) l in simp_all)
    from runs_trans [OF this does_sload [of _ "p + 10 + length d" M "mix (mW M) a i" "st s"]] at(4) l
    show "does M 40 ?t (Ok (cfg s (p + length c) (ecost (Index x k)) (load (work s) (mix (mW M) a i) # st s)))"
      by (simp add: d(3) ac_simps)
  qed (use Index.prems(4) in simp_all)
  show ?case using does_then [OF 1 2, of "ecost (Index x k)"] by (simp add: slot_of_def d(1) rbind_assoc)
next
  case (Builtin n a)
  show ?case
  proof (cases "n \<in> {''caller'', ''value'', ''balance'', ''self''}")
    case True
    with Builtin.prems obtain op v where "eval (mW M) V (work s) (Builtin n a) = Ok v" "c = opc op" "ecost (Builtin n a) = 1"
      "(op, v) \<in> {(CALLER, CtxCaller (wctx (mW M))), (VALUE, CtxValue (wctx (mW M))), (BAL, CtxBalance (wctx (mW M))), (SELF, CtxSelf (wctx (mW M)))}"
      by auto
    with does_context [of s p M op v] Builtin.prems True show ?thesis by simp
  next
    case False
    with Builtin.prems(1) obtain e d where d: "n = ''arg''" "a = Some e" "cexpr V (wstate (mW M)) e = Ok d" "c = d @ opc CDLOAD"
      by (auto split: if_splits option.splits)
    have at: "code_at M p d" "code_at M (p + length d) (opc CDLOAD)"
      using Builtin.prems(2) code_at_append [of M p d "opc CDLOAD"] by (simp_all add: d(4))
    have l: "length (st s) < maxStack" using Builtin.prems(4) edepth_pos [OF d(3)] by (simp add: d(1,2))
    have "does M (ecost e + 1) s (rbind (eval (mW M) V (work s) e) (\<lambda>i. rbind (vm_word (winput (mW M)) i)
        (\<lambda>v. Ok (cfg s (p + length c) (ecost e + 1) (v # st s)))))"
    proof (rule does_val [OF Builtin.IH [OF _ d(3) at(1) Builtin.prems(3)]])
      fix i
      show "does M 1 (cfg s (p + length d) (ecost e) (i # st s)) (rbind (vm_word (winput (mW M)) i)
          (\<lambda>v. Ok (cfg s (p + length c) (ecost e + 1) (v # st s))))"
        using does_cdload [of "cfg s (p + length d) (ecost e) (i # st s)" "p + length d" M i "st s"] at(2) l by (simp add: d(4))
    qed (use Builtin.prems(4) in \<open>simp_all add: d(1,2)\<close>)
    then show ?thesis by (simp add: d(1,2) rbind_assoc)
  qed
next
  case (Unary o1 x)
  from Unary.prems(1) obtain d where d: "cexpr V (wstate (mW M)) x = Ok d" "c = d @ opc ISZERO" by auto
  have at: "code_at M p d" "code_at M (p + length d) (opc ISZERO)"
    using Unary.prems(2) code_at_append [of M p d "opc ISZERO"] by (simp_all add: d(2))
  show ?case
    unfolding eval.simps rbind_assoc rbind.simps
  proof (rule does_val [OF Unary.IH [OF d(1) at(1) Unary.prems(3)]])
    fix v show "does M 1 (cfg s (p + length d) (ecost x) (v # st s)) (Ok (cfg s (p + length c) (ecost (Unary o1 x)) (b2u (v = 0) # st s)))"
      using does_iszero [of "cfg s (p + length d) (ecost x) (v # st s)" "p + length d" M v "st s"] at(2) by (simp add: d(2))
  qed (use Unary.prems(4) in simp_all)
next
  case (Binary o1 l r)
  from Binary.prems(1) obtain a b d where d: "cexpr V (wstate (mW M)) l = Ok a" "cexpr V (wstate (mW M)) r = Ok b" "cop o1 = Ok d" "c = a @ b @ d" by auto
  have at: "code_at M p a" "code_at M (p + length a) b" "code_at M (p + length a + length b) d"
    using Binary.prems(2) code_at_append [of M p a "b @ d"] code_at_append [of M "p + length a" b d] by (simp_all add: d(4))
  show ?case
    unfolding eval.simps rbind_assoc
  proof (rule does_val [OF Binary.IH(1) [OF d(1) at(1) Binary.prems(3)]])
    fix x
    let ?s = "cfg s (p + length a) (ecost l) (x # st s)"
    show "does M (ecost r + opcost o1) ?s (rbind (eval (mW M) V (work s) r) (\<lambda>y. rbind (sem_op o1 x y)
        (\<lambda>v. Ok (cfg s (p + length c) (ecost (Binary o1 l r)) (v # st s)))))"
    proof (rule does_val [of M "ecost r" ?s])
      show "does M (ecost r) ?s (rbind (eval (mW M) V (work s) r) (\<lambda>v. Ok (cfg ?s (p + length a + length b) (ecost r) (v # st ?s))))"
        using Binary.IH(2) [OF d(2) at(2), of ?s] Binary.prems(4) by simp
      fix y
      show "does M (opcost o1) (cfg ?s (p + length a + length b) (ecost r) (y # st ?s))
          (rbind (sem_op o1 x y) (\<lambda>v. Ok (cfg s (p + length c) (ecost (Binary o1 l r)) (v # st s))))"
        using does_op [OF d(3) at(3), of "cfg ?s (p + length a + length b) (ecost r) (y # st ?s)" y x "st s"] Binary.prems(4)
        by (simp add: d(4) ecost_Binary ac_simps del: ecost.simps)
    qed simp
  qed (use Binary.prems(4) in \<open>simp_all add: ecost_Binary del: ecost.simps\<close>)
qed

end
