(* ===== verification/SL_ShlExec.thy ===== *)
theory SL_ShlExec
  imports SL_Shl
begin

text \<open>
  What the statements and the programs of the contract language mean, and that compiled programs do it: the
  run of the code on the virtual machine gives the storage, the events, the return value or the error of
  the meaning, and uses the gas of the meaning.  Loops consume fuel; a meaning with enough fuel is the
  meaning with any more.
\<close>

section \<open>Meaning of statements\<close>

datatype outcome = Falls cells "u64 list list" | Halts cells "u64 list list" u64 | Fails vm_error | Crashes

text \<open>Which names a statement has bound after it, and the next free slot.\<close>

type_synonym scope = "names \<times> u64"

definition bind_name :: "string \<Rightarrow> scope \<Rightarrow> scope" where
  "bind_name x VN = (case VN of (V, n) \<Rightarrow> if map_of V x = None then (AList.update x n V, n + 1) else (V, n))"

fun scope_after :: "names \<Rightarrow> scope \<Rightarrow> stmt \<Rightarrow> scope"
and scopes_after :: "names \<Rightarrow> scope \<Rightarrow> stmt list \<Rightarrow> scope" where
  "scope_after S VN (LetStmt x v) = (if map_of S x = None then bind_name x VN else VN)"
| "scope_after S VN (IfStmt e th el) = scopes_after S (scopes_after S VN th) el"
| "scope_after S VN (WhileStmt e bd) = scopes_after S VN bd"
| "scope_after S VN _ = VN"
| "scopes_after S VN [] = VN"
| "scopes_after S VN (s # ss) = scopes_after S (scope_after S VN s) ss"

text \<open>Where \<open>let x\<close> writes: a state variable of that name first, then the local.\<close>

definition target :: "names \<Rightarrow> scope \<Rightarrow> string \<Rightarrow> u64" where
  "target S VN x = (case map_of S x of Some s \<Rightarrow> s | None \<Rightarrow> slot_of (fst (bind_name x VN)) x)"

text \<open>An expression first: its error is the outcome, its gas is added.\<close>

definition first :: "(vm_error, 'a) result \<Rightarrow> nat \<Rightarrow> ('a \<Rightarrow> (outcome \<times> nat) option) \<Rightarrow> (outcome \<times> nat) option" where
  "first r c k =
     (case r of Ok v \<Rightarrow> map_option (map_prod id ((+) c)) (k v) | Err e \<Rightarrow> Some (Fails e, c) | Panic \<Rightarrow> Some (Crashes, c))"

lemma first_cong [fundef_cong]:
  "r = r' \<Longrightarrow> c = c' \<Longrightarrow> (\<And>v. r' = Ok v \<Longrightarrow> k v = k' v) \<Longrightarrow> first r c k = first r' c' k'"
  by (cases r') (simp_all add: first_def)

text \<open>Go on when the first part falls through.\<close>

definition andthen :: "(outcome \<times> nat) option \<Rightarrow> (cells \<Rightarrow> u64 list list \<Rightarrow> (outcome \<times> nat) option) \<Rightarrow> (outcome \<times> nat) option" where
  "andthen r k =
     (case r of
        Some (Falls m L, c) \<Rightarrow> map_option (map_prod id ((+) c)) (k m L)
      | _ \<Rightarrow> r)"

lemma andthen_cong [fundef_cong]:
  "r = r' \<Longrightarrow> (\<And>m L c. r' = Some (Falls m L, c) \<Longrightarrow> k m L = k' m L) \<Longrightarrow> andthen r k = andthen r' k'"
  by (auto simp: andthen_def split: option.split outcome.split)

function exec :: "nat \<Rightarrow> world \<Rightarrow> scope \<Rightarrow> stmt \<Rightarrow> cells \<Rightarrow> u64 list list \<Rightarrow> (outcome \<times> nat) option"
and execs :: "nat \<Rightarrow> world \<Rightarrow> scope \<Rightarrow> stmt list \<Rightarrow> cells \<Rightarrow> u64 list list \<Rightarrow> (outcome \<times> nat) option" where
  "exec f W VN (LetStmt x v) m L =
     first (eval W (fst (scope_after (wstate W) VN (LetStmt x v))) m v) (3 + ecost v) (\<lambda>y.
       Some (Falls (AList.update (target (wstate W) VN x) y m) L, 100))"
| "exec f W VN (IndexStore x k v) m L =
     first (eval W (fst VN) m k) (3 + ecost k) (\<lambda>i.
     first (eval W (fst VN) m v) (20 + ecost v) (\<lambda>y.
       Some (Falls (AList.update (mix W (slot_of (wstate W) x) i) y m) L, 100)))"
| "exec f W VN (StoreStmt k v) m L =
     first (eval W (fst VN) m k) (ecost k) (\<lambda>i.
     first (eval W (fst VN) m v) (ecost v) (\<lambda>y. Some (Falls (AList.update i y m) L, 100)))"
| "exec f W VN (RequireStmt e) m L =
     first (eval W (fst VN) m e) (ecost e) (\<lambda>b. Some (if b \<noteq> 0 then (Falls m L, 4) else (Fails ErrRevert, 5)))"
| "exec f W VN RevertStmt m L = Some (Fails ErrRevert, 1)"
| "exec f W VN (IfStmt e th el) m L =
     first (eval W (fst VN) m e) (ecost e + 5) (\<lambda>b.
       if b \<noteq> 0 then andthen (execs f W VN th m L) (\<lambda>m L. Some (Falls m L, 4))
       else execs f W (scopes_after (wstate W) VN th) el m L)"
| "exec f W VN (WhileStmt e bd) m L =
     first (eval W (fst VN) m e) (ecost e + 5) (\<lambda>b.
       if b = 0 then Some (Falls m L, 0)
       else (case f of
               0 \<Rightarrow> None
             | Suc f' \<Rightarrow>
                 andthen (execs f' W VN bd m L) (\<lambda>m L.
                   map_option (map_prod id ((+) 4)) (exec f' W VN (WhileStmt e bd) m L))))"
| "exec f W VN (EmitStmt as) m L =
     first (evals W (fst VN) m as) (sum_list (map ecost as)) (\<lambda>ts.
       Some (if length as \<le> 8 then (Falls m (L @ [ts]), 53 + 8 * length as) else (Fails ErrBadCode, 53)))"
| "exec f W VN (ReturnStmt v) m L = first (eval W (fst VN) m v) (ecost v) (\<lambda>y. Some (Halts m L y, 1))"
| "exec f W VN StopStmt m L = Some (Halts m L 0, 1)"
| "exec f W VN (StateDecl x) m L = Some (Falls m L, 0)"
| "exec f W VN (FnDecl x ps b) m L = Some (Falls m L, 0)"
| "execs f W VN [] m L = Some (Falls m L, 0)"
| "execs f W VN (s # ss) m L = andthen (exec f W VN s m L) (execs f W (scope_after (wstate W) VN s) ss)"
  by pat_completeness auto
termination
  by (relation "measures [case_sum fst fst, case_sum (\<lambda>x. size (fst (snd (snd (snd x))))) (\<lambda>x. size_list size (fst (snd (snd (snd x)))))]") simp_all


text \<open>The stack a statement needs.\<close>

primrec edepths :: "expr list \<Rightarrow> nat" where
  "edepths [] = 1"
| "edepths (e # es) = max (edepth e) (edepths es + 1)"

fun sdepth :: "stmt \<Rightarrow> nat"
and sdepths :: "stmt list \<Rightarrow> nat" where
  "sdepth (LetStmt x v) = edepth v + 1"
| "sdepth (IndexStore x k v) = max (edepth k) (edepth v) + 1"
| "sdepth (StoreStmt k v) = max (edepth k) (edepth v + 1)"
| "sdepth (RequireStmt e) = edepth e"
| "sdepth RevertStmt = 0"
| "sdepth (IfStmt e th el) = max (edepth e) (max (sdepths th) (sdepths el))"
| "sdepth (WhileStmt e bd) = max (edepth e) (sdepths bd)"
| "sdepth (EmitStmt as) = edepths as"
| "sdepth (ReturnStmt v) = edepth v"
| "sdepth StopStmt = 0"
| "sdepth (StateDecl x) = 0"
| "sdepth (FnDecl x ps b) = sdepths b"
| "sdepths [] = 0"
| "sdepths (s # ss) = max (sdepth s) (sdepths ss)"

section \<open>The compiler follows the scopes\<close>

lemma cslot_scope: "cslot x V n = (s, V', n') \<Longrightarrow> bind_name x (V, n) = (V', n') \<and> slot_of V' x = s"
  by (auto simp: cslot_def bind_name_def slot_of_def map_of_update split: option.splits)

lemma cstmt_scope:
  "cstmt S p V n t = Ok (c, V', n') \<Longrightarrow> scope_after S (V, n) t = (V', n')"
  "cstmts S p V n ts = Ok (c, V', n') \<Longrightarrow> scopes_after S (V, n) ts = (V', n')"
proof (induction S p V n t and S p V n ts arbitrary: c V' n' and c V' n' rule: cstmt_cstmts.induct)
  case (1 S p V n x v)
  then show ?case by (auto simp: rbind_eq_Ok_iff split: option.splits prod.splits dest: cslot_scope)
qed (auto simp: rbind_eq_Ok_iff split: option.splits prod.splits)

section \<open>Statement instructions\<close>

text \<open>Where a statement leaves the machine: the stack is empty again.\<close>

definition fin :: "vm \<Rightarrow> nat \<Rightarrow> nat \<Rightarrow> cells \<Rightarrow> u64 list list \<Rightarrow> vm" where
  "fin s q g m L = s\<lparr>pc := int q, used := used s + of_nat g, work := m, logs := L, st := []\<rparr>"

definition outc :: "'h machine \<Rightarrow> nat \<Rightarrow> vm \<Rightarrow> nat \<Rightarrow> outcome \<Rightarrow> bool" where
  "outc M g s q out =
     (case out of
        Falls m L \<Rightarrow> runs M g s (fin s q g m L)
      | Halts m L v \<Rightarrow> \<exists>q. ends M g s (Ok ((fin s q g m L)\<lparr>ret := v\<rparr>))
      | Fails e \<Rightarrow> ends M g s (Err e)
      | Crashes \<Rightarrow> ends M g s Panic)"

text \<open>The parts of the machine state that statements leave alone.\<close>

definition fol :: "vm \<Rightarrow> nat \<Rightarrow> vm \<Rightarrow> bool" where
  "fol s c s' \<longleftrightarrow> used s' = used s + of_nat c \<and> bwork s' = bwork s \<and> retBytes s' = retBytes s \<and> ret s' = ret s"

lemma fin_sel [simp]: "pc (fin s q g m L) = int q" "st (fin s q g m L) = []" "work (fin s q g m L) = m" "logs (fin s q g m L) = L"
  "used (fin s q g m L) = used s + of_nat g" "ret (fin s q g m L) = ret s" "bwork (fin s q g m L) = bwork s" "retBytes (fin s q g m L) = retBytes s"
  by (simp_all add: fin_def)

lemma fol_cfg [simp]: "fol s c (cfg s p c k)" "fol s c (fin s q c m L)"
  by (simp_all add: fol_def)

lemma fol_fin: "fol s c s' \<Longrightarrow> fin s' q g m L = fin s q (c + g) m L"
  by (simp add: fol_def fin_def add.assoc)

lemma outc_then: assumes "runs M c s s'" "fol s c s'" "outc M d s' q out" shows "outc M (c + d) s q out"
proof -
  note e = ends_trans [OF assms(1) _ order_refl]
  show ?thesis
    using assms(3) runs_trans [OF assms(1)]
    by (cases out) (auto simp: outc_def fol_fin [OF assms(2)] dest: e)
qed

lemma outc_first:
  assumes "does M c s (rbind r (\<lambda>v. Ok (g v)))" "\<And>v. fol s c (g v)" "first r c k = Some (out, d)"
    and "\<And>v out d. r = Ok v \<Longrightarrow> k v = Some (out, d) \<Longrightarrow> outc M d (g v) q out"
  shows "outc M d s q out"
proof (cases r)
  case (Ok v)
  with assms(3) obtain d' where "k v = Some (out, d')" "d = c + d'" by (auto simp: first_def)
  with outc_then [OF _ assms(2) assms(4)] assms(1) Ok show ?thesis by simp
qed (use assms(1,3) in \<open>auto simp: first_def outc_def does_def\<close>)

lemma outc_andthen:
  assumes "andthen r k = Some (out, g)" "\<And>out d. r = Some (out, d) \<Longrightarrow> outc M d s q1 out"
    and "\<And>m L c out d. r = Some (Falls m L, c) \<Longrightarrow> k m L = Some (out, d) \<Longrightarrow> outc M d (fin s q1 c m L) q out"
  shows "outc M g s q out"
proof -
  from assms(1) obtain o1 c where r: "r = Some (o1, c)" by (auto simp: andthen_def split: option.splits)
  show ?thesis
  proof (cases o1)
    case (Falls m L)
    with r assms(1) obtain d where d: "k m L = Some (out, d)" "g = c + d" by (auto simp: andthen_def)
    have "runs M c s (fin s q1 c m L)" using assms(2) [OF r] by (simp add: Falls outc_def)
    from outc_then [OF this _ assms(3) [OF r [unfolded Falls] d(1)]] show ?thesis by (simp add: d(2))
  qed (use r assms(1,2) in \<open>auto simp: andthen_def outc_def\<close>)
qed

lemma runs_sstore:
  assumes "pc s = int p" "code_at M p (opc SSTORE)" "st s = [v, a]"
  shows "runs M 100 s (fin s (p + 1) 100 (AList.update a v (work s)) (logs s))"
  by (rule runs_one [where op = SSTORE, OF assms(1,2)])
    (use assms(3) in \<open>simp_all add: gas_of step_local_def exec_sstore_def pop_def fetched_def fin_def cont_def\<close>)

lemma sint_addr: "a < 2 ^ 63 \<Longrightarrow> sint (of_nat a :: u64) = int a"
  by (simp add: signed_of_nat signed_take_bit_int_eq_self)

lemma runs_jump:
  assumes "pc s = int p" "code_at M p (pushc (of_nat a) @ opc JUMP)" "st s = []" "a < length (mcode M)" "length (mcode M) < 2 ^ 63"
  shows "runs M 4 s (cfg s a 4 [])"
proof -
  have c: "code_at M p (pushc (of_nat a))" "code_at M (p + 9) (opc JUMP)"
    using assms(2) code_at_append [of M p "pushc (of_nat a)" "opc JUMP"] by simp_all
  let ?s = "cfg s (p + 9) 3 [of_nat a]"
  have 1: "runs M 3 s ?s" using does_push [OF assms(1) c(1)] assms(3) by (simp add: maxStack_def)
  have "runs M 1 ?s (cfg ?s a 1 [])"
    by (rule runs_one [where op = JUMP, OF _ c(2)])
      (use assms(4,5) in \<open>simp_all add: gas_of step_local_def exec_jump_def jump_to_def sint_addr pop_def fetched_def cfg_def cont_def\<close>)
  from runs_trans [OF 1 this] show ?thesis by simp
qed

lemma runs_jumpi:
  assumes "pc s = int p" "code_at M p (pushc (of_nat a) @ opc JUMPI)" "st s = b # k" "a < length (mcode M)" "length (mcode M) < 2 ^ 63"
    and "length k + 2 \<le> maxStack"
  shows "runs M 4 s (cfg s (if b \<noteq> 0 then a else p + 10) 4 k)"
proof -
  have c: "code_at M p (pushc (of_nat a))" "code_at M (p + 9) (opc JUMPI)"
    using assms(2) code_at_append [of M p "pushc (of_nat a)" "opc JUMPI"] by simp_all
  let ?s = "cfg s (p + 9) 3 (of_nat a # b # k)"
  have 1: "runs M 3 s ?s" using does_push [OF assms(1) c(1)] assms(3,6) by simp
  have "runs M 1 ?s (cfg ?s (if b \<noteq> 0 then a else p + 10) 1 k)"
    by (rule runs_one [where op = JUMPI, OF _ c(2)])
      (use assms(4,5) in \<open>simp_all add: gas_of step_local_def exec_jumpi_def jump_to_def sint_addr pop_def fetched_def cfg_def cont_def\<close>)
  from runs_trans [OF 1 this] show ?thesis by simp
qed

text \<open>The test of \<open>if\<close> and \<open>while\<close>.\<close>

lemma runs_unless:
  assumes "pc s = int p" "code_at M p (opc ISZERO @ pushc (of_nat a) @ opc JUMPI)" "st s = [b]" "a < length (mcode M)" "length (mcode M) < 2 ^ 63"
  shows "runs M 5 s (cfg s (if b = 0 then a else p + 11) 5 [])"
proof -
  have c: "code_at M p (opc ISZERO)" "code_at M (p + 1) (pushc (of_nat a) @ opc JUMPI)"
    using assms(2) code_at_append [of M p "opc ISZERO" "pushc (of_nat a) @ opc JUMPI"] by simp_all
  let ?s = "cfg s (p + 1) 1 [b2u (b = 0)]"
  have 1: "runs M 1 s ?s" by (rule does_iszero [OF assms(1) c(1) assms(3)])
  have "runs M 4 ?s (cfg ?s (if b = 0 then a else p + 1 + 10) 4 [])"
    using runs_jumpi [OF _ c(2) _ assms(4,5), of ?s "b2u (b = 0)" "[]"] by (simp add: maxStack_def)
  from runs_trans [OF 1 this] show ?thesis by (cases "b = 0") (simp_all add: add.commute)
qed

lemma ends_revert: "pc s = int p \<Longrightarrow> code_at M p (opc REVERT) \<Longrightarrow> ends M 1 s (Err ErrRevert)"
  by (rule ends_one [where op = REVERT]) (simp_all add: gas_of step_local_def)

lemma ends_stop: "pc s = int p \<Longrightarrow> code_at M p (opc STOP) \<Longrightarrow> st s = [] \<Longrightarrow> ends M 1 s (Ok (fin s (p + 1) 1 (work s) (logs s)))"
  by (rule ends_one [where op = STOP]) (simp_all add: gas_of step_local_def fetched_def fin_def, cases s, simp)

lemma ends_return:
  "pc s = int p \<Longrightarrow> code_at M p (opc RETURN) \<Longrightarrow> st s = [v] \<Longrightarrow>
   ends M 1 s (Ok ((fin s (p + 1) 1 (work s) (logs s))\<lparr>ret := v\<rparr>))"
  by (rule ends_one [where op = RETURN]) (simp_all add: gas_of step_local_def fetched_def fin_def exec_return_def pop_def)


text \<open>\<open>LOG\<close> charges by the topic on top of its price.\<close>

lemma pop_n_stack: "st s = rev ts @ k \<Longrightarrow> pop_n (length ts) s = Ok (ts, s\<lparr>st := k\<rparr>)"
proof (induction ts arbitrary: s rule: rev_induct)
  case (snoc t ts)
  then show ?case by (simp add: pop_def)
qed simp

lemma runs_log:
  assumes "pc s = int p" "code_at M p (opc LOG)" "st s = of_nat (length ts) # rev ts" "length ts \<le> 8"
  shows "runs M (50 + 8 * length ts) s (fin s (p + 1) (50 + 8 * length ts) (work s) (logs s @ [ts]))"
  unfolding runs_def
proof (intro impI conjI)
  let ?c = "50 + 8 * length ts"
  let ?s' = "fin s (p + 1) ?c (work s) (logs s @ [ts])"
  assume g: "unat (used s) + ?c \<le> unat (mgas M)"
  have n: "\<not> maxLogTopics < of_nat (length ts)" "unat (of_nat (length ts) :: u64) = length ts"
    using assms(4) by (simp_all add: maxLogTopics_def word_less_nat_alt unat_of_nat_small)
  have u: "unat (used s + of_nat ?c) = unat (used s) + ?c"
    using unat_fetched [OF g] by (simp add: fetched_def)
  then show "unat (used ?s') = unat (used s) + ?c" by simp
  from u g have "\<not> mgas M < used s + of_nat ?c" by (simp add: word_less_nat_alt)
  then have "step_local (wH (mW M)) (mcode M) (winput (mW M)) (mgas M) (wctx (mW M)) LOG (fetched 50 p s) = Ok (Continue ?s')"
    using n assms(3) by (simp add: pop_n_stack [of _ ts "[]"] step_local_def exec_log_def pop_def fetched_def cont_def fin_def add.assoc)
  then have "vgo M n s = vgo M (n + 1) ?s'" if "n + int ?c \<le> maxSteps" for n
    using vgo_step [OF assms(1), of M LOG n] assms(2) g that by (simp add: gas_of code_at_Cons)
  then show "\<exists>k\<le>?c. \<forall>n. n + int ?c \<le> maxSteps \<longrightarrow> vgo M n s = vgo M (n + int k) ?s'"
    by (intro exI [of _ 1]) simp
qed

lemma ends_log:
  assumes "pc s = int p" "code_at M p (opc LOG)" "st s = of_nat n # k" "8 < n" "n < 2 ^ 64"
  shows "ends M 50 s (Err ErrBadCode)"
  by (rule ends_one [where op = LOG, OF assms(1,2)])
    (use assms(3-5) in \<open>simp_all add: gas_of step_local_def exec_log_def pop_def fetched_def cont_def maxLogTopics_def word_less_nat_alt unat_of_nat_small\<close>)

lemma exprs_run:
  assumes "cexprs V (wstate (mW M)) es = Ok c" "code_at M p c" "pc s = int p" "length (st s) + edepths es \<le> maxStack"
  shows "does M (sum_list (map ecost es)) s (rbind (evals (mW M) V (work s) es)
    (\<lambda>vs. Ok (cfg s (p + length c) (sum_list (map ecost es)) (rev vs @ st s))))"
  using assms
proof (induction es arbitrary: c p s)
  case Nil
  have e: "cfg s p 0 (st s) = s" using Nil.prems(3) by (cases s) (simp add: cfg_def)
  have "c = []" using Nil.prems(1) by simp
  then show ?case by (simp add: e runs_refl)
next
  case (Cons e es)
  from Cons.prems(1) obtain a b where d: "cexpr V (wstate (mW M)) e = Ok a" "cexprs V (wstate (mW M)) es = Ok b" "c = a @ b"
    by (auto simp: rbind_eq_Ok_iff)
  have at: "code_at M p a" "code_at M (p + length a) b" using Cons.prems(2) by (simp_all add: d(3) code_at_append)
  show ?case
    unfolding evals.simps rbind_assoc rbind.simps
  proof (rule does_val [OF expr_runs [OF d(1) at(1) Cons.prems(3)]])
    fix v
    let ?s = "cfg s (p + length a) (ecost e) (v # st s)"
    show "does M (sum_list (map ecost es)) ?s (rbind (evals (mW M) V (work s) es)
        (\<lambda>vs. Ok (cfg s (p + length c) (sum_list (map ecost (e # es))) (rev (v # vs) @ st s))))"
      using Cons.IH [OF d(2) at(2), of ?s] Cons.prems(4) by (simp add: d(3) ac_simps)
  qed (use Cons.prems(4) in simp_all)
qed

lemma evals_length: "evals W V m es = Ok vs \<Longrightarrow> length vs = length es"
  by (induction es arbitrary: vs) (auto simp: rbind_eq_Ok_iff)

lemma cexpr_nonempty: "cexpr V S e = Ok c \<Longrightarrow> c \<noteq> []"
  by (induction V S e arbitrary: c rule: cexpr.induct) (auto simp: rbind_eq_Ok_iff split: if_splits option.splits)

lemma cexprs_length: "cexprs V S es = Ok c \<Longrightarrow> length es \<le> length c"
  by (induction es arbitrary: c) (auto simp: rbind_eq_Ok_iff Suc_le_eq add_less_le_mono dest!: cexpr_nonempty simp flip: length_greater_0_conv)


section \<open>Statements are compiled correctly\<close>

definition stmt_ok :: "'h machine \<Rightarrow> nat \<Rightarrow> scope \<Rightarrow> stmt \<Rightarrow> cells \<Rightarrow> u64 list list \<Rightarrow> bool" where
  "stmt_ok M f VN t m L \<longleftrightarrow>
     (\<forall>p c VN' s out g. cstmt (wstate (mW M)) p (fst VN) (snd VN) t = Ok (c, VN') \<longrightarrow> code_at M p c \<longrightarrow> p + length c < length (mcode M) \<longrightarrow>
        pc s = int p \<longrightarrow> st s = [] \<longrightarrow> ret s = 0 \<longrightarrow> work s = m \<longrightarrow> logs s = L \<longrightarrow> sdepth t \<le> maxStack \<longrightarrow>
        exec f (mW M) VN t m L = Some (out, g) \<longrightarrow> outc M g s (p + length c) out)"

definition stmts_ok :: "'h machine \<Rightarrow> nat \<Rightarrow> scope \<Rightarrow> stmt list \<Rightarrow> cells \<Rightarrow> u64 list list \<Rightarrow> bool" where
  "stmts_ok M f VN ts m L \<longleftrightarrow>
     (\<forall>p c VN' s out g. cstmts (wstate (mW M)) p (fst VN) (snd VN) ts = Ok (c, VN') \<longrightarrow> code_at M p c \<longrightarrow> p + length c < length (mcode M) \<longrightarrow>
        pc s = int p \<longrightarrow> st s = [] \<longrightarrow> ret s = 0 \<longrightarrow> work s = m \<longrightarrow> logs s = L \<longrightarrow> sdepths ts \<le> maxStack \<longrightarrow>
        execs f (mW M) VN ts m L = Some (out, g) \<longrightarrow> outc M g s (p + length c) out)"

lemma stmts_okD:
  "stmts_ok M f VN ts (work s) (logs s) \<Longrightarrow> cstmts (wstate (mW M)) p (fst VN) (snd VN) ts = Ok (c, VN') \<Longrightarrow>
   execs f (mW M) VN ts (work s) (logs s) = Some (out, g) \<Longrightarrow> code_at M p c \<Longrightarrow> p + length c < length (mcode M) \<Longrightarrow> pc s = int p \<Longrightarrow>
   st s = [] \<Longrightarrow> ret s = 0 \<Longrightarrow> sdepths ts \<le> maxStack \<Longrightarrow> q = p + length c \<Longrightarrow> outc M g s q out"
  unfolding stmts_ok_def by (cases VN') blast

lemma stmt_okD:
  "stmt_ok M f VN t (work s) (logs s) \<Longrightarrow> cstmt (wstate (mW M)) p (fst VN) (snd VN) t = Ok (c, VN') \<Longrightarrow>
   exec f (mW M) VN t (work s) (logs s) = Some (out, g) \<Longrightarrow> code_at M p c \<Longrightarrow> p + length c < length (mcode M) \<Longrightarrow> pc s = int p \<Longrightarrow>
   st s = [] \<Longrightarrow> ret s = 0 \<Longrightarrow> sdepth t \<le> maxStack \<Longrightarrow> q = p + length c \<Longrightarrow> outc M g s q out"
  unfolding stmt_ok_def by (cases VN') blast

lemma outc_store:
  assumes "pc s = int p" "code_at M p (opc SSTORE)" "st s = [v, a]" "Some (Falls (AList.update a v (work s)) (logs s), 100) = Some (out, d)"
  shows "outc M d s (p + 1) out"
  using runs_sstore [OF assms(1-3)] assms(4) by (auto simp: outc_def)

text \<open>Push an address, evaluate, store.\<close>

lemma push_expr:
  assumes "cexpr V (wstate (mW M)) e = Ok c" "code_at M p (pushc a @ c)" "pc s = int p" "st s = []" "edepth e + 1 \<le> maxStack"
  shows "does M (3 + ecost e) s (rbind (eval (mW M) V (work s) e) (\<lambda>v. Ok (cfg s (p + 9 + length c) (3 + ecost e) [v, a])))"
proof -
  have at: "code_at M p (pushc a)" "code_at M (p + 9) c" using assms(2) code_at_append [of M p "pushc a" c] by simp_all
  have 1: "runs M 3 s (cfg s (p + 9) 3 [a])" using does_push [OF assms(3) at(1)] assms(4,5) by simp
  show ?thesis using does_then [OF 1 expr_runs [OF assms(1) at(2)]] assms(5) by simp
qed

lemma let_ok: "stmt_ok M f (V, n) (LetStmt x v) m L"
  unfolding stmt_ok_def fst_conv snd_conv
proof (intro allI impI)
  fix p c out g and s :: vm and VN' :: scope
  assume c: "cstmt (wstate (mW M)) p V n (LetStmt x v) = Ok (c, VN')" "code_at M p c"
    and s: "pc s = int p" "st s = []" "work s = m" "logs s = L" and d: "sdepth (LetStmt x v) \<le> maxStack"
    and x: "exec f (mW M) (V, n) (LetStmt x v) m L = Some (out, g)"
  have "\<exists>a b. cexpr (fst VN') (wstate (mW M)) v = Ok b \<and> c = pushc a @ b @ opc SSTORE \<and> a = target (wstate (mW M)) (V, n) x"
    using c(1) by (auto simp: target_def rbind_eq_Ok_iff split: option.splits prod.splits dest: cslot_scope)
  then obtain b where b: "cexpr (fst VN') (wstate (mW M)) v = Ok b" "c = pushc (target (wstate (mW M)) (V, n) x) @ b @ opc SSTORE" by blast
  have VN: "scope_after (wstate (mW M)) (V, n) (LetStmt x v) = VN'" using c(1) cstmt_scope(1) by (metis surj_pair)
  let ?a = "target (wstate (mW M)) (V, n) x"
  have at: "code_at M p (pushc ?a @ b)" "code_at M (p + 9 + length b) (opc SSTORE)"
    using c(2) code_at_append [of M p "pushc ?a @ b" "opc SSTORE"] by (simp_all add: b(2) add.assoc)
  show "outc M g s (p + length c) out"
  proof (rule outc_first [OF push_expr [OF b(1) at(1) s(1,2)]])
    show "first (eval (mW M) (fst VN') (work s) v) (3 + ecost v) (\<lambda>y. Some (Falls (AList.update ?a y m) L, 100)) = Some (out, g)"
      using x VN s(3) by simp
    fix y out and d :: nat
    assume "Some (Falls (AList.update ?a y m) L, 100) = Some (out, d)"
    then show "outc M d (cfg s (p + 9 + length b) (3 + ecost v) [y, ?a]) (p + length c) out"
      using outc_store [of "cfg s (p + 9 + length b) (3 + ecost v) [y, ?a]" "p + 9 + length b" M y ?a out d] at(2) s by (simp add: b(2) ac_simps)
  qed (use d in simp_all)
qed

lemma index_ok: "stmt_ok M f (V, n) (IndexStore x k v) m L"
  unfolding stmt_ok_def fst_conv snd_conv
proof (intro allI impI)
  fix p c out g and s :: vm and VN' :: scope
  assume c: "cstmt (wstate (mW M)) p V n (IndexStore x k v) = Ok (c, VN')" "code_at M p c"
    and s: "pc s = int p" "st s = []" "work s = m" "logs s = L" and d: "sdepth (IndexStore x k v) \<le> maxStack"
    and x: "exec f (mW M) (V, n) (IndexStore x k v) m L = Some (out, g)"
  from c(1) obtain a b e where b: "map_of (wstate (mW M)) x = Some a" "cexpr V (wstate (mW M)) k = Ok b" "cexpr V (wstate (mW M)) v = Ok e"
    "c = pushc a @ b @ opc MIX @ e @ opc SSTORE"
    by (auto simp: rbind_eq_Ok_iff split: option.splits)
  have a: "slot_of (wstate (mW M)) x = a" by (simp add: slot_of_def b(1))
  have at: "code_at M p (pushc a @ b)" "code_at M (p + 9 + length b) (opc MIX)" "code_at M (p + 10 + length b) e"
     "code_at M (p + 10 + length b + length e) (opc SSTORE)"
    using c(2) code_at_append [of M p "pushc a @ b" "opc MIX @ e @ opc SSTORE"] code_at_append [of M "p + 9 + length b" "opc MIX" "e @ opc SSTORE"]
      code_at_append [of M "p + 10 + length b" e "opc SSTORE"] by (simp_all add: b(4) ac_simps)
  show "outc M g s (p + length c) out"
  proof (rule outc_first [OF push_expr [OF b(2) at(1) s(1,2)]])
    show "first (eval (mW M) V (work s) k) (3 + ecost k) (\<lambda>i. first (eval (mW M) V m v) (20 + ecost v) (\<lambda>y.
       Some (Falls (AList.update (mix (mW M) a i) y m) L, 100))) = Some (out, g)"
      using x s(3) a by simp
    fix i out and d' :: nat
    let ?s = "cfg s (p + 9 + length b) (3 + ecost k) [i, a]"
    let ?t = "cfg ?s (p + 10 + length b) 20 [mix (mW M) a i]"
    assume k: "first (eval (mW M) V m v) (20 + ecost v) (\<lambda>y. Some (Falls (AList.update (mix (mW M) a i) y m) L, 100)) = Some (out, d')"
    have 1: "runs M 20 ?s ?t" using does_mix [of ?s "p + 9 + length b" M i a "[]"] at(2) by (simp add: maxStack_def ac_simps)
    have 2: "does M (20 + ecost v) ?s (rbind (eval (mW M) V m v)
        (\<lambda>y. Ok (cfg ?t (p + 10 + length b + length e) (ecost v) [y, mix (mW M) a i])))"
      using does_then [OF 1 expr_runs [OF b(3) at(3)]] d s(3) by simp
    show "outc M d' ?s (p + length c) out"
    proof (rule outc_first [OF 2 _ k])
      fix y out and d :: nat
      assume "Some (Falls (AList.update (mix (mW M) a i) y m) L, 100) = Some (out, d)"
      then show "outc M d (cfg ?t (p + 10 + length b + length e) (ecost v) [y, mix (mW M) a i]) (p + length c) out"
        using outc_store [of "cfg ?t (p + 10 + length b + length e) (ecost v) [y, mix (mW M) a i]" "p + 10 + length b + length e" M y "mix (mW M) a i" out d] at(4) s
        by (simp add: b(4) ac_simps)
    qed (simp add: fol_def)
  qed (use d in simp_all)
qed


lemma store_ok: "stmt_ok M f (V, n) (StoreStmt k v) m L"
  unfolding stmt_ok_def fst_conv snd_conv
proof (intro allI impI)
  fix p c out g and s :: vm and VN' :: scope
  assume c: "cstmt (wstate (mW M)) p V n (StoreStmt k v) = Ok (c, VN')" "code_at M p c"
    and s: "pc s = int p" "st s = []" "work s = m" "logs s = L" and d: "sdepth (StoreStmt k v) \<le> maxStack"
    and x: "exec f (mW M) (V, n) (StoreStmt k v) m L = Some (out, g)"
  from c(1) obtain b e where b: "cexpr V (wstate (mW M)) k = Ok b" "cexpr V (wstate (mW M)) v = Ok e" "c = b @ e @ opc SSTORE"
    by (auto simp: rbind_eq_Ok_iff)
  have at: "code_at M p b" "code_at M (p + length b) e" "code_at M (p + length b + length e) (opc SSTORE)"
    using c(2) by (simp_all add: b(3) code_at_append)
  show "outc M g s (p + length c) out"
  proof (rule outc_first [OF expr_runs [OF b(1) at(1) s(1)]])
    show "first (eval (mW M) V (work s) k) (ecost k) (\<lambda>i. first (eval (mW M) V m v) (ecost v) (\<lambda>y.
       Some (Falls (AList.update i y m) L, 100))) = Some (out, g)"
      using x s(3) by simp
    fix i out and d' :: nat
    let ?s = "cfg s (p + length b) (ecost k) (i # st s)"
    assume k: "first (eval (mW M) V m v) (ecost v) (\<lambda>y. Some (Falls (AList.update i y m) L, 100)) = Some (out, d')"
    have 1: "does M (ecost v) ?s (rbind (eval (mW M) V m v) (\<lambda>y. Ok (cfg ?s (p + length b + length e) (ecost v) [y, i])))"
      using expr_runs [OF b(2) at(2), of ?s] d s by simp
    show "outc M d' ?s (p + length c) out"
    proof (rule outc_first [OF 1 _ k])
      fix y out and d :: nat
      assume "Some (Falls (AList.update i y m) L, 100) = Some (out, d)"
      then show "outc M d (cfg ?s (p + length b + length e) (ecost v) [y, i]) (p + length c) out"
        using outc_store [of "cfg ?s (p + length b + length e) (ecost v) [y, i]" "p + length b + length e" M y i out d] at(3) s
        by (simp add: b(3) ac_simps)
    qed (simp add: fol_def)
  qed (use d s in simp_all)
qed

lemma require_ok: assumes "length (mcode M) < 2 ^ 63" shows "stmt_ok M f (V, n) (RequireStmt e) m L"
  unfolding stmt_ok_def fst_conv snd_conv
proof (intro allI impI)
  fix p c out g and s :: vm and VN' :: scope
  assume c: "cstmt (wstate (mW M)) p V n (RequireStmt e) = Ok (c, VN')" "code_at M p c" "p + length c < length (mcode M)"
    and s: "pc s = int p" "st s = []" "work s = m" "logs s = L" and d: "sdepth (RequireStmt e) \<le> maxStack"
    and x: "exec f (mW M) (V, n) (RequireStmt e) m L = Some (out, g)"
  from c(1) obtain b where b: "cexpr V (wstate (mW M)) e = Ok b" "c = b @ (pushc (of_nat (p + length b + 11)) @ opc JUMPI) @ opc REVERT"
    by (auto simp: rbind_eq_Ok_iff)
  have at: "code_at M p b" "code_at M (p + length b) (pushc (of_nat (p + length b + 11)) @ opc JUMPI)" "code_at M (p + length b + 10) (opc REVERT)"
    using c(2) unfolding b(2) code_at_append [of M p b] code_at_append [of M "p + length b" "pushc _ @ opc JUMPI"] by simp_all
  show "outc M g s (p + length c) out"
  proof (rule outc_first [OF expr_runs [OF b(1) at(1) s(1)]])
    show "first (eval (mW M) V (work s) e) (ecost e) (\<lambda>b. Some (if b \<noteq> 0 then (Falls m L, 4) else (Fails ErrRevert, 5))) = Some (out, g)"
      using x s(3) by simp
    fix i out and d' :: nat
    let ?s = "cfg s (p + length b) (ecost e) (i # st s)"
    assume k: "Some (if i \<noteq> 0 then (Falls m L, 4) else (Fails ErrRevert, 5)) = Some (out, d')"
    have 1: "runs M 4 ?s (cfg ?s (if i \<noteq> 0 then p + length b + 11 else p + length b + 10) 4 [])"
      using runs_jumpi [OF _ at(2) _ _ assms, of ?s i "[]"] c(3) s by (simp add: b(2) maxStack_def)
    show "outc M d' ?s (p + length c) out"
    proof (cases "i = 0")
      case True
      have "ends M 1 (cfg ?s (p + length b + 10) 4 []) (Err ErrRevert)" by (rule ends_revert [OF _ at(3)]) simp
      from ends_trans [OF _ this, of 4 ?s 5] 1 True k show ?thesis by (auto simp: outc_def)
    next
      case False
      have "cfg ?s (p + length c) 4 [] = fin ?s (p + length c) 4 m L" using s by (cases s) (simp add: cfg_def fin_def)
      with 1 False k show ?thesis by (auto simp: b(2) outc_def add.assoc)
    qed
  qed (use d s in simp_all)
qed

lemma edepths_length: "length es < edepths es"
  by (induction es) auto

lemma emit_ok: assumes "length (mcode M) < 2 ^ 63" shows "stmt_ok M f (V, n) (EmitStmt as) m L"
  unfolding stmt_ok_def fst_conv snd_conv
proof (intro allI impI)
  fix p c out g and s :: vm and VN' :: scope
  assume c: "cstmt (wstate (mW M)) p V n (EmitStmt as) = Ok (c, VN')" "code_at M p c" "p + length c < length (mcode M)"
    and s: "pc s = int p" "st s = []" "work s = m" "logs s = L" and d: "sdepth (EmitStmt as) \<le> maxStack"
    and x: "exec f (mW M) (V, n) (EmitStmt as) m L = Some (out, g)"
  let ?n = "of_nat (length as) :: u64" and ?c = "sum_list (map ecost as)"
  from c(1) obtain b where b: "cexprs V (wstate (mW M)) as = Ok b" "c = b @ pushc ?n @ opc LOG"
    by (auto simp: rbind_eq_Ok_iff)
  have at: "code_at M p b" "code_at M (p + length b) (pushc ?n)" "code_at M (p + length b + 9) (opc LOG)"
    using c(2) unfolding b(2) code_at_append [of M p b] code_at_append [of M "p + length b" "pushc _"] by simp_all
  have n: "length as < 2 ^ 64" using cexprs_length [OF b(1)] c(3) assms by (simp add: b(2))
  have l: "length as < maxStack" using edepths_length [of as] d by simp
  show "outc M g s (p + length c) out"
  proof (rule outc_first [OF exprs_run [OF b(1) at(1) s(1)]])
    show "first (evals (mW M) V (work s) as) ?c (\<lambda>ts.
       Some (if length as \<le> 8 then (Falls m (L @ [ts]), 53 + 8 * length as) else (Fails ErrBadCode, 53))) = Some (out, g)"
      using x s(3) by simp
    fix ts out and d' :: nat
    let ?s = "cfg s (p + length b) ?c (rev ts @ st s)" and ?t = "cfg s (p + length b + 9) (?c + 3) (?n # rev ts)"
    assume k: "Some (if length as \<le> 8 then (Falls m (L @ [ts]), 53 + 8 * length as) else (Fails ErrBadCode, 53)) = Some (out, d')"
      and ts: "evals (mW M) V (work s) as = Ok ts"
    have 1: "runs M 3 ?s ?t" using does_push [of ?s _ M ?n] at(2) s l evals_length [OF ts] by simp
    have "outc M (d' - 3) ?t (p + length c) out"
    proof (cases "length as \<le> 8")
      case True
      with runs_log [of ?t "p + length b + 9" M ts] at(3) evals_length [OF ts] k s show ?thesis by (auto simp: outc_def b(2) ac_simps)
    next
      case False
      with ends_log [of ?t "p + length b + 9" M "length as" "rev ts"] at(3) k n show ?thesis by (auto simp: outc_def)
    qed
    from outc_then [OF 1 _ this] k show "outc M d' ?s (p + length c) out" by (auto simp: fol_def split: if_splits)
  qed (use d s in simp_all)
qed

lemma return_ok: "stmt_ok M f (V, n) (ReturnStmt v) m L"
  unfolding stmt_ok_def fst_conv snd_conv
proof (intro allI impI)
  fix p c out g and s :: vm and VN' :: scope
  assume c: "cstmt (wstate (mW M)) p V n (ReturnStmt v) = Ok (c, VN')" "code_at M p c"
    and s: "pc s = int p" "st s = []" "work s = m" "logs s = L" and d: "sdepth (ReturnStmt v) \<le> maxStack"
    and x: "exec f (mW M) (V, n) (ReturnStmt v) m L = Some (out, g)"
  from c(1) obtain b where b: "cexpr V (wstate (mW M)) v = Ok b" "c = b @ opc RETURN" by (auto simp: rbind_eq_Ok_iff)
  have at: "code_at M p b" "code_at M (p + length b) (opc RETURN)" using c(2) by (simp_all add: b(2) code_at_append)
  show "outc M g s (p + length c) out"
  proof (rule outc_first [OF expr_runs [OF b(1) at(1) s(1)]])
    show "first (eval (mW M) V (work s) v) (ecost v) (\<lambda>y. Some (Halts m L y, 1)) = Some (out, g)" using x s(3) by simp
    fix y out and d' :: nat
    assume "Some (Halts m L y, 1) = Some (out, d')"
    then show "outc M d' (cfg s (p + length b) (ecost v) (y # st s)) (p + length c) out"
      using ends_return [OF _ at(2), of "cfg s (p + length b) (ecost v) (y # st s)" y] s by (auto simp: outc_def)
  qed (use d s in simp_all)
qed

lemma fin_ret: "ret s = 0 \<Longrightarrow> (fin s q g m L)\<lparr>ret := 0\<rparr> = fin s q g m L"
  by (cases s) (simp add: fin_def)

lemma plain_ok: "stmt_ok M f (V, n) RevertStmt m L" "stmt_ok M f (V, n) StopStmt m L"
  "stmt_ok M f (V, n) (StateDecl x) m L" "stmt_ok M f (V, n) (FnDecl x ps b) m L"
  by (auto simp: stmt_ok_def outc_def ends_revert [unfolded One_nat_def] fin_ret intro: exI ends_stop [unfolded One_nat_def])


lemma cfg_fin: "work s = m \<Longrightarrow> logs s = L \<Longrightarrow> cfg s q c [] = fin s q c m L"
  by (cases s) (simp add: cfg_def fin_def)

text \<open>A test and the branch it chooses.\<close>

lemma outc_test:
  assumes "cexpr V (wstate (mW M)) e = Ok c" "code_at M p (c @ opc ISZERO @ pushc (of_nat a) @ opc JUMPI)"
    and "pc s = int p" "st s = []" "edepth e \<le> maxStack" "a < length (mcode M)" "length (mcode M) < 2 ^ 63"
    and "first (eval (mW M) V (work s) e) (ecost e + 5) k = Some (out, g)"
    and "\<And>b out d. k b = Some (out, d) \<Longrightarrow> outc M d (cfg s (if b = 0 then a else p + length c + 11) (ecost e + 5) []) q out"
  shows "outc M g s q out"
proof -
  have at: "code_at M p c" "code_at M (p + length c) (opc ISZERO @ pushc (of_nat a) @ opc JUMPI)"
    using assms(2) code_at_append [of M p c] by blast+
  have "does M (ecost e + 5) s (rbind (eval (mW M) V (work s) e) (\<lambda>b. Ok (cfg s (if b = 0 then a else p + length c + 11) (ecost e + 5) [])))"
  proof (rule does_val [OF expr_runs [OF assms(1) at(1) assms(3)]])
    fix b show "does M 5 (cfg s (p + length c) (ecost e) (b # st s)) (Ok (cfg s (if b = 0 then a else p + length c + 11) (ecost e + 5) []))"
      using runs_unless [OF _ at(2) _ assms(6,7), of "cfg s (p + length c) (ecost e) (b # st s)" b] assms(4) by simp
  qed (use assms(4,5) in simp_all)
  from outc_first [OF this _ assms(8)] assms(9) show ?thesis by simp
qed

lemma if_ok:
  assumes len: "length (mcode M) < 2 ^ 63"
    and th: "stmts_ok M f (V, n) th m L" and el: "stmts_ok M f (scopes_after (wstate (mW M)) (V, n) th) el m L"
  shows "stmt_ok M f (V, n) (IfStmt e th el) m L"
  unfolding stmt_ok_def fst_conv snd_conv
proof (intro allI impI)
  fix p c out g and s :: vm and VN' :: scope
  assume c: "cstmt (wstate (mW M)) p V n (IfStmt e th el) = Ok (c, VN')" "code_at M p c" "p + length c < length (mcode M)"
    and s: "pc s = int p" "st s = []" "ret s = 0" "work s = m" "logs s = L" and d: "sdepth (IfStmt e th el) \<le> maxStack"
    and x: "exec f (mW M) (V, n) (IfStmt e th el) m L = Some (out, g)"
  from c(1) obtain b a1 VN1 a2 where b: "cexpr V (wstate (mW M)) e = Ok b"
    "cstmts (wstate (mW M)) (p + length b + 11) V n th = Ok (a1, VN1)"
    "cstmts (wstate (mW M)) (p + length b + length a1 + 21) (fst VN1) (snd VN1) el = Ok (a2, VN')"
    "c = (b @ opc ISZERO @ pushc (of_nat (p + length b + length a1 + 21)) @ opc JUMPI) @ a1
           @ (pushc (of_nat (p + length c)) @ opc JUMP) @ a2"
    by (auto simp: rbind_eq_Ok_iff ac_simps)
  have sc: "scopes_after (wstate (mW M)) (V, n) th = VN1" using cstmt_scope(2) b(2) by (metis surj_pair)
  let ?t = "b @ opc ISZERO @ pushc (of_nat (p + length b + length a1 + 21)) @ opc JUMPI" and ?j = "pushc (of_nat (p + length c)) @ opc JUMP"
  have lc: "length c = length b + length a1 + length a2 + 21" using arg_cong [OF b(4), of length] by simp
  have "code_at M p (?t @ a1 @ ?j @ a2)" using c(2) b(4) by simp
  then have at: "code_at M p ?t" "code_at M (p + length b + 11) a1" "code_at M (p + length b + 11 + length a1) ?j" "code_at M (p + length b + length a1 + 21) a2"
    unfolding code_at_append [of M p ?t] code_at_append [of M "p + length ?t" a1] code_at_append [of M "p + length ?t + length a1" ?j]
    by (simp_all add: ac_simps)
  show "outc M g s (p + length c) out"
  proof (rule outc_test [OF b(1) at(1) s(1,2)])
    show "first (eval (mW M) V (work s) e) (ecost e + 5) (\<lambda>b. if b \<noteq> 0 then andthen (execs f (mW M) (V, n) th m L) (\<lambda>m L. Some (Falls m L, 4))
       else execs f (mW M) VN1 el m L) = Some (out, g)"
      using x s(4) sc by (simp cong: if_cong)
    fix i out and d' :: nat
    let ?s = "cfg s (if i = 0 then p + length b + length a1 + 21 else p + length b + 11) (ecost e + 5) []"
    assume k: "(if i \<noteq> 0 then andthen (execs f (mW M) (V, n) th m L) (\<lambda>m L. Some (Falls m L, 4)) else execs f (mW M) VN1 el m L) = Some (out, d')"
    show "outc M d' ?s (p + length c) out"
    proof (cases "i = 0")
      case True
      then have "execs f (mW M) VN1 el m L = Some (out, d')" using k by simp
      with True s show ?thesis by (intro stmts_okD [OF _ b(3) _ at(4)]) (use el c(3) d in \<open>simp_all add: sc lc\<close>)
    next
      case False
      show ?thesis
      proof (rule outc_andthen)
        show "andthen (execs f (mW M) (V, n) th m L) (\<lambda>m L. Some (Falls m L, 4)) = Some (out, d')" using k False by simp
        show "outc M d'' ?s (p + length b + 11 + length a1) out" if "execs f (mW M) (V, n) th m L = Some (out, d'')" for out d''
          by (rule stmts_okD [where VN = "(V, n)" and f = f and ts = th, OF _ _ _ at(2)]) (use th b(2) c(3) d s False that in \<open>simp_all add: lc\<close>)
        fix m' L' c' o2 and d2 :: nat
        let ?r = "fin ?s (p + length b + 11 + length a1) c' m' L'"
        assume "Some (Falls m' L', 4) = Some (o2, d2)"
        moreover have "runs M 4 ?r (cfg ?r (p + length c) 4 [])"
          by (rule runs_jump [OF _ at(3) _ _ len]) (use c(3) in simp_all)
        ultimately show "outc M d2 ?r (p + length c) o2" by (auto simp: outc_def cfg_fin)
      qed
    qed
  qed (use d len c(3) lc in simp_all)
qed


lemma while_ok:
  assumes len: "length (mcode M) < 2 ^ 63"
    and bd: "\<And>f'. f = Suc f' \<Longrightarrow> stmts_ok M f' (V, n) bd m L" and wh: "\<And>f' m L. f = Suc f' \<Longrightarrow> stmt_ok M f' (V, n) (WhileStmt e bd) m L"
  shows "stmt_ok M f (V, n) (WhileStmt e bd) m L"
  unfolding stmt_ok_def fst_conv snd_conv
proof (intro allI impI)
  fix p c out g and s :: vm and VN' :: scope
  assume c: "cstmt (wstate (mW M)) p V n (WhileStmt e bd) = Ok (c, VN')" "code_at M p c" "p + length c < length (mcode M)"
    and s: "pc s = int p" "st s = []" "ret s = 0" "work s = m" "logs s = L" and d: "sdepth (WhileStmt e bd) \<le> maxStack"
    and x: "exec f (mW M) (V, n) (WhileStmt e bd) m L = Some (out, g)"
  from c(1) obtain b a where b: "cexpr V (wstate (mW M)) e = Ok b"
    "cstmts (wstate (mW M)) (p + length b + 11) V n bd = Ok (a, VN')"
    "c = (b @ opc ISZERO @ pushc (of_nat (p + length c)) @ opc JUMPI) @ a @ pushc (of_nat p) @ opc JUMP"
    by (auto simp: rbind_eq_Ok_iff ac_simps)
  let ?t = "b @ opc ISZERO @ pushc (of_nat (p + length c)) @ opc JUMPI" and ?j = "pushc (of_nat p) @ opc JUMP"
  let ?k = "\<lambda>i. if i = 0 then Some (Falls m L, 0) else (case f of 0 \<Rightarrow> None | Suc f' \<Rightarrow> andthen (execs f' (mW M) (V, n) bd m L) (\<lambda>m L.
     map_option (map_prod id ((+) 4)) (exec f' (mW M) (V, n) (WhileStmt e bd) m L)))"
  have lc: "length c = length b + length a + 21" using arg_cong [OF b(3), of length] by simp
  have "code_at M p (?t @ a @ ?j)" using c(2) b(3) by simp
  then have at: "code_at M p ?t" "code_at M (p + length b + 11) a" "code_at M (p + length b + 11 + length a) ?j"
    unfolding code_at_append [of M p ?t] code_at_append [of M "p + length ?t" a] by (simp_all add: ac_simps)
  show "outc M g s (p + length c) out"
  proof (rule outc_test [OF b(1) at(1) s(1,2)])
    show "first (eval (mW M) V (work s) e) (ecost e + 5) ?k = Some (out, g)"
      using x s(4) by (simp cong: if_cong)
    fix i out and d' :: nat
    let ?s = "cfg s (if i = 0 then p + length c else p + length b + 11) (ecost e + 5) []"
    assume k: "?k i = Some (out, d')"
    show "outc M d' ?s (p + length c) out"
    proof (cases "i = 0")
      case True
      have "fin ?s (p + length c) 0 m L = ?s" using s True by (cases s) (simp add: fin_def cfg_def)
      with True k show ?thesis by (auto simp: outc_def runs_refl)
    next
      case False
      with k obtain f' where f: "f = Suc f'" by (cases f) simp_all
      show ?thesis
      proof (rule outc_andthen)
        show "andthen (execs f' (mW M) (V, n) bd m L) (\<lambda>m L. map_option (map_prod id ((+) 4)) (exec f' (mW M) (V, n) (WhileStmt e bd) m L)) = Some (out, d')"
          using k False f by simp
        show "outc M d'' ?s (p + length b + 11 + length a) out" if "execs f' (mW M) (V, n) bd m L = Some (out, d'')" for out d''
          by (rule stmts_okD [where VN = "(V, n)" and f = f' and ts = bd, OF _ _ _ at(2)]) (use bd [OF f] b(2) c(3) d s False that in \<open>simp_all add: lc\<close>)
        fix m' L' c' o2 and d2 :: nat
        let ?r = "fin ?s (p + length b + 11 + length a) c' m' L'"
        assume "map_option (map_prod id ((+) 4)) (exec f' (mW M) (V, n) (WhileStmt e bd) m' L') = Some (o2, d2)"
        then obtain d3 where w: "exec f' (mW M) (V, n) (WhileStmt e bd) m' L' = Some (o2, d3)" "d2 = 4 + d3" by auto
        have j: "runs M 4 ?r (cfg ?r p 4 [])"
          by (rule runs_jump [OF _ at(3) _ _ len]) (use c(3) in simp_all)
        have "outc M d3 (cfg ?r p 4 []) (p + length c) o2"
          by (rule stmt_okD [where VN = "(V, n)" and f = f' and t = "WhileStmt e bd", OF _ _ _ c(2,3)]) (use wh [OF f] c(1) d s w(1) in simp_all)
        from outc_then [OF j _ this] show "outc M d2 ?r (p + length c) o2" by (simp add: w(2))
      qed
    qed
  qed (use d len c(3) in simp_all)
qed

lemma stmts_ok_Cons:
  assumes "stmt_ok M f (V, n) t m L" "\<And>m L. stmts_ok M f (scope_after (wstate (mW M)) (V, n) t) ts m L"
  shows "stmts_ok M f (V, n) (t # ts) m L"
  unfolding stmts_ok_def fst_conv snd_conv
proof (intro allI impI)
  fix p c out g and s :: vm and VN' :: scope
  assume c: "cstmts (wstate (mW M)) p V n (t # ts) = Ok (c, VN')" "code_at M p c" "p + length c < length (mcode M)"
    and s: "pc s = int p" "st s = []" "ret s = 0" "work s = m" "logs s = L" and d: "sdepths (t # ts) \<le> maxStack"
    and x: "execs f (mW M) (V, n) (t # ts) m L = Some (out, g)"
  from c(1) obtain a VN1 b where b: "cstmt (wstate (mW M)) p V n t = Ok (a, VN1)"
    "cstmts (wstate (mW M)) (p + length a) (fst VN1) (snd VN1) ts = Ok (b, VN')" "c = a @ b"
    by (auto simp: rbind_eq_Ok_iff)
  have sc: "scope_after (wstate (mW M)) (V, n) t = VN1" using cstmt_scope(1) b(1) by (metis surj_pair)
  have at: "code_at M p a" "code_at M (p + length a) b" using c(2) by (simp_all add: b(3) code_at_append)
  show "outc M g s (p + length c) out"
  proof (rule outc_andthen)
    show "andthen (exec f (mW M) (V, n) t m L) (execs f (mW M) VN1 ts) = Some (out, g)" using x sc by simp
    show "outc M d' s (p + length a) out" if "exec f (mW M) (V, n) t m L = Some (out, d')" for out d'
      by (rule stmt_okD [where VN = "(V, n)" and f = f and t = t, OF _ _ _ at(1)]) (use assms(1) b c(3) d s that in simp_all)
    fix m' L' c' o2 and d2 :: nat
    assume "execs f (mW M) VN1 ts m' L' = Some (o2, d2)"
    then show "outc M d2 (fin s (p + length a) c' m' L') (p + length c) o2"
      by (intro stmts_okD [OF _ b(2) _ at(2)]) (use assms(2) b(3) c(3) d s sc in simp_all)
  qed
qed

lemma stmts_ok_Nil: "stmts_ok M f (V, n) [] m L"
proof -
  have e: "fin s p 0 (work s) (logs s) = s" if "pc s = int p" "st s = []" for s p using that by (cases s) (simp add: fin_def)
  have "runs M 0 s (fin s p 0 (work s) (logs s))" if "pc s = int p" "st s = []" for s p using runs_refl [of M s] e [OF that] by simp
  then show ?thesis by (auto simp: stmts_ok_def outc_def)
qed

lemma all_ok_level:
  assumes len: "length (mcode M) < 2 ^ 63"
    and sub: "\<And>f' VN t m L. f = Suc f' \<Longrightarrow> stmt_ok M f' VN t m L" "\<And>f' VN ts m L. f = Suc f' \<Longrightarrow> stmts_ok M f' VN ts m L"
  shows "S = wstate (mW M) \<Longrightarrow> stmt_ok M f VN t m L" "S = wstate (mW M) \<Longrightarrow> stmts_ok M f VN ts m L"
proof (induction S VN t and S VN ts arbitrary: m L and m L rule: scope_after_scopes_after.induct)
  case (2 S VN e th el)
  then show ?case by (cases VN) (auto intro: if_ok [OF len])
next
  case (3 S VN e bd)
  then show ?case by (cases VN) (auto intro: while_ok [OF len] sub)
next
  case (6 S VN t ts)
  then show ?case by (cases VN) (auto intro: stmts_ok_Cons)
qed (use let_ok index_ok store_ok require_ok [OF len] emit_ok [OF len] return_ok plain_ok stmts_ok_Nil in \<open>metis surj_pair\<close>)+

lemma all_ok:
  assumes "length (mcode M) < 2 ^ 63"
  shows "stmt_ok M f VN t m L \<and> stmts_ok M f VN ts m L"
proof (induction f arbitrary: VN t ts m L)
  case 0
  then show ?case using all_ok_level [OF assms, of 0] by blast
next
  case (Suc f)
  then show ?case using all_ok_level [OF assms, of "Suc f"] by blast
qed

section \<open>More fuel does not change a meaning\<close>

declare exec.simps(7) [simp del]

lemma first_mono: "first r c k = Some x \<Longrightarrow> (\<And>v y. r = Ok v \<Longrightarrow> k v = Some y \<Longrightarrow> k' v = Some y) \<Longrightarrow> first r c k' = Some x"
  by (cases r) (auto simp: first_def)

lemma andthen_mono:
  "andthen r k = Some x \<Longrightarrow> (\<And>y. r = Some y \<Longrightarrow> r' = Some y) \<Longrightarrow> (\<And>m L c y. r = Some (Falls m L, c) \<Longrightarrow> k m L = Some y \<Longrightarrow> k' m L = Some y) \<Longrightarrow> andthen r' k' = Some x"
  by (cases r) (fastforce simp: andthen_def split: outcome.splits)+

lemma exec_mono:
  "exec f W VN t m L = Some x \<Longrightarrow> f \<le> f' \<Longrightarrow> exec f' W VN t m L = Some x"
  "execs f W VN ts m L = Some x \<Longrightarrow> f \<le> f' \<Longrightarrow> execs f' W VN ts m L = Some x"
proof (induction f W VN t m L and f W VN ts m L arbitrary: x f' and x f' rule: exec_execs.induct)
  case (6 f W VN e th el m L)
  show ?case
  proof (rule trans [OF exec.simps(6) first_mono [OF trans [OF exec.simps(6) [symmetric] 6(3)]]])
    fix v y
    assume v: "eval W (fst VN) m e = Ok v"
      and y: "(if v \<noteq> 0 then andthen (execs f W VN th m L) (\<lambda>m L. Some (Falls m L, 4)) else execs f W (scopes_after (wstate W) VN th) el m L) = Some y"
    show "(if v \<noteq> 0 then andthen (execs f' W VN th m L) (\<lambda>m L. Some (Falls m L, 4)) else execs f' W (scopes_after (wstate W) VN th) el m L) = Some y"
    proof (cases "v = 0")
      case False
      then have "andthen (execs f W VN th m L) (\<lambda>m L. Some (Falls m L, 4)) = Some y" using y by simp
      then have "andthen (execs f' W VN th m L) (\<lambda>m L. Some (Falls m L, 4)) = Some y"
        by (rule andthen_mono) (rule 6(1) [OF v False _ 6(4)], assumption)
      with False show ?thesis by simp
    next
      case True
      then have z: "\<not> v \<noteq> 0" "execs f W (scopes_after (wstate W) VN th) el m L = Some y" using y by simp_all
      have "execs f' W (scopes_after (wstate W) VN th) el m L = Some y" by (rule 6(2) [OF v z 6(4)])
      with True show ?thesis by simp
    qed
  qed
next
  case (7 f W VN e bd m L)
  show ?case
  proof (rule trans [OF exec.simps(7) first_mono [OF trans [OF exec.simps(7) [symmetric] 7(3)]]])
    fix v y
    assume v: "eval W (fst VN) m e = Ok v"
      and y: "(if v = 0 then Some (Falls m L, 0) else case f of 0 \<Rightarrow> None | Suc g \<Rightarrow> andthen (execs g W VN bd m L)
        (\<lambda>m L. map_option (map_prod id ((+) 4)) (exec g W VN (WhileStmt e bd) m L))) = Some y"
    show "(if v = 0 then Some (Falls m L, 0) else case f' of 0 \<Rightarrow> None | Suc g \<Rightarrow> andthen (execs g W VN bd m L)
        (\<lambda>m L. map_option (map_prod id ((+) 4)) (exec g W VN (WhileStmt e bd) m L))) = Some y"
    proof (cases "v = 0")
      case False
      with y have "f \<noteq> 0" by (intro notI) simp
      then obtain g where f: "f = Suc g" by (auto simp: gr0_conv_Suc)
      with 7(4) obtain g' where g: "f = Suc g" "f' = Suc g'" "g \<le> g'" by (cases f') simp_all
      from y False have "andthen (execs g W VN bd m L) (\<lambda>m L. map_option (map_prod id ((+) 4)) (exec g W VN (WhileStmt e bd) m L)) = Some y"
        unfolding g(1) if_not_P [OF False] by simp
      then have "andthen (execs g' W VN bd m L) (\<lambda>m L. map_option (map_prod id ((+) 4)) (exec g' W VN (WhileStmt e bd) m L)) = Some y"
      proof (rule andthen_mono)
        fix y assume "execs g W VN bd m L = Some y"
        then show "execs g' W VN bd m L = Some y" by (rule 7(1) [OF v False g(1) _ g(3)])
      next
        fix m' L' c y
        assume b: "execs g W VN bd m L = Some (Falls m' L', c)" and y: "map_option (map_prod id ((+) 4)) (exec g W VN (WhileStmt e bd) m' L') = Some y"
        from y obtain z where z: "exec g W VN (WhileStmt e bd) m' L' = Some z" "y = map_prod id ((+) 4) z" by (auto simp del: exec.simps execs.simps)
        have "exec g' W VN (WhileStmt e bd) m' L' = Some z" by (rule 7(2) [OF v False g(1) b z(1) g(3)])
        then show "map_option (map_prod id ((+) 4)) (exec g' W VN (WhileStmt e bd) m' L') = Some y" by (simp add: z(2) del: exec.simps execs.simps)
      qed
      with False g show ?thesis by (simp del: exec.simps execs.simps)
    qed (use y in \<open>simp del: exec.simps execs.simps\<close>)
  qed
next
  case (14 f W VN t ts m L)
  from 14(3) show ?case unfolding execs.simps by (rule andthen_mono) (use 14(1,2,4) in blast)+
qed (simp_all del: scope_after.simps)

end
