(* ===== verification/SL_ShlProg.thy ===== *)
theory SL_ShlProg
  imports SL_ShlExec
begin

text \<open>
  Whole contracts: the statements outside functions run first, then the first word of the input selects a
  function, its parameters are read from the following words and its body runs.  The theorem at the end is
  the correctness of \<^verbatim>\<open>shl.Compile\<close> with respect to \<^verbatim>\<open>vm.ExecuteB\<close>.
\<close>

section \<open>Meaning of a contract\<close>

primrec bind_args :: "world \<Rightarrow> nat \<Rightarrow> scope \<Rightarrow> string list \<Rightarrow> cells \<Rightarrow> (vm_error, cells) result" where
  "bind_args W i VN [] m = Ok m"
| "bind_args W i VN (x # xs) m =
     rbind (vm_word (winput W) (of_nat (i + 1))) (\<lambda>v.
       bind_args W (Suc i) (bind_name x VN) xs (AList.update (slot_of (fst (bind_name x VN)) x) v m))"

definition call_fn :: "nat \<Rightarrow> world \<Rightarrow> fn \<Rightarrow> cells \<Rightarrow> u64 list list \<Rightarrow> (outcome \<times> nat) option" where
  "call_fn f W fd m L =
     (case fd of (_, ps, b) \<Rightarrow>
        first (bind_args W 0 ([], localBase) ps m) (1 + 107 * length ps) (\<lambda>m.
          andthen (execs f W (fold bind_name ps ([], localBase)) b m L) (\<lambda>m L. Some (Halts m L 0, 1))))"

primrec route :: "nat \<Rightarrow> world \<Rightarrow> u64 \<Rightarrow> fn list \<Rightarrow> cells \<Rightarrow> u64 list list \<Rightarrow> (outcome \<times> nat) option" where
  "route f W sel [] m L = Some (Fails ErrRevert, 2)"
| "route f W sel (fd # fds) m L =
     map_option (map_prod id ((+) 9)) (if sel = Selector (wH W) (fst fd) then call_fn f W fd m L else route f W sel fds m L)"

definition meaning :: "nat \<Rightarrow> (bytes \<Rightarrow> hash) \<Rightarrow> stmt list \<Rightarrow> bytes \<Rightarrow> Context \<Rightarrow> cells \<Rightarrow> (outcome \<times> nat) option" where
  "meaning f H prog input ctx m =
     (case split_prog prog gen0 of (g, fns, flt) \<Rightarrow>
        let W = \<lparr>wH = H, winput = input, wctx = ctx, wstate = gstate g\<rparr> in
        andthen (execs f W ([], localBase) flt m []) (\<lambda>m L.
          if fns = [] then Some (Halts m L 0, 1) else first (vm_word input 0) 4 (\<lambda>sel. route f W sel fns m L)))"

lemma call_fn_mono: "call_fn f W fd m L = Some x \<Longrightarrow> f \<le> f' \<Longrightarrow> call_fn f' W fd m L = Some x"
  unfolding call_fn_def by (cases fd) (auto elim!: first_mono andthen_mono intro: exec_mono(2))

lemma route_mono: "route f W v fds m L = Some x \<Longrightarrow> f \<le> f' \<Longrightarrow> route f' W v fds m L = Some x"
  by (induction fds arbitrary: x) (auto dest: call_fn_mono)

lemma meaning_mono:
  assumes "meaning f H prog input ctx m = Some x" "f \<le> f'"
  shows "meaning f' H prog input ctx m = Some x"
proof -
  obtain g fns flt where sp: "split_prog prog gen0 = (g, fns, flt)" by (metis prod_cases3)
  show ?thesis
    using assms(1) unfolding meaning_def sp prod.case Let_def
    by (rule andthen_mono) (auto split: if_splits elim!: first_mono intro: exec_mono(2) route_mono assms(2))
qed

text \<open>What the caller of the virtual machine sees.\<close>

definition answer :: "(u64, bytes) gomap option \<Rightarrow> nat \<Rightarrow> outcome \<Rightarrow> (vm_error, cells \<times> (u64, bytes) gomap option \<times> Result) result" where
  "answer bstore c out =
     (case out of
        Falls m L \<Rightarrow> Ok (m, bstore, \<lparr>GasUsed = of_nat c, Return = 0, ReturnBytes = [], Stack = [], Logs = L\<rparr>)
      | Halts m L v \<Rightarrow> Ok (m, bstore, \<lparr>GasUsed = of_nat c, Return = v, ReturnBytes = [], Stack = [], Logs = L\<rparr>)
      | Fails e \<Rightarrow> Err e
      | Crashes \<Rightarrow> Panic)"

section \<open>Parameters and bodies\<close>

lemma does_arg:
  assumes "code_at M p (pushc a @ pushc i @ opc CDLOAD @ opc SSTORE)" "pc s = int p" "st s = []"
  shows "does M 107 s (rbind (vm_word (winput (mW M)) i) (\<lambda>v. Ok (fin s (p + 20) 107 (AList.update a v (work s)) (logs s))))"
proof -
  have at: "code_at M p (pushc a)" "code_at M (p + 9) (pushc i)" "code_at M (p + 18) (opc CDLOAD)" "code_at M (p + 19) (opc SSTORE)"
    using assms(1) unfolding code_at_append [of M p "pushc a"] code_at_append [of M "p + length (pushc a)" "pushc i"]
      code_at_append [of M "p + length (pushc a) + length (pushc i)" "opc CDLOAD"] by (simp_all add: ac_simps)
  let ?s = "cfg s (p + 9) 3 [a]" and ?t = "cfg s (p + 18) 6 [i, a]"
  have 1: "runs M 3 s ?s" using does_push [OF assms(2) at(1)] assms(3) by (simp add: maxStack_def)
  have 2: "runs M 3 ?s ?t" using does_push [of ?s "p + 9" M i] at(2) by (simp add: maxStack_def add.commute)
  have 3: "does M 101 ?t (rbind (vm_word (winput (mW M)) i) (\<lambda>v. Ok (fin s (p + 20) 107 (AList.update a v (work s)) (logs s))))"
  proof (rule does_val [OF does_cdload [of ?t "p + 18" M i "[a]"]])
    fix v
    show "does M 100 (cfg ?t (p + 18 + 1) 1 [v, a]) (Ok (fin s (p + 20) 107 (AList.update a v (work s)) (logs s)))"
      using runs_sstore [of "cfg ?t (p + 18 + 1) 1 [v, a]" "p + 19" M v a] at(4) by (simp add: fol_fin [of s 7] fol_def add.commute)
  qed (use at(3) in \<open>simp_all add: maxStack_def\<close>)
  show ?thesis by (rule does_then [OF runs_trans [OF 1 2] 3]) simp
qed

lemma does_args:
  assumes "cparams i V n ps = (c, VN')" "code_at M p c" "pc s = int p" "st s = []"
  shows "does M (107 * length ps) s (rbind (bind_args (mW M) i (V, n) ps (work s)) (\<lambda>m. Ok (fin s (p + length c) (107 * length ps) m (logs s))))
    \<and> fold bind_name ps (V, n) = VN'"
  using assms
proof (induction ps arbitrary: i V n c p s)
  case Nil
  have "fin s p 0 (work s) (logs s) = s" using Nil.prems(3,4) by (cases s) (simp add: fin_def)
  then show ?case using Nil.prems(1) runs_refl [of M s] by auto
next
  case (Cons x xs)
  obtain a V1 n1 where a: "cslot x V n = (a, V1, n1)" by (metis prod_cases3)
  then obtain b where b: "cparams (Suc i) V1 n1 xs = (b, VN')" "c = (pushc a @ pushc (of_nat (i + 1)) @ opc CDLOAD @ opc SSTORE) @ b"
    using Cons.prems(1) by (auto split: prod.splits)
  let ?i = "of_nat (i + 1) :: u64"
  let ?arg = "pushc a @ pushc ?i @ opc CDLOAD @ opc SSTORE"
  have at: "code_at M p ?arg" "code_at M (p + 20) b"
    using Cons.prems(2) code_at_append [of M p ?arg b] unfolding b(2) by simp_all
  have n1: "bind_name x (V, n) = (V1, n1)" "slot_of V1 x = a" using cslot_scope [OF a] by simp_all
  have "does M (107 * length (x # xs)) s (rbind (vm_word (winput (mW M)) ?i) (\<lambda>v. rbind (bind_args (mW M) (Suc i) (V1, n1) xs (AList.update a v (work s)))
     (\<lambda>m. Ok (fin s (p + length c) (107 * length (x # xs)) m (logs s)))))"
  proof (rule does_val [OF does_arg [OF at(1) Cons.prems(3,4)]])
    fix v
    let ?s = "fin s (p + 20) 107 (AList.update a v (work s)) (logs s)"
    show "does M (107 * length xs) ?s (rbind (bind_args (mW M) (Suc i) (V1, n1) xs (AList.update a v (work s)))
       (\<lambda>m. Ok (fin s (p + length c) (107 * length (x # xs)) m (logs s))))"
      using Cons.IH [OF b(1) at(2), of ?s] by (simp add: b(2) fol_fin [of s 107] ac_simps)
  qed simp
  then show ?case using Cons.IH [OF b(1) at(2), of "fin s (p + 20) 107 (work s) (logs s)"] n1 by (simp add: rbind_assoc)
qed

lemma runs_pop:
  "pc s = int p \<Longrightarrow> code_at M p (opc POP) \<Longrightarrow> st s = [v] \<Longrightarrow> runs M 1 s (cfg s (p + 1) 1 [])"
  by (rule runs_one [where op = POP]) (simp_all add: gas_of step_local_def exec_pop_def pop_def fetched_def cfg_def cont_def)

lemma halts_stop:
  assumes "pc s = int p" "code_at M p (opc STOP)" "st s = []" "ret s = 0" "Some (Halts (work s) (logs s) 0, 1) = Some (out, d)"
  shows "outc M d s q out"
  using ends_stop [OF assms(1-3)] assms(4,5) by (auto simp: outc_def fin_ret)

lemma fn_ok:
  assumes len: "length (mcode M) < 2 ^ 63"
    and c: "cfn (wstate (mW M)) p fd = Ok (c, VN')" "code_at M p c" and s: "pc s = int p" "st s = [v]" "ret s = 0"
    and d: "sdepths (snd (snd fd)) \<le> maxStack" and x: "call_fn f (mW M) fd (work s) (logs s) = Some (out, g)"
  shows "outc M g s q out"
proof -
  obtain nm ps b where fd: "fd = (nm, ps, b)" by (metis prod_cases3)
  obtain a V1 n1 where a: "cparams 0 [] localBase ps = (a, V1, n1)" by (metis prod_cases3)
  from c(1) obtain e where e: "cstmts (wstate (mW M)) (p + 1 + length a) V1 n1 b = Ok (e, VN')" "c = opc POP @ a @ e @ opc STOP"
    by (auto simp: cfn_def fd a rbind_eq_Ok_iff)
  have at: "code_at M p (opc POP)" "code_at M (p + 1) a" "code_at M (p + 1 + length a) e" "code_at M (p + 1 + length a + length e) (opc STOP)"
    using c(2) unfolding e(2) code_at_append by simp_all
  let ?s = "cfg s (p + 1) 1 []"
  have 1: "runs M 1 s ?s" by (rule runs_pop [OF s(1) at(1) s(2)])
  have args: "does M (107 * length ps) ?s (rbind (bind_args (mW M) 0 ([], localBase) ps (work s))
        (\<lambda>m. Ok (fin ?s (p + 1 + length a) (107 * length ps) m (logs s))))" and sc: "fold bind_name ps ([], localBase) = (V1, n1)"
    using does_args [OF a at(2), of ?s] by simp_all
  have x: "first (bind_args (mW M) 0 ([], localBase) ps (work s)) (1 + 107 * length ps) (\<lambda>m.
          andthen (execs f (mW M) (V1, n1) b m (logs s)) (\<lambda>m L. Some (Halts m L 0, 1))) = Some (out, g)"
    using x by (simp add: call_fn_def fd sc)
  show ?thesis
  proof (rule outc_first [OF does_then [OF 1 args refl] _ x])
    fix m out and d' :: nat
    let ?t = "fin ?s (p + 1 + length a) (107 * length ps) m (logs s)"
    assume k: "andthen (execs f (mW M) (V1, n1) b m (logs s)) (\<lambda>m L. Some (Halts m L 0, 1)) = Some (out, d')"
    show "outc M d' ?t q out"
    proof (rule outc_andthen [OF k])
      show "outc M d ?t (p + 1 + length a + length e) out" if "execs f (mW M) (V1, n1) b m (logs s) = Some (out, d)" for out d
        by (rule stmts_okD [where VN = "(V1, n1)" and f = f and ts = b, OF _ _ _ at(3)])
          (use all_ok [OF len] e(1) at(4) d s that in \<open>simp_all add: fd code_at_Cons\<close>)
      show "outc M d (fin ?t (p + 1 + length a + length e) c' m' L') q o2" if "Some (Halts m' L' 0, 1) = Some (o2, d)" for m' L' c' o2 d
        by (rule halts_stop [OF _ at(4)]) (use that s in simp_all)
    qed
  qed (simp add: fol_def)
qed

section \<open>The router\<close>

lemma runs_dup:
  "pc s = int p \<Longrightarrow> code_at M p (opc DUP) \<Longrightarrow> st s = [v] \<Longrightarrow> runs M 1 s (cfg s (p + 1) 1 [v, v])"
  by (rule runs_one [where op = DUP])
    (simp_all add: gas_of step_local_def exec_dup_def push_ignore_def push_def pop_def fetched_def cfg_def cont_def maxStack_def)

lemma runs_route:
  assumes "code_at M p (opc DUP @ pushc x @ opc EQ @ pushc (of_nat a) @ opc JUMPI)" "pc s = int p" "st s = [v]"
    and "a < length (mcode M)" "length (mcode M) < 2 ^ 63"
  shows "runs M 9 s (cfg s (if v = x then a else p + 21) 9 [v])"
proof -
  have at: "code_at M p (opc DUP)" "code_at M (p + 1) (pushc x)" "code_at M (p + 10) (opc EQ)" "code_at M (p + 11) (pushc (of_nat a) @ opc JUMPI)"
    using assms(1) unfolding code_at_append [of M p "opc DUP"] code_at_append [of M "p + length (opc DUP)" "pushc x"]
      code_at_append [of M "p + length (opc DUP) + length (pushc x)" "opc EQ"] by (simp_all add: ac_simps)
  have 1: "runs M 1 s (cfg s (p + 1) 1 [v, v])" by (rule runs_dup [OF assms(2) at(1) assms(3)])
  have 2: "runs M 3 (cfg s (p + 1) 1 [v, v]) (cfg s (p + 10) 4 [x, v, v])"
    using does_push [of "cfg s (p + 1) 1 [v, v]" "p + 1" M x] at(2) by (simp add: maxStack_def add.commute)
  have 3: "runs M 1 (cfg s (p + 10) 4 [x, v, v]) (cfg s (p + 11) 5 [b2u (v = x), v])"
    using does_binop [of "cfg s (p + 10) 4 [x, v, v]" "p + 10" M EQ x v "[v]"] at(3) by (simp add: maxStack_def binop_def add.commute)
  have 4: "runs M 4 (cfg s (p + 11) 5 [b2u (v = x), v]) (cfg s (if v = x then a else p + 21) 9 [v])"
    using runs_jumpi [OF _ at(4) _ assms(4,5), of "cfg s (p + 11) 5 [b2u (v = x), v]" "b2u (v = x)" "[v]"]
    by (cases "v = x") (simp_all add: maxStack_def add.commute)
  from runs_trans [OF runs_trans [OF runs_trans [OF 1 2] 3] 4] show ?thesis by simp
qed


definition placed :: "'h machine \<Rightarrow> fn \<Rightarrow> nat \<Rightarrow> bool" where
  "placed M fd a \<longleftrightarrow> (\<exists>c VN'. cfn (wstate (mW M)) a fd = Ok (c, VN') \<and> code_at M a c \<and> a < length (mcode M))"

lemma cfn_nonempty: "cfn S p fd = Ok (c, VN') \<Longrightarrow> c \<noteq> []"
  by (auto simp: cfn_def rbind_eq_Ok_iff split: prod.splits)

lemma cfns_length: "cfns S p fds = Ok (as, c) \<Longrightarrow> length as = length fds"
  by (induction fds arbitrary: p as c) (auto simp: rbind_eq_Ok_iff)

lemma crouter_length: "length as = length fds \<Longrightarrow> length (crouter H fds as) = 21 * length fds"
  by (induction as fds rule: list_induct2) (simp_all add: crouter_def)

lemma cfns_placed:
  "cfns (wstate (mW M)) p fds = Ok (as, c) \<Longrightarrow> code_at M p c \<Longrightarrow> list_all2 (placed M) fds as"
proof (induction fds arbitrary: p as c)
  case (Cons fd fds)
  from Cons.prems(1) obtain a VN' as' b where b: "cfn (wstate (mW M)) p fd = Ok (a, VN')" "cfns (wstate (mW M)) (p + length a) fds = Ok (as', b)"
    "as = p # as'" "c = a @ b"
    by (auto simp: rbind_eq_Ok_iff)
  have at: "code_at M p a" "code_at M (p + length a) b" using Cons.prems(2) by (simp_all add: b(4) code_at_append)
  have "p < length (mcode M)" using code_at_bytes(2) [OF at(1)] cfn_nonempty [OF b(1)] by (cases a) simp_all
  with Cons.IH [OF b(2) at(2)] b(1,3) at(1) show ?case by (auto simp: placed_def)
qed simp

lemma route_ok:
  assumes len: "length (mcode M) < 2 ^ 63"
    and pl: "list_all2 (placed M) fds as" and at: "code_at M p (crouter (wH (mW M)) fds as @ opc POP @ opc REVERT)"
    and s: "pc s = int p" "st s = [v]" "ret s = 0" and d: "\<forall>fd\<in>set fds. sdepths (snd (snd fd)) \<le> maxStack"
    and x: "route f (mW M) v fds (work s) (logs s) = Some (out, g)"
  shows "outc M g s q out"
  using pl at s d x
proof (induction fds as arbitrary: p s g rule: list_all2_induct)
  case Nil
  then have at: "code_at M p (opc POP)" "code_at M (p + 1) (opc REVERT)" using code_at_append [of M p "opc POP" "opc REVERT"] by (simp_all add: crouter_def)
  from ends_trans [OF runs_pop [OF Nil(2) at(1) Nil(3)] ends_revert [OF _ at(2)], of 2] Nil show ?case by (auto simp: outc_def)
next
  case (Cons fd fds a as)
  let ?e = "opc DUP @ pushc (Selector (wH (mW M)) (fst fd)) @ opc EQ @ pushc (of_nat a) @ opc JUMPI"
  have at: "code_at M p ?e" "code_at M (p + 21) (crouter (wH (mW M)) fds as @ opc POP @ opc REVERT)"
    using Cons.prems(1) code_at_append [of M p ?e "crouter (wH (mW M)) fds as @ opc POP @ opc REVERT"] by (simp_all add: crouter_def)
  from Cons.hyps(1) obtain c VN' where c: "cfn (wstate (mW M)) a fd = Ok (c, VN')" "code_at M a c" "a < length (mcode M)" by (auto simp: placed_def)
  let ?h = "v = Selector (wH (mW M)) (fst fd)"
  let ?s = "cfg s (if ?h then a else p + 21) 9 [v]"
  have 1: "runs M 9 s ?s" by (rule runs_route [OF at(1) Cons.prems(2,3) c(3) len])
  from Cons.prems(6) obtain g' where g: "(if ?h then call_fn f (mW M) fd (work s) (logs s) else route f (mW M) v fds (work s) (logs s)) = Some (out, g')" "g = 9 + g'"
    by (auto split: if_splits)
  have "outc M g' ?s q out"
  proof (cases ?h)
    case True
    then show ?thesis using fn_ok [OF len c(1,2), of ?s v f out g' q] Cons.prems g(1) by simp
  next
    case False
    then show ?thesis using Cons.IH [of "p + 21" ?s g'] at(2) Cons.prems g(1) by simp
  qed
  from outc_then [OF 1 _ this] show ?case by (simp add: g(2))
qed

lemma dispatch_ok:
  assumes len: "length (mcode M) < 2 ^ 63"
    and c: "cdispatch (wH (mW M)) (wstate (mW M)) p fns = Ok c" "code_at M p c" and s: "pc s = int p" "st s = []" "ret s = 0"
    and d: "\<forall>fd\<in>set fns. sdepths (snd (snd fd)) \<le> maxStack"
    and x: "first (vm_word (winput (mW M)) 0) 4 (\<lambda>sel. route f (mW M) sel fns (work s) (logs s)) = Some (out, g)"
  shows "outc M g s q out"
proof -
  let ?H = "wH (mW M)"
  from c(1) obtain as b where b: "cfns (wstate (mW M)) (p + 21 * length fns + 12) fns = Ok (as, b)"
    "c = pushc 0 @ opc CDLOAD @ (crouter ?H fns as @ opc POP @ opc REVERT) @ b"
    by (auto simp: cdispatch_def rbind_eq_Ok_iff)
  have las: "length as = length fns" using b(1) by (rule cfns_length)
  have at: "code_at M p (pushc 0)" "code_at M (p + 9) (opc CDLOAD)" "code_at M (p + 10) (crouter ?H fns as @ opc POP @ opc REVERT)"
    "code_at M (p + 21 * length fns + 12) b"
    using c(2) unfolding b(2) code_at_append [of M p "pushc 0"] code_at_append [of M "p + length (pushc 0)" "opc CDLOAD"]
      code_at_append [of M "p + length (pushc 0) + length (opc CDLOAD)" "crouter ?H fns as @ opc POP @ opc REVERT"]
    by (simp_all add: crouter_length las ac_simps)
  have 1: "runs M 3 s (cfg s (p + 9) 3 [0])" using does_push [OF s(1) at(1)] s(2) by (simp add: maxStack_def)
  have 2: "does M 1 (cfg s (p + 9) 3 [0]) (rbind (vm_word (winput (mW M)) 0) (\<lambda>v. Ok (cfg s (p + 10) 4 [v])))"
    using does_cdload [of "cfg s (p + 9) 3 [0]" "p + 9" M 0 "[]"] at(2) by (simp add: maxStack_def add.commute)
  have 3: "does M 4 s (rbind (vm_word (winput (mW M)) 0) (\<lambda>v. Ok (cfg s (p + 10) 4 [v])))" by (rule does_then [OF 1 2]) simp
  show ?thesis
  proof (rule outc_first [OF 3 _ x])
    fix v out and d' :: nat
    assume "route f (mW M) v fns (work s) (logs s) = Some (out, d')"
    then show "outc M d' (cfg s (p + 10) 4 [v]) q out"
      by (intro route_ok [OF len _ at(3)]) (use cfns_placed [OF b(1) at(4)] s d in simp_all)
  qed simp
qed

lemma split_depth:
  "split_prog prog g = (g', fns, flt) \<Longrightarrow> sdepths prog \<le> k \<Longrightarrow> sdepths flt \<le> k \<and> (\<forall>fd\<in>set fns. sdepths (snd (snd fd)) \<le> k)"
  by (induction prog g arbitrary: g' fns flt rule: split_prog.induct) (auto split: prod.splits)

section \<open>The compiler is correct\<close>

lemma outc_ExecuteB:
  assumes "outc M c (vm_init storage bstore) q out" "\<nexists>m L. out = Falls m L" "c \<le> unat (mgas M)" "c \<le> 1000000"
  shows "ExecuteB (wH (mW M)) (mhost M) (mcode M) (winput (mW M)) storage bstore (mgas M) (wctx (mW M)) (mh M) = (mh M, answer bstore c out)"
proof -
  have b: "map_option (\<lambda>_. case bstore of None \<Rightarrow> [] | Some b \<Rightarrow> b) bstore = bstore" by (cases bstore) simp_all
  have e: "vgo M 0 (vm_init storage bstore) = (mh M, r)" if "ends M c (vm_init storage bstore) r" for r
    using that assms(3,4) by (simp add: ends_def vm_init_def maxSteps_def)
  show ?thesis
    using assms(1,2) e b unfolding ExecuteB_def
    by (cases out) (auto simp: outc_def vgo_def answer_def commitB_def vm_init_def fin_def)
qed

definition falls :: "(outcome \<times> nat) option \<Rightarrow> bool" where
  "falls r \<longleftrightarrow> (\<exists>m L c. r = Some (Falls m L, c))"

lemma falls_simps [simp]:
  "\<not> falls (Some (Halts m L v, c))" "\<not> falls (Some (Fails e, c))" "\<not> falls (Some (Crashes, c))"
  "falls (map_option (map_prod id h) r) = falls r"
  by (auto simp: falls_def)

lemma falls_first [simp]: "falls (first r c k) \<longleftrightarrow> (\<exists>v. r = Ok v \<and> falls (k v))"
  by (cases r) (simp_all add: first_def)

lemma falls_andthen [simp]: "falls (andthen r k) \<longleftrightarrow> (\<exists>m L c. r = Some (Falls m L, c) \<and> falls (k m L))"
  by (auto simp: andthen_def falls_def split: option.splits outcome.splits)

lemma route_no_fall [simp]: "\<not> falls (route f W v fds m L)"
  by (induction fds) (auto simp: call_fn_def split: prod.splits)

lemma meaning_no_fall: "\<not> falls (meaning f H prog input ctx m)"
  by (auto simp: meaning_def Let_def split: prod.splits if_splits)

lemma Compile_runs:
  assumes "Parse src = Some (Ok prog)" "Compile H src = Some (Ok code)" "length code < 2 ^ 63" "sdepths prog \<le> maxStack"
    and "meaning f H prog input ctx storage = Some (out, c)" "c \<le> unat gas" "c \<le> 1000000"
  shows "ExecuteB H host code input storage bstore gas ctx h = (h, answer bstore c out)"
proof -
  obtain g fns flt where sp: "split_prog prog gen0 = (g, fns, flt)" by (metis prod_cases3)
  let ?W = "\<lparr>wH = H, winput = input, wctx = ctx, wstate = gstate g\<rparr>"
  let ?M = "\<lparr>mW = ?W, mhost = host, mcode = code, mgas = gas, mh = h\<rparr>" and ?s = "vm_init storage bstore"
  have len: "length (mcode ?M) < 2 ^ 63" using assms(3) by simp
  have "direct H prog = Ok code" using assms(1,2) compile_direct [of H prog] by (simp add: Compile_def)
  then obtain a VN b where cd: "cstmts (wstate (mW ?M)) 0 [] localBase flt = Ok (a, VN)"
    "(if fns = [] then Ok [] else cdispatch H (gstate g) (length a) fns) = Ok b" "code = a @ b @ opc STOP"
    by (auto simp: direct_def sp rbind_eq_Ok_iff)
  have at: "code_at ?M 0 a" "code_at ?M (length a) b" "code_at ?M (length a + length b) (opc STOP)"
    using code_at_append [of ?M 0 a "b @ opc STOP"] code_at_append [of ?M "length a" b "opc STOP"] by (auto simp: code_at_def cd(3))
  have dp: "sdepths flt \<le> maxStack" "\<forall>fd\<in>set fns. sdepths (snd (snd fd)) \<le> maxStack" using split_depth [OF sp assms(4)] by simp_all
  let ?k = "\<lambda>m L. if fns = [] then Some (Halts m L 0, 1) else first (vm_word input 0) 4 (\<lambda>sel. route f ?W sel fns m L)"
  have x: "andthen (execs f ?W ([], localBase) flt storage []) ?k = Some (out, c)" using assms(5) by (simp add: meaning_def sp Let_def)
  have "outc ?M c ?s 0 out"
  proof (rule outc_andthen [OF x])
    show "outc ?M d ?s (length a) out" if "execs f ?W ([], localBase) flt storage [] = Some (out, d)" for out d
      by (rule stmts_okD [where VN = "([], localBase)" and f = f and ts = flt, OF _ _ _ at(1)])
        (use all_ok [OF len] cd dp(1) that in \<open>simp_all add: vm_init_def\<close>)
    fix m L c' o2 and d2 :: nat
    assume k: "?k m L = Some (o2, d2)"
    show "outc ?M d2 (fin ?s (length a) c' m L) 0 o2"
    proof (cases "fns = []")
      case True
      then show ?thesis by (intro halts_stop [OF _ at(3)]) (use cd(2) k in \<open>simp_all add: vm_init_def\<close>)
    next
      case False
      then show ?thesis
        by (intro dispatch_ok [OF len _ at(2)]) (use cd(2) k dp(2) in \<open>simp_all add: vm_init_def\<close>)
    qed
  qed
  from outc_ExecuteB [OF this] meaning_no_fall [of f H prog input ctx storage] assms(5-7) show ?thesis by (simp add: falls_def)
qed


text \<open>
  C4. The compiler is correct: for every source text that compiles to less than \<open>2^63\<close> bytes of code and whose
  expressions need no more than \<open>maxStack\<close> words of stack, if the contract's meaning on an input, a context and a
  storage is \<open>out\<close> at the cost \<open>c\<close>, then the machine given at least \<open>c\<close> gas, and \<open>c\<close> at most \<open>maxSteps\<close>,
  runs the compiled code to exactly that: the same storage, events and return value and \<open>c\<close> gas used, or the
  same error, with the host untouched.
\<close>

theorem Compile_correct:
  assumes "Parse src = Some (Ok prog)" "Compile H src = Some (Ok code)" "length code < 2 ^ 63" "sdepths prog \<le> maxStack"
    and "meaning f H prog input ctx storage = Some (out, c)" "c \<le> unat gas" "c \<le> 1000000"
  shows "ExecuteB H host code input storage bstore gas ctx h = (h, answer bstore c out)"
  by (rule Compile_runs [OF assms])

text \<open>A contract with one function, called with its selector and an argument; the digest pads its input.\<close>

definition padH :: "bytes \<Rightarrow> hash" where
  "padH x = take 32 (1 # x @ replicate 31 0)"

definition demo_src :: string where
  "demo_src = ''state total; fn add(n) { require(n > 0); total = total + n; emit(n); return total; }''"

definition demo_prog :: "stmt list" where
  "demo_prog =
     [StateDecl ''total'',
      FnDecl ''add'' [''n'']
        [RequireStmt (Binary ''>'' (Var ''n'') (Num 0)), LetStmt ''total'' (Binary ''+'' (Var ''total'') (Var ''n'')),
         EmitStmt [Var ''n''], ReturnStmt (Var ''total'')]]"

definition demo_code :: bytes where
  "demo_code = (case Compile padH demo_src of Some (Ok c) \<Rightarrow> c | _ \<Rightarrow> [])"

definition demo_input :: "u64 \<Rightarrow> bytes" where
  "demo_input n = put_u64 (Selector padH ''add'') @ put_u64 n"

lemma demo_parse: "Parse demo_src = Some (Ok demo_prog)"
  by code_simp

lemma demo_compile: "Compile padH demo_src = Some (Ok demo_code)" "length demo_code < 2 ^ 50"
proof -
  have "\<exists>c. direct H demo_prog = Ok c \<and> length c < 2 ^ 50" for H
    by (simp add: direct_def demo_prog_def gen0_def declState_def cdispatch_def cfn_def cslot_def cop_def cvar_def crouter_def)
  then obtain c where "direct padH demo_prog = Ok c" "length c < 2 ^ 50" by blast
  then show "Compile padH demo_src = Some (Ok demo_code)" "length demo_code < 2 ^ 50"
    using compile_direct [of padH demo_prog] demo_parse by (simp_all add: Compile_def demo_code_def)
qed

lemma demo_meaning:
  "meaning 0 padH demo_prog (demo_input 3) ctx0 [] = Some (Halts [(localBase, 3), (stateBase, 3)] [[3]] 3, 410)"
  by code_simp

theorem Compile_correct_witness:
  "Parse demo_src = Some (Ok demo_prog) \<and> Compile padH demo_src = Some (Ok demo_code) \<and>
   ExecuteB padH (None :: unit host option) demo_code (demo_input 3) [] None 1000 ctx0 ()
     = ((), Ok ([(localBase, 3), (stateBase, 3)], None,
          \<lparr>GasUsed = 410, Return = 3, ReturnBytes = [], Stack = [], Logs = [[3]]\<rparr>))"
proof -
  have d: "sdepths demo_prog \<le> maxStack" by code_simp
  have "length demo_code < 2 ^ 63" using demo_compile(2) by simp
  from Compile_correct [OF demo_parse demo_compile(1) this d demo_meaning, of 1000 None None "()"] show ?thesis
    using demo_parse demo_compile(1) by (simp add: answer_def)
qed

end
