(* ===== verification/SL_ShlGas.thy ===== *)
theory SL_ShlGas
  imports SL_ShlProg
begin

text \<open>
  \<^verbatim>\<open>Estimate\<close> against what contracts use.  Every instruction of the code is priced once, also those of branches
  that are not taken: for a contract without loops the estimate is an upper bound of the gas of every call,
  whatever the input and the storage, and a call given that much gas never runs out of it.
\<close>

section \<open>Price of the source\<close>

fun loop_free :: "stmt \<Rightarrow> bool" and loops_free :: "stmt list \<Rightarrow> bool" where
  "loop_free (WhileStmt e bd) = False"
| "loop_free (IfStmt e th el) = (loops_free th \<and> loops_free el)"
| "loop_free (FnDecl x ps b) = loops_free b"
| "loop_free _ = True"
| "loops_free [] = True"
| "loops_free (t # ts) = (loop_free t \<and> loops_free ts)"

fun scost :: "stmt \<Rightarrow> nat" and scosts :: "stmt list \<Rightarrow> nat" where
  "scost (LetStmt x v) = ecost v + 103"
| "scost (IndexStore x k v) = ecost k + ecost v + 123"
| "scost (StoreStmt k v) = ecost k + ecost v + 100"
| "scost (RequireStmt e) = ecost e + 5"
| "scost RevertStmt = 1"
| "scost (IfStmt e th el) = ecost e + 5 + scosts th + 4 + scosts el"
| "scost (WhileStmt e bd) = ecost e + 5 + scosts bd + 4"
| "scost (EmitStmt as) = sum_list (map ecost as) + 53 + 8 * length as"
| "scost (ReturnStmt v) = ecost v + 1"
| "scost StopStmt = 1"
| "scost (StateDecl x) = 0"
| "scost (FnDecl x ps b) = 0"
| "scosts [] = 0"
| "scosts (t # ts) = scost t + scosts ts"

definition fcost :: "fn \<Rightarrow> nat" where
  "fcost fd = (case fd of (_, ps, b) \<Rightarrow> 1 + 107 * length ps + scosts b + 1)"

definition pcost :: "stmt list \<Rightarrow> nat" where
  "pcost prog =
     (case split_prog prog gen0 of (_, fns, flt) \<Rightarrow>
        scosts flt + (if fns = [] then 0 else 4 + 9 * length fns + 2 + sum_list (map fcost fns)) + 1)"

section \<open>Contracts without loops stay within the price\<close>

definition within :: "(outcome \<times> nat) option \<Rightarrow> nat \<Rightarrow> bool" where
  "within r g \<longleftrightarrow> (\<exists>out c. r = Some (out, c) \<and> c \<le> g \<and> out \<noteq> Fails ErrOutOfGas)"

lemma within_Some [simp]: "within (Some (out, c)) g \<longleftrightarrow> c \<le> g \<and> out \<noteq> Fails ErrOutOfGas"
  by (simp add: within_def)

lemma within_mono: "within r g \<Longrightarrow> g \<le> h \<Longrightarrow> within r h"
  by (auto simp: within_def)

lemma within_add [simp]: "within (map_option (map_prod id ((+) c)) r) (c + g) \<longleftrightarrow> within r g"
  by (auto simp: within_def)

lemma within_first:
  assumes "r \<noteq> Err ErrOutOfGas" "\<And>v. r = Ok v \<Longrightarrow> within (k v) h" "c + h \<le> g"
  shows "within (first r c k) g"
proof (cases r)
  case (Ok v)
  with within_mono [OF _ assms(3)] assms(2) show ?thesis by (simp add: first_def)
qed (use assms(1,3) in \<open>auto simp: first_def\<close>)

lemma within_andthen:
  assumes "within r c" "\<And>m L. within (k m L) h" "c + h \<le> g"
  shows "within (andthen r k) g"
proof -
  from assms(1) obtain out d where r: "r = Some (out, d)" "d \<le> c" "out \<noteq> Fails ErrOutOfGas" by (auto simp: within_def)
  show ?thesis
  proof (cases out)
    case (Falls m L)
    have "within (map_option (map_prod id ((+) d)) (k m L)) (d + h)" using assms(2) by simp
    then show ?thesis using r assms(3) within_mono [of _ "d + h" g] by (simp add: andthen_def Falls)
  qed (use r assms(3) in \<open>auto simp: andthen_def\<close>)
qed

lemma vm_word_gas: "vm_word i x \<noteq> Err e"
  by (simp add: vm_word_def Let_def)

lemma eval_gas: "eval W V m e \<noteq> Err ErrOutOfGas"
  by (induction e) (auto simp: rbind_eq_Err_iff sem_op_def vm_word_gas split: option.splits)

lemma evals_gas: "evals W V m es \<noteq> Err ErrOutOfGas"
  by (induction es) (auto simp: rbind_eq_Err_iff eval_gas)

lemma bind_args_gas: "bind_args W i VN ps m \<noteq> Err e"
  by (induction ps arbitrary: i VN m) (auto simp: rbind_eq_Err_iff vm_word_gas)

lemma exec_within:
  "loop_free t \<Longrightarrow> within (exec f W VN t m L) (scost t)"
  "loops_free ts \<Longrightarrow> within (execs f W VN ts m L) (scosts ts)"
proof (induction t and ts arbitrary: VN m L and VN m L rule: scost_scosts.induct)
  case (1 x v)
  show ?case by (simp del: scope_after.simps) (rule within_first [OF eval_gas, where h = 100], simp_all)
next
  case (2 x k v)
  show ?case
    by simp (rule within_first [OF eval_gas, where h = "120 + ecost v"], rule within_first [OF eval_gas, where h = 100], simp_all)
next
  case (3 k v)
  show ?case
    by simp (rule within_first [OF eval_gas, where h = "100 + ecost v"], rule within_first [OF eval_gas, where h = 100], simp_all)
next
  case (4 e)
  show ?case by simp (rule within_first [OF eval_gas, where h = 5], simp_all)
next
  case (6 e th el)
  show ?case
    unfolding exec.simps
  proof (rule within_first [OF eval_gas, where h = "scosts th + 4 + scosts el"])
    fix b :: u64
    have "within (andthen (execs f W VN th m L) (\<lambda>m L. Some (Falls m L, 4))) (scosts th + 4)"
      using 6 by (intro within_andthen [of _ "scosts th" _ 4]) simp_all
    moreover have "within (execs f W (scopes_after (wstate W) VN th) el m L) (scosts el)" using 6 by simp
    ultimately show "within (if b \<noteq> 0 then andthen (execs f W VN th m L) (\<lambda>m L. Some (Falls m L, 4))
        else execs f W (scopes_after (wstate W) VN th) el m L) (scosts th + 4 + scosts el)"
      by (auto elim: within_mono)
  qed simp
next
  case (8 as)
  show ?case by simp (rule within_first [OF evals_gas, where h = "53 + 8 * length as"], simp_all)
next
  case (9 v)
  show ?case by simp (rule within_first [OF eval_gas, where h = 1], simp_all)
next
  case (14 t ts)
  then show ?case unfolding execs.simps scosts.simps by (intro within_andthen [OF _ _ order_refl]) simp_all
qed auto

lemma route_within:
  "\<forall>fd\<in>set fds. loops_free (snd (snd fd)) \<Longrightarrow> within (route f W v fds m L) (9 * length fds + 2 + sum_list (map fcost fds))"
proof (induction fds)
  case (Cons fd fds)
  obtain nm ps b where fd: "fd = (nm, ps, b)" by (metis prod_cases3)
  let ?r = "9 * length fds + 2 + sum_list (map fcost fds)"
  have "within (call_fn f W fd m L) (fcost fd)"
    unfolding call_fn_def fcost_def fd prod.case
    by (rule within_first [OF bind_args_gas, where h = "scosts b + 1"], rule within_andthen [where h = 1])
      (use Cons.prems fd in \<open>auto intro: exec_within\<close>)
  with Cons have "within (if v = Selector (wH W) (fst fd) then call_fn f W fd m L else route f W v fds m L) (fcost fd + ?r)"
    by (auto elim: within_mono)
  then have "within (route f W v (fd # fds) m L) (9 + (fcost fd + ?r))" by (simp only: route.simps within_add)
  then show ?case by (simp add: ac_simps)
qed simp

lemma split_loops:
  "split_prog prog g = (g', fns, flt) \<Longrightarrow> loops_free prog \<Longrightarrow> loops_free flt \<and> (\<forall>fd\<in>set fns. loops_free (snd (snd fd)))"
  by (induction prog g arbitrary: g' fns flt rule: split_prog.induct) (auto split: prod.splits)

lemma meaning_within: assumes "loops_free prog" shows "within (meaning f H prog input ctx m) (pcost prog)"
proof -
  obtain g fns flt where sp: "split_prog prog gen0 = (g, fns, flt)" by (metis prod_cases3)
  let ?h = "(if fns = [] then 0 else 4 + 9 * length fns + 2 + sum_list (map fcost fns)) + 1"
  note l = split_loops [OF sp assms]
  have h: "within (if fns = [] then Some (Halts m L 0, 1) else first (vm_word input 0) 4 (\<lambda>sel. route f W sel fns m L)) ?h" for W m L
    using route_within [of fns] l by (auto intro!: within_first [OF vm_word_gas, where h = "9 * length fns + 2 + sum_list (map fcost fns)"])
  show ?thesis
    unfolding meaning_def pcost_def sp prod.case Let_def
    by (rule within_andthen [OF exec_within(2) h]) (use l in simp_all)
qed


section \<open>The estimate is the price\<close>

text \<open>A piece of code that starts at an instruction adds its price to the total of the estimate.\<close>

definition priced :: "bytes \<Rightarrow> nat \<Rightarrow> bool" where
  "priced c g \<longleftrightarrow>
     (\<forall>code p post tot lc. drop p code = c @ post \<longrightarrow>
        (\<exists>lc'. est_loop code p tot lc = est_loop code (p + length c) (tot + of_nat g) lc'))"

lemma priced_Nil: "priced [] 0"
  by (auto simp: priced_def)

lemma priced_append: assumes "priced a g" "priced b h" shows "priced (a @ b) (g + h)"
  unfolding priced_def
proof (intro allI impI)
  fix code p post tot lc
  assume d: "drop p code = (a @ b) @ post"
  then have d': "drop (p + length a) code = b @ post" by (metis add.commute append.assoc append_eq_conv_conj drop_drop)
  from d assms(1) obtain l1 where "est_loop code p tot lc = est_loop code (p + length a) (tot + of_nat g) l1"
    unfolding priced_def append.assoc by blast
  moreover from d' assms(2) obtain l2 where
    "est_loop code (p + length a) (tot + of_nat g) l1 = est_loop code (p + length a + length b) (tot + of_nat g + of_nat h) l2"
    unfolding priced_def by blast
  ultimately show "\<exists>l. est_loop code p tot lc = est_loop code (p + length (a @ b)) (tot + of_nat (g + h)) l"
    by (auto simp: add.assoc)
qed

lemma opcode_byte_inject: "opcode_byte a = opcode_byte b \<longleftrightarrow> a = b"
  by (metis opcode_of_byte option.inject)

lemma drop_nth: "drop p code = x # post \<Longrightarrow> p < length code \<and> code ! p = x"
  by (metis drop_eq_Nil list.distinct(1) not_le nth_via_drop)

lemma est_push:
  assumes "drop p code = pushc v @ post"
  shows "est_loop code p tot lc = est_loop code (p + 9) (tot + 3) (Some v)"
proof -
  have p: "p < length code" "code ! p = opcode_byte PUSH" using drop_nth [of p code] assms by auto
  have "drop (Suc p) code = put_u64 v @ post" using assms by (metis append_Cons drop_Suc list.sel(3) tl_drop)
  then have t: "take 8 (drop (Suc p) code) = put_u64 v" "p + 9 \<le> length code"
    using arg_cong [OF assms, of length] by simp_all
  show ?thesis using p t by (subst est_loop.simps) simp
qed

lemma priced_push: "priced (pushc v) 3"
  using est_push by (fastforce simp: priced_def)

lemma priced_log: "priced (pushc n @ opc LOG) (53 + 8 * unat n)"
  unfolding priced_def
proof (intro allI impI)
  fix code p post tot lc
  assume d: "drop p code = (pushc n @ opc LOG) @ post"
  then have "drop 9 (drop p code) = opcode_byte LOG # post" by simp
  then have l: "p + 9 < length code" "code ! (p + 9) = opcode_byte LOG" using drop_nth [of "p + 9" code] by (simp_all add: add.commute)
  have "est_loop code p tot lc = est_loop code (p + 9) (tot + 3) (Some n)"
    by (rule est_push [where post = "opc LOG @ post"]) (use d in simp)
  also have "\<dots> = est_loop code (p + 10) (tot + 3 + 50 + 8 * n) None"
    using l by (subst est_loop.simps) (simp add: Let_def opcode_byte_inject ac_simps)
  finally show "\<exists>l. est_loop code p tot lc = est_loop code (p + length (pushc n @ opc LOG)) (tot + of_nat (53 + 8 * unat n)) l"
    by (auto simp: ac_simps)
qed

lemma priced_op:
  assumes "op \<notin> {PUSH, LOG}" "g = (if op = SSTORE then 100 else if op \<in> {SLOAD, MIX} then 20 else 1)"
  shows "priced (opc op) g"
  unfolding priced_def
proof (intro allI impI)
  fix code p post tot lc
  assume "drop p code = opc op @ post"
  then have l: "p < length code" "code ! p = opcode_byte op" using drop_nth [of p code] by simp_all
  show "\<exists>l. est_loop code p tot lc = est_loop code (p + length (opc op)) (tot + of_nat g) l"
    using l assms by (subst est_loop.simps) (auto simp: Let_def opcode_byte_inject)
qed


text \<open>The rules follow the code from left to right.\<close>

lemma priced_pushc: "priced b h \<Longrightarrow> priced (opcode_byte PUSH # put_u64 v @ b) (3 + h)"
  using priced_append [OF priced_push [of v], of b h] by simp

lemma priced_opc:
  "priced b h \<Longrightarrow> op \<notin> {PUSH, LOG, SSTORE, SLOAD, MIX} \<Longrightarrow> priced (opcode_byte op # b) (1 + h)"
  "priced b h \<Longrightarrow> priced (opcode_byte SSTORE # b) (100 + h)"
  "priced b h \<Longrightarrow> priced (opcode_byte SLOAD # b) (20 + h)"
  "priced b h \<Longrightarrow> priced (opcode_byte MIX # b) (20 + h)"
  using priced_append [OF priced_op [of op 1], of b h] priced_append [OF priced_op [of SSTORE 100], of b h]
    priced_append [OF priced_op [of SLOAD 20], of b h] priced_append [OF priced_op [of MIX 20], of b h] by simp_all

lemma priced_eq: "priced c g' \<Longrightarrow> g' = g \<Longrightarrow> priced c g"
  by simp

lemmas priced_rules = priced_log [simplified] priced_pushc priced_opc(2-4) priced_opc(1) priced_append priced_Nil

lemma priced_expr: "cexpr V S e = Ok c \<Longrightarrow> priced c (ecost e)"
proof (induction V S e arbitrary: c rule: cexpr.induct)
  case (5 V S n a)
  have arg: "priced (x @ opc CDLOAD) (ecost e + 1)" if "priced x (ecost e)" for x e
    by (rule priced_append [OF that priced_op]) simp_all
  show ?case using 5 arg by (auto split: if_splits option.splits simp: rbind_eq_Ok_iff intro: priced_op)
next
  case (7 V S o1 l r)
  then obtain a b d where c: "c = a @ b @ d" "priced a (ecost l)" "priced b (ecost r)" "cop o1 = Ok d" by (auto simp: rbind_eq_Ok_iff)
  from c(4) have "priced d (opcost o1)"
  proof (cases rule: op_cases [where a = 0 and b = 0])
    case (chk op)
    then show ?thesis using priced_op [of op 1] by auto
  next
    case (bin op)
    then show ?thesis using priced_op [of op 1] by auto
  next
    case (neg op q)
    then show ?thesis using priced_append [OF priced_op [of op 1] priced_op [of ISZERO 1]] by (auto simp: numeral_2_eq_2)
  qed
  with c show ?case unfolding ecost_Binary c(1) by (metis priced_append add.assoc append.assoc)
next
  case (3 V S x k)
  then obtain a d where "c = pushc a @ d @ opc MIX @ opc SLOAD" "priced d (ecost k)" by (auto simp: rbind_eq_Ok_iff split: option.splits)
  then show ?case by simp (rule priced_eq, (rule priced_rules | assumption)+, simp)
next
  case (4 V S k)
  then obtain d where "c = d @ opc SLOAD" "priced d (ecost k)" by (auto simp: rbind_eq_Ok_iff)
  then show ?case by simp (rule priced_eq, (rule priced_rules | assumption)+, simp)
next
  case (6 V S o1 x)
  then obtain d where "c = d @ opc ISZERO" "priced d (ecost x)" by (auto simp: rbind_eq_Ok_iff)
  then show ?case by simp (rule priced_eq, (rule priced_rules | assumption | simp)+)
qed (auto simp: rbind_eq_Ok_iff intro!: priced_push priced_eq [OF priced_pushc [OF priced_opc(3) [OF priced_Nil]]])


lemma priced_exprs: "cexprs V S es = Ok c \<Longrightarrow> priced c (sum_list (map ecost es))"
  by (induction es arbitrary: c) (auto simp: rbind_eq_Ok_iff priced_Nil priced_append priced_expr)

lemma priced_stmt:
  "cstmt S p V n t = Ok (c, VN') \<Longrightarrow> length c < 2 ^ 63 \<Longrightarrow> priced c (scost t)"
  "cstmts S p V n ts = Ok (c, VN') \<Longrightarrow> length c < 2 ^ 63 \<Longrightarrow> priced c (scosts ts)"
proof (induction S p V n t and S p V n ts arbitrary: c VN' and c VN' rule: cstmt_cstmts.induct)
  case (1 S p V n x v)
  then obtain V' a d where "cexpr V' S v = Ok d" "c = pushc a @ d @ opc SSTORE" by (auto simp: rbind_eq_Ok_iff split: option.splits prod.splits)
  then show ?case by simp (rule priced_eq, (rule priced_rules priced_expr | assumption)+, simp)
next
  case (2 S p V n x k v)
  then obtain a d e where "cexpr V S k = Ok d" "cexpr V S v = Ok e" "c = pushc a @ d @ opc MIX @ e @ opc SSTORE" by (auto simp: rbind_eq_Ok_iff split: option.splits)
  then show ?case by simp (rule priced_eq, (rule priced_rules priced_expr | assumption)+, simp)
next
  case (3 S p V n k v)
  then obtain d e where "cexpr V S k = Ok d" "cexpr V S v = Ok e" "c = d @ e @ opc SSTORE" by (auto simp: rbind_eq_Ok_iff)
  then show ?case by simp (rule priced_eq, (rule priced_rules priced_expr | assumption)+, simp)
next
  case (4 S p V n e)
  then obtain d a where "cexpr V S e = Ok d" "c = d @ pushc a @ opc JUMPI @ opc REVERT" by (auto simp: rbind_eq_Ok_iff)
  then show ?case by simp (rule priced_eq, (rule priced_rules priced_expr | assumption | simp)+)
next
  case (6 S p V n e th el)
  from 6(3) obtain d x y a V1 n1 b where d: "cexpr V S e = Ok d" "cstmts S (p + length d + 11) V n th = Ok (a, V1, n1)"
    "cstmts S (p + length d + length a + 21) V1 n1 el = Ok (b, VN')" "c = d @ opc ISZERO @ pushc x @ opc JUMPI @ a @ pushc y @ opc JUMP @ b"
    by (auto simp: rbind_eq_Ok_iff)
  have "priced a (scosts th)" "priced b (scosts el)" using 6(1) [OF d(1,2)] 6(2) [OF d(1,2) refl refl d(3)] 6(4) by (simp_all add: d(4))
  with d(4) priced_expr [OF d(1)] show ?case by simp (rule priced_eq, (rule priced_rules | assumption | simp)+)
next
  case (7 S p V n e bd)
  from 7(2) obtain d x y a where d: "cexpr V S e = Ok d" "cstmts S (p + length d + 11) V n bd = Ok (a, VN')"
    "c = d @ opc ISZERO @ pushc x @ opc JUMPI @ a @ pushc y @ opc JUMP" by (auto simp: rbind_eq_Ok_iff)
  have "priced a (scosts bd)" using 7(1) [OF d(1,2)] 7(3) by (simp add: d(3))
  with d(3) priced_expr [OF d(1)] show ?case by simp (rule priced_eq, (rule priced_rules | assumption | simp)+)
next
  case (8 S p V n as)
  then obtain d where d: "cexprs V S as = Ok d" "c = d @ pushc (of_nat (length as)) @ opc LOG" by (auto simp: rbind_eq_Ok_iff)
  have "unat (of_nat (length as) :: u64) = length as"
    using cexprs_length [OF d(1)] 8(2) by (simp add: d(2) unat_of_nat_small)
  with priced_append [OF priced_exprs [OF d(1)] priced_log [of "of_nat (length as)"]] show ?case by (simp add: d(2) add.assoc)
next
  case (9 S p V n v)
  then obtain d where "cexpr V S v = Ok d" "c = d @ opc RETURN" by (auto simp: rbind_eq_Ok_iff)
  then show ?case by simp (rule priced_eq, (rule priced_rules priced_expr | assumption | simp)+)
next
  case (14 S p V n t ts)
  from 14(3) obtain a V1 n1 b where d: "cstmt S p V n t = Ok (a, V1, n1)" "cstmts S (p + length a) V1 n1 ts = Ok (b, VN')" "c = a @ b"
    by (auto simp: rbind_eq_Ok_iff)
  have "priced a (scost t)" "priced b (scosts ts)" using 14(1) [OF d(1)] 14(2) [OF d(1) refl refl d(2)] 14(4) by (simp_all add: d(3))
  then show ?case by (simp add: d(3) priced_append)
qed (auto simp: priced_Nil intro: priced_op)


lemma priced_params: "cparams i V n ps = (c, VN') \<Longrightarrow> priced c (107 * length ps)"
proof (induction ps arbitrary: i V n c)
  case (Cons x xs)
  obtain a V1 n1 where a: "cslot x V n = (a, V1, n1)" by (metis prod_cases3)
  then obtain b y where b: "cparams (Suc i) V1 n1 xs = (b, VN')" "c = pushc a @ pushc y @ opc CDLOAD @ opc SSTORE @ b"
    using Cons.prems by (auto split: prod.splits)
  from Cons.IH [OF b(1)] b(2) show ?case by simp (rule priced_eq, (rule priced_rules | assumption | simp)+)
qed (simp add: priced_Nil)

lemma priced_fn: assumes "cfn S p fd = Ok (c, VN')" "length c < 2 ^ 63" shows "priced c (fcost fd)"
proof -
  obtain nm ps b where fd: "fd = (nm, ps, b)" by (metis prod_cases3)
  obtain a V1 n1 where a: "cparams 0 [] localBase ps = (a, V1, n1)" by (metis prod_cases3)
  from assms(1) obtain e where e: "cstmts S (p + length a + 1) V1 n1 b = Ok (e, VN')" "c = opc POP @ a @ e @ opc STOP"
    by (auto simp: cfn_def fd a rbind_eq_Ok_iff)
  have "priced a (107 * length ps)" "priced e (scosts b)" using priced_params [OF a] priced_stmt(2) [OF e(1)] assms(2) by (simp_all add: e(2))
  then show ?thesis unfolding e(2) by simp (rule priced_eq, (rule priced_rules | assumption | simp add: fcost_def fd)+)
qed

lemma priced_fns: "cfns S p fds = Ok (as, c) \<Longrightarrow> length c < 2 ^ 63 \<Longrightarrow> priced c (sum_list (map fcost fds))"
proof (induction fds arbitrary: p as c)
  case (Cons fd fds)
  then obtain a VN' as' b where "cfn S p fd = Ok (a, VN')" "cfns S (p + length a) fds = Ok (as', b)" "c = a @ b"
    by (auto simp: rbind_eq_Ok_iff)
  with Cons priced_fn [of S p fd a VN'] show ?case by (auto intro: priced_append)
qed (simp add: priced_Nil)

lemma priced_router: "length as = length fds \<Longrightarrow> priced (crouter H fds as) (9 * length fds)"
proof (induction as fds rule: list_induct2)
  case (Cons a as fd fds)
  have "crouter H (fd # fds) (a # as) = opc DUP @ pushc (Selector H (fst fd)) @ opc EQ @ pushc (of_nat a) @ opc JUMPI @ crouter H fds as"
    by (simp add: crouter_def)
  with Cons show ?case by simp (rule priced_eq, (rule priced_rules | assumption | simp)+)
qed (simp add: crouter_def priced_Nil)

lemma priced_prog:
  assumes "direct H prog = Ok code" "length code < 2 ^ 63"
  shows "priced code (pcost prog)"
proof -
  obtain g fns flt where sp: "split_prog prog gen0 = (g, fns, flt)" by (metis prod_cases3)
  from assms(1) obtain a VN b where cd: "cstmts (gstate g) 0 [] localBase flt = Ok (a, VN)"
    "(if fns = [] then Ok [] else cdispatch H (gstate g) (length a) fns) = Ok b" "code = a @ b @ opc STOP"
    by (auto simp: direct_def sp rbind_eq_Ok_iff)
  have a: "priced a (scosts flt)" using priced_stmt(2) [OF cd(1)] assms(2) by (simp add: cd(3))
  have b: "priced b (if fns = [] then 0 else 4 + 9 * length fns + 2 + sum_list (map fcost fns))"
  proof (cases "fns = []")
    case False
    with cd(2) obtain as e where e: "cfns (gstate g) (length a + 21 * length fns + 12) fns = Ok (as, e)"
      "b = pushc 0 @ opc CDLOAD @ crouter H fns as @ opc POP @ opc REVERT @ e"
      by (auto simp: cdispatch_def rbind_eq_Ok_iff)
    have "priced e (sum_list (map fcost fns))" using priced_fns [OF e(1)] assms(2) by (simp add: cd(3) e(2))
    with priced_router [OF cfns_length [OF e(1)], of H] False show ?thesis
      unfolding e(2) by simp (rule priced_eq, (rule priced_rules | assumption | simp)+)
  qed (use cd(2) priced_Nil in simp)
  from priced_append [OF a priced_append [OF b priced_op [of STOP 1]]] show ?thesis
    by (simp add: cd(3) pcost_def sp add.assoc)
qed

lemma Estimate_price:
  assumes "direct H prog = Ok code" "length code < 2 ^ 63"
  shows "Estimate code = of_nat (pcost prog)"
proof -
  from priced_prog [OF assms] obtain l where "est_loop code 0 0 None = est_loop code (0 + length code) (0 + of_nat (pcost prog)) l"
    unfolding priced_def by (metis append.right_neutral drop0)
  then show ?thesis by (simp add: Estimate_def est_loop.simps [of code "length code"])
qed


text \<open>The price of a compiled program is at most a hundred times its size.\<close>

lemma ecost_size: "cexpr V S e = Ok c \<Longrightarrow> ecost e \<le> 20 * length c"
proof (induction V S e arbitrary: c rule: cexpr.induct)
  case (7 V S o1 l r)
  then obtain a b d where c: "c = a @ b @ d" "ecost l \<le> 20 * length a" "ecost r \<le> 20 * length b" "cop o1 = Ok d" by (auto simp: rbind_eq_Ok_iff)
  have "1 \<le> length d" using c(4) by (cases rule: op_cases [where a = 0 and b = 0]) simp_all
  with c(1-3) show ?case by simp
qed (fastforce simp: rbind_eq_Ok_iff split: if_splits option.splits)+

lemma ecosts_size: "cexprs V S es = Ok c \<Longrightarrow> sum_list (map ecost es) + 8 * length es \<le> 28 * length c"
proof (induction es arbitrary: c)
  case (Cons e es)
  then obtain a b where c: "cexpr V S e = Ok a" "cexprs V S es = Ok b" "c = a @ b" by (auto simp: rbind_eq_Ok_iff)
  then show ?case using Cons.IH [OF c(2)] ecost_size [OF c(1)] cexpr_nonempty [OF c(1)] by (cases a) simp_all
qed simp

lemma scost_size:
  "cstmt S p V n t = Ok (c, VN') \<Longrightarrow> scost t \<le> 100 * length c"
  "cstmts S p V n ts = Ok (c, VN') \<Longrightarrow> scosts ts \<le> 100 * length c"
proof (induction S p V n t and S p V n ts arbitrary: c VN' and c VN' rule: cstmt_cstmts.induct)
  case (1 S p V n x v)
  then obtain V' a d where d: "cexpr V' S v = Ok d" "c = pushc a @ d @ opc SSTORE" by (auto simp: rbind_eq_Ok_iff split: option.splits prod.splits)
  show ?case using ecost_size [OF d(1)] by (simp add: d(2))
next
  case (2 S p V n x k v)
  then obtain a d e where d: "cexpr V S k = Ok d" "cexpr V S v = Ok e" "c = pushc a @ d @ opc MIX @ e @ opc SSTORE" by (auto simp: rbind_eq_Ok_iff split: option.splits)
  show ?case using ecost_size [OF d(1)] ecost_size [OF d(2)] by (simp add: d(3))
next
  case (6 S p V n e th el)
  from 6(3) obtain d a V1 n1 b where d: "cexpr V S e = Ok d" "cstmts S (p + length d + 11) V n th = Ok (a, V1, n1)"
    "cstmts S (p + length d + length a + 21) V1 n1 el = Ok (b, VN')" "length c = length d + length a + length b + 21"
    by (auto simp: rbind_eq_Ok_iff)
  show ?case using ecost_size [OF d(1)] 6(1) [OF d(1,2)] 6(2) [OF d(1,2) refl refl d(3)] d(4) by simp
next
  case (7 S p V n e bd)
  from 7(2) obtain d a where d: "cexpr V S e = Ok d" "cstmts S (p + length d + 11) V n bd = Ok (a, VN')"
    "length c = length d + length a + 21" by (auto simp: rbind_eq_Ok_iff)
  show ?case using ecost_size [OF d(1)] 7(1) [OF d(1,2)] d(3) by simp
next
  case (14 S p V n t ts)
  from 14(3) obtain a V1 n1 b where d: "cstmt S p V n t = Ok (a, V1, n1)" "cstmts S (p + length a) V1 n1 ts = Ok (b, VN')" "c = a @ b"
    by (auto simp: rbind_eq_Ok_iff)
  show ?case using 14(1) [OF d(1)] 14(2) [OF d(1) refl refl d(2)] by (simp add: d(3))
qed (auto simp: rbind_eq_Ok_iff dest!: ecost_size ecosts_size)


lemma params_size: "cparams i V n ps = (c, VN') \<Longrightarrow> length c = 20 * length ps"
  by (induction ps arbitrary: i V n c) (auto split: prod.splits)

lemma fcost_size: assumes "cfn S p fd = Ok (c, VN')" shows "fcost fd \<le> 100 * length c"
proof -
  obtain nm ps b where fd: "fd = (nm, ps, b)" by (metis prod_cases3)
  obtain a V1 n1 where a: "cparams 0 [] localBase ps = (a, V1, n1)" by (metis prod_cases3)
  from assms(1) obtain e where e: "cstmts S (p + length a + 1) V1 n1 b = Ok (e, VN')" "c = opc POP @ a @ e @ opc STOP"
    by (auto simp: cfn_def fd a rbind_eq_Ok_iff)
  show ?thesis using scost_size(2) [OF e(1)] params_size [OF a] by (simp add: e(2) fd fcost_def)
qed

lemma fcosts_size: "cfns S p fds = Ok (as, c) \<Longrightarrow> sum_list (map fcost fds) \<le> 100 * length c"
proof (induction fds arbitrary: p as c)
  case (Cons fd fds)
  then obtain a VN' as' b where c: "cfn S p fd = Ok (a, VN')" "cfns S (p + length a) fds = Ok (as', b)" "c = a @ b"
    by (auto simp: rbind_eq_Ok_iff)
  show ?case using Cons.IH [OF c(2)] fcost_size [OF c(1)] by (simp add: c(3))
qed simp

lemma pcost_size: assumes "direct H prog = Ok code" shows "pcost prog \<le> 100 * length code"
proof -
  obtain g fns flt where sp: "split_prog prog gen0 = (g, fns, flt)" by (metis prod_cases3)
  from assms obtain a VN b where cd: "cstmts (gstate g) 0 [] localBase flt = Ok (a, VN)"
    "(if fns = [] then Ok [] else cdispatch H (gstate g) (length a) fns) = Ok b" "code = a @ b @ opc STOP"
    by (auto simp: direct_def sp rbind_eq_Ok_iff)
  have "(if fns = [] then 0 else 4 + 9 * length fns + 2 + sum_list (map fcost fns)) \<le> 100 * length b"
  proof (cases "fns = []")
    case False
    with cd(2) obtain as e where e: "cfns (gstate g) (length a + 21 * length fns + 12) fns = Ok (as, e)"
      "b = pushc 0 @ opc CDLOAD @ crouter H fns as @ opc POP @ opc REVERT @ e"
      by (auto simp: cdispatch_def rbind_eq_Ok_iff)
    show ?thesis using fcosts_size [OF e(1)] crouter_length [OF cfns_length [OF e(1)], of H] by (simp add: e(2))
  qed simp
  with scost_size(2) [OF cd(1)] show ?thesis by (simp add: pcost_def sp cd(3))
qed

text \<open>
  C21. The estimate of a contract without loops is enough: for code of less than \<open>2^57\<close> bytes, a call of the contract on any
  input, context and storage uses at most the estimated gas, and given that much gas (and an estimate within
  \<open>maxSteps\<close>) the machine runs the code to the contract's meaning; it does not run out of gas.
\<close>

theorem Estimate_sufficient:
  assumes "Parse src = Some (Ok prog)" "loops_free prog" "sdepths prog \<le> maxStack"
    and "CompileAndEstimate H src = Some (Ok (code, est))" "length code < 2 ^ 57" "est \<le> gas" "est \<le> 1000000"
  shows "\<exists>out c. meaning 0 H prog input ctx storage = Some (out, c) \<and> c \<le> unat est \<and> out \<noteq> Fails ErrOutOfGas \<and>
    ExecuteB H host code input storage bstore gas ctx h = (h, answer bstore c out)"
proof -
  from assms(4) have c: "Compile H src = Some (Ok code)" "est = Estimate code"
    by (auto simp: CompileAndEstimate_def rbind_eq_Ok_iff split: option.splits)
  have d: "direct H prog = Ok code" using assms(1) c(1) compile_direct [of H prog] by (simp add: Compile_def)
  have l: "length code < 2 ^ 63" using assms(5) by simp
  have e: "unat est = pcost prog"
    using pcost_size [OF d] assms(5) Estimate_price [OF d l] c(2) by (simp add: unat_of_nat_small)
  from meaning_within [OF assms(2)] obtain out k where k: "meaning 0 H prog input ctx storage = Some (out, k)" "k \<le> unat est" "out \<noteq> Fails ErrOutOfGas"
    unfolding within_def e by blast
  have g: "k \<le> unat gas" using k(2) assms(6) unfolding word_le_nat_alt by (rule order_trans)
  have "unat est \<le> 1000000" using assms(7) unfolding word_le_nat_alt by simp
  with k(2) have m: "k \<le> 1000000" by (rule order_trans)
  have "ExecuteB H host code input storage bstore gas ctx h = (h, answer bstore k out)"
    by (rule Compile_runs [OF assms(1) c(1) l assms(3) k(1) g m])
  with k show ?thesis by blast
qed

definition demo_est :: u64 where "demo_est = 415"

lemma demo_estimate: "CompileAndEstimate padH demo_src = Some (Ok (demo_code, demo_est))"
proof -
  have d: "direct padH demo_prog = Ok demo_code"
    using demo_compile(1) demo_parse compile_direct [of padH demo_prog] by (simp add: Compile_def)
  have "Estimate demo_code = of_nat (pcost demo_prog)" by (rule Estimate_price [OF d]) (use demo_compile(2) in simp)
  moreover have "pcost demo_prog = 415" by code_simp
  ultimately show ?thesis using demo_compile(1) by (simp add: CompileAndEstimate_def demo_est_def)
qed

theorem Estimate_sufficient_witness:
  "CompileAndEstimate padH demo_src = Some (Ok (demo_code, demo_est)) \<and>
   (\<exists>out c. meaning 0 padH demo_prog (demo_input 0) ctx0 [] = Some (out, c) \<and> c \<le> unat demo_est \<and> out \<noteq> Fails ErrOutOfGas \<and>
    ExecuteB padH (None :: unit host option) demo_code (demo_input 0) [] None demo_est ctx0 () = ((), answer None c out))"
proof -
  have p: "loops_free demo_prog" "sdepths demo_prog \<le> maxStack" by (code_simp, code_simp)
  have g: "demo_est \<le> demo_est" "demo_est \<le> 1000000" by (simp_all add: demo_est_def)
  have l: "length demo_code < 2 ^ 57" using demo_compile(2) by simp
  show ?thesis
    by (rule conjI [OF demo_estimate]) (rule Estimate_sufficient [OF demo_parse p demo_estimate l g])
qed

end
