(* ===== verification/Spec2Isabelle.thy ===== *)
theory Spec2Isabelle
  imports SL_Ledger SL_Forkchoice SL_Consensus SL_Sharding SL_Bloom SL_Mempool SL_Peers SL_Network SL_Cli SL_ShlTypes SL_ShlGas
begin

text \<open>
  ShadowLedger: a verification of the Go sources under \<^verbatim>\<open>src/internal\<close> and of the client \<^verbatim>\<open>src/cmd/slctl\<close>.

  \<^bold>\<open>The program.\<close>  A node keeps an account ledger with smart contracts (\<^verbatim>\<open>state\<close>, \<^verbatim>\<open>vm\<close>, \<^verbatim>\<open>shl\<close>), a chain of signed headers with finality and
  reorganisation (\<^verbatim>\<open>chain\<close>, \<^verbatim>\<open>forkchoice\<close>, \<^verbatim>\<open>consensus\<close>), and its part of the erasure-coded bodies (\<^verbatim>\<open>erasure\<close>, \<^verbatim>\<open>rendezvous\<close>, \<^verbatim>\<open>netparams\<close>,
  \<^verbatim>\<open>bloom\<close>, \<^verbatim>\<open>store\<close>).  It talks to other nodes through two HTTP channels (\<^verbatim>\<open>p2p\<close>, \<^verbatim>\<open>mempool\<close>, \<^verbatim>\<open>pos\<close>) and runs rounds of discovery, sync,
  production, storage proofs and audits (\<^verbatim>\<open>node\<close>).  Validators register on chain with a bond and a proof of work and are slashed for signing two
  blocks of a height; leaders are elected by hash, weighted by proven storage.

  \<^bold>\<open>Theories and sources.\<close>
  \<^item> \<open>SL_Prelude\<close>, \<open>SL_Order\<close>, \<open>SL_Strconv\<close>, \<open>SL_Sha256\<close>: machine words, results (\<open>Ok\<close>, \<open>Err\<close>, \<open>Panic\<close>), Go maps, sorting, decimal text, SHA-256.
  \<^item> \<open>SL_Crypto\<close>, \<open>SL_Wallet\<close> (\<^verbatim>\<open>crypto\<close>): addresses and signatures; base64, plain and sealed key files.
  \<^item> \<open>SL_Merkle\<close> (\<^verbatim>\<open>merkle\<close>), \<open>SL_Types\<close> (\<^verbatim>\<open>types\<close>): Merkle proofs, the encodings of transactions, headers, bodies and logs.
  \<^item> \<open>SL_Economy\<close> (\<^verbatim>\<open>economy\<close>), \<open>SL_Pow\<close> (\<^verbatim>\<open>regpow\<close>, \<^verbatim>\<open>faucet\<close>): the subsidy schedule, the two puzzles.
  \<^item> \<open>SL_Vm\<close> (\<^verbatim>\<open>vm\<close>): every opcode, gas, storage, events, calls of other contracts through a host.
  \<^item> \<open>SL_State\<close>, \<open>SL_ApplyBlock\<close>, \<open>SL_Ledger\<close> (\<^verbatim>\<open>state\<close>): the ledger, block application with snapshots and rollback, and its laws over blocks.
  \<^item> \<open>SL_Lexer\<close>, \<open>SL_Parser\<close>, \<open>SL_Compile\<close> (\<^verbatim>\<open>shl\<close>) with \<open>SL_Backpatch\<close>, \<open>SL_Shl\<close>, \<open>SL_ShlExec\<close>, \<open>SL_ShlProg\<close>, \<open>SL_ShlTypes\<close>, \<open>SL_ShlGas\<close>: the contract
    language, its meaning, and that compiled code does what the meaning says.
  \<^item> \<open>SL_Forkchoice\<close>, \<open>SL_Consensus\<close>, \<open>SL_Sharding\<close> (\<^verbatim>\<open>netparams\<close>, \<^verbatim>\<open>rendezvous\<close>, \<^verbatim>\<open>erasure\<close>), \<open>SL_Bloom\<close>, \<open>SL_Mempool\<close>, \<open>SL_Peers\<close> (\<^verbatim>\<open>p2p/banlist.go\<close>,
    \<^verbatim>\<open>pos\<close>), \<open>SL_Store\<close>: one component each.
  \<^item> \<open>SL_Chain\<close> (\<^verbatim>\<open>chain\<close>) with \<open>SL_Persist\<close>, \<open>SL_Reorg\<close>, \<open>SL_Network\<close>: production, application, reorganisation, finality, reconstruction, fast sync.
  \<^item> \<open>SL_P2p\<close> (\<^verbatim>\<open>p2p\<close>) with \<open>SL_Fetch\<close>, \<open>SL_Follow\<close>: peer table, client, handlers; fetching from lying holders, audits, following the best peer.
  \<^item> \<open>SL_Node\<close> (\<^verbatim>\<open>chainparams\<close>, \<^verbatim>\<open>node\<close>) with \<open>SL_Gossip\<close>, \<open>SL_Daemon\<close>, \<open>SL_Running\<close>: configuration, wiring, rounds; blocks between nodes, storage
    proofs, late joiners, the running node as a step relation.
  \<^item> \<open>SL_Version\<close> (\<^verbatim>\<open>version\<close>), \<open>SL_Cli\<close> (\<^verbatim>\<open>cmd/slctl\<close>): release tags, and every command of the client.

  \<^bold>\<open>How code is rendered.\<close>  A struct is a record with the source's fields, a method is a function from the old to the new record; an error value is \<open>Err\<close>, a
  run-time panic is \<open>Panic\<close>.  Integers are words of their width, so overflow wraps; a Go \<open>int\<close> is an \<open>int\<close>, except where the width matters.
  A Go map is an association list with distinct keys whose order stands for the open iteration order.  An operation of the chain returns \<open>(Chain \<times> result) option\<close>, with
  \<open>None\<close> for a walk over the block tree that does not end; \<open>chain_ops_return\<close> shows that there is none.  The chain and the server hold their lock for a whole operation,
  so operations are run one after another.  The ledger's resolvers read the files of the node: \<open>rebind\<close> evaluates them when a block is applied.

  \<^bold>\<open>Arguments for code outside the sources.\<close>  The hash function, Ed25519, the Reed-Solomon code and the JSON decoder of slashing evidence are the fields of \<open>ext\<close>; scrypt and
  AES-GCM those of \<open>vault\<close>; what other nodes answer is \<open>net\<close>, what the client reads is \<open>shell\<close>; clock readings, random bytes and iteration orders are plain arguments.
  Theorems name what they need of them: \<open>good\<close> (no collision among the headers in play), \<open>rs_code\<close> (any \<open>K\<close> shards give the payload back),
  \<open>signs\<close> (own signatures verify), \<open>vault_laws\<close> (opening undoes sealing).  Each has a witness with concrete functions.

  \<^bold>\<open>Interfaces.\<close>  \<open>digest\<close> (hash functions of 32 bytes, interpreted by SHA-256), \<open>codec\<close> (readers that undo writers, interpreted by every field of the
  encodings), \<open>sort_order\<close> and \<open>selection\<close> (comparison functions whose sort and whose best element do not depend on the input order, interpreted by
  strings, shard ranks, leader election and fork choice), \<open>call_host\<close> and \<open>host_relation\<close> (what the virtual machine relies on of its host, interpreted by the
  ledger), \<open>producing_engine\<close> (\<^verbatim>\<open>consensus.Engine\<close>, interpreted by both engines).  Each is interpreted on the model in the theory of its provider.

  \<^bold>\<open>What is shown.\<close>
  \<^item> Ledger: supply is conserved and capped, rejected blocks change nothing, no transaction is accepted twice, validator records move only along the registry's
    transitions, slashing is for ever, contract runs are confined, the faucet is rate limited.
  \<^item> Contracts: parsing is total, compiled code gives the storage, events, result and gas of the meaning, the estimate bounds the gas of loop-free contracts, the
    machine stays within its limits.
  \<^item> Chain: walks end, the head follows the heaviest tip, a finalized block is never abandoned by a node in operation, nodes that saw the same blocks select the same tip.
  \<^item> Network: a body comes back from any \<open>K\<close> shards that reliable holders serve, honest blocks are taken by nodes in sync, audits score exactly, sync reaches
    the best peer, storage proofs and the transactions of the client are accepted, keys survive restarts.
  \<^item> Defects: theorems also state what the code gets wrong: a contract that stops every node, a claim that survives a rollback, a block that wedges a node, heads
    from the future that ban honest producers, newcomers that can never sync.

  \<^bold>\<open>Bounds and fuel.\<close>  The machine stops at \<open>maxSteps\<close> steps, as the code does.  The parser's fuel is the number of tokens, enough by \<open>Parse_total\<close>.  The
  meaning of loops takes fuel; \<open>Compile_correct\<close> holds for every fuel with which the meaning is defined.  Heights are assumed not to reach \<open>2^64\<close>, bodies to be shorter than
  \<open>2^32\<close> bytes (the frame of the erasure code).

  \<^bold>\<open>Not modelled.\<close>  HTTP, JSON and YAML as text, timers, goroutines and signals (\<^verbatim>\<open>cmd/slnode\<close>, \<^verbatim>\<open>Run\<close>'s loop), log output; floating point (the sizing of the Bloom
  filter, the pass ratio of the scoreboard, which the node does not use for election); the request for the latest release; the interleaving inside a
  round of the loop with a request: a round runs as a whole.
\<close>

end
